(* ===== verification/Prelude.thy ===== *)
theory Prelude
  imports Main "HOL-Library.Word"
begin

unbundle bit_operations_syntax

text \<open>
  Shared vocabulary of the development: the machine integers of the Rust sources as words,
  the outcome of a fallible Rust computation (a value, an error or a panic) and the sequencing
  that the question-mark operator performs, checked indexing and loops over ranges, integer
  operations of the Rust standard library, little-endian encodings, number formatting and
  parsing, and the word lemmas the components use.
\<close>

section \<open>Machine integers\<close>

type_synonym u8 = "8 word"
type_synonym u16 = "16 word"
type_synonym u32 = "32 word"
type_synonym u64 = "64 word"
type_synonym usize = "64 word"
type_synonym bytes = "u8 list"

text \<open>
  The addresses, sizes and page indices of the sources are \<open>u64\<close> or \<open>usize\<close> on a
  64-bit target; both are \<open>64 word\<close> and their arithmetic wraps, as it does in a release
  build.
\<close>

named_theorems geometry
named_theorems outcome_simps

section \<open>Outcomes\<close>

text \<open>
  A fallible Rust function either returns a value, returns an error of its own error type,
  or panics (an out-of-range index, a failed \<open>assert!\<close> or \<open>unwrap\<close>).
\<close>

datatype 'e abort = Err 'e | Panic

type_synonym ('e, 'a) outcome = "'e abort + 'a"

definition bindE :: "('x + 'a) \<Rightarrow> ('a \<Rightarrow> 'x + 'b) \<Rightarrow> 'x + 'b" where
  "bindE m f = (case m of Inl e \<Rightarrow> Inl e | Inr a \<Rightarrow> f a)"

lemma bindE_Inl [simp]: "bindE (Inl e) f = Inl e"
  by (simp add: bindE_def)

lemma bindE_Inr [simp]: "bindE (Inr a) f = f a"
  by (simp add: bindE_def)

lemma bindE_eq_Inr: "bindE m f = Inr b \<longleftrightarrow> (\<exists>a. m = Inr a \<and> f a = Inr b)"
  by (cases m) auto

lemma bindE_eq_Inl: "bindE m f = Inl e \<longleftrightarrow> m = Inl e \<or> (\<exists>a. m = Inr a \<and> f a = Inl e)"
  by (cases m) auto

text \<open>
  An effectful function takes the state it may change and returns, with the new state, the
  outcome; \<open>None\<close> is a computation that does not return. The state is kept when the
  outcome is an abort. \<open>run_bind\<close> is the \<open>?\<close> operator: it stops at the first abort.
\<close>

type_synonym ('e, 'a, 's) run = "(('e, 'a) outcome \<times> 's) option"

definition run_ret :: "'a \<Rightarrow> 's \<Rightarrow> ('e, 'a, 's) run" where
  [simp]: "run_ret a s = Some (Inr a, s)"

definition run_err :: "'e \<Rightarrow> 's \<Rightarrow> ('e, 'a, 's) run" where
  [simp]: "run_err e s = Some (Inl (Err e), s)"

definition run_panic :: "'s \<Rightarrow> ('e, 'a, 's) run" where
  [simp]: "run_panic s = Some (Inl Panic, s)"

definition run_lift :: "('e, 'a) outcome \<Rightarrow> 's \<Rightarrow> ('e, 'a, 's) run" where
  [simp]: "run_lift r s = Some (r, s)"

definition run_bind ::
  "('e, 'a, 's) run \<Rightarrow> ('a \<Rightarrow> 's \<Rightarrow> ('e, 'b, 's) run) \<Rightarrow> ('e, 'b, 's) run" where
  "run_bind m f =
     (case m of
        None \<Rightarrow> None
      | Some (r, s) \<Rightarrow> (case r of Inl e \<Rightarrow> Some (Inl e, s) | Inr a \<Rightarrow> f a s))"

lemma run_bind_None [simp]: "run_bind None f = None"
  by (simp add: run_bind_def)

lemma run_bind_Inl [simp]: "run_bind (Some (Inl e, s)) f = Some (Inl e, s)"
  by (simp add: run_bind_def)

lemma run_bind_Inr [simp]: "run_bind (Some (Inr a, s)) f = f a s"
  by (simp add: run_bind_def)

lemma run_bind_eq_Inr:
  "run_bind m f = Some (Inr b, t) \<longleftrightarrow>
     (\<exists>a s. m = Some (Inr a, s) \<and> f a s = Some (Inr b, t))"
  by (auto simp: run_bind_def split: option.splits sum.splits)

lemma run_bind_eq_Inl:
  "run_bind m f = Some (Inl e, t) \<longleftrightarrow>
     m = Some (Inl e, t) \<or> (\<exists>a s. m = Some (Inr a, s) \<and> f a s = Some (Inl e, t))"
  by (auto simp: run_bind_def split: option.splits sum.splits)

lemma run_bind_eq_None:
  "run_bind m f = None \<longleftrightarrow> m = None \<or> (\<exists>a s. m = Some (Inr a, s) \<and> f a s = None)"
  by (auto simp: run_bind_def split: option.splits sum.splits)

text \<open>
  A run that returns with an outcome and a state satisfying a postcondition, and the rule for
  sequencing: total correctness, one call at a time.
\<close>

definition ends :: "('e, 'a, 's) run \<Rightarrow> (('e, 'a) outcome \<Rightarrow> 's \<Rightarrow> bool) \<Rightarrow> bool" where
  "ends m Q \<longleftrightarrow> (\<exists>r s. m = Some (r, s) \<and> Q r s)"

lemma ends_Some [simp]: "ends (Some (r, s)) Q \<longleftrightarrow> Q r s"
  by (simp add: ends_def)

lemma endsE:
  assumes "ends m Q"
  obtains r s where "m = Some (r, s)" and "Q r s"
  using assms unfolding ends_def by blast

lemma endsI: "m = Some (r, s) \<Longrightarrow> Q r s \<Longrightarrow> ends m Q"
  by (simp add: ends_def)

lemma ends_mono: "ends m P \<Longrightarrow> (\<And>r s. P r s \<Longrightarrow> Q r s) \<Longrightarrow> ends m Q"
  by (auto simp: ends_def)

lemma ends_conj: "ends m P \<Longrightarrow> ends m Q \<Longrightarrow> ends m (\<lambda>r s. P r s \<and> Q r s)"
  by (auto simp: ends_def)

lemma ends_bind:
  assumes "ends m P" and "\<And>e s. P (Inl e) s \<Longrightarrow> Q (Inl e) s" and "\<And>a s. P (Inr a) s \<Longrightarrow> ends (f a s) Q"
  shows "ends (run_bind m f) Q"
proof (rule endsE [OF assms(1)])
  fix r s
  assume "m = Some (r, s)" and "P r s"
  with assms(2,3) show ?thesis by (cases r) auto
qed

lemmas outcome_bind [outcome_simps] =
  bindE_eq_Inr bindE_eq_Inl run_bind_eq_Inr run_bind_eq_Inl run_bind_eq_None

lemma run_bind_cong [fundef_cong]:
  assumes "m = m'" and "\<And>a s. m' = Some (Inr a, s) \<Longrightarrow> f a s = g a s"
  shows "run_bind m f = run_bind m' g"
  using assms by (auto simp: run_bind_def split: option.splits sum.splits)

text \<open>Loops over a range or a vector, stopping at the first abort.\<close>

primrec foldE :: "('a \<Rightarrow> 's \<Rightarrow> 'x + 's) \<Rightarrow> 'a list \<Rightarrow> 's \<Rightarrow> 'x + 's" where
  "foldE f [] s = Inr s"
| "foldE f (x # xs) s = bindE (f x s) (foldE f xs)"

primrec run_for ::
  "('a \<Rightarrow> 'b \<Rightarrow> 's \<Rightarrow> ('e, 'b, 's) run) \<Rightarrow> 'a list \<Rightarrow> 'b \<Rightarrow> 's \<Rightarrow> ('e, 'b, 's) run" where
  "run_for f [] b s = run_ret b s"
| "run_for f (x # xs) b s = run_bind (f x b s) (run_for f xs)"

definition range_w :: "'a::len word \<Rightarrow> 'a word \<Rightarrow> 'a word list" where
  "range_w lo hi = map word_of_nat [unat lo..<unat hi]"

text \<open>Indexing a slice or a vector: out of range panics.\<close>

definition index :: "'a list \<Rightarrow> usize \<Rightarrow> ('e, 'a) outcome" where
  "index xs i = (if unat i < length xs then Inr (xs ! unat i) else Inl Panic)"

lemma index_Inr: "index xs i = Inr x \<longleftrightarrow> unat i < length xs \<and> x = xs ! unat i"
  by (auto simp: index_def)

lemma nth_update_word:
  "unat (i::usize) < length xs \<Longrightarrow> xs[unat i := v] ! unat j = (if j = i then v else xs ! unat j)"
  by (auto simp: nth_list_update word_unat_eq_iff)

lemma foldE_append: "foldE f (xs @ ys) s = bindE (foldE f xs s) (foldE f ys)"
proof (induction xs arbitrary: s)
  case (Cons x xs)
  then show ?case by (cases "f x s") simp_all
qed simp

lemma length_range_w [simp]: "length (range_w lo hi) = unat hi - unat lo"
  by (simp add: range_w_def)

lemma unat_lt: "unat (w::'a::len word) < 2 ^ LENGTH('a)"
  by (rule unsigned_less)

lemma unat_of_nat_eq: "n < 2 ^ LENGTH('a) \<Longrightarrow> unat (of_nat n :: 'a::len word) = n"
  by (simp add: unat_of_nat)

lemma unat_word_of_nat_less:
  "k < unat (w::'a::len word) \<Longrightarrow> unat (word_of_nat k :: 'a word) = k"
  using less_trans [OF _ unat_lt [of w]] by (simp add: unat_of_nat)

lemma nth_range_w [simp]:
  "k < unat hi - unat lo \<Longrightarrow> range_w lo hi ! k = word_of_nat (unat lo + k)"
  by (simp add: range_w_def)

lemma set_range_w [simp]: "set (range_w lo hi) = {w. lo \<le> w \<and> w < (hi::'a::len word)}"
proof (intro set_eqI iffI)
  fix w assume "w \<in> set (range_w lo hi)"
  then obtain k where "unat lo \<le> k" and "k < unat hi" and "w = word_of_nat k"
    by (auto simp: range_w_def)
  then show "w \<in> {w. lo \<le> w \<and> w < hi}"
    using unat_word_of_nat_less [of k hi] by (simp add: word_le_nat_alt word_less_nat_alt)
next
  fix w assume "w \<in> {w. lo \<le> w \<and> w < hi}"
  then have "unat w \<in> {unat lo..<unat hi}" by (simp add: word_le_nat_alt word_less_nat_alt)
  then have "(word_of_nat (unat w) :: 'a word) \<in> word_of_nat ` {unat lo..<unat hi}"
    by (rule imageI)
  then show "w \<in> set (range_w lo hi)" by (simp add: range_w_def)
qed

lemma distinct_range_w [simp]: "distinct (range_w lo (hi::'a::len word))"
proof -
  have "inj_on (word_of_nat :: nat \<Rightarrow> 'a word) {unat lo..<unat hi}"
    by (rule inj_on_inverseI [where g = unat]) (auto intro: unat_word_of_nat_less)
  then show ?thesis by (simp add: range_w_def distinct_map)
qed

section \<open>Transition systems\<close>

text \<open>
  The contract of an inductive invariant: it holds initially and every step keeps it. Components
  that are step relations provide it and obtain their reachable-state properties from it.
\<close>

locale inductive_invariant =
  fixes init :: "'s \<Rightarrow> bool" and step :: "'s \<Rightarrow> 's \<Rightarrow> bool" and inv :: "'s \<Rightarrow> bool"
  assumes init_inv: "init s \<Longrightarrow> inv s"
    and step_inv: "inv s \<Longrightarrow> step s t \<Longrightarrow> inv t"
begin

lemma steps_inv: "rtranclp step s t \<Longrightarrow> inv s \<Longrightarrow> inv t"
  by (induction rule: rtranclp_induct) (auto intro: step_inv)

lemma reachable_inv: "init s \<Longrightarrow> rtranclp step s t \<Longrightarrow> inv t"
  by (blast intro: steps_inv init_inv)

lemma steps_relation:
  assumes "rtranclp step s t" and "inv s" and "R s s"
    and "\<And>t u. inv t \<Longrightarrow> step t u \<Longrightarrow> R s t \<Longrightarrow> R s u"
  shows "R s t"
  using assms(1)
proof (induction rule: rtranclp_induct)
  case base
  show ?case by (rule assms(3))
next
  case (step t u)
  then show ?case using assms(2,4) steps_inv by blast
qed

end

section \<open>Integer operations of the Rust standard library\<close>

definition div_ceil :: "'a::len word \<Rightarrow> 'a word \<Rightarrow> 'a word" where
  "div_ceil a b = (if a mod b > 0 then a div b + 1 else a div b)"

text \<open>Division by zero panics.\<close>

definition div_w :: "'a::len word \<Rightarrow> 'a word \<Rightarrow> ('e, 'a word) outcome" where
  "div_w a b = (if b = 0 then Inl Panic else Inr (a div b))"

definition div_ceil_w :: "'a::len word \<Rightarrow> 'a word \<Rightarrow> ('e, 'a word) outcome" where
  "div_ceil_w a b = (if b = 0 then Inl Panic else Inr (div_ceil a b))"

definition checked_add :: "'a::len word \<Rightarrow> 'a word \<Rightarrow> 'a word option" where
  "checked_add a b = (if unat a + unat b < 2 ^ LENGTH('a) then Some (a + b) else None)"

definition checked_sub :: "'a::len word \<Rightarrow> 'a word \<Rightarrow> 'a word option" where
  "checked_sub a b = (if b \<le> a then Some (a - b) else None)"

definition checked_mul :: "'a::len word \<Rightarrow> 'a word \<Rightarrow> 'a word option" where
  "checked_mul a b = (if unat a * unat b < 2 ^ LENGTH('a) then Some (a * b) else None)"

definition saturating_sub :: "'a::len word \<Rightarrow> 'a word \<Rightarrow> 'a word" where
  "saturating_sub a b = (if b \<le> a then a - b else 0)"

lemma unat_add_nowrap:
  "unat a + unat b < 2 ^ LENGTH('a) \<Longrightarrow> unat ((a::'a::len word) + b) = unat a + unat b"
  by (simp add: unat_word_ariths)
lemma unat_mult_nowrap:
  "unat a * unat b < 2 ^ LENGTH('a) \<Longrightarrow> unat ((a::'a::len word) * b) = unat a * unat b"
  by (simp add: unat_word_ariths)
lemma unat_sub_le: "b \<le> a \<Longrightarrow> unat ((a::'a::len word) - b) = unat a - unat b"
  by (rule unat_sub)
lemma unat_pow2: "k < LENGTH('a) \<Longrightarrow> unat ((2::'a::len word) ^ k) = 2 ^ k"
  using unat_of_nat [of "2 ^ k", where ?'a = 'a] by simp
lemma and_not_mask_sum: "(a AND mask k) + (a AND NOT (mask k)) = (a::'a::len word)"
proof -
  have "(a AND mask k) + (a AND NOT (mask k)) = (a AND mask k) OR (a AND NOT (mask k))"
    by (rule disjunctive_add_eq_or) (rule bit_word_eqI, simp add: bit_simps)
  also have "\<dots> = a" by (rule bit_word_eqI) (auto simp: bit_simps)
  finally show ?thesis .
qed

lemma unat_align_down:
  fixes a :: "'a::len word"
  shows "unat (a AND NOT (2 ^ k - 1)) = unat a - unat a mod 2 ^ k"
proof -
  have t: "unat (take_bit k a) = unat a mod 2 ^ k"
    by (simp add: unsigned_take_bit_eq flip: take_bit_eq_mod)
  have "a AND NOT (2 ^ k - 1) = a - take_bit k a"
    using and_not_mask_sum [of a k] by (simp add: mask_eq_exp_minus_1 take_bit_eq_mask algebra_simps)
  moreover have "take_bit k a \<le> a"
    by (simp add: word_le_nat_alt t)
  ultimately show ?thesis by (simp add: unat_sub t)
qed
lemma unat_div_word: "unat ((a::'a::len word) div b) = unat a div unat b"
  by (rule unat_div)

lemma unat_mod_word: "unat ((a::'a::len word) mod b) = unat a mod unat b"
  by (rule unat_mod)

lemma checked_add_Some:
  "checked_add a b = Some c \<longleftrightarrow> unat a + unat b < 2 ^ LENGTH('a) \<and> c = (a::'a::len word) + b"
  by (auto simp: checked_add_def)

lemma unat_checked_add:
  fixes a b c :: "'a::len word"
  assumes "checked_add a b = Some c"
  shows "unat c = unat a + unat b"
  using assms by (auto simp: checked_add_Some unat_word_ariths)

lemma checked_sub_Some:
  "checked_sub a b = Some c \<longleftrightarrow> b \<le> a \<and> c = (a::'a::len word) - b"
  by (auto simp: checked_sub_def)

lemma unat_checked_mul:
  fixes a b c :: "'a::len word"
  assumes "checked_mul a b = Some c"
  shows "unat c = unat a * unat b"
  using assms by (auto simp: checked_mul_def unat_word_ariths split: if_splits)

lemma unat_saturating_sub: "unat (saturating_sub a b) = unat (a::'a::len word) - unat b"
  by (simp add: saturating_sub_def word_le_nat_alt unat_sub)

lemma unat_div_ceil:
  fixes a b :: "'a::len word"
  assumes "b \<noteq> 0"
  shows "unat (div_ceil a b) = (unat a + unat b - 1) div unat b"
proof -
  have b: "0 < unat b" using assms by (simp add: word_neq_0_conv word_less_nat_alt)
  let ?q = "unat a div unat b" and ?r = "unat a mod unat b"
  have a: "unat a = ?q * unat b + ?r" by simp
  show ?thesis
  proof (cases "?r = 0")
    case True
    then have "\<not> a mod b > 0" by (simp add: word_less_nat_alt unat_mod_word)
    moreover have "(unat a + unat b - 1) div unat b = ?q"
    proof -
      have "unat a + unat b - 1 = ?q * unat b + (unat b - 1)" using True b a by linarith
      then show ?thesis using b by (simp only: div_mult_self3) simp
    qed
    ultimately show ?thesis by (simp add: div_ceil_def unat_div_word)
  next
    case False
    then have pos: "a mod b > 0" by (simp add: word_less_nat_alt unat_mod_word)
    have "?q * 1 \<le> ?q * unat b" using b by (intro mult_le_mono2) simp
    with False a have "?q + 1 \<le> unat a" by linarith
    then have "unat (a div b) + 1 < 2 ^ LENGTH('a)"
      using le_less_trans [OF _ unat_lt [of a]] by (simp add: unat_div_word)
    then have "unat (a div b + 1) = ?q + 1"
      by (simp add: unat_div_word unat_word_ariths)
    moreover have "(unat a + unat b - 1) div unat b = ?q + 1"
    proof -
      have "unat a + unat b - 1 = (?q + 1) * unat b + (?r - 1)"
        using False b a by (simp add: add_mult_distrib)
      moreover have "?r - 1 < unat b" using b mod_less_divisor [OF b, of "unat a"] by linarith
      ultimately show ?thesis using b by (simp only: div_mult_self3) simp
    qed
    ultimately show ?thesis using pos by (simp add: div_ceil_def)
  qed
qed

section \<open>Little-endian encodings\<close>

definition to_le_bytes :: "'a::len word \<Rightarrow> bytes" where
  "to_le_bytes w = map (\<lambda>i. ucast (drop_bit (8 * i) w)) [0..<LENGTH('a) div 8]"

fun from_le_bytes :: "bytes \<Rightarrow> 'a::len word" where
  "from_le_bytes [] = 0"
| "from_le_bytes (b # bs) = ucast b OR push_bit 8 (from_le_bytes bs)"

lemma length_to_le_bytes [simp]: "length (to_le_bytes (w::'a::len word)) = LENGTH('a) div 8"
  by (simp add: to_le_bytes_def)

lemma bit_from_le_bytes:
  "bit (from_le_bytes bs :: 'a::len word) n \<longleftrightarrow>
     n < LENGTH('a) \<and> n div 8 < length bs \<and> bit (bs ! (n div 8)) (n mod 8)"
proof (induction bs arbitrary: n)
  case Nil
  then show ?case by simp
next
  case (Cons b bs)
  show ?case
  proof (cases "n < 8")
    case True
    then show ?thesis by (auto simp: bit_or_iff bit_push_bit_iff bit_ucast_iff)
  next
    case False
    then have "n div 8 = Suc ((n - 8) div 8)" and "(n - 8) mod 8 = n mod 8"
      by (simp_all add: le_div_geq le_mod_geq)
    moreover have "\<not> bit b n" using False bit_imp_le_length [of b n] by auto
    ultimately show ?thesis using False Cons.IH [of "n - 8"]
      by (auto simp: bit_or_iff bit_push_bit_iff bit_ucast_iff)
  qed
qed

lemma from_to_le_bytes:
  assumes "8 dvd LENGTH('a)"
  shows "from_le_bytes (to_le_bytes (w::'a::len word)) = w"
proof (rule bit_word_eqI)
  fix n assume n: "n < LENGTH('a)"
  with assms have "n div 8 < LENGTH('a) div 8"
    by (metis dvd_div_mult_self div_mult2_eq less_mult_imp_div_less mult.commute)
  then show "bit (from_le_bytes (to_le_bytes w) :: 'a word) n \<longleftrightarrow> bit w n"
    using n by (simp add: bit_from_le_bytes to_le_bytes_def bit_ucast_iff bit_drop_bit_eq)
qed

section \<open>Formatting\<close>

definition digit_char :: "nat \<Rightarrow> char" where
  "digit_char d = ''0123456789abcdef'' ! d"

function digits :: "nat \<Rightarrow> nat \<Rightarrow> nat list" where
  "digits b n = (if n < b \<or> b < 2 then [n] else digits b (n div b) @ [n mod b])"
  by pat_completeness auto
termination by (relation "measure snd") auto
declare digits.simps [simp del]

definition show_radix :: "nat \<Rightarrow> nat \<Rightarrow> string" where
  "show_radix b n = map digit_char (digits b n)"

abbreviation show_dec :: "nat \<Rightarrow> string" where
  "show_dec \<equiv> show_radix 10"

definition pad_left :: "char \<Rightarrow> nat \<Rightarrow> string \<Rightarrow> string" where
  "pad_left c k s = replicate (k - length s) c @ s"

definition digit_value :: "nat \<Rightarrow> char \<Rightarrow> nat option" where
  "digit_value b c =
     (let k = of_char c :: nat;
          d = (if 48 \<le> k \<and> k \<le> 57 then k - 48
               else if 97 \<le> k \<and> k \<le> 122 then k - 87
               else if 65 \<le> k \<and> k \<le> 90 then k - 55 else 36)
      in if d < b then Some d else None)"

fun radix_fold :: "nat \<Rightarrow> nat \<Rightarrow> nat \<Rightarrow> string \<Rightarrow> nat option" where
  "radix_fold b lim acc [] = Some acc"
| "radix_fold b lim acc (c # cs) =
     (case digit_value b c of
        None \<Rightarrow> None
      | Some d \<Rightarrow> if acc * b + d < lim then radix_fold b lim (acc * b + d) cs else None)"

definition from_str_radix :: "nat \<Rightarrow> string \<Rightarrow> 'a::len word option" where
  "from_str_radix b s =
     (let t = (if s \<noteq> [] \<and> hd s = CHR ''+'' then tl s else s)
      in if t = [] then None
         else map_option of_nat (radix_fold b (2 ^ LENGTH('a)) 0 t))"

lemma digit_value_digit_char:
  assumes "d < b" and "b \<le> 16"
  shows "digit_value b (digit_char d) = Some d"
proof -
  have "d < 16" using assms by simp
  then have "d \<in> {0,1,2,3,4,5,6,7,8,9,10,11,12,13,14,15}" by (simp, arith)
  then show ?thesis using assms by (auto simp: digit_value_def digit_char_def)
qed

lemma digits_bound: "2 \<le> b \<Longrightarrow> d \<in> set (digits b n) \<Longrightarrow> d < b"
proof (induction b n rule: digits.induct)
  case (1 b n)
  then show ?case by (cases "n < b") (auto simp: digits.simps [of b n])
qed

lemma digits_nonempty: "digits b n \<noteq> []"
  by (subst digits.simps) simp

lemma radix_fold_append:
  "radix_fold b lim acc (s @ t) =
     (case radix_fold b lim acc s of None \<Rightarrow> None | Some v \<Rightarrow> radix_fold b lim v t)"
  by (induction s arbitrary: acc) (auto split: option.splits)

lemma radix_fold_digits:
  assumes "2 \<le> b" and "b \<le> 16" and "n < lim"
  shows "radix_fold b lim 0 (map digit_char (digits b n)) = Some n"
  using assms
proof (induction b n rule: digits.induct)
  case (1 b n)
  show ?case
  proof (cases "n < b")
    case True
    with 1 show ?thesis
      by (simp add: digits.simps [of b n] digit_value_digit_char)
  next
    case False
    have "n div b < lim" using 1 by (meson div_le_dividend le_less_trans)
    with 1 False have "radix_fold b lim 0 (map digit_char (digits b (n div b))) = Some (n div b)"
      by simp
    with 1 False show ?thesis
      by (simp add: digits.simps [of b n] radix_fold_append digit_value_digit_char)
  qed
qed

lemma hd_show_radix:
  assumes "2 \<le> b" and "b \<le> 16"
  shows "hd (show_radix b n) \<noteq> CHR ''+''"
proof -
  let ?d = "hd (digits b n)"
  have "?d \<in> set (digits b n)" by (rule hd_in_set [OF digits_nonempty])
  then have "?d < b" using assms digits_bound by blast
  then have "digit_value b (digit_char ?d) \<noteq> None" using assms by (simp add: digit_value_digit_char)
  moreover have "digit_value b CHR ''+'' = None" using assms by (simp add: digit_value_def)
  ultimately show ?thesis
    by (metis digits_nonempty hd_map show_radix_def)
qed

lemma from_str_radix_show:
  fixes w :: "'a::len word"
  assumes "2 \<le> b" and "b \<le> 16"
  shows "from_str_radix b (show_radix b (unat w)) = Some w"
  using assms hd_show_radix [of b "unat w"] radix_fold_digits [OF assms unat_lt [of w]] digits_nonempty
  by (simp add: from_str_radix_def Let_def show_radix_def)

end
