(* ===== verification/Bitmap.thy ===== *)
theory Bitmap
  imports Prelude
begin

unbundle bit_operations_syntax

text \<open>
  The page bitmaps of \<^verbatim>\<open>src/uffd-cow-gpt/src/lib.rs\<close>: a vector of 64-bit words with one bit
  per page. The interface \<open>page_bitmap\<close> states what marking and testing a page promise;
  the loops that mark the pages of a range satisfying a test (in \<open>bitmap_from\<close>,
  \<open>dirty_bitmap\<close> and the checkpoint export) are verified once against it.
\<close>

section \<open>Operations\<close>

definition bitmap_words :: "usize \<Rightarrow> usize" where
  "bitmap_words bits = div_ceil bits 64"

definition bitmap_set :: "u64 list \<Rightarrow> usize \<Rightarrow> ('e, u64 list) outcome" where
  "bitmap_set bitmap b =
     bindE (index bitmap (b div 64)) (\<lambda>word.
       Inr (bitmap[unat (b div 64) := word OR push_bit (unat (b mod 64)) 1]))"

definition bitmap_get :: "u64 list \<Rightarrow> usize \<Rightarrow> ('e, bool) outcome" where
  "bitmap_get bitmap b =
     bindE (index bitmap (b div 64)) (\<lambda>word.
       Inr (word AND push_bit (unat (b mod 64)) 1 \<noteq> 0))"

definition bitmap_from :: "usize \<Rightarrow> (usize \<Rightarrow> bool) \<Rightarrow> ('e, u64 list) outcome" where
  "bitmap_from page_count present =
     foldE (\<lambda>page_idx bitmap. if present page_idx then bitmap_set bitmap page_idx else Inr bitmap)
       (range_w 0 page_count)
       (replicate (unat (bitmap_words page_count)) 0)"

definition hex_word :: "u64 \<Rightarrow> string" where
  "hex_word word = pad_left (CHR ''0'') 16 (show_radix 16 (unat word))"

fun join :: "string \<Rightarrow> string list \<Rightarrow> string" where
  "join sep [] = []"
| "join sep [s] = s"
| "join sep (s # t # ts) = s @ sep @ join sep (t # ts)"

definition bitmap_hex :: "u64 list \<Rightarrow> string" where
  "bitmap_hex bitmap = join ''_'' (map hex_word (rev bitmap))"

section \<open>The interface of a page bitmap\<close>

locale page_bitmap =
  fixes put :: "'b \<Rightarrow> usize \<Rightarrow> 'x + 'b"
    and has :: "'b \<Rightarrow> usize \<Rightarrow> 'x + bool"
    and room :: "'b \<Rightarrow> nat"
  assumes has_total: "unat i < room b \<Longrightarrow> \<exists>v. has b i = Inr v"
    and put_total: "unat i < room b \<Longrightarrow> \<exists>b'. put b i = Inr b'"
    and put_room: "put b i = Inr b' \<Longrightarrow> room b' = room b"
    and put_has: "put b i = Inr b' \<Longrightarrow> unat j < room b \<Longrightarrow>
      has b' j = (if j = i then Inr True else has b j)"
begin

lemma mark_pages:
  assumes "\<forall>i \<in> set is. unat i < room b"
  shows "\<exists>b'. foldE (\<lambda>i b. if P i then put b i else Inr b) is b = Inr b' \<and> room b' = room b \<and>
    (\<forall>j. unat j < room b \<longrightarrow> has b' j = (if j \<in> set is \<and> P j then Inr True else has b j))"
  using assms
proof (induction "is" arbitrary: b)
  case Nil
  then show ?case by simp
next
  case (Cons i "is")
  show ?case
  proof (cases "P i")
    case False
    with Cons.IH [of b] Cons.prems show ?thesis by auto
  next
    case True
    from Cons.prems put_total [of i b] obtain b1 where b1: "put b i = Inr b1" by auto
    note r = put_room [OF b1]
    from Cons.IH [of b1] Cons.prems r obtain b' where
      b': "foldE (\<lambda>i b. if P i then put b i else Inr b) is b1 = Inr b'" "room b' = room b"
      and has: "\<forall>j. unat j < room b \<longrightarrow>
        has b' j = (if j \<in> set is \<and> P j then Inr True else has b1 j)"
      by auto
    from has put_has [OF b1] True have
      "\<forall>j. unat j < room b \<longrightarrow> has b' j = (if j \<in> set (i # is) \<and> P j then Inr True else has b j)"
      by auto
    with b1 b' True show ?thesis by simp
  qed
qed

end

section \<open>The word vector implements it\<close>

definition bitmap_room :: "u64 list \<Rightarrow> nat" where
  "bitmap_room bitmap = 64 * length bitmap"

lemma bit_index_in_room [geometry]:
  "unat (i::usize) < bitmap_room bm \<longleftrightarrow> unat (i div 64) < length bm"
  by (auto simp: bitmap_room_def unat_div_word)

lemma word_and_bit [geometry]: "(w::u64) AND push_bit n 1 \<noteq> 0 \<longleftrightarrow> bit w n"
  by (simp add: bit_iff_and_push_bit_not_eq_0)

lemma unat_mod_64 [simp]: "unat ((i::usize) mod 64) < 64"
  by (simp add: unat_mod_word)

lemma bitmap_get_eq:
  "unat i < bitmap_room bm \<Longrightarrow> bitmap_get bm i = Inr (bit (bm ! unat (i div 64)) (unat (i mod 64)))"
  by (simp add: bitmap_get_def index_def geometry del: push_bit_of_1)

lemma bitmap_set_Inr:
  "bitmap_set bm i = Inr bm' \<longleftrightarrow> unat i < bitmap_room bm \<and>
     bm' = bm[unat (i div 64) := bm ! unat (i div 64) OR push_bit (unat (i mod 64)) 1]"
  by (auto simp: bitmap_set_def index_Inr geometry outcome_simps)

lemma bit_set_word:
  "bit (w OR push_bit (unat ((i::usize) mod 64)) (1::u64)) m \<longleftrightarrow> m = unat (i mod 64) \<or> bit w m"
  using unat_mod_64 [of i] by (auto simp: bit_simps simp del: unat_mod_64)

lemma bit_position:
  "(i::usize) = j \<longleftrightarrow> unat (i div 64) = unat (j div 64) \<and> unat (i mod 64) = unat (j mod 64)"
proof -
  have "i = j" if "unat (i div 64) = unat (j div 64)" and "unat (i mod 64) = unat (j mod 64)"
    using that by (metis div_mult_mod_eq unsigned_word_eqI)
  then show ?thesis by auto
qed

interpretation page_bits: page_bitmap
  "bitmap_set :: u64 list \<Rightarrow> usize \<Rightarrow> 'e abort + u64 list" bitmap_get bitmap_room
proof unfold_locales
  fix bm bm' :: "u64 list" and i j :: usize
  show "\<exists>v. bitmap_get bm i = Inr v" if "unat i < bitmap_room bm"
    using that by (simp add: bitmap_get_eq)
  show "\<exists>b'. bitmap_set bm i = Inr b'" if "unat i < bitmap_room bm"
    using that by (simp add: bitmap_set_Inr)
  show room: "bitmap_room bm' = bitmap_room bm" if "bitmap_set bm i = Inr bm'"
    using that by (auto simp: bitmap_set_Inr bitmap_room_def)
  show "bitmap_get bm' j = (if j = i then Inr True else bitmap_get bm j)"
    if s: "bitmap_set bm i = Inr bm'" and j: "unat j < bitmap_room bm"
  proof -
    from s have i: "unat (i div 64) < length bm"
      and bm': "bm' = bm[unat (i div 64) := bm ! unat (i div 64) OR push_bit (unat (i mod 64)) 1]"
      by (simp_all only: bitmap_set_Inr geometry)
    have "bit (bm' ! unat (j div 64)) (unat (j mod 64)) \<longleftrightarrow>
        j = i \<or> bit (bm ! unat (j div 64)) (unat (j mod 64))"
      using i unfolding bm' bit_position [of j i]
      by (cases "unat (j div 64) = unat (i div 64)") (auto simp: bit_set_word simp del: push_bit_of_1)
    then show ?thesis using j room [OF s] by (simp add: bitmap_get_eq)
  qed
qed

section \<open>Properties\<close>

lemma bitmap_words_room: "unat page_count \<le> 64 * unat (bitmap_words page_count)"
  by (simp add: bitmap_words_def unat_div_ceil)

lemma bitmap_get_empty:
  "unat i < 64 * n \<Longrightarrow> bitmap_get (replicate n 0) i = Inr False"
  by (simp add: bitmap_get_eq bitmap_room_def unat_div_word less_mult_imp_div_less mult.commute)

text \<open>
  The loop that the three clients of the bitmap run: starting from an all-zero bitmap with
  room for every page, the pages of a list that pass a test are marked and no other.
\<close>

lemma mark_from_empty:
  assumes "\<forall>i \<in> set is. i < page_count"
  obtains bm where
    "foldE (\<lambda>i b. if P i then bitmap_set b i else Inr b) is
       (replicate (unat (bitmap_words page_count)) 0) = (Inr bm :: 'e abort + u64 list)"
    "length bm = unat (bitmap_words page_count)"
    "\<And>i. i < page_count \<Longrightarrow> bitmap_get bm i = (Inr (i \<in> set is \<and> P i) :: 'e abort + bool)"
proof -
  let ?b = "replicate (unat (bitmap_words page_count)) (0::u64)"
  have room: "unat i < bitmap_room ?b" if "i < page_count" for i
    using that bitmap_words_room [of page_count] by (simp add: bitmap_room_def word_less_nat_alt)
  from page_bits.mark_pages [of "is" ?b P] assms room obtain bm where
    bm: "foldE (\<lambda>i b. if P i then bitmap_set b i else Inr b) is ?b = (Inr bm :: 'e abort + _)"
    and len: "bitmap_room bm = bitmap_room ?b"
    and has: "\<forall>j. unat j < bitmap_room ?b \<longrightarrow>
      bitmap_get bm j = (if j \<in> set is \<and> P j then Inr True else bitmap_get ?b j :: 'e abort + _)"
    by blast
  show ?thesis
  proof
    show "foldE (\<lambda>i b. if P i then bitmap_set b i else Inr b) is ?b = (Inr bm :: 'e abort + _)"
      by (rule bm)
    show "length bm = unat (bitmap_words page_count)" using len by (simp add: bitmap_room_def)
    show "bitmap_get bm i = (Inr (i \<in> set is \<and> P i) :: 'e abort + bool)" if "i < page_count" for i
      using has room [OF that] by (auto simp: bitmap_room_def bitmap_get_empty)
  qed
qed

text \<open>
  \<open>bitmap_from\<close> never panics, its result has exactly \<open>bitmap_words\<close>
  words, and testing any page below the page count gives back the predicate it was built from.
\<close>

theorem bitmap_from_get:
  "\<exists>bm. (bitmap_from page_count present :: ('e, u64 list) outcome) = Inr bm \<and>
    length bm = unat (bitmap_words page_count) \<and>
    (\<forall>i. i < page_count \<longrightarrow> (bitmap_get bm i :: ('e, bool) outcome) = Inr (present i))"
  by (rule mark_from_empty [of "range_w 0 page_count" page_count present])
    (auto simp: bitmap_from_def)

lemma length_digits_le:
  assumes "2 \<le> b" and "n < b ^ k" and "0 < k"
  shows "length (digits b n) \<le> k"
  using assms
proof (induction k arbitrary: n)
  case (Suc k)
  show ?case
  proof (cases "n < b")
    case True
    then show ?thesis by (simp add: digits.simps [of b n])
  next
    case False
    then have "0 < k" using Suc.prems by (cases k) auto
    moreover have "n div b < b ^ k" using Suc.prems by (simp add: less_mult_imp_div_less mult.commute)
    ultimately show ?thesis using False Suc by (simp add: digits.simps [of b n])
  qed
qed simp

lemma length_hex_word [simp]: "length (hex_word w) = 16"
proof -
  have "length (digits 16 (unat w)) \<le> 16"
    using unat_lt [of w] by (intro length_digits_le) simp_all
  then show ?thesis by (simp add: hex_word_def pad_left_def show_radix_def)
qed

lemma radix_fold_zeros: "radix_fold 16 lim 0 (replicate n (CHR ''0'') @ s) = radix_fold 16 lim 0 s"
  if "0 < lim" for lim
  using that by (induction n) (simp_all add: digit_value_def)

lemma radix_fold_hex_word: "radix_fold 16 (2 ^ 64) 0 (hex_word w) = Some (unat w)"
  using unat_lt [of w]
  by (simp add: hex_word_def pad_left_def radix_fold_zeros show_radix_def radix_fold_digits)

lemma hex_word_inject [simp]: "hex_word v = hex_word w \<longleftrightarrow> v = w"
  by (metis option.inject radix_fold_hex_word unsigned_word_eqI)

lemma join_hex_inject: "join ''_'' (map hex_word xs) = join ''_'' (map hex_word ys) \<Longrightarrow> xs = ys"
proof (induction xs arbitrary: ys)
  case Nil
  then show ?case
    by (cases ys rule: remdups_adj.cases) (auto dest!: arg_cong [where f = length])
next
  case (Cons x xs)
  have len: "length (join ''_'' (map hex_word zs)) = 17 * length zs - 1" for zs :: "u64 list"
    by (induction zs rule: induct_list012) simp_all
  from Cons.prems obtain y ys' where ys: "ys = y # ys'"
    using arg_cong [OF Cons.prems, of length] unfolding len by (cases ys) auto
  have lxs: "length xs = length ys'"
    using arg_cong [OF Cons.prems, of length] unfolding len ys by simp
  show ?case
  proof (cases xs)
    case Nil
    with Cons.prems lxs ys show ?thesis by simp
  next
    case (Cons x' xs')
    with lxs obtain y' ys'' where "ys' = y' # ys''" by (cases ys') auto
    with Cons Cons.prems Cons.IH [of ys'] ys show ?thesis by simp
  qed
qed

text \<open>
  The textual form that the logs print determines the bitmap: two bitmaps with
  the same \<open>bitmap_hex\<close> are equal, word for word.
\<close>

theorem bitmap_hex_injective: "inj bitmap_hex"
  by (rule injI) (auto simp: bitmap_hex_def dest: join_hex_inject)

end
