(* ===== verification/Kernel.thy ===== *)
theory Kernel
  imports Prelude
begin

unbundle bit_operations_syntax

text \<open>
  The boundary of the template-memory library (\<^verbatim>\<open>src/uffd-cow-gpt/src/lib.rs\<close>) with the
  operating system. The functions of its \<^verbatim>\<open>extern "C"\<close> block, the further system calls that
  the template service and the virtual machine monitor make, the error number and the raw memory
  of the process are the fields of a record over an arbitrary type \<open>'w\<close> of worlds, which every definition that performs a system call takes as an argument; the ioctl
  arguments, the constants and the wrappers around the calls are translated from the source.
\<close>

section \<open>Errors\<close>

datatype error_kind =
    UnexpectedEof | KInvalidInput | KInvalidData | KOther | KWouldBlock | KInterrupted
  | KConnectionReset | KBrokenPipe | KPermissionDenied

datatype io_error = Os int | Custom error_kind string

datatype error =
    Io io_error
  | InvalidInput string
  | Kernel string
  | Thread string

definition raw_os_error :: "io_error \<Rightarrow> int option" where
  "raw_os_error err = (case err of Os code \<Rightarrow> Some code | Custom _ _ \<Rightarrow> None)"

definition hex0x :: "u64 \<Rightarrow> string" where
  "hex0x w = ''0x'' @ show_radix 16 (unat w)"

definition show_int :: "int \<Rightarrow> string" where
  "show_int i = (if i < 0 then CHR ''-'' # show_dec (nat (- i)) else show_dec (nat i))"

section \<open>Constants\<close>

definition MFD_CLOEXEC :: int where "MFD_CLOEXEC = 0x0001"
definition O_CLOEXEC :: int where "O_CLOEXEC = 524288"
definition O_NONBLOCK :: int where "O_NONBLOCK = 2048"
definition UFFD_USER_MODE_ONLY :: int where "UFFD_USER_MODE_ONLY = 1"
definition PROT_READ :: int where "PROT_READ = 0x1"
definition PROT_WRITE :: int where "PROT_WRITE = 0x2"
definition MAP_SHARED :: int where "MAP_SHARED = 0x01"
definition MAP_PRIVATE :: int where "MAP_PRIVATE = 0x02"
definition MAP_FIXED :: int where "MAP_FIXED = 0x10"
definition MAP_ANONYMOUS :: int where "MAP_ANONYMOUS = 0x20"
definition POLLIN :: u16 where "POLLIN = 0x0001"
definition EINTR :: int where "EINTR = 4"
definition EAGAIN :: int where "EAGAIN = 11"
definition EBADF :: int where "EBADF = 9"
definition EEXIST :: int where "EEXIST = 17"
definition SYS_MEMFD_CREATE :: int where "SYS_MEMFD_CREATE = 319"
definition SYS_USERFAULTFD :: int where "SYS_USERFAULTFD = 323"
definition UFFD_API :: u64 where "UFFD_API = 0xAA"
definition UFFDIO_API :: u64 where "UFFDIO_API = 0xc018aa3f"
definition UFFDIO_REGISTER :: u64 where "UFFDIO_REGISTER = 0xc020aa00"
definition UFFDIO_COPY :: u64 where "UFFDIO_COPY = 0xc028aa03"
definition UFFDIO_WAKE :: u64 where "UFFDIO_WAKE = 0x8010aa02"
definition UFFDIO_WRITEPROTECT :: u64 where "UFFDIO_WRITEPROTECT = 0xc018aa06"
definition UFFDIO_REGISTER_MODE_MISSING :: u64 where "UFFDIO_REGISTER_MODE_MISSING = push_bit 0 1"
definition UFFDIO_REGISTER_MODE_WP :: u64 where "UFFDIO_REGISTER_MODE_WP = push_bit 1 1"
definition UFFDIO_COPY_MODE_WP :: u64 where "UFFDIO_COPY_MODE_WP = push_bit 1 1"
definition UFFDIO_WRITEPROTECT_MODE_DONTWAKE :: u64 where
  "UFFDIO_WRITEPROTECT_MODE_DONTWAKE = push_bit 1 1"
definition UFFD_EVENT_PAGEFAULT :: u8 where "UFFD_EVENT_PAGEFAULT = 0x12"
definition UFFD_PAGEFAULT_FLAG_WP :: u64 where "UFFD_PAGEFAULT_FLAG_WP = push_bit 1 1"
definition UFFD_FEATURE_PAGEFAULT_FLAG_WP :: u64 where
  "UFFD_FEATURE_PAGEFAULT_FLAG_WP = push_bit 0 1"
definition UFFD_FEATURE_MISSING_SHMEM :: u64 where "UFFD_FEATURE_MISSING_SHMEM = push_bit 5 1"
definition UFFD_FEATURE_WP_HUGETLBFS_SHMEM :: u64 where
  "UFFD_FEATURE_WP_HUGETLBFS_SHMEM = push_bit 12 1"
definition ioctl_bit_COPY :: u64 where "ioctl_bit_COPY = 0x03"
definition ioctl_bit_WAKE :: u64 where "ioctl_bit_WAKE = 0x02"
definition ioctl_bit_WRITEPROTECT :: u64 where "ioctl_bit_WRITEPROTECT = 0x06"

section \<open>Kernel structures\<close>

text \<open>
  The field \<open>src\<close> of a copy request is a pointer to the caller's buffer; the model
  carries the bytes it points to.
\<close>

record uffdio_api = ua_api :: u64 ua_features :: u64 ua_ioctls :: u64
record uffdio_range = ur_start :: u64 ur_len :: u64
record uffdio_register = rg_range :: uffdio_range rg_mode :: u64 rg_ioctls :: u64
record uffdio_copy_arg = cp_dst :: u64 cp_src :: bytes cp_len :: u64 cp_mode :: u64 cp_copy :: int
record uffdio_wp_arg = wp_range :: uffdio_range wp_mode :: u64
record uffd_msg = msg_event :: u8 msg_pf_flags :: u64 msg_pf_address :: u64

datatype ioctl_arg =
    ArgApi uffdio_api
  | ArgRegister uffdio_register
  | ArgCopy uffdio_copy_arg
  | ArgRange uffdio_range
  | ArgWriteProtect uffdio_wp_arg

datatype sys_arg = SysInt int | SysStr string

text \<open>The 32 bytes of a fault message: \<open>event\<close> at 0, \<open>pf_flags\<close> at 8, \<open>pf_address\<close> at 16.\<close>

definition sizeof_uffd_msg :: nat where
  "sizeof_uffd_msg = 32"

definition uffd_msg_of_bytes :: "bytes \<Rightarrow> uffd_msg" where
  "uffd_msg_of_bytes bs =
     \<lparr>msg_event = bs ! 0,
      msg_pf_flags = from_le_bytes (take 8 (drop 8 bs)),
      msg_pf_address = from_le_bytes (take 8 (drop 16 bs))\<rparr>"

section \<open>The system interface\<close>

type_synonym fd = int

record 'w kernel =
  k_syscall :: "int \<Rightarrow> sys_arg list \<Rightarrow> 'w \<Rightarrow> int \<times> 'w"
  k_sysconf :: "int \<Rightarrow> 'w \<Rightarrow> int \<times> 'w"
  k_ftruncate :: "fd \<Rightarrow> int \<Rightarrow> 'w \<Rightarrow> int \<times> 'w"
  k_mmap :: "u64 \<Rightarrow> usize \<Rightarrow> int \<Rightarrow> int \<Rightarrow> fd \<Rightarrow> int \<Rightarrow> 'w \<Rightarrow> u64 \<times> 'w"
  k_munmap :: "u64 \<Rightarrow> usize \<Rightarrow> 'w \<Rightarrow> int \<times> 'w"
  k_ioctl :: "fd \<Rightarrow> u64 \<Rightarrow> ioctl_arg \<Rightarrow> 'w \<Rightarrow> int \<times> ioctl_arg \<times> 'w"
  k_poll :: "fd \<Rightarrow> u16 \<Rightarrow> int \<Rightarrow> 'w \<Rightarrow> int \<times> u16 \<times> 'w"
  k_read :: "fd \<Rightarrow> nat \<Rightarrow> 'w \<Rightarrow> int \<times> bytes \<times> 'w"
  k_pread :: "fd \<Rightarrow> nat \<Rightarrow> u64 \<Rightarrow> 'w \<Rightarrow> int \<times> bytes \<times> 'w"
  k_errno :: "'w \<Rightarrow> int"
  k_strerror :: "int \<Rightarrow> string"
  k_load :: "u64 \<Rightarrow> nat \<Rightarrow> 'w \<Rightarrow> bytes"
  k_store :: "u64 \<Rightarrow> bytes \<Rightarrow> 'w \<Rightarrow> 'w"
  k_write :: "fd \<Rightarrow> bytes \<Rightarrow> 'w \<Rightarrow> int \<times> 'w"
  k_lseek :: "fd \<Rightarrow> u64 \<Rightarrow> 'w \<Rightarrow> int \<times> 'w"
  k_connect :: "string \<Rightarrow> 'w \<Rightarrow> int \<times> 'w"
  k_epoll_create :: "bool \<Rightarrow> 'w \<Rightarrow> int \<times> 'w"
  k_epoll_add :: "fd \<Rightarrow> fd \<Rightarrow> u32 \<Rightarrow> u64 \<Rightarrow> 'w \<Rightarrow> int \<times> 'w"
  k_epoll_wait :: "fd \<Rightarrow> int \<Rightarrow> nat \<Rightarrow> 'w \<Rightarrow> int \<times> (u32 \<times> u64) list \<times> 'w"

definition display_io :: "'w kernel \<Rightarrow> io_error \<Rightarrow> string" where
  "display_io K err =
     (case err of
        Os code \<Rightarrow> k_strerror K code @ '' (os error '' @ show_int code @ '')''
      | Custom _ msg \<Rightarrow> msg)"

definition display_error :: "'w kernel \<Rightarrow> error \<Rightarrow> string" where
  "display_error K err =
     (case err of
        Io e \<Rightarrow> display_io K e
      | InvalidInput msg \<Rightarrow> msg
      | Kernel msg \<Rightarrow> msg
      | Thread msg \<Rightarrow> msg)"

definition last_os_error :: "'w kernel \<Rightarrow> string \<Rightarrow> 'w \<Rightarrow> error" where
  "last_os_error K what w = Kernel (what @ '': '' @ display_io K (Os (k_errno K w)))"

definition is_map_failed :: "u64 \<Rightarrow> bool" where
  "is_map_failed ptr \<longleftrightarrow> sint ptr = -1"

section \<open>Wrappers\<close>

definition ioctl_io :: "'w kernel \<Rightarrow> fd \<Rightarrow> u64 \<Rightarrow> ioctl_arg \<Rightarrow> 'w \<Rightarrow> (io_error, ioctl_arg, 'w) run" where
  "ioctl_io K fd request arg w =
     (case k_ioctl K fd request arg w of (ret, arg', w') \<Rightarrow>
        if ret < 0 then run_err (Os (k_errno K w')) w' else run_ret arg' w')"

definition map_err :: "('e \<Rightarrow> 'f) \<Rightarrow> ('e, 'a, 'w) run \<Rightarrow> ('f, 'a, 'w) run" where
  "map_err f m =
     (case m of
        None \<Rightarrow> None
      | Some (Inl (Err e), w) \<Rightarrow> Some (Inl (Err (f e)), w)
      | Some (Inl Panic, w) \<Rightarrow> Some (Inl Panic, w)
      | Some (Inr a, w) \<Rightarrow> Some (Inr a, w))"

definition ioctl_checked ::
  "'w kernel \<Rightarrow> fd \<Rightarrow> u64 \<Rightarrow> ioctl_arg \<Rightarrow> string \<Rightarrow> 'w \<Rightarrow> (error, ioctl_arg, 'w) run" where
  "ioctl_checked K fd request arg name w =
     map_err (\<lambda>err. Kernel (name @ '': '' @ display_io K err)) (ioctl_io K fd request arg w)"

definition uffdio_copy ::
  "'w kernel \<Rightarrow> fd \<Rightarrow> u64 \<Rightarrow> bytes \<Rightarrow> u64 \<Rightarrow> u64 \<Rightarrow> 'w \<Rightarrow> (io_error, unit, 'w) run" where
  "uffdio_copy K fd dst src len mode w =
     run_bind (ioctl_io K fd UFFDIO_COPY
         (ArgCopy \<lparr>cp_dst = dst, cp_src = src, cp_len = len, cp_mode = mode, cp_copy = 0\<rparr>) w)
       (\<lambda>_. run_ret ())"

definition uffdio_wake :: "'w kernel \<Rightarrow> fd \<Rightarrow> u64 \<Rightarrow> u64 \<Rightarrow> 'w \<Rightarrow> (io_error, unit, 'w) run" where
  "uffdio_wake K fd start len w =
     run_bind (ioctl_io K fd UFFDIO_WAKE (ArgRange \<lparr>ur_start = start, ur_len = len\<rparr>) w)
       (\<lambda>_. run_ret ())"

definition uffdio_writeprotect ::
  "'w kernel \<Rightarrow> fd \<Rightarrow> u64 \<Rightarrow> u64 \<Rightarrow> u64 \<Rightarrow> 'w \<Rightarrow> (io_error, unit, 'w) run" where
  "uffdio_writeprotect K fd start len mode w =
     run_bind (ioctl_io K fd UFFDIO_WRITEPROTECT
         (ArgWriteProtect \<lparr>wp_range = \<lparr>ur_start = start, ur_len = len\<rparr>, wp_mode = mode\<rparr>) w)
       (\<lambda>_. run_ret ())"

definition create_userfaultfd :: "'w kernel \<Rightarrow> 'w \<Rightarrow> (error, fd, 'w) run" where
  "create_userfaultfd K w =
     (let flags = O_CLOEXEC OR O_NONBLOCK OR UFFD_USER_MODE_ONLY
      in case k_syscall K SYS_USERFAULTFD [SysInt flags] w of (fd, w) \<Rightarrow>
        if fd < 0 then run_err (last_os_error K ''userfaultfd'' w) w
        else run_bind
          (ioctl_checked K fd UFFDIO_API
            (ArgApi \<lparr>ua_api = UFFD_API, ua_features = 0, ua_ioctls = 0\<rparr>) ''UFFDIO_API'' w)
          (\<lambda>arg w.
            (let features = (case arg of ArgApi api \<Rightarrow> ua_features api | _ \<Rightarrow> 0);
                 required = UFFD_FEATURE_PAGEFAULT_FLAG_WP OR UFFD_FEATURE_MISSING_SHMEM
                   OR UFFD_FEATURE_WP_HUGETLBFS_SHMEM
             in if features AND required \<noteq> required
                then run_err (Kernel (''kernel lacks required userfaultfd features: have='' @
                       hex0x features @ '' required='' @ hex0x required)) w
                else run_ret fd w)))"

definition register_uffd ::
  "'w kernel \<Rightarrow> fd \<Rightarrow> u64 \<Rightarrow> u64 \<Rightarrow> u64 \<Rightarrow> 'w \<Rightarrow> (error, u64, 'w) run" where
  "register_uffd K fd addr len mode w =
     run_bind
       (ioctl_checked K fd UFFDIO_REGISTER
         (ArgRegister \<lparr>rg_range = \<lparr>ur_start = addr, ur_len = len\<rparr>, rg_mode = mode, rg_ioctls = 0\<rparr>)
         ''UFFDIO_REGISTER'' w)
       (\<lambda>arg. run_ret (case arg of ArgRegister reg \<Rightarrow> rg_ioctls reg | _ \<Rightarrow> 0))"

definition ensure_ioctl :: "u64 \<Rightarrow> u64 \<Rightarrow> string \<Rightarrow> (error, unit) outcome" where
  "ensure_ioctl ioctls b name =
     (if ioctls AND push_bit (unat b) 1 = 0
      then Inl (Err (Kernel (''registered range does not support '' @ name)))
      else Inr ())"

definition sys_page_size :: "'w kernel \<Rightarrow> 'w \<Rightarrow> (error, usize, 'w) run" where
  "sys_page_size K w =
     (case k_sysconf K 30 w of (v, w) \<Rightarrow>
        if v \<le> 0 then run_err (last_os_error K ''sysconf(_SC_PAGESIZE)'' w) w
        else run_ret (word_of_int v) w)"

definition memfd_create :: "'w kernel \<Rightarrow> string \<Rightarrow> 'w \<Rightarrow> (error, fd, 'w) run" where
  "memfd_create K name w =
     (if CHR 0x00 \<in> set name then run_err (InvalidInput ''memfd name contains NUL'') w
      else case k_syscall K SYS_MEMFD_CREATE [SysStr name, SysInt MFD_CLOEXEC] w of (fd, w) \<Rightarrow>
        if fd < 0 then run_err (last_os_error K ''memfd_create'' w) w else run_ret fd w)"

definition ftruncate_fd :: "'w kernel \<Rightarrow> fd \<Rightarrow> usize \<Rightarrow> 'w \<Rightarrow> (error, unit, 'w) run" where
  "ftruncate_fd K fd len w =
     (case k_ftruncate K fd (sint len) w of (ret, w) \<Rightarrow>
        if ret < 0 then run_err (last_os_error K ''ftruncate'' w) w else run_ret () w)"

text \<open>
  \<open>pread_some\<close> retries while the call is interrupted, so it may not return;
  \<open>pread_exact\<close> advances until the buffer of \<open>n\<close> bytes is full. The result is the
  content of the filled buffer (callers drop a partly filled one).
\<close>

partial_function (option) pread_some ::
  "'w kernel \<Rightarrow> fd \<Rightarrow> nat \<Rightarrow> u64 \<Rightarrow> 'w \<Rightarrow> (error, nat \<times> bytes, 'w) run" where
  "pread_some K fd n offset w =
     (let ret = k_pread K fd n offset w; nread = fst ret; buf = fst (snd ret); w' = snd (snd ret)
      in if nread < 0
         then (if k_errno K w' = EINTR then pread_some K fd n offset w'
               else Some (Inl (Err (Io (Os (k_errno K w')))), w'))
         else Some (Inr (nat nread, buf), w'))"

function pread_exact :: "'w kernel \<Rightarrow> fd \<Rightarrow> nat \<Rightarrow> u64 \<Rightarrow> 'w \<Rightarrow> (error, bytes, 'w) run" where
  "pread_exact K fd n offset w =
     (if n = 0 then run_ret [] w
      else run_bind (pread_some K fd n offset w) (\<lambda>(nread, buf) w.
        if nread = 0
        then run_err (Io (Custom UnexpectedEof ''unexpected EOF while reading backend'')) w
        else if n < nread then run_panic w
        else run_bind (pread_exact K fd (n - nread) (offset + of_nat nread) w) (\<lambda>rest.
          run_ret (take nread buf @ rest))))"
  by pat_completeness auto
termination
  by (relation "measure (\<lambda>(K, fd, n, offset, w). n)") auto

declare pread_exact.simps [simp del]

section \<open>Reading a file exactly\<close>

text \<open>
  What \<open>pread(2)\<close> documents, for a view \<open>content\<close> of the bytes of each open file and a
  number \<open>pending\<close> of signals still to be delivered: a non-negative result counts bytes that
  were copied from the given offset, zero is returned only at the end of the file, the file is
  not changed, and each interrupted call consumes a signal.
\<close>

definition pread_ok :: "'w kernel \<Rightarrow> ('w \<Rightarrow> fd \<Rightarrow> bytes) \<Rightarrow> ('w \<Rightarrow> nat) \<Rightarrow> bool" where
  "pread_ok K content pending \<longleftrightarrow>
     (\<forall>fd n off w r buf w'. k_pread K fd n off w = (r, buf, w') \<longrightarrow>
        content w' = content w \<and> pending w' \<le> pending w \<and>
        (r < 0 \<longrightarrow> k_errno K w' = EINTR \<longrightarrow> pending w' < pending w) \<and>
        (0 \<le> r \<longrightarrow> nat r \<le> n \<and> nat r \<le> length (content w fd) - unat off \<and>
           take (nat r) buf = take (nat r) (drop (unat off) (content w fd))) \<and>
        (r = 0 \<longrightarrow> n = 0 \<or> length (content w fd) \<le> unat off))"

lemma pread_okD:
  assumes "pread_ok K content pending" and "k_pread K fd n off w = (r, buf, w')"
  shows "content w' = content w" and "pending w' \<le> pending w"
    and "r < 0 \<Longrightarrow> k_errno K w' = EINTR \<Longrightarrow> pending w' < pending w"
    and "0 \<le> r \<Longrightarrow> nat r \<le> n" and "0 \<le> r \<Longrightarrow> nat r \<le> length (content w fd) - unat off"
    and "0 \<le> r \<Longrightarrow> take (nat r) buf = take (nat r) (drop (unat off) (content w fd))"
    and "r = 0 \<Longrightarrow> n = 0 \<or> length (content w fd) \<le> unat off"
  using assms unfolding pread_ok_def by blast+

lemma pread_some_spec:
  assumes ok: "pread_ok K content pending"
  shows "\<exists>res w'. pread_some K fd n off w = Some (res, w') \<and> content w' = content w \<and>
    (case res of
       Inr (r, buf) \<Rightarrow> r \<le> n \<and> r \<le> length (content w fd) - unat off \<and>
         take r buf = take r (drop (unat off) (content w fd)) \<and>
         (r = 0 \<longrightarrow> n = 0 \<or> length (content w fd) \<le> unat off)
     | Inl e \<Rightarrow> \<exists>c. e = Err (Io (Os c)))"
proof (induction "pending w" arbitrary: w rule: less_induct)
  case less
  obtain r buf w' where k: "k_pread K fd n off w = (r, buf, w')" by (cases "k_pread K fd n off w")
  note d = pread_okD [OF ok k]
  show ?case
  proof (cases "r < 0 \<and> k_errno K w' = EINTR")
    case True
    with d(3) have "pending w' < pending w" by simp
    note IH = less [OF this]
    have eq: "pread_some K fd n off w = pread_some K fd n off w'"
      using True by (subst pread_some.simps) (simp add: k Let_def)
    show ?thesis using IH unfolding d(1) eq .
  next
    case False
    with d(1,4-7) show ?thesis
      by (subst pread_some.simps) (auto simp: k Let_def)
  qed
qed

lemma pread_exact_spec:
  assumes ok: "pread_ok K content pending" and "unat off + n < 2 ^ 64"
  shows "\<exists>res w'. pread_exact K fd n off w = Some (res, w') \<and> content w' = content w \<and>
    (\<forall>e. res = Inl e \<longrightarrow> (\<exists>io. e = Err (Io io))) \<and>
    (\<forall>bs. res = Inr bs \<longrightarrow> bs = take n (drop (unat off) (content w fd)) \<and> length bs = n)"
  using assms(2)
proof (induction n arbitrary: off w rule: less_induct)
  case (less n)
  show ?case
  proof (cases "n = 0")
    case True
    then show ?thesis by (simp add: pread_exact.simps)
  next
    case False
    from pread_some_spec [OF ok, of fd n off w] obtain res w1 where
      s: "pread_some K fd n off w = Some (res, w1)" and c1: "content w1 = content w"
      and res: "case res of
       Inr (r, buf) \<Rightarrow> r \<le> n \<and> r \<le> length (content w fd) - unat off \<and>
         take r buf = take r (drop (unat off) (content w fd)) \<and>
         (r = 0 \<longrightarrow> n = 0 \<or> length (content w fd) \<le> unat off)
     | Inl e \<Rightarrow> \<exists>c. e = Err (Io (Os c))" by blast
    show ?thesis
    proof (cases res)
      case (Inl e)
      with s c1 res False show ?thesis by (auto simp: pread_exact.simps [of K fd n])
    next
      case (Inr rb)
      obtain r buf where rb: "rb = (r, buf)" by (cases rb)
      with res Inr have r: "r \<le> n" "r \<le> length (content w fd) - unat off"
        "take r buf = take r (drop (unat off) (content w fd))" by simp_all
      show ?thesis
      proof (cases "r = 0")
        case True
        with s c1 Inr rb False show ?thesis by (auto simp: pread_exact.simps [of K fd n])
      next
        case pos: False
        have off: "unat (off + of_nat r) = unat off + r"
          using less.prems r(1) by (simp add: unat_word_ariths unat_of_nat)
        from less.IH [of "n - r" "off + of_nat r" w1] pos r(1) False less.prems off
        obtain res2 w2 where
          e: "pread_exact K fd (n - r) (off + of_nat r) w1 = Some (res2, w2)"
          and c2: "content w2 = content w1"
          and cs: "\<forall>e. res2 = Inl e \<longrightarrow> (\<exists>io. e = Err (Io io))"
          and bs: "\<forall>bs. res2 = Inr bs \<longrightarrow>
            bs = take (n - r) (drop (unat off + r) (content w1 fd)) \<and> length bs = n - r"
          by auto
        have split: "take n (drop o' xs) = take r (drop o' xs) @ take (n - r) (drop (o' + r) xs)"
          for o' and xs :: bytes
          using r(1) by (metis drop_drop add.commute le_add_diff_inverse take_add)
        show ?thesis
        proof (cases res2)
          case (Inl e2)
          with e s c1 c2 cs Inr rb pos False r(1) show ?thesis
            by (auto simp: pread_exact.simps [of K fd n])
        next
          case res2: (Inr bs2)
          with e s Inr rb pos False r(1) have
            "pread_exact K fd n off w = Some (Inr (take r buf @ bs2), w2)"
            by (simp add: pread_exact.simps [of K fd n])
          moreover have "length (take r buf) = r" using r by (metis length_drop length_take min.absorb2)
          ultimately show ?thesis using bs res2 c1 c2 cs r split [of "unat off" "content w fd"]
            by auto
        qed
      qed
    qed
  qed
qed

text \<open>Whatever a single \<open>pread\<close> leaves unchanged, the loops around it leave unchanged.\<close>

lemma pread_some_frame:
  assumes "\<And>n off w. f (snd (snd (k_pread K fd n off w))) = f w"
    and ret: "pread_some K fd n off w = Some (r, w')"
  shows "f w' = f w"
proof -
  have "fa = fd \<longrightarrow> Ka = K \<longrightarrow> f (snd rw) = f wa" if "pread_some Ka fa na oa wa = Some rw" for Ka fa na oa wa rw
    using that
  proof (rule pread_some.raw_induct [rotated, where P = "\<lambda>Ka fa na oa wa rw. fa = fd \<longrightarrow> Ka = K \<longrightarrow> f (snd rw) = f wa"],
      goal_cases)
    case (1 g Ka fa na oa wa rw)
    then show ?case using assms(1) [of na oa wa]
      by (auto simp: Let_def split: if_splits)
  qed
  from this [OF ret] show ?thesis by simp
qed

lemma pread_exact_frame:
  assumes fr: "\<And>n off w. f (snd (snd (k_pread K fd n off w))) = f w"
    and "pread_exact K fd n off w = Some (r, w')"
  shows "f w' = f w"
  using assms(2)
proof (induction n arbitrary: off w r w' rule: less_induct)
  case (less n)
  show ?case
  proof (cases "n = 0")
    case True
    with less.prems show ?thesis by (simp add: pread_exact.simps)
  next
    case False
    from less.prems False obtain r1 w1 where s: "pread_some K fd n off w = Some (r1, w1)"
      by (cases "pread_some K fd n off w") (auto simp: pread_exact.simps [of K fd n])
    note f1 = pread_some_frame [OF fr s]
    show ?thesis
    proof (cases r1)
      case (Inl e)
      with less.prems False s f1 show ?thesis by (simp add: pread_exact.simps [of K fd n])
    next
      case (Inr nb)
      obtain k buf where nb: "nb = (k, buf)" by (cases nb)
      show ?thesis
      proof (cases "k = 0 \<or> n < k")
        case True
        with less.prems False s Inr nb f1 show ?thesis
          by (auto simp: pread_exact.simps [of K fd n])
      next
        case k: False
        with less.prems False s Inr nb have
          "run_bind (pread_exact K fd (n - k) (off + of_nat k) w1) (\<lambda>rest. run_ret (take k buf @ rest)) = Some (r, w')"
          by (simp add: pread_exact.simps [of K fd n])
        then obtain r2 where "pread_exact K fd (n - k) (off + of_nat k) w1 = Some (r2, w')"
          by (auto simp: run_bind_def split: option.splits sum.splits)
        with less.IH [of "n - k"] k False f1 show ?thesis by fastforce
      qed
    qed
  qed
qed

end
