(* ===== verification/Overlay.thy ===== *)
theory Overlay
  imports Bitmap Kernel
begin

unbundle bit_operations_syntax

text \<open>
  The read-only overlay backend of \<^verbatim>\<open>src/uffd-cow-gpt/src/lib.rs\<close>: a stack of layers, each a
  file with a bitmap of the pages it holds; a page is read from the topmost layer that has it.
  The merged bitmap that a checkpoint exports is shown to be the union of the layers, so it
  decides exactly whether a page can be located, and a page that is read has the bytes of the
  topmost layer.
\<close>

section \<open>Data\<close>

record layer =
  ly_name :: string
  ly_file :: fd
  ly_bitmap :: "u64 list"

record page_location =
  pl_layer_name :: string
  pl_offset :: u64

record overlay_backend =
  ob_page_size :: usize
  ob_page_count :: usize
  ob_layers :: "layer list"
  ob_merged_bitmap :: "u64 list"

section \<open>Operations\<close>

definition merge_layer :: "u64 list \<Rightarrow> layer \<Rightarrow> (error, u64 list) outcome" where
  "merge_layer merged layer =
     foldE (\<lambda>(idx, word) m. bindE (index m idx) (\<lambda>old. Inr (m[unat idx := old OR word])))
       (zip (map word_of_nat [0..<length (ly_bitmap layer)]) (ly_bitmap layer)) merged"

definition rebuild_merged_bitmap :: "overlay_backend \<Rightarrow> (error, overlay_backend) outcome" where
  "rebuild_merged_bitmap ob =
     bindE (foldE (\<lambda>layer m. merge_layer m layer) (ob_layers ob)
         (map (\<lambda>_. 0) (ob_merged_bitmap ob)))
       (\<lambda>m. Inr (ob\<lparr>ob_merged_bitmap := m\<rparr>))"

fun check_layers :: "usize \<Rightarrow> layer list \<Rightarrow> (error, unit) outcome" where
  "check_layers words [] = Inr ()"
| "check_layers words (layer # layers) =
     (if length (ly_bitmap layer) \<noteq> unat words
      then Inl (Err (InvalidInput (''layer '' @ [CHR 0x27] @ ly_name layer @ [CHR 0x27] @ '' bitmap has '' @
        show_dec (length (ly_bitmap layer)) @ '' words, expected '' @ show_dec (unat words))))
      else check_layers words layers)"

definition overlay_new :: "usize \<Rightarrow> usize \<Rightarrow> layer list \<Rightarrow> (error, overlay_backend) outcome" where
  "overlay_new page_size page_count layers =
     (if page_size = 0 \<or> page_count = 0
      then Inl (Err (InvalidInput ''page_size and page_count must be non-zero''))
      else if layers = []
      then Inl (Err (InvalidInput ''overlay backend requires at least one layer''))
      else let words = bitmap_words page_count in
        bindE (check_layers words layers) (\<lambda>_.
          rebuild_merged_bitmap
            \<lparr>ob_page_size = page_size, ob_page_count = page_count, ob_layers = layers,
             ob_merged_bitmap = replicate (unat words) 0\<rparr>))"

text \<open>The search of \<open>locate\<close> and \<open>read_page\<close>: the first layer, from the top, with the page.\<close>

fun find_layer :: "layer list \<Rightarrow> usize \<Rightarrow> (error, layer option) outcome" where
  "find_layer [] page_idx = Inr None"
| "find_layer (layer # layers) page_idx =
     bindE (bitmap_get (ly_bitmap layer) page_idx) (\<lambda>present.
       if present then Inr (Some layer) else find_layer layers page_idx)"

definition overlay_locate :: "overlay_backend \<Rightarrow> usize \<Rightarrow> (error, page_location) outcome" where
  "overlay_locate ob page_idx =
     (if page_idx \<ge> ob_page_count ob
      then Inl (Err (InvalidInput (''page index out of range: '' @ show_dec (unat page_idx))))
      else bindE (find_layer (rev (ob_layers ob)) page_idx) (\<lambda>found.
        case found of
          Some layer \<Rightarrow> Inr \<lparr>pl_layer_name = ly_name layer, pl_offset = page_idx * ob_page_size ob\<rparr>
        | None \<Rightarrow> Inl (Err (InvalidInput
            (''page '' @ show_dec (unat page_idx) @ '' has no backend layer'')))))"

definition overlay_read_page ::
  "'w kernel \<Rightarrow> overlay_backend \<Rightarrow> usize \<Rightarrow> nat \<Rightarrow> 'w \<Rightarrow> (error, page_location \<times> bytes, 'w) run" where
  "overlay_read_page K ob page_idx dst_len w =
     (if dst_len \<noteq> unat (ob_page_size ob)
      then run_err (InvalidInput ''backend read buffer must be one page'') w
      else if page_idx \<ge> ob_page_count ob
      then run_err (InvalidInput (''page index out of range: '' @ show_dec (unat page_idx))) w
      else run_bind (run_lift (find_layer (rev (ob_layers ob)) page_idx) w) (\<lambda>found w.
        case found of
          Some layer \<Rightarrow>
            (let offset = page_idx * ob_page_size ob
             in run_bind (pread_exact K (ly_file layer) dst_len offset w) (\<lambda>dst.
               run_ret (\<lparr>pl_layer_name = ly_name layer, pl_offset = offset\<rparr>, dst)))
        | None \<Rightarrow> run_err (InvalidInput
            (''page '' @ show_dec (unat page_idx) @ '' has no backend layer'')) w))"

section \<open>Well-formed backends\<close>

definition layers_ok :: "usize \<Rightarrow> layer list \<Rightarrow> bool" where
  "layers_ok page_count layers \<longleftrightarrow>
     (\<forall>l \<in> set layers. length (ly_bitmap l) = unat (bitmap_words page_count))"

definition layer_has :: "layer \<Rightarrow> usize \<Rightarrow> bool" where
  "layer_has layer i \<longleftrightarrow> bit (ly_bitmap layer ! unat (i div 64)) (unat (i mod 64))"

text \<open>The abstract overlay: the topmost layer that holds a page.\<close>

definition top_layer :: "layer list \<Rightarrow> usize \<Rightarrow> layer option" where
  "top_layer layers i = find (\<lambda>l. layer_has l i) (rev layers)"

definition overlay_wf :: "overlay_backend \<Rightarrow> bool" where
  "overlay_wf ob \<longleftrightarrow> ob_page_size ob \<noteq> 0 \<and> ob_page_count ob \<noteq> 0 \<and> ob_layers ob \<noteq> [] \<and>
     layers_ok (ob_page_count ob) (ob_layers ob) \<and>
     length (ob_merged_bitmap ob) = unat (bitmap_words (ob_page_count ob)) \<and>
     (\<forall>k < unat (bitmap_words (ob_page_count ob)).
        ob_merged_bitmap ob ! k = fold (\<lambda>l m. m OR ly_bitmap l ! k) (ob_layers ob) 0)"

lemma check_layers_Inr:
  "check_layers words layers = Inr () \<longleftrightarrow> (\<forall>l \<in> set layers. length (ly_bitmap l) = unat words)"
  by (induction layers) auto

lemma check_layers_not_panic: "check_layers words layers \<noteq> Inl Panic"
  by (induction layers) auto

lemma merge_layer_spec:
  assumes "length merged = length (ly_bitmap layer)" and "length merged < 2 ^ 64"
  shows "merge_layer merged layer = Inr (map2 (OR) merged (ly_bitmap layer))"
proof -
  let ?f = "\<lambda>(idx::usize, word) m. bindE (index m idx) (\<lambda>old. Inr (m[unat idx := old OR word]))"
  have "foldE ?f (zip (map word_of_nat [k..<k + length ws]) ws) (pre @ rest) =
      (Inr (pre @ map2 (OR) rest ws) :: (error, u64 list) outcome)"
    if "length pre = k" "length rest = length ws" "k + length ws < 2 ^ 64" for k ws pre rest
    using that
  proof (induction ws arbitrary: k pre rest)
    case (Cons w ws)
    then obtain r rest' where rest: "rest = r # rest'" by (cases rest) auto
    have idx: "unat (word_of_nat k :: usize) = k" using Cons.prems by (simp add: unat_of_nat)
    have upt: "[k..<k + length (w # ws)] = k # [Suc k..<Suc k + length ws]"
      by (simp add: upt_conv_Cons del: upt_Suc)
    show ?case
      using Cons.IH [of "pre @ [r OR w]" "Suc k" rest'] Cons.prems unfolding rest upt
      by (simp add: index_def idx nth_append list_update_append del: upt_Suc)
  qed simp
  from this [of "[]" 0 merged "ly_bitmap layer"] assms show ?thesis
    by (simp add: merge_layer_def)
qed

lemma merge_layers_spec:
  assumes "\<forall>l \<in> set layers. length (ly_bitmap l) = n" and "length m = n" and "n < 2 ^ 64"
  shows "\<exists>m'. foldE (\<lambda>layer m. merge_layer m layer) layers m = Inr m' \<and> length m' = n \<and>
    (\<forall>k < n. m' ! k = fold (\<lambda>l w. w OR ly_bitmap l ! k) layers (m ! k))"
  using assms
proof (induction layers arbitrary: m)
  case (Cons l layers)
  let ?m = "map2 (OR) m (ly_bitmap l)"
  have "merge_layer m l = Inr ?m" using Cons.prems by (intro merge_layer_spec) simp_all
  moreover from Cons.IH [of ?m] Cons.prems obtain m' where
    "foldE (\<lambda>layer m. merge_layer m layer) layers ?m = Inr m'" and "length m' = n" and
    "\<forall>k < n. m' ! k = fold (\<lambda>l w. w OR ly_bitmap l ! k) layers (?m ! k)" by auto
  ultimately show ?case using Cons.prems by auto
qed simp

lemma overlay_new_cases:
  "overlay_new ps pc layers =
     (if ps = 0 \<or> pc = 0
      then Inl (Err (InvalidInput ''page_size and page_count must be non-zero''))
      else if layers = []
      then Inl (Err (InvalidInput ''overlay backend requires at least one layer''))
      else case check_layers (bitmap_words pc) layers of
        Inl e \<Rightarrow> Inl e
      | Inr _ \<Rightarrow> rebuild_merged_bitmap \<lparr>ob_page_size = ps, ob_page_count = pc, ob_layers = layers,
             ob_merged_bitmap = replicate (unat (bitmap_words pc)) 0\<rparr>)"
  by (auto simp: overlay_new_def Let_def bindE_def)

lemma rebuild_merged_bitmap_wf:
  assumes "ps \<noteq> 0" and "pc \<noteq> 0" and "layers \<noteq> []" and "layers_ok pc layers"
  obtains ob where
    "rebuild_merged_bitmap \<lparr>ob_page_size = ps, ob_page_count = pc, ob_layers = layers,
       ob_merged_bitmap = replicate (unat (bitmap_words pc)) 0\<rparr> = Inr ob"
    "overlay_wf ob" "ob_page_size ob = ps" "ob_page_count ob = pc" "ob_layers ob = layers"
proof -
  let ?n = "unat (bitmap_words pc)"
  have "?n < 2 ^ 64" using unat_lt [of "bitmap_words pc"] by simp
  with merge_layers_spec [of layers ?n "replicate ?n 0"] assms(4) obtain m' where
    "foldE (\<lambda>layer m. merge_layer m layer) layers (replicate ?n 0) = Inr m'" and "length m' = ?n" and
    "\<forall>k < ?n. m' ! k = fold (\<lambda>l w. w OR ly_bitmap l ! k) layers 0"
    by (auto simp: layers_ok_def)
  with assms show ?thesis
    by (intro that [of "\<lparr>ob_page_size = ps, ob_page_count = pc, ob_layers = layers, ob_merged_bitmap = m'\<rparr>"])
      (simp_all add: rebuild_merged_bitmap_def overlay_wf_def map_replicate_const)
qed

text \<open>
  Constructing a backend succeeds exactly for a non-zero geometry and a non-empty
  stack of layers whose bitmaps have the right number of words; it never panics, and the
  backend it returns is well-formed and holds the given geometry and layers.
\<close>

theorem overlay_new_wf:
  "(case overlay_new ps pc layers of
      Inr ob \<Rightarrow> overlay_wf ob \<and> ob_page_size ob = ps \<and> ob_page_count ob = pc \<and> ob_layers ob = layers
    | Inl e \<Rightarrow> e \<noteq> Panic) \<and>
   ((\<exists>ob. overlay_new ps pc layers = Inr ob) \<longleftrightarrow>
      ps \<noteq> 0 \<and> pc \<noteq> 0 \<and> layers \<noteq> [] \<and> layers_ok pc layers)"
proof (cases "ps = 0 \<or> pc = 0 \<or> layers = []")
  case True
  then show ?thesis by (auto simp: overlay_new_cases)
next
  case nz: False
  show ?thesis
  proof (cases "layers_ok pc layers")
    case True
    then have c: "check_layers (bitmap_words pc) layers = Inr ()"
      by (simp add: check_layers_Inr layers_ok_def)
    from nz have "ps \<noteq> 0" "pc \<noteq> 0" "layers \<noteq> []" by auto
    from rebuild_merged_bitmap_wf [OF this True] obtain ob where
      "rebuild_merged_bitmap \<lparr>ob_page_size = ps, ob_page_count = pc, ob_layers = layers,
         ob_merged_bitmap = replicate (unat (bitmap_words pc)) 0\<rparr> = Inr ob"
      and "overlay_wf ob" "ob_page_size ob = ps" "ob_page_count ob = pc" "ob_layers ob = layers" .
    with c nz True show ?thesis by (simp add: overlay_new_cases)
  next
    case False
    then have "check_layers (bitmap_words pc) layers \<noteq> Inr ()"
      by (auto simp: check_layers_Inr layers_ok_def)
    then obtain e where "check_layers (bitmap_words pc) layers = Inl e"
      by (metis (full_types) old.unit.exhaust sum.exhaust)
    with nz False check_layers_not_panic show ?thesis by (fastforce simp: overlay_new_cases)
  qed
qed

section \<open>Locating and reading pages\<close>

lemma fold_or_bit:
  "bit (fold (\<lambda>l m. m OR ly_bitmap l ! k) layers w) n \<longleftrightarrow>
     bit w n \<or> (\<exists>l \<in> set layers. bit (ly_bitmap l ! k) n)"
  by (induction layers arbitrary: w) (auto simp: bit_or_iff)

lemma page_in_words: "i < pc \<Longrightarrow> unat (i div 64) < unat (bitmap_words pc)"
  using bitmap_words_room [of pc] by (simp add: word_less_nat_alt unat_div_word)

lemma layer_bitmap_get:
  "layers_ok pc layers \<Longrightarrow> l \<in> set layers \<Longrightarrow> i < pc \<Longrightarrow> bitmap_get (ly_bitmap l) i = Inr (layer_has l i)"
  by (simp add: bitmap_get_eq bit_index_in_room page_in_words layers_ok_def layer_has_def)

lemma find_layer_eq:
  assumes "layers_ok pc layers" and "i < pc" and "set ls \<subseteq> set layers"
  shows "find_layer ls i = Inr (find (\<lambda>l. layer_has l i) ls)"
  using assms(3) by (induction ls) (auto simp: layer_bitmap_get [OF assms(1) _ assms(2)])

lemma find_top_layer:
  "overlay_wf ob \<Longrightarrow> i < ob_page_count ob \<Longrightarrow>
     find_layer (rev (ob_layers ob)) i = Inr (top_layer (ob_layers ob) i)"
  by (auto simp: overlay_wf_def top_layer_def intro: find_layer_eq)

lemma top_layer_iff: "(\<exists>l. top_layer layers i = Some l) \<longleftrightarrow> (\<exists>l \<in> set layers. layer_has l i)"
  by (metis find_None_iff2 not_None_eq set_rev top_layer_def)

lemma merged_bitmap_get:
  assumes "overlay_wf ob" and "i < ob_page_count ob"
  shows "bitmap_get (ob_merged_bitmap ob) i = Inr (\<exists>l \<in> set (ob_layers ob). layer_has l i)"
  using assms page_in_words [OF assms(2)]
  by (simp add: overlay_wf_def bitmap_get_eq bit_index_in_room fold_or_bit layer_has_def)

lemma overlay_locate_eq:
  "overlay_wf ob \<Longrightarrow> i < ob_page_count ob \<Longrightarrow> overlay_locate ob i =
    (case top_layer (ob_layers ob) i of
       Some l \<Rightarrow> Inr \<lparr>pl_layer_name = ly_name l, pl_offset = i * ob_page_size ob\<rparr>
     | None \<Rightarrow> Inl (Err (InvalidInput (''page '' @ show_dec (unat i) @ '' has no backend layer''))))"
  by (simp add: overlay_locate_def find_top_layer flip: not_less split: option.splits)

text \<open>
  On a well-formed backend, \<open>locate\<close> finds a page exactly when its bit in the
  merged bitmap is set, and then the location is the page's offset in the topmost layer that
  holds the page.
\<close>

theorem overlay_locate_top_layer:
  assumes "overlay_wf ob" and "i < ob_page_count ob"
  shows "overlay_locate ob i = Inr loc \<longleftrightarrow>
    bitmap_get (ob_merged_bitmap ob) i = (Inr True :: (error, bool) outcome) \<and>
    (\<exists>l. top_layer (ob_layers ob) i = Some l \<and>
       loc = \<lparr>pl_layer_name = ly_name l, pl_offset = i * ob_page_size ob\<rparr>)"
  using top_layer_iff [of "ob_layers ob" i]
  by (auto simp: overlay_locate_eq [OF assms] merged_bitmap_get [OF assms] split: option.splits)

text \<open>The bytes that the abstract overlay holds for a page.\<close>

definition overlay_page :: "overlay_backend \<Rightarrow> (fd \<Rightarrow> bytes) \<Rightarrow> usize \<Rightarrow> bytes option" where
  "overlay_page ob files i =
     (case top_layer (ob_layers ob) i of
        None \<Rightarrow> None
      | Some l \<Rightarrow>
          (let bs = take (unat (ob_page_size ob)) (drop (unat i * unat (ob_page_size ob)) (files (ly_file l)))
           in if length bs = unat (ob_page_size ob) then Some bs else None))"

lemma overlay_read_spec:
  assumes "overlay_wf ob" and "i < ob_page_count ob"
    and "unat (ob_page_count ob) * unat (ob_page_size ob) < 2 ^ 64"
    and "pread_ok K content pending"
  shows "\<exists>res w'. overlay_read_page K ob i (unat (ob_page_size ob)) w = Some (res, w') \<and>
    content w' = content w \<and> res \<noteq> Inl Panic \<and>
    (\<forall>loc bs. res = Inr (loc, bs) \<longrightarrow>
       overlay_page ob (content w) i = Some bs \<and> overlay_locate ob i = Inr loc)"
proof -
  let ?ps = "ob_page_size ob"
  have "(unat i + 1) * unat ?ps \<le> unat (ob_page_count ob) * unat ?ps"
    using assms(2) by (intro mult_le_mono1) (simp add: word_less_nat_alt)
  with assms(3) have fits: "unat i * unat ?ps + unat ?ps < 2 ^ 64" by simp
  then have off: "unat (i * ?ps) = unat i * unat ?ps" by (intro unat_mult_nowrap) simp
  show ?thesis
  proof (cases "top_layer (ob_layers ob) i")
    case None
    with assms show ?thesis by (simp add: overlay_read_page_def find_top_layer flip: not_less)
  next
    case (Some l)
    from pread_exact_spec [OF assms(4), of "i * ?ps" "unat ?ps" "ly_file l" w] fits off
    obtain res w' where r: "pread_exact K (ly_file l) (unat ?ps) (i * ?ps) w = Some (res, w')"
      and c: "content w' = content w"
      and e: "\<forall>e. res = Inl e \<longrightarrow> (\<exists>io. e = Err (Io io))"
      and bs: "\<forall>bs. res = Inr bs \<longrightarrow>
        bs = take (unat ?ps) (drop (unat i * unat ?ps) (content w (ly_file l))) \<and> length bs = unat ?ps"
      by auto
    from assms Some r have eq: "overlay_read_page K ob i (unat ?ps) w =
      run_bind (Some (res, w')) (\<lambda>dst. run_ret (\<lparr>pl_layer_name = ly_name l, pl_offset = i * ?ps\<rparr>, dst))"
      by (simp add: overlay_read_page_def find_top_layer flip: not_less)
    show ?thesis
    proof (cases res)
      case (Inl e')
      with eq c e show ?thesis by auto
    next
      case (Inr b)
      with eq c bs Some overlay_locate_eq [OF assms(1,2)] show ?thesis
        by (auto simp: overlay_page_def Let_def)
    qed
  qed
qed


lemma overlay_read_frame:
  assumes "\<And>fd n off w. f (snd (snd (k_pread K fd n off w))) = f w"
    and "overlay_read_page K ob i n w = Some (r, w')"
  shows "f w' = f w"
  using assms(2) pread_exact_frame [of f K, OF assms(1)]
  by (auto simp: overlay_read_page_def Let_def run_bind_def split: if_splits option.splits sum.splits)

end
