(* ===== verification/Template_Client.thy ===== *)
theory Template_Client
  imports Overlay
begin

unbundle bit_operations_syntax

text \<open>
  The template service and the client of \<^verbatim>\<open>src/uffd-cow-gpt/src/lib.rs\<close>: the shared page
  metadata, the set-up of the shared region and of a client, the handling of missing-page and
  write-protect faults, the fault-handler loop and the checkpoint. The state that a client
  thread reads and writes is the record \<open>sys\<close>: the shared metadata (which other clients
  change too), the private metadata, the stop flag and the world of the kernel.
\<close>

section \<open>Page states and metadata\<close>

definition STATE_UNLOADED :: u8 where "STATE_UNLOADED = 0"
definition STATE_LOADING :: u8 where "STATE_LOADING = 1"
definition STATE_SHARED_READY :: u8 where "STATE_SHARED_READY = 2"

lemmas state_defs = STATE_UNLOADED_def STATE_LOADING_def STATE_SHARED_READY_def

datatype template_page_state = Unloaded | Loading | SharedReady | Unknown u8

definition from_raw :: "u8 \<Rightarrow> template_page_state" where
  "from_raw raw =
     (if raw = STATE_UNLOADED then Unloaded
      else if raw = STATE_LOADING then Loading
      else if raw = STATE_SHARED_READY then SharedReady
      else Unknown raw)"

record template_page_meta =
  tpm_state :: u8
  tpm_backend_offset :: u64

definition sizeof_template_page_meta :: usize where
  "sizeof_template_page_meta = 16"

record shared_meta_view =
  sv_addr :: u64
  sv_len :: usize

record shared_meta_mapping =
  sm_view :: shared_meta_view
  sm_bytes :: usize

record proc_page_meta =
  pm_is_private :: bool
  pm_dirty :: bool

definition proc_page_meta_new :: proc_page_meta where
  "proc_page_meta_new = \<lparr>pm_is_private = False, pm_dirty = False\<rparr>"

record 'w sys =
  sy_meta :: "template_page_meta list"
  sy_proc :: "proc_page_meta list"
  sy_stop :: bool
  sy_world :: 'w

definition on_world :: "('w \<Rightarrow> ('e, 'a, 'w) run) \<Rightarrow> 'w sys \<Rightarrow> ('e, 'a, 'w sys) run" where
  "on_world m s =
     (case m (sy_world s) of None \<Rightarrow> None | Some (r, w) \<Rightarrow> Some (r, s\<lparr>sy_world := w\<rparr>))"

definition on_world_io :: "('w \<Rightarrow> (io_error, 'a, 'w) run) \<Rightarrow> 'w sys \<Rightarrow> (error, 'a, 'w sys) run" where
  "on_world_io m = on_world (\<lambda>w. map_err Io (m w))"

text \<open>The accessors of the shared metadata; \<open>get\<close> asserts the index once.\<close>

definition meta_get :: "shared_meta_view \<Rightarrow> usize \<Rightarrow> 'w sys \<Rightarrow> (error, unit, 'w sys) run" where
  "meta_get view page_idx s = (if page_idx < sv_len view then run_ret () s else run_panic s)"

definition meta_load :: "usize \<Rightarrow> 'w sys \<Rightarrow> u8" where
  "meta_load page_idx s = tpm_state (sy_meta s ! unat page_idx)"

definition meta_store :: "usize \<Rightarrow> u8 \<Rightarrow> 'w sys \<Rightarrow> 'w sys" where
  "meta_store page_idx st s =
     s\<lparr>sy_meta := (sy_meta s)[unat page_idx := (sy_meta s ! unat page_idx)\<lparr>tpm_state := st\<rparr>]\<rparr>"

definition meta_compare_exchange :: "usize \<Rightarrow> u8 \<Rightarrow> u8 \<Rightarrow> 'w sys \<Rightarrow> (u8 + u8) \<times> 'w sys" where
  "meta_compare_exchange page_idx current new s =
     (let old = meta_load page_idx s
      in if old = current then (Inr old, meta_store page_idx new s) else (Inl old, s))"

section \<open>The template service\<close>

definition shared_meta_new ::
  "'w kernel \<Rightarrow> usize \<Rightarrow> usize \<Rightarrow> 'w sys \<Rightarrow> (error, shared_meta_mapping, 'w sys) run" where
  "shared_meta_new K page_count page_size s =
     (case checked_mul page_count sizeof_template_page_meta of
        None \<Rightarrow> run_err (InvalidInput ''metadata mapping size overflow'') s
      | Some bytes \<Rightarrow>
          (case k_mmap K 0 bytes (PROT_READ OR PROT_WRITE) (MAP_SHARED OR MAP_ANONYMOUS) (-1) 0 (sy_world s)
           of (ptr, w) \<Rightarrow>
             if is_map_failed ptr
             then run_err (last_os_error K ''mmap shared metadata'' w) (s\<lparr>sy_world := w\<rparr>)
             else run_ret \<lparr>sm_view = \<lparr>sv_addr = ptr, sv_len = page_count\<rparr>, sm_bytes = bytes\<rparr>
               (s\<lparr>sy_world := w,
                  sy_meta := map (\<lambda>idx. \<lparr>tpm_state = STATE_UNLOADED, tpm_backend_offset = idx * page_size\<rparr>)
                    (range_w 0 page_count)\<rparr>)))"

record template_service =
  ts_page_size :: usize
  ts_page_count :: usize
  ts_region_size :: usize
  ts_memfd :: fd
  ts_meta :: shared_meta_mapping
  ts_backend :: overlay_backend

definition template_service_new ::
  "'w kernel \<Rightarrow> usize \<Rightarrow> overlay_backend \<Rightarrow> 'w sys \<Rightarrow> (error, template_service, 'w sys) run" where
  "template_service_new K region_size backend s =
     run_bind (on_world (sys_page_size K) s) (\<lambda>page_size s.
       if region_size mod page_size \<noteq> 0
       then run_err (InvalidInput ''region size must be page aligned'') s
       else let page_count = region_size div page_size in
         if ob_page_size backend \<noteq> page_size \<or> ob_page_count backend \<noteq> page_count
         then run_err (InvalidInput (''backend geometry mismatch: backend='' @
             show_dec (unat (ob_page_count backend)) @ ''x'' @ show_dec (unat (ob_page_size backend)) @
             '', region='' @ show_dec (unat page_count) @ ''x'' @ show_dec (unat page_size))) s
         else run_bind (on_world (memfd_create K ''template-memory'') s) (\<lambda>memfd s.
           run_bind (on_world (ftruncate_fd K memfd region_size) s) (\<lambda>_ s.
           run_bind (shared_meta_new K page_count page_size s) (\<lambda>meta s.
             run_ret \<lparr>ts_page_size = page_size, ts_page_count = page_count,
               ts_region_size = region_size, ts_memfd = memfd, ts_meta = meta,
               ts_backend = backend\<rparr> s))))"

definition ts_page_state :: "template_service \<Rightarrow> usize \<Rightarrow> 'w sys \<Rightarrow> (error, template_page_state, 'w sys) run" where
  "ts_page_state ts page_idx s =
     run_bind (meta_get (sm_view (ts_meta ts)) page_idx s) (\<lambda>_ s.
       run_ret (from_raw (meta_load page_idx s)) s)"

record template_mapping =
  tm_ptr :: u64
  tm_len :: usize

definition map_client_region ::
  "'w kernel \<Rightarrow> template_service \<Rightarrow> 'w sys \<Rightarrow> (error, template_mapping, 'w sys) run" where
  "map_client_region K ts s =
     (case k_mmap K 0 (ts_region_size ts) (PROT_READ OR PROT_WRITE) MAP_SHARED (ts_memfd ts) 0 (sy_world s)
      of (ptr, w) \<Rightarrow>
        if is_map_failed ptr
        then run_err (last_os_error K ''mmap template memfd'' w) (s\<lparr>sy_world := w\<rparr>)
        else run_ret \<lparr>tm_ptr = ptr, tm_len = ts_region_size ts\<rparr> (s\<lparr>sy_world := w\<rparr>))"

section \<open>The client\<close>

record client_inner =
  ci_uffd :: fd
  ci_base_addr :: usize
  ci_region_size :: usize
  ci_page_size :: usize
  ci_page_count :: usize
  ci_meta :: shared_meta_view
  ci_backend :: overlay_backend

definition client_new ::
  "'w kernel \<Rightarrow> template_service \<Rightarrow> u64 \<Rightarrow> 'w sys \<Rightarrow> (error, client_inner, 'w sys) run" where
  "client_new K service base s =
     run_bind (on_world (create_userfaultfd K) s) (\<lambda>uffd s.
     run_bind (on_world (register_uffd K uffd base (ts_region_size service)
         (UFFDIO_REGISTER_MODE_MISSING OR UFFDIO_REGISTER_MODE_WP)) s) (\<lambda>ioctls s.
     run_bind (run_lift (ensure_ioctl ioctls ioctl_bit_COPY ''UFFDIO_COPY'') s) (\<lambda>_ s.
     run_bind (run_lift (ensure_ioctl ioctls ioctl_bit_WAKE ''UFFDIO_WAKE'') s) (\<lambda>_ s.
     run_bind (run_lift (ensure_ioctl ioctls ioctl_bit_WRITEPROTECT ''UFFDIO_WRITEPROTECT'') s) (\<lambda>_ s.
       run_ret
         \<lparr>ci_uffd = uffd, ci_base_addr = base, ci_region_size = ts_region_size service,
          ci_page_size = ts_page_size service, ci_page_count = ts_page_count service,
          ci_meta = sm_view (ts_meta service), ci_backend = ts_backend service\<rparr>
         (s\<lparr>sy_proc := replicate (unat (ts_page_count service)) proc_page_meta_new,
            sy_stop := False\<rparr>))))))"

definition page_index_from_addr :: "client_inner \<Rightarrow> usize \<Rightarrow> (error, usize) outcome" where
  "page_index_from_addr c fault_addr =
     (if fault_addr < ci_base_addr c \<or> fault_addr \<ge> ci_base_addr c + ci_region_size c
      then Inl (Err (InvalidInput (''fault outside client range: '' @ hex0x fault_addr)))
      else Inr ((fault_addr - ci_base_addr c) div ci_page_size c))"

definition page_start :: "client_inner \<Rightarrow> usize \<Rightarrow> usize" where
  "page_start c addr = addr AND NOT (ci_page_size c - 1)"

definition mark_private_dirty :: "usize \<Rightarrow> 'w sys \<Rightarrow> (error, unit, 'w sys) run" where
  "mark_private_dirty page_idx s =
     run_bind (run_lift (index (sy_proc s) page_idx) s) (\<lambda>pm s.
       run_ret () (s\<lparr>sy_proc :=
         (sy_proc s)[unat page_idx := pm\<lparr>pm_is_private := True, pm_dirty := True\<rparr>]\<rparr>))"

section \<open>Faults\<close>

text \<open>
  The wait for another loader: \<open>yield\<close> stands for what the rest of the system does while
  this thread yields. The loop returns only if the page becomes ready.
\<close>

partial_function (option) wait_shared_ready ::
  "('w sys \<Rightarrow> 'w sys) \<Rightarrow> usize \<Rightarrow> 'w sys \<Rightarrow> (error, unit, 'w sys) run" where
  "wait_shared_ready yield page_idx s =
     (if meta_load page_idx s \<noteq> STATE_SHARED_READY then wait_shared_ready yield page_idx (yield s)
      else Some (Inr (), s))"

definition load_page ::
  "'w kernel \<Rightarrow> client_inner \<Rightarrow> usize \<Rightarrow> usize \<Rightarrow> 'w sys \<Rightarrow> (error, unit, 'w sys) run" where
  "load_page K c page_idx aligned s =
     run_bind (on_world (overlay_read_page K (ci_backend c) page_idx (unat (ci_page_size c))) s)
       (\<lambda>(_, page) s.
         case on_world_io (uffdio_copy K (ci_uffd c) aligned page (ci_page_size c) UFFDIO_COPY_MODE_WP) s of
           None \<Rightarrow> None
         | Some (Inr _, s) \<Rightarrow> run_ret () (meta_store page_idx STATE_SHARED_READY s)
         | Some (Inl (Err (Io err)), s) \<Rightarrow>
             if raw_os_error err = Some EEXIST
             then run_bind (on_world_io (uffdio_wake K (ci_uffd c) aligned (ci_page_size c)) s)
               (\<lambda>_ s. run_ret () (meta_store page_idx STATE_SHARED_READY s))
             else run_err (Io err) s
         | Some (Inl e, s) \<Rightarrow> Some (Inl e, s))"

definition handle_missing_fault ::
  "'w kernel \<Rightarrow> ('w sys \<Rightarrow> 'w sys) \<Rightarrow> client_inner \<Rightarrow> usize \<Rightarrow> 'w sys \<Rightarrow> (error, unit, 'w sys) run" where
  "handle_missing_fault K yield c fault_addr s =
     run_bind (run_lift (page_index_from_addr c fault_addr) s) (\<lambda>page_idx s.
       let aligned = page_start c fault_addr;
           wake = on_world_io (uffdio_wake K (ci_uffd c) aligned (ci_page_size c))
       in run_bind (meta_get (ci_meta c) page_idx s) (\<lambda>_ s.
         case meta_compare_exchange page_idx STATE_UNLOADED STATE_LOADING s of
           (Inr _, s) \<Rightarrow> load_page K c page_idx aligned s
         | (Inl actual, s) \<Rightarrow>
             if actual = STATE_LOADING
             then run_bind (wait_shared_ready yield page_idx s) (\<lambda>_ s. wake s)
             else if actual = STATE_SHARED_READY then wake s
             else run_err (Kernel (''unexpected template page state '' @ show_dec (unat actual) @
               '' for page '' @ show_dec (unat page_idx))) s))"

definition handle_wp_fault ::
  "'w kernel \<Rightarrow> client_inner \<Rightarrow> usize \<Rightarrow> 'w sys \<Rightarrow> (error, unit, 'w sys) run" where
  "handle_wp_fault K c fault_addr s =
     run_bind (run_lift (page_index_from_addr c fault_addr) s) (\<lambda>page_idx s.
       let aligned = page_start c fault_addr in
       case k_mmap K 0 (ci_page_size c) (PROT_READ OR PROT_WRITE) (MAP_PRIVATE OR MAP_ANONYMOUS) (-1) 0
           (sy_world s) of (snapshot, w) \<Rightarrow>
         if is_map_failed snapshot
         then run_err (last_os_error K ''mmap snapshot page'' w) (s\<lparr>sy_world := w\<rparr>)
         else let w = k_store K snapshot (k_load K aligned (unat (ci_page_size c)) w) w in
           run_bind (on_world_io (uffdio_writeprotect K (ci_uffd c) aligned (ci_page_size c)
               UFFDIO_WRITEPROTECT_MODE_DONTWAKE) (s\<lparr>sy_world := w\<rparr>)) (\<lambda>_ s.
             case k_mmap K aligned (ci_page_size c) (PROT_READ OR PROT_WRITE)
                 (MAP_PRIVATE OR MAP_ANONYMOUS OR MAP_FIXED) (-1) 0 (sy_world s) of (private_page, w) \<Rightarrow>
               if is_map_failed private_page
               then (case k_munmap K snapshot (ci_page_size c) w of (_, w) \<Rightarrow>
                 run_err (last_os_error K ''mmap private page over shared mapping'' w) (s\<lparr>sy_world := w\<rparr>))
               else let w = k_store K private_page (k_load K snapshot (unat (ci_page_size c)) w) w in
                 (case k_munmap K snapshot (ci_page_size c) w of (_, w) \<Rightarrow>
                   run_bind (mark_private_dirty page_idx (s\<lparr>sy_world := w\<rparr>)) (\<lambda>_ s.
                     on_world_io (uffdio_wake K (ci_uffd c) aligned (ci_page_size c)) s))))"

section \<open>The fault-handler loop\<close>

text \<open>
  One turn of \<open>fault_handler_main\<close>: \<open>Inr False\<close> is its normal return, \<open>Inr True\<close> a
  \<open>continue\<close> or the end of the loop body.
\<close>

definition fault_handler_turn ::
  "'w kernel \<Rightarrow> ('w sys \<Rightarrow> 'w sys) \<Rightarrow> client_inner \<Rightarrow> 'w sys \<Rightarrow> (error, bool, 'w sys) run" where
  "fault_handler_turn K yield c s =
     (if sy_stop s then run_ret False s
      else case k_poll K (ci_uffd c) POLLIN 100 (sy_world s) of (ready, revents, w) \<Rightarrow>
        let s = s\<lparr>sy_world := w\<rparr> in
        if ready < 0
        then (if k_errno K w = EINTR then run_ret True s
              else if k_errno K w = EBADF \<and> sy_stop s then run_ret False s
              else run_err (Io (Os (k_errno K w))) s)
        else if ready = 0 \<or> revents AND POLLIN = 0 then run_ret True s
        else case k_read K (ci_uffd c) sizeof_uffd_msg (sy_world s) of (nread, buf, w) \<Rightarrow>
          let s = s\<lparr>sy_world := w\<rparr> in
          if nread < 0
          then (if k_errno K w = EAGAIN \<or> k_errno K w = EINTR then run_ret True s
                else if k_errno K w = EBADF \<and> sy_stop s then run_ret False s
                else run_err (Io (Os (k_errno K w))) s)
          else if nat nread \<noteq> sizeof_uffd_msg
          then run_err (Kernel (''short read from userfaultfd: '' @ show_int nread)) s
          else let msg = uffd_msg_of_bytes buf in
            if msg_event msg \<noteq> UFFD_EVENT_PAGEFAULT then run_ret True s
            else if msg_pf_flags msg AND UFFD_PAGEFAULT_FLAG_WP \<noteq> 0
            then run_bind (handle_wp_fault K c (msg_pf_address msg) s) (\<lambda>_. run_ret True)
            else run_bind (handle_missing_fault K yield c (msg_pf_address msg) s) (\<lambda>_. run_ret True))"

partial_function (option) fault_handler_main ::
  "'w kernel \<Rightarrow> ('w sys \<Rightarrow> 'w sys) \<Rightarrow> client_inner \<Rightarrow> 'w sys \<Rightarrow> (error, unit, 'w sys) run" where
  "fault_handler_main K yield c s =
     (case fault_handler_turn K yield c s of
        None \<Rightarrow> None
      | Some (Inl e, s) \<Rightarrow> Some (Inl e, s)
      | Some (Inr continue, s) \<Rightarrow>
          if continue then fault_handler_main K yield c s else Some (Inr (), s))"

text \<open>
  \<open>stop_handler\<close> raises the stop flag and joins the thread, if one was started; the
  argument \<open>handler\<close> is the rest of the thread's run.
\<close>

definition stop_handler ::
  "('w sys \<Rightarrow> (error, unit, 'w sys) run) option \<Rightarrow> 'w sys \<Rightarrow> (error, unit, 'w sys) run" where
  "stop_handler handler s =
     (let s = s\<lparr>sy_stop := True\<rparr> in
      case handler of
        None \<Rightarrow> run_ret () s
      | Some thread_join \<Rightarrow>
          (case thread_join s of
             None \<Rightarrow> None
           | Some (Inr _, s) \<Rightarrow> run_ret () s
           | Some (Inl (Err err), s) \<Rightarrow> run_err err s
           | Some (Inl Panic, s) \<Rightarrow> run_err (Thread ''fault handler thread panicked'') s))"

section \<open>Checkpoints\<close>

record dirty_page =
  dp_page_idx :: usize
  dp_data :: bytes

record checkpoint =
  ck_dirty_pages :: "dirty_page list"
  ck_private_bitmap :: "u64 list"
  ck_merged_backend_bitmap :: "u64 list"

definition dirty_bitmap :: "client_inner \<Rightarrow> 'w sys \<Rightarrow> (error, u64 list) outcome" where
  "dirty_bitmap c s =
     foldE (\<lambda>page_idx bitmap. bindE (index (sy_proc s) page_idx) (\<lambda>pm.
         if pm_dirty pm then bitmap_set bitmap page_idx else Inr bitmap))
       (range_w 0 (ci_page_count c))
       (replicate (unat (bitmap_words (ci_page_count c))) 0)"

definition checkpoint_export :: "'w kernel \<Rightarrow> client_inner \<Rightarrow> 'w sys \<Rightarrow> (error, checkpoint) outcome" where
  "checkpoint_export K c s =
     bindE (foldE (\<lambda>page_idx (dirty_pages, private_bitmap).
         bindE (index (sy_proc s) page_idx) (\<lambda>pm.
           if \<not> pm_dirty pm then Inr (dirty_pages, private_bitmap)
           else bindE (bitmap_set private_bitmap page_idx) (\<lambda>private_bitmap.
             let page_addr = ci_base_addr c + page_idx * ci_page_size c;
                 data = k_load K page_addr (unat (ci_page_size c)) (sy_world s)
             in Inr (dirty_pages @ [\<lparr>dp_page_idx = page_idx, dp_data = data\<rparr>], private_bitmap))))
       (range_w 0 (ci_page_count c))
       ([], replicate (unat (bitmap_words (ci_page_count c))) 0))
     (\<lambda>(dirty_pages, private_bitmap).
       Inr \<lparr>ck_dirty_pages = dirty_pages, ck_private_bitmap = private_bitmap,
            ck_merged_backend_bitmap = ob_merged_bitmap (ci_backend c)\<rparr>)"

section \<open>Geometry\<close>

definition page_addr :: "client_inner \<Rightarrow> usize \<Rightarrow> usize" where
  "page_addr c i = ci_base_addr c + i * ci_page_size c"

text \<open>
  The geometry of a client: a power-of-two page size, a page-aligned region of whole pages that
  does not wrap around the address space.
\<close>

definition client_geom :: "client_inner \<Rightarrow> bool" where
  "client_geom c \<longleftrightarrow>
     (\<exists>k < 64. ci_page_size c = 2 ^ k) \<and>
     unat (ci_base_addr c) mod unat (ci_page_size c) = 0 \<and>
     unat (ci_region_size c) = unat (ci_page_count c) * unat (ci_page_size c) \<and>
     unat (ci_base_addr c) + unat (ci_region_size c) < 2 ^ 64"

definition client_wf :: "client_inner \<Rightarrow> 'w sys \<Rightarrow> bool" where
  "client_wf c s \<longleftrightarrow> client_geom c \<and>
     sv_len (ci_meta c) = ci_page_count c \<and>
     length (sy_meta s) = unat (ci_page_count c) \<and>
     length (sy_proc s) = unat (ci_page_count c) \<and>
     overlay_wf (ci_backend c) \<and>
     ob_page_size (ci_backend c) = ci_page_size c \<and>
     ob_page_count (ci_backend c) = ci_page_count c"

lemma client_geom_pos: "client_geom c \<Longrightarrow> 0 < unat (ci_page_size c)"
  by (auto simp: client_geom_def unat_pow2)

lemma page_offset_bound:
  assumes "client_geom c" and "i < ci_page_count c"
  shows "unat i * unat (ci_page_size c) + unat (ci_page_size c) \<le> unat (ci_region_size c)"
proof -
  have "(unat i + 1) * unat (ci_page_size c) \<le> unat (ci_page_count c) * unat (ci_page_size c)"
    using assms(2) by (intro mult_le_mono1) (simp add: word_less_nat_alt)
  then show ?thesis using assms(1) by (simp add: client_geom_def)
qed

lemma unat_page_addr:
  assumes "client_geom c" and "i < ci_page_count c"
  shows "unat (page_addr c i) = unat (ci_base_addr c) + unat i * unat (ci_page_size c)"
proof -
  have b: "unat (ci_base_addr c) + unat (ci_region_size c) < 2 ^ 64"
    using assms by (simp add: client_geom_def)
  with page_offset_bound [OF assms]
  have "unat (i * ci_page_size c) = unat i * unat (ci_page_size c)"
    by (intro unat_mult_nowrap) simp
  with b page_offset_bound [OF assms] show ?thesis
    unfolding page_addr_def by (subst unat_add_nowrap) simp_all
qed

lemma page_index_Inr:
  assumes "client_geom c" and "page_index_from_addr c addr = Inr i"
  shows "i < ci_page_count c" and "page_start c addr = page_addr c i"
    and "unat (page_addr c i) \<le> unat addr" and "unat addr < unat (page_addr c i) + unat (ci_page_size c)"
proof -
  let ?b = "unat (ci_base_addr c)" and ?r = "unat (ci_region_size c)" and ?p = "unat (ci_page_size c)"
  obtain k where k: "k < 64" "ci_page_size c = 2 ^ k" using assms(1) by (auto simp: client_geom_def)
  have p: "0 < ?p" "?p = 2 ^ k" using client_geom_pos [OF assms(1)] k by (simp_all add: unat_pow2)
  have end_r: "unat (ci_base_addr c + ci_region_size c) = ?b + ?r"
    using assms(1) by (simp add: client_geom_def unat_add_nowrap)
  have lo: "?b \<le> unat addr" and hi: "unat addr < ?b + ?r"
    and i: "unat i = (unat addr - ?b) div ?p"
    using assms(2) end_r
    by (auto simp: page_index_from_addr_def unat_div_word unat_sub word_le_nat_alt word_less_nat_alt
        not_less not_le split: if_splits)
  have "(unat addr - ?b) div ?p < unat (ci_page_count c)"
    using lo hi assms(1) p(1) by (simp add: client_geom_def less_mult_imp_div_less)
  with i show ipc: "i < ci_page_count c" by (simp add: word_less_nat_alt)
  note pa = unat_page_addr [OF assms(1) ipc]
  have base: "?b mod ?p = 0" using assms(1) by (simp add: client_geom_def)
  define d where "d = unat addr - ?b"
  have addr: "unat addr = ?b + d" using lo by (simp add: d_def)
  have md: "unat addr mod ?p = d mod ?p" using base addr by (simp add: mod_add_eq [symmetric])
  have dd: "d = unat i * ?p + d mod ?p" using i by (simp add: d_def)
  have eq: "unat addr - unat addr mod ?p = unat (page_addr c i)"
    using addr md dd pa by simp
  then show "page_start c addr = page_addr c i"
    using unat_align_down [of addr k] p(2) by (simp add: word_unat_eq_iff page_start_def k(2))
  show "unat (page_addr c i) \<le> unat addr" using eq by simp
  show "unat addr < unat (page_addr c i) + ?p" using eq mod_less_divisor [OF p(1), of "unat addr"]
    by linarith
qed

section \<open>The memory contract of the kernel\<close>

definition disjoint_ranges :: "u64 \<Rightarrow> nat \<Rightarrow> u64 \<Rightarrow> nat \<Rightarrow> bool" where
  "disjoint_ranges a n b m \<longleftrightarrow> unat a + n \<le> unat b \<or> unat b + m \<le> unat a"

definition range_within :: "u64 \<Rightarrow> nat \<Rightarrow> u64 \<Rightarrow> nat \<Rightarrow> bool" where
  "range_within a n b m \<longleftrightarrow> unat b \<le> unat a \<and> unat a + n \<le> unat b + m"

text \<open>
  Plain memory: a store is read back and touches nothing else.
\<close>

definition store_ok :: "'w kernel \<Rightarrow> bool" where
  "store_ok K \<longleftrightarrow>
     (\<forall>a n w. length (k_load K a n w) = n) \<and>
     (\<forall>a bs w. k_load K a (length bs) (k_store K a bs w) = bs) \<and>
     (\<forall>a bs b m w. disjoint_ranges a (length bs) b m \<longrightarrow>
        k_load K b m (k_store K a bs w) = k_load K b m w)"

text \<open>
  What \<open>mmap(2)\<close>, \<open>munmap(2)\<close> and \<open>ioctl_userfaultfd(2)\<close> document about the memory of a
  mapped region: a mapping placed by the kernel does not overlap it, a fixed mapping and an
  unmapping affect only their own range, changing write protection and waking threads change no
  byte, and a successful copy request installs its source.
\<close>

definition mmap_ok :: "'w kernel \<Rightarrow> u64 \<Rightarrow> nat \<Rightarrow> bool" where
  "mmap_ok K base sz \<longleftrightarrow>
     (\<forall>len prot flags fd off w r w'. k_mmap K 0 len prot flags fd off w = (r, w') \<longrightarrow>
        \<not> is_map_failed r \<longrightarrow> flags AND MAP_FIXED = 0 \<longrightarrow>
        disjoint_ranges r (unat len) base sz \<and>
        (\<forall>b m. range_within b m base sz \<longrightarrow> k_load K b m w' = k_load K b m w)) \<and>
     (\<forall>a len prot flags fd off w r w'. k_mmap K a len prot flags fd off w = (r, w') \<longrightarrow>
        \<not> is_map_failed r \<longrightarrow> flags AND MAP_FIXED \<noteq> 0 \<longrightarrow>
        r = a \<and> (\<forall>b m. disjoint_ranges a (unat len) b m \<longrightarrow> k_load K b m w' = k_load K b m w)) \<and>
     (\<forall>a len w ret w'. k_munmap K a len w = (ret, w') \<longrightarrow>
        (\<forall>b m. disjoint_ranges a (unat len) b m \<longrightarrow> k_load K b m w' = k_load K b m w))"

definition uffd_ok :: "'w kernel \<Rightarrow> bool" where
  "uffd_ok K \<longleftrightarrow>
     (\<forall>fd req arg w ret arg' w'. k_ioctl K fd req arg w = (ret, arg', w') \<longrightarrow>
        req = UFFDIO_WAKE \<or> req = UFFDIO_WRITEPROTECT \<or> req = UFFDIO_COPY \<and> ret < 0 \<longrightarrow>
        (\<forall>b m. k_load K b m w' = k_load K b m w)) \<and>
     (\<forall>fd cp w ret arg' w'. k_ioctl K fd UFFDIO_COPY (ArgCopy cp) w = (ret, arg', w') \<longrightarrow> 0 \<le> ret \<longrightarrow>
        length (cp_src cp) = unat (cp_len cp) \<longrightarrow>
        k_load K (cp_dst cp) (unat (cp_len cp)) w' = cp_src cp \<and>
        (\<forall>b m. disjoint_ranges (cp_dst cp) (unat (cp_len cp)) b m \<longrightarrow> k_load K b m w' = k_load K b m w))"

text \<open>Reading a file into a buffer of the process's own heap changes no byte of the region.\<close>

definition pread_frame :: "'w kernel \<Rightarrow> bool" where
  "pread_frame K \<longleftrightarrow>
     (\<forall>fd n off w b m. k_load K b m (snd (snd (k_pread K fd n off w))) = k_load K b m w)"

text \<open>The whole contract, for the region of one client.\<close>

definition kernel_ok :: "'w kernel \<Rightarrow> ('w \<Rightarrow> fd \<Rightarrow> bytes) \<Rightarrow> ('w \<Rightarrow> nat) \<Rightarrow> client_inner \<Rightarrow> bool" where
  "kernel_ok K content pending c \<longleftrightarrow>
     pread_ok K content pending \<and> pread_frame K \<and> store_ok K \<and>
     mmap_ok K (ci_base_addr c) (unat (ci_region_size c)) \<and> uffd_ok K"

lemma kernel_okD:
  assumes "kernel_ok K content pending c"
  shows "pread_ok K content pending" "pread_frame K" "store_ok K"
    "mmap_ok K (ci_base_addr c) (unat (ci_region_size c))" "uffd_ok K"
  using assms by (simp_all add: kernel_ok_def)

lemma store_okD:
  assumes "store_ok K"
  shows "length (k_load K a n w) = n" and "length bs = n \<Longrightarrow> k_load K a n (k_store K a bs w) = bs"
    and "disjoint_ranges a (length bs) b m \<Longrightarrow> k_load K b m (k_store K a bs w) = k_load K b m w"
  using assms unfolding store_ok_def by blast+

lemma mmap_okD:
  assumes "mmap_ok K base sz"
  shows "k_mmap K 0 len prot flags fd off w = (r, w') \<Longrightarrow> \<not> is_map_failed r \<Longrightarrow> flags AND MAP_FIXED = 0 \<Longrightarrow>
      disjoint_ranges r (unat len) base sz"
    and "k_mmap K 0 len prot flags fd off w = (r, w') \<Longrightarrow> \<not> is_map_failed r \<Longrightarrow> flags AND MAP_FIXED = 0 \<Longrightarrow>
      range_within b m base sz \<Longrightarrow> k_load K b m w' = k_load K b m w"
    and "k_mmap K a len prot flags fd off w = (r, w') \<Longrightarrow> \<not> is_map_failed r \<Longrightarrow> flags AND MAP_FIXED \<noteq> 0 \<Longrightarrow>
      r = a"
    and "k_mmap K a len prot flags fd off w = (r, w') \<Longrightarrow> \<not> is_map_failed r \<Longrightarrow> flags AND MAP_FIXED \<noteq> 0 \<Longrightarrow>
      disjoint_ranges a (unat len) b m \<Longrightarrow> k_load K b m w' = k_load K b m w"
    and "k_munmap K a len w = (ret, w') \<Longrightarrow> disjoint_ranges a (unat len) b m \<Longrightarrow>
      k_load K b m w' = k_load K b m w"
  using assms unfolding mmap_ok_def by metis+

lemma ioctl_io_Some: "\<exists>r w'. ioctl_io K fd req arg w = Some (r, w') \<and> r \<noteq> Inl Panic"
  by (auto simp: ioctl_io_def split: prod.splits)

lemma ioctl_io_load:
  assumes "uffd_ok K" and "req = UFFDIO_WAKE \<or> req = UFFDIO_WRITEPROTECT"
    and "ioctl_io K fd req arg w = Some (r, w')"
  shows "k_load K b m w' = k_load K b m w"
  using assms unfolding uffd_ok_def ioctl_io_def
  by (auto split: prod.splits if_splits)

definition page_bytes :: "'w kernel \<Rightarrow> client_inner \<Rightarrow> usize \<Rightarrow> 'w sys \<Rightarrow> bytes" where
  "page_bytes K c i s = k_load K (page_addr c i) (unat (ci_page_size c)) (sy_world s)"

lemma pages_disjoint:
  assumes "client_geom c" and "i < ci_page_count c" and "j < ci_page_count c" and "i \<noteq> j"
  shows "disjoint_ranges (page_addr c i) (unat (ci_page_size c)) (page_addr c j) (unat (ci_page_size c))"
proof -
  have "unat i + 1 \<le> unat j \<or> unat j + 1 \<le> unat i"
    using assms(4) by (metis Suc_eq_plus1 Suc_leI linorder_neqE_nat word_unat_eq_iff)
  then have "(unat i + 1) * unat (ci_page_size c) \<le> unat j * unat (ci_page_size c) \<or>
      (unat j + 1) * unat (ci_page_size c) \<le> unat i * unat (ci_page_size c)"
    by (meson mult_le_mono1)
  then show ?thesis
    by (auto simp: disjoint_ranges_def unat_page_addr [OF assms(1,2)] unat_page_addr [OF assms(1,3)])
qed

lemma page_within:
  assumes "client_geom c" and "i < ci_page_count c"
  shows "range_within (page_addr c i) (unat (ci_page_size c)) (ci_base_addr c) (unat (ci_region_size c))"
  using page_offset_bound [OF assms] by (simp add: range_within_def unat_page_addr [OF assms])

lemma disjoint_ranges_within:
  "disjoint_ranges a n b m \<Longrightarrow> range_within d k b m \<Longrightarrow> disjoint_ranges a n d k"
  by (auto simp: disjoint_ranges_def range_within_def)

lemma disjoint_ranges_sym: "disjoint_ranges a n b m \<longleftrightarrow> disjoint_ranges b m a n"
  by (auto simp: disjoint_ranges_def)

lemma on_world_io_wake:
  assumes "uffd_ok K"
  obtains r w' where "on_world_io (uffdio_wake K fd a l) s = Some (r, s\<lparr>sy_world := w'\<rparr>)"
    and "r \<noteq> Inl Panic" and "\<And>b m. k_load K b m w' = k_load K b m (sy_world s)"
proof -
  obtain r w' where "ioctl_io K fd UFFDIO_WAKE (ArgRange \<lparr>ur_start = a, ur_len = l\<rparr>) (sy_world s) = Some (r, w')"
    and "r \<noteq> Inl Panic" using ioctl_io_Some by metis
  with ioctl_io_load [OF assms disjI1 [OF refl] this(1)] show ?thesis
    by (intro that [of "case r of Inl (Err e) \<Rightarrow> Inl (Err (Io e)) | Inl Panic \<Rightarrow> Inl Panic | Inr _ \<Rightarrow> Inr ()" w'])
      (auto simp: on_world_io_def on_world_def uffdio_wake_def map_err_def run_bind_def
        split: sum.splits abort.splits)
qed

lemma on_world_io_writeprotect:
  assumes "uffd_ok K"
  obtains r w' where "on_world_io (uffdio_writeprotect K fd a l mode) s = Some (r, s\<lparr>sy_world := w'\<rparr>)"
    and "r \<noteq> Inl Panic" and "\<And>b m. k_load K b m w' = k_load K b m (sy_world s)"
proof -
  obtain r w' where "ioctl_io K fd UFFDIO_WRITEPROTECT
      (ArgWriteProtect \<lparr>wp_range = \<lparr>ur_start = a, ur_len = l\<rparr>, wp_mode = mode\<rparr>) (sy_world s) = Some (r, w')"
    and "r \<noteq> Inl Panic" using ioctl_io_Some by metis
  with ioctl_io_load [OF assms disjI2 [OF refl] this(1)] show ?thesis
    by (intro that [of "case r of Inl (Err e) \<Rightarrow> Inl (Err (Io e)) | Inl Panic \<Rightarrow> Inl Panic | Inr _ \<Rightarrow> Inr ()" w'])
      (auto simp: on_world_io_def on_world_def uffdio_writeprotect_def map_err_def run_bind_def
        split: sum.splits abort.splits)
qed

lemma mark_pm [simp]:
  "pm\<lparr>pm_is_private := True, pm_dirty := True\<rparr> = \<lparr>pm_is_private = True, pm_dirty = True\<rparr>"
  by (cases pm) simp

lemma map_flags:
  "(MAP_PRIVATE OR MAP_ANONYMOUS) AND MAP_FIXED = 0"
  "(MAP_PRIVATE OR MAP_ANONYMOUS OR MAP_FIXED) AND MAP_FIXED \<noteq> 0"
  by (simp_all add: MAP_PRIVATE_def MAP_ANONYMOUS_def MAP_FIXED_def)

section \<open>Write-protect faults\<close>

text \<open>
  Everything a write-protect fault can do once its address has been accepted: the page index
  and address are those of the faulting page, and the run ends either before the private page
  is in place (private metadata untouched) or after it (page marked, every byte of the region
  as it was).
\<close>

lemma handle_wp_fault_cases:
  assumes wf: "client_wf c s" and ok: "kernel_ok K content pending c"
    and i: "page_index_from_addr c addr = Inr i"
  obtains (early) e s' where "handle_wp_fault K c addr s = Some (Inl (Err e), s')"
      and "sy_proc s' = sy_proc s" and "sy_meta s' = sy_meta s"
  | (late) r s' where "handle_wp_fault K c addr s = Some (r, s')" and "r \<noteq> Inl Panic"
      and "sy_proc s' = (sy_proc s)[unat i := \<lparr>pm_is_private = True, pm_dirty = True\<rparr>]"
      and "sy_meta s' = sy_meta s"
      and "\<And>j. j < ci_page_count c \<Longrightarrow> page_bytes K c j s' = page_bytes K c j s"
proof -
  have geom: "client_geom c" using wf by (simp add: client_wf_def)
  note pg = page_index_Inr [OF geom i] and K = kernel_okD(3-5) [OF ok]
  let ?ps = "ci_page_size c" and ?n = "unat (ci_page_size c)" and ?a = "page_addr c i"
  obtain snap w1 where m1: "k_mmap K 0 ?ps (PROT_READ OR PROT_WRITE) (MAP_PRIVATE OR MAP_ANONYMOUS) (-1) 0
      (sy_world s) = (snap, w1)" by fastforce
  show thesis
  proof (cases "is_map_failed snap")
    case True
    with i m1 have "handle_wp_fault K c addr s =
        Some (Inl (Err (last_os_error K ''mmap snapshot page'' w1)), s\<lparr>sy_world := w1\<rparr>)"
      by (simp add: handle_wp_fault_def Let_def)
    then show thesis by (rule early) simp_all
  next
    case snap: False
    note d1 = mmap_okD(1,2) [OF K(2) m1 snap map_flags(1)]
    define w2 where "w2 = k_store K snap (k_load K ?a ?n w1) w1"
    obtain r3 w3 where wp: "on_world_io (uffdio_writeprotect K (ci_uffd c) ?a ?ps
        UFFDIO_WRITEPROTECT_MODE_DONTWAKE) (s\<lparr>sy_world := w2\<rparr>) = Some (r3, s\<lparr>sy_world := w3\<rparr>)"
      and r3: "r3 \<noteq> Inl Panic" and l3: "\<And>b m. k_load K b m w3 = k_load K b m w2"
      by (rule on_world_io_writeprotect [OF K(3), of "ci_uffd c" ?a ?ps _ "s\<lparr>sy_world := w2\<rparr>"]) auto
    show thesis
    proof (cases r3)
      case (Inl e)
      with r3 obtain e' where "r3 = Inl (Err e')" by (cases e) auto
      with i m1 snap wp have "handle_wp_fault K c addr s = Some (Inl (Err e'), s\<lparr>sy_world := w3\<rparr>)"
        by (simp add: handle_wp_fault_def Let_def pg(2) w2_def)
      then show thesis by (rule early) simp_all
    next
      case (Inr u)
      obtain priv w4 where m4: "k_mmap K ?a ?ps (PROT_READ OR PROT_WRITE)
          (MAP_PRIVATE OR MAP_ANONYMOUS OR MAP_FIXED) (-1) 0 w3 = (priv, w4)" by fastforce
      show thesis
      proof (cases "is_map_failed priv")
        case True
        obtain x w5 where "k_munmap K snap ?ps w4 = (x, w5)" by fastforce
        with i m1 snap wp Inr m4 True have "handle_wp_fault K c addr s =
            Some (Inl (Err (last_os_error K ''mmap private page over shared mapping'' w5)), s\<lparr>sy_world := w5\<rparr>)"
          by (simp add: handle_wp_fault_def Let_def pg(2) w2_def)
        then show thesis by (rule early) simp_all
      next
        case priv: False
        have pa: "priv = ?a" using mmap_okD(3) [OF K(2) m4 priv map_flags(2)] .
        note d4 = mmap_okD(4) [OF K(2) m4 priv map_flags(2)]
        define w5 where "w5 = k_store K ?a (k_load K snap ?n w4) w4"
        obtain x w6 where m6: "k_munmap K snap ?ps w5 = (x, w6)" by fastforce
        let ?pm = "(sy_proc s)[unat i := \<lparr>pm_is_private = True, pm_dirty = True\<rparr>]"
        let ?s6 = "s\<lparr>sy_world := w6, sy_proc := ?pm\<rparr>"
        have mk: "mark_private_dirty i (s\<lparr>sy_world := w6\<rparr>) = Some (Inr (), ?s6)"
          using wf pg(1) by (simp add: mark_private_dirty_def index_def client_wf_def word_less_nat_alt)
        obtain r7 w7 where wk: "on_world_io (uffdio_wake K (ci_uffd c) ?a ?ps) ?s6 = Some (r7, ?s6\<lparr>sy_world := w7\<rparr>)"
          and r7: "r7 \<noteq> Inl Panic" and l7: "\<And>b m. k_load K b m w7 = k_load K b m w6"
          by (rule on_world_io_wake [OF K(3), of "ci_uffd c" ?a ?ps ?s6]) auto
        have run: "handle_wp_fault K c addr s = Some (r7, ?s6\<lparr>sy_world := w7\<rparr>)"
          using i m1 snap wp Inr m4 priv m6 mk wk
          by (simp add: handle_wp_fault_def Let_def pg(2) pa w2_def w5_def)
        have away: "disjoint_ranges snap ?n (page_addr c j) ?n" if "j < ci_page_count c" for j
          using disjoint_ranges_within [OF d1(1) page_within [OF geom that]] .
        have bytes: "k_load K (page_addr c j) ?n w7 = k_load K (page_addr c j) ?n (sy_world s)"
          if j: "j < ci_page_count c" for j
        proof -
          have len: "length (k_load K a ?n w) = ?n" for a w by (rule store_okD(1) [OF K(1)])
          have s2: "k_load K (page_addr c j) ?n w2 = k_load K (page_addr c j) ?n (sy_world s)"
            unfolding w2_def using store_okD(3) [OF K(1)] away [OF j] d1(2) [OF page_within [OF geom j]]
            by (simp add: len)
          have "k_load K (page_addr c j) ?n w5 = k_load K (page_addr c j) ?n (sy_world s)"
          proof (cases "j = i")
            case False
            then show ?thesis unfolding w5_def
              using store_okD(3) [OF K(1)] pages_disjoint [OF geom pg(1) j] d4 s2 by (simp add: len l3)
          next
            case True
            have "k_load K snap ?n w4 = k_load K snap ?n w2"
              using d4 away [OF pg(1)] by (simp add: l3 disjoint_ranges_sym)
            also have "\<dots> = k_load K ?a ?n (sy_world s)"
              unfolding w2_def using store_okD(2) [OF K(1) len] d1(2) [OF page_within [OF geom pg(1)]] by simp
            finally show ?thesis unfolding w5_def True using store_okD(2) [OF K(1) len] by simp
          qed
          then show ?thesis using mmap_okD(5) [OF K(2) m6 away [OF j]] by (simp add: l7)
        qed
        show thesis by (rule late [OF run r7]) (simp_all add: page_bytes_def bytes)
      qed
    qed
  qed
qed


section \<open>Missing-page faults\<close>

lemma meta_simps [simp]:
  "sy_proc (meta_store i st s) = sy_proc s" "sy_stop (meta_store i st s) = sy_stop s"
  "sy_world (meta_store i st s) = sy_world s" "length (sy_meta (meta_store i st s)) = length (sy_meta s)"
  by (simp_all add: meta_store_def)

lemma meta_load_store:
  "unat i < length (sy_meta s) \<Longrightarrow> meta_load j (meta_store i st s) = (if j = i then st else meta_load j s)"
  by (auto simp: meta_load_def meta_store_def nth_list_update word_unat_eq_iff)

lemma meta_load_world [simp]: "meta_load i (s\<lparr>sy_world := w\<rparr>) = meta_load i s"
  by (simp add: meta_load_def)

lemma client_wf_idx: "client_wf c s \<Longrightarrow> i < ci_page_count c \<Longrightarrow> unat i < length (sy_meta s)"
  by (simp add: client_wf_def word_less_nat_alt)

lemma on_world_io_copy:
  assumes "uffd_ok K" and "length src = unat len"
  obtains r w' where "on_world_io (uffdio_copy K fd a src len mode) s = Some (r, s\<lparr>sy_world := w'\<rparr>)"
    and "r \<noteq> Inl Panic" and "\<And>e. r = Inl (Err e) \<Longrightarrow> \<exists>err. e = Io err"
    and "\<And>e b m. r = Inl e \<Longrightarrow> k_load K b m w' = k_load K b m (sy_world s)"
    and "r = Inr () \<Longrightarrow> k_load K a (unat len) w' = src"
    and "\<And>b m. r = Inr () \<Longrightarrow> disjoint_ranges a (unat len) b m \<Longrightarrow>
      k_load K b m w' = k_load K b m (sy_world s)"
proof -
  let ?cp = "\<lparr>cp_dst = a, cp_src = src, cp_len = len, cp_mode = mode, cp_copy = 0\<rparr>"
  obtain ret arg w' where io: "k_ioctl K fd UFFDIO_COPY (ArgCopy ?cp) (sy_world s) = (ret, arg, w')"
    by (metis prod_cases3)
  let ?r = "if ret < 0 then Inl (Err (Io (Os (k_errno K w')))) else Inr () :: (error, unit) outcome"
  have run: "on_world_io (uffdio_copy K fd a src len mode) s = Some (?r, s\<lparr>sy_world := w'\<rparr>)"
    by (simp add: on_world_io_def on_world_def uffdio_copy_def map_err_def ioctl_io_def io)
  have fail: "k_load K b m w' = k_load K b m (sy_world s)" if "ret < 0" for b m
    using assms(1) io that unfolding uffd_ok_def by blast
  have good: "k_load K a (unat len) w' = src \<and> (disjoint_ranges a (unat len) b m \<longrightarrow>
      k_load K b m w' = k_load K b m (sy_world s))" if "0 \<le> ret" for b m
    using assms io that unfolding uffd_ok_def by force
  show ?thesis by (rule that [OF run]) (use fail good in \<open>auto split: if_splits\<close>)
qed

text \<open>
  The loader of a page: it returns, it never panics, it changes only the state of its page, and
  that state becomes ready exactly when it succeeds. On success the page shows the bytes of the
  overlay, unless the kernel reported that the page was already present, in which case memory is
  unchanged.
\<close>

lemma load_page_spec:
  assumes wf: "client_wf c s" and i: "i < ci_page_count c"
    and K: "kernel_ok K content pending c"
  shows "\<exists>r s'. load_page K c i (page_addr c i) s = Some (r, s') \<and> r \<noteq> Inl Panic \<and>
    sy_proc s' = sy_proc s \<and>
    (\<forall>j. meta_load j s' = (if j = i \<and> r = Inr () then STATE_SHARED_READY else meta_load j s)) \<and>
    (r = Inr () \<longrightarrow>
       overlay_page (ci_backend c) (content (sy_world s)) i = Some (page_bytes K c i s') \<and>
         (\<forall>j < ci_page_count c. j \<noteq> i \<longrightarrow> page_bytes K c j s' = page_bytes K c j s) \<or>
       (\<forall>j < ci_page_count c. page_bytes K c j s' = page_bytes K c j s))"
proof -
  have geom: "client_geom c" using wf by (simp add: client_wf_def)
  let ?ps = "ci_page_size c" and ?a = "page_addr c i"
  have ob: "ob_page_size (ci_backend c) = ?ps" "ob_page_count (ci_backend c) = ci_page_count c"
    "overlay_wf (ci_backend c)" using wf by (simp_all add: client_wf_def)
  have "unat (ci_page_count c) * unat ?ps < 2 ^ 64" using geom by (simp add: client_geom_def)
  with overlay_read_spec [OF ob(3), of i K content pending "sy_world s"] ob i kernel_okD(1) [OF K]
  obtain res w1 where r1: "overlay_read_page K (ci_backend c) i (unat ?ps) (sy_world s) = Some (res, w1)"
    and np: "res \<noteq> Inl Panic"
    and bs: "\<forall>loc bs. res = Inr (loc, bs) \<longrightarrow> overlay_page (ci_backend c) (content (sy_world s)) i = Some bs"
    by auto
  have l1: "k_load K b m w1 = k_load K b m (sy_world s)" for b m
    using overlay_read_frame [OF _ r1, of "k_load K b m"] kernel_okD(2) [OF K] by (simp add: pread_frame_def)
  show ?thesis
  proof (cases res)
    case (Inl e)
    with r1 np have "load_page K c i ?a s = Some (Inl e, s\<lparr>sy_world := w1\<rparr>)"
      by (simp add: load_page_def on_world_def)
    with np Inl show ?thesis by auto
  next
    case (Inr lb)
    obtain loc page where lb: "lb = (loc, page)" by (cases lb)
    with bs Inr have op: "overlay_page (ci_backend c) (content (sy_world s)) i = Some page" by simp
    then have len: "length page = unat ?ps"
      by (auto simp: overlay_page_def Let_def ob split: option.splits if_splits)
    let ?s1 = "s\<lparr>sy_world := w1\<rparr>"
    obtain r2 w2 where cp: "on_world_io (uffdio_copy K (ci_uffd c) ?a page ?ps UFFDIO_COPY_MODE_WP) ?s1 =
        Some (r2, s\<lparr>sy_world := w2\<rparr>)" and r2: "r2 \<noteq> Inl Panic" and io2: "\<And>e. r2 = Inl (Err e) \<Longrightarrow> \<exists>err. e = Io err"
      and bad: "\<And>e b m. r2 = Inl e \<Longrightarrow> k_load K b m w2 = k_load K b m w1"
      and good: "r2 = Inr () \<Longrightarrow> k_load K ?a (unat ?ps) w2 = page"
      and frame: "\<And>b m. r2 = Inr () \<Longrightarrow> disjoint_ranges ?a (unat ?ps) b m \<Longrightarrow> k_load K b m w2 = k_load K b m w1"
      by (rule on_world_io_copy [OF kernel_okD(5) [OF K] len, of "ci_uffd c" ?a UFFDIO_COPY_MODE_WP ?s1]) auto
    have step: "load_page K c i ?a s =
        (case r2 of
           Inr _ \<Rightarrow> run_ret () (meta_store i STATE_SHARED_READY (s\<lparr>sy_world := w2\<rparr>))
         | Inl (Err (Io err)) \<Rightarrow>
             if raw_os_error err = Some EEXIST
             then run_bind (on_world_io (uffdio_wake K (ci_uffd c) ?a ?ps) (s\<lparr>sy_world := w2\<rparr>))
               (\<lambda>_ s. run_ret () (meta_store i STATE_SHARED_READY s))
             else run_err (Io err) (s\<lparr>sy_world := w2\<rparr>)
         | Inl e \<Rightarrow> Some (Inl e, s\<lparr>sy_world := w2\<rparr>))"
      using r1 Inr lb cp by (simp add: load_page_def on_world_def split: sum.splits abort.splits error.splits unit.splits)
    note idx = client_wf_idx [OF wf i]
    show ?thesis
    proof (cases r2)
      case (Inr u)
      then have "load_page K c i ?a s = Some (Inr (), meta_store i STATE_SHARED_READY (s\<lparr>sy_world := w2\<rparr>))"
        using step by simp
      moreover have "k_load K (page_addr c j) (unat ?ps) w2 = k_load K (page_addr c j) (unat ?ps) (sy_world s)"
        if "j < ci_page_count c" "j \<noteq> i" for j
        using frame pages_disjoint [OF geom i that(1)] that(2) Inr l1 by simp
      ultimately show ?thesis using op good Inr idx by (simp add: page_bytes_def meta_load_store)
    next
      case (Inl e)
      with r2 io2 obtain err where err: "r2 = Inl (Err (Io err))" by (cases e) auto
      show ?thesis
      proof (cases "raw_os_error err = Some EEXIST")
        case False
        with step err show ?thesis by simp
      next
        case True
        obtain r3 w3 where wk: "on_world_io (uffdio_wake K (ci_uffd c) ?a ?ps) (s\<lparr>sy_world := w2\<rparr>) =
            Some (r3, s\<lparr>sy_world := w3\<rparr>)" and r3: "r3 \<noteq> Inl Panic"
          and l3: "\<And>b m. k_load K b m w3 = k_load K b m w2"
          by (rule on_world_io_wake [OF kernel_okD(5) [OF K], of "ci_uffd c" ?a ?ps "s\<lparr>sy_world := w2\<rparr>"]) auto
        show ?thesis
        proof (cases r3)
          case (Inl e3)
          with step err True wk r3 show ?thesis by simp
        next
          case (Inr u3)
          with step err True wk have "load_page K c i ?a s = Some (Inr (), meta_store i STATE_SHARED_READY (s\<lparr>sy_world := w3\<rparr>))"
            by simp
          with bad l1 l3 err idx show ?thesis by (simp add: page_bytes_def meta_load_store)
        qed
      qed
    qed
  qed
qed


section \<open>Checkpoints\<close>

definition is_dirty :: "'w sys \<Rightarrow> usize \<Rightarrow> bool" where
  "is_dirty s i = pm_dirty (sy_proc s ! unat i)"

lemma dirty_bitmap_fold:
  assumes "\<forall>i \<in> set xs. unat i < length (sy_proc s)"
  shows "foldE (\<lambda>page_idx bitmap. bindE (index (sy_proc s) page_idx) (\<lambda>pm.
      if pm_dirty pm then bitmap_set bitmap page_idx else Inr bitmap)) xs bm =
    (foldE (\<lambda>i b. if is_dirty s i then bitmap_set b i else Inr b) xs bm :: (error, u64 list) outcome)"
  using assms
proof (induction xs arbitrary: bm)
  case (Cons i xs)
  then show ?case by (cases "bitmap_set bm i :: (error, u64 list) outcome") (auto simp: index_def is_dirty_def)
qed simp

lemma export_fold:
  assumes "\<forall>i \<in> set xs. unat i < length (sy_proc s)"
  shows "foldE (\<lambda>page_idx (dirty_pages, private_bitmap).
      bindE (index (sy_proc s) page_idx) (\<lambda>pm.
        if \<not> pm_dirty pm then Inr (dirty_pages, private_bitmap)
        else bindE (bitmap_set private_bitmap page_idx) (\<lambda>private_bitmap.
          let page_addr = ci_base_addr c + page_idx * ci_page_size c;
              data = k_load K page_addr (unat (ci_page_size c)) (sy_world s)
          in Inr (dirty_pages @ [\<lparr>dp_page_idx = page_idx, dp_data = data\<rparr>], private_bitmap)))) xs (dp, bm) =
    bindE (foldE (\<lambda>i b. if is_dirty s i then bitmap_set b i else Inr b) xs bm :: (error, u64 list) outcome)
      (\<lambda>bm'. Inr (dp @ map (\<lambda>i. \<lparr>dp_page_idx = i, dp_data = page_bytes K c i s\<rparr>)
         (filter (is_dirty s) xs), bm'))"
  using assms
proof (induction xs arbitrary: dp bm)
  case (Cons i xs)
  then show ?case
    by (cases "bitmap_set bm i :: (error, u64 list) outcome")
      (auto simp: index_def is_dirty_def page_bytes_def page_addr_def Let_def)
qed simp

lemma dirty_marks:
  assumes "client_wf c s"
  obtains bm where "foldE (\<lambda>i b. if is_dirty s i then bitmap_set b i else Inr b) (range_w 0 (ci_page_count c))
      (replicate (unat (bitmap_words (ci_page_count c))) 0) = (Inr bm :: (error, _) outcome)"
    and "length bm = unat (bitmap_words (ci_page_count c))"
    and "\<And>i. i < ci_page_count c \<Longrightarrow> bitmap_get bm i = (Inr (is_dirty s i) :: (error, _) outcome)"
  by (rule mark_from_empty [of "range_w 0 (ci_page_count c)" "ci_page_count c" "is_dirty s"]) auto

lemma proc_in_range:
  "client_wf c s \<Longrightarrow> \<forall>i \<in> set (range_w 0 (ci_page_count c)). unat i < length (sy_proc s)"
  by (simp add: client_wf_def word_less_nat_alt)

text \<open>What a restore sees: the pages of the checkpoint on top of the backend.\<close>

definition restored_page :: "checkpoint \<Rightarrow> overlay_backend \<Rightarrow> (fd \<Rightarrow> bytes) \<Rightarrow> usize \<Rightarrow> bytes option" where
  "restored_page ck ob files i =
     (case find (\<lambda>d. dp_page_idx d = i) (ck_dirty_pages ck) of
        Some d \<Rightarrow> Some (dp_data d)
      | None \<Rightarrow> overlay_page ob files i)"

lemma find_map_filter:
  "find (\<lambda>d. f d = i) (map g (filter P xs)) = (if i \<in> set xs \<and> P i then Some (g i) else None)"
  if "\<And>x. f (g x) = x"
  using that by (induction xs) auto

text \<open>
  \<open>C17\<close>: exporting a checkpoint of a well-formed client never panics. The exported pages are
  exactly the dirty pages, in ascending order, each with the bytes the client reads there; the
  private bitmap has exactly the bits of the dirty pages and is the client's dirty bitmap; the
  backend bitmap is the merged one.
\<close>

theorem checkpoint_export_dirty:
  assumes "client_wf c s"
  shows "\<exists>ck. checkpoint_export K c s = Inr ck \<and>
    ck_dirty_pages ck = map (\<lambda>i. \<lparr>dp_page_idx = i, dp_data = page_bytes K c i s\<rparr>)
      (filter (is_dirty s) (range_w 0 (ci_page_count c))) \<and>
    (\<forall>i < ci_page_count c. bitmap_get (ck_private_bitmap ck) i = (Inr (is_dirty s i) :: (error, bool) outcome)) \<and>
    dirty_bitmap c s = Inr (ck_private_bitmap ck) \<and>
    ck_merged_backend_bitmap ck = ob_merged_bitmap (ci_backend c)"
proof (rule dirty_marks [OF assms], goal_cases)
  case (1 bm)
  then show ?case
    by (simp add: checkpoint_export_def dirty_bitmap_def export_fold [OF proc_in_range [OF assms]]
        dirty_bitmap_fold [OF proc_in_range [OF assms]])
qed


section \<open>Setting up the service and a client\<close>

lemma on_world_Inr:
  "on_world m s = Some (Inr a, s') \<longleftrightarrow> (\<exists>w. m (sy_world s) = Some (Inr a, w) \<and> s' = s\<lparr>sy_world := w\<rparr>)"
  by (auto simp: on_world_def split: option.splits)

lemma shared_meta_new_Inr:
  assumes "shared_meta_new K pc ps s = Some (Inr m, s')"
  shows "sv_len (sm_view m) = pc" and "unat (sm_bytes m) = 16 * unat pc"
    and "sy_meta s' = map (\<lambda>i. \<lparr>tpm_state = STATE_UNLOADED, tpm_backend_offset = i * ps\<rparr>) (range_w 0 pc)"
  using assms unat_checked_mul [of pc sizeof_template_page_meta]
  by (auto simp: shared_meta_new_def sizeof_template_page_meta_def split: option.splits prod.splits if_splits)

lemma template_service_new_Inr:
  assumes "template_service_new K rs ob s = Some (Inr ts, s')"
  shows "ts_region_size ts = rs" and "ts_backend ts = ob" and "rs mod ts_page_size ts = 0"
    and "ts_page_count ts = rs div ts_page_size ts"
    and "ob_page_size ob = ts_page_size ts" and "ob_page_count ob = ts_page_count ts"
    and "sv_len (sm_view (ts_meta ts)) = ts_page_count ts"
    and "sy_meta s' = map (\<lambda>i. \<lparr>tpm_state = STATE_UNLOADED, tpm_backend_offset = i * ts_page_size ts\<rparr>)
      (range_w 0 (ts_page_count ts))"
  using assms by (auto simp: template_service_new_def outcome_simps Let_def
      split: if_splits dest: shared_meta_new_Inr del: mod_0_imp_dvd)

lemma client_new_Inr:
  assumes "client_new K ts base s = Some (Inr c, s')"
  shows "ci_base_addr c = base" and "ci_region_size c = ts_region_size ts" and "ci_page_size c = ts_page_size ts"
    and "ci_page_count c = ts_page_count ts" and "ci_meta c = sm_view (ts_meta ts)" and "ci_backend c = ts_backend ts"
    and "sy_meta s' = sy_meta s" and "sy_stop s' = False"
    and "sy_proc s' = replicate (unat (ts_page_count ts)) proc_page_meta_new"
  using assms by (auto simp: client_new_def outcome_simps on_world_Inr Let_def)

text \<open>
  A client set up on a freshly created service over a well-formed backend, at a
  page-aligned base where the region fits, is well-formed; every page is unloaded with its
  backend offset equal to its offset in the region, and no page is private or dirty.
\<close>

theorem client_setup_wf:
  assumes "overlay_wf ob" and "template_service_new K rs ob s0 = Some (Inr ts, s1)"
    and "client_new K ts base s1 = Some (Inr c, s2)"
    and "k < 64" and "ts_page_size ts = 2 ^ k" and "unat base mod 2 ^ k = 0"
    and "unat base + unat rs < 2 ^ 64"
  shows "client_wf c s2 \<and>
    (\<forall>i < ci_page_count c. sy_meta s2 ! unat i =
       \<lparr>tpm_state = STATE_UNLOADED, tpm_backend_offset = page_addr c i - base\<rparr> \<and>
       sy_proc s2 ! unat i = proc_page_meta_new)"
proof -
  note S = template_service_new_Inr [OF assms(2)] and C = client_new_Inr [OF assms(3)]
  have ps: "unat (ts_page_size ts) = 2 ^ k" using assms(4,5) by (simp add: unat_pow2)
  have "unat rs = unat (ts_page_count ts) * unat (ts_page_size ts)"
    using S(3,4) by (metis add.right_neutral div_mult_mod_eq unat_0 unat_div_word unat_mod_word)
  then have geom: "client_geom c"
    using assms(4-7) ps by (auto simp: client_geom_def C S)
  have "(range_w 0 (ts_page_count ts)) ! unat i = i" if "i < ts_page_count ts" for i
    using that by (simp add: word_less_nat_alt)
  then show ?thesis
    using geom assms(1) by (simp add: client_wf_def C S page_addr_def word_less_nat_alt)
qed

end
