(* ===== verification/Template_Protocol.thy ===== *)
theory Template_Protocol
  imports Template_Client
begin

unbundle bit_operations_syntax

text \<open>
  The page-state protocol that the clients of one template service run against each other. The
  missing-fault handler of \<^verbatim>\<open>src/uffd-cow-gpt/src/lib.rs\<close> is cut into its atomic accesses to
  the shared metadata and its system calls; the sequential handler is shown to be exactly the
  iteration of these steps, and the steps of any number of clients are then interleaved.
\<close>

section \<open>The handler, one atomic action at a time\<close>

datatype pc =
    AtCas usize usize
  | AtRead usize usize
  | AtCopy usize usize bytes
  | AtWakeExist usize usize
  | AtPublish usize
  | AtWait usize usize
  | AtWake usize
  | Finished "(error, unit) outcome"

definition mf_start :: "client_inner \<Rightarrow> usize \<Rightarrow> pc" where
  "mf_start c fault_addr =
     (case page_index_from_addr c fault_addr of
        Inl e \<Rightarrow> Finished (Inl e)
      | Inr page_idx \<Rightarrow>
          if page_idx < sv_len (ci_meta c) then AtCas page_idx (page_start c fault_addr)
          else Finished (Inl Panic))"

text \<open>
  An \<open>on_world\<close> call that does not return leaves the thread where it is.
\<close>

fun mf_step :: "'w kernel \<Rightarrow> client_inner \<Rightarrow> pc \<Rightarrow> 'w sys \<Rightarrow> (pc \<times> 'w sys) option" where
  "mf_step K c (AtCas i a) s =
     (case meta_compare_exchange i STATE_UNLOADED STATE_LOADING s of
        (Inr _, s) \<Rightarrow> Some (AtRead i a, s)
      | (Inl actual, s) \<Rightarrow>
          if actual = STATE_LOADING then Some (AtWait i a, s)
          else if actual = STATE_SHARED_READY then Some (AtWake a, s)
          else Some (Finished (Inl (Err (Kernel (''unexpected template page state '' @
            show_dec (unat actual) @ '' for page '' @ show_dec (unat i))))), s))"
| "mf_step K c (AtRead i a) s =
     (case on_world (overlay_read_page K (ci_backend c) i (unat (ci_page_size c))) s of
        None \<Rightarrow> None
      | Some (Inl e, s) \<Rightarrow> Some (Finished (Inl e), s)
      | Some (Inr (_, page), s) \<Rightarrow> Some (AtCopy i a page, s))"
| "mf_step K c (AtCopy i a page) s =
     (case on_world_io (uffdio_copy K (ci_uffd c) a page (ci_page_size c) UFFDIO_COPY_MODE_WP) s of
        None \<Rightarrow> None
      | Some (Inr _, s) \<Rightarrow> Some (AtPublish i, s)
      | Some (Inl (Err (Io err)), s) \<Rightarrow>
          if raw_os_error err = Some EEXIST then Some (AtWakeExist i a, s)
          else Some (Finished (Inl (Err (Io err))), s)
      | Some (Inl e, s) \<Rightarrow> Some (Finished (Inl e), s))"
| "mf_step K c (AtWakeExist i a) s =
     (case on_world_io (uffdio_wake K (ci_uffd c) a (ci_page_size c)) s of
        None \<Rightarrow> None
      | Some (Inl e, s) \<Rightarrow> Some (Finished (Inl e), s)
      | Some (Inr _, s) \<Rightarrow> Some (AtPublish i, s))"
| "mf_step K c (AtPublish i) s = Some (Finished (Inr ()), meta_store i STATE_SHARED_READY s)"
| "mf_step K c (AtWait i a) s =
     (if meta_load i s \<noteq> STATE_SHARED_READY then Some (AtWait i a, s) else Some (AtWake a, s))"
| "mf_step K c (AtWake a) s =
     (case on_world_io (uffdio_wake K (ci_uffd c) a (ci_page_size c)) s of
        None \<Rightarrow> None
      | Some (r, s) \<Rightarrow> Some (Finished r, s))"
| "mf_step K c (Finished r) s = Some (Finished r, s)"

text \<open>
  Running a single handler to its end; between two polls of the wait loop the rest of the system
  acts through \<open>yield\<close>.
\<close>

partial_function (option) mf_run ::
  "'w kernel \<Rightarrow> ('w sys \<Rightarrow> 'w sys) \<Rightarrow> client_inner \<Rightarrow> pc \<Rightarrow> 'w sys \<Rightarrow> (error, unit, 'w sys) run" where
  "mf_run K yield c p s =
     (case p of
        Finished r \<Rightarrow> Some (r, s)
      | AtWait i a \<Rightarrow>
          if meta_load i s \<noteq> STATE_SHARED_READY then mf_run K yield c (AtWait i a) (yield s)
          else mf_run K yield c (AtWake a) s
      | _ \<Rightarrow> (case mf_step K c p s of None \<Rightarrow> None | Some (p', s') \<Rightarrow> mf_run K yield c p' s'))"

lemma mf_run_Finished [simp]: "mf_run K yield c (Finished r) s = Some (r, s)"
  by (subst mf_run.simps) simp

lemma mf_run_AtPublish [simp]:
  "mf_run K yield c (AtPublish i) s = Some (Inr (), meta_store i STATE_SHARED_READY s)"
  by (subst mf_run.simps) simp

lemma mf_run_AtWake:
  "mf_run K yield c (AtWake a) = on_world_io (uffdio_wake K (ci_uffd c) a (ci_page_size c))"
  by (rule ext, subst mf_run.simps) (auto split: option.splits)

text \<open>The wait loop returns exactly when the page becomes ready after some number of yields.\<close>

lemma wait_ready_after:
  assumes "meta_load i ((yield ^^ n) s) = STATE_SHARED_READY"
    and "\<forall>m < n. meta_load i ((yield ^^ m) s) \<noteq> STATE_SHARED_READY"
  shows "wait_shared_ready yield i s = Some (Inr (), (yield ^^ n) s) \<and>
    mf_run K yield c (AtWait i a) s = mf_run K yield c (AtWake a) ((yield ^^ n) s)"
  using assms
proof (induction n arbitrary: s)
  case 0
  then show ?case by (simp add: wait_shared_ready.simps [of yield i s] mf_run.simps [of K yield c "AtWait i a" s])
next
  case (Suc n)
  from Suc.prems have now: "meta_load i s \<noteq> STATE_SHARED_READY"
    and "meta_load i ((yield ^^ n) (yield s)) = STATE_SHARED_READY"
    and "\<forall>m < n. meta_load i ((yield ^^ m) (yield s)) \<noteq> STATE_SHARED_READY"
    by (simp_all add: All_less_Suc2 funpow_Suc_right del: funpow.simps(2))
  with Suc.IH [of "yield s"] show ?case
    by (simp add: wait_shared_ready.simps [of yield i s] mf_run.simps [of K yield c "AtWait i a" s]
        funpow_Suc_right del: funpow.simps(2))
qed

lemma wait_returns_ready:
  assumes "wait_shared_ready yield i s = Some r"
  shows "\<exists>n. meta_load i ((yield ^^ n) s) = STATE_SHARED_READY"
  using assms
proof (rule wait_shared_ready.raw_induct
    [rotated, where P = "\<lambda>yield i s r. \<exists>n. meta_load i ((yield ^^ n) s) = STATE_SHARED_READY"], goal_cases)
  case (1 g yield i s r)
  show ?case
  proof (cases "meta_load i s = STATE_SHARED_READY")
    case True
    then show ?thesis by (intro exI [where x = 0]) simp
  next
    case False
    with 1(2) have "g yield i (yield s) = Some r" by simp
    from 1(1) [OF this] obtain n where "meta_load i ((yield ^^ n) (yield s)) = STATE_SHARED_READY" ..
    then show ?thesis by (intro exI [where x = "Suc n"]) (simp add: funpow_swap1)
  qed
qed

lemma mf_run_wait_ready:
  assumes "mf_run K yield c (AtWait i a) s = Some r"
  shows "\<exists>n. meta_load i ((yield ^^ n) s) = STATE_SHARED_READY"
proof -
  have "\<forall>i a. p = AtWait i a \<longrightarrow> (\<exists>n. meta_load i ((yield ^^ n) s) = STATE_SHARED_READY)"
    if "mf_run K yield c p s = Some r" for K yield c p s r
    using that
  proof (rule mf_run.raw_induct [rotated, where P = "\<lambda>K yield c p s r.
      \<forall>i a. p = AtWait i a \<longrightarrow> (\<exists>n. meta_load i ((yield ^^ n) s) = STATE_SHARED_READY)"], goal_cases)
    case (1 g K yield c p s r)
    show ?case
    proof (intro allI impI)
      fix i a assume p: "p = AtWait i a"
      show "\<exists>n. meta_load i ((yield ^^ n) s) = STATE_SHARED_READY"
      proof (cases "meta_load i s = STATE_SHARED_READY")
        case True
        then show ?thesis by (intro exI [where x = 0]) simp
      next
        case False
        with 1(2) p have "g K yield c (AtWait i a) (yield s) = Some r" by simp
        from 1(1) [OF this] obtain n where "meta_load i ((yield ^^ n) (yield s)) = STATE_SHARED_READY"
          by blast
        then show ?thesis by (intro exI [where x = "Suc n"]) (simp add: funpow_swap1)
      qed
    qed
  qed
  with assms show ?thesis by blast
qed

lemma mf_run_AtWait:
  "mf_run K yield c (AtWait i a) s =
     run_bind (wait_shared_ready yield i s) (\<lambda>_ s. mf_run K yield c (AtWake a) s)"
proof (cases "\<exists>n. meta_load i ((yield ^^ n) s) = STATE_SHARED_READY")
  case True
  define n where "n = (LEAST n. meta_load i ((yield ^^ n) s) = STATE_SHARED_READY)"
  have "meta_load i ((yield ^^ n) s) = STATE_SHARED_READY"
    unfolding n_def using True by (rule LeastI_ex)
  moreover have "\<forall>m < n. meta_load i ((yield ^^ m) s) \<noteq> STATE_SHARED_READY"
    unfolding n_def using not_less_Least by blast
  ultimately show ?thesis by (simp add: wait_ready_after)
next
  case False
  then have "wait_shared_ready yield i s = None"
    using wait_returns_ready [of yield i s] by (cases "wait_shared_ready yield i s") auto
  moreover from False have "mf_run K yield c (AtWait i a) s = None"
    using mf_run_wait_ready [of K yield c i a s] by (cases "mf_run K yield c (AtWait i a) s") auto
  ultimately show ?thesis by simp
qed

lemma mf_run_AtWakeExist:
  "mf_run K yield c (AtWakeExist i a) s =
     run_bind (on_world_io (uffdio_wake K (ci_uffd c) a (ci_page_size c)) s)
       (\<lambda>_ s. run_ret () (meta_store i STATE_SHARED_READY s))"
proof (cases "on_world_io (uffdio_wake K (ci_uffd c) a (ci_page_size c)) s")
  case None
  then show ?thesis by (subst mf_run.simps) simp
next
  case (Some rs)
  obtain r t where rs: "rs = (r, t)" by (cases rs)
  with Some show ?thesis by (subst mf_run.simps) (cases r, simp_all)
qed

lemma mf_run_AtRead: "mf_run K yield c (AtRead i a) s = load_page K c i a s"
proof -
  have copy: "mf_run K yield c (AtCopy i a page) s =
      (case on_world_io (uffdio_copy K (ci_uffd c) a page (ci_page_size c) UFFDIO_COPY_MODE_WP) s of
         None \<Rightarrow> None
       | Some (Inr _, s) \<Rightarrow> run_ret () (meta_store i STATE_SHARED_READY s)
       | Some (Inl (Err (Io err)), s) \<Rightarrow>
           if raw_os_error err = Some EEXIST
           then run_bind (on_world_io (uffdio_wake K (ci_uffd c) a (ci_page_size c)) s)
             (\<lambda>_ s. run_ret () (meta_store i STATE_SHARED_READY s))
           else run_err (Io err) s
       | Some (Inl e, s) \<Rightarrow> Some (Inl e, s))" for page s
    by (subst mf_run.simps)
      (auto simp: mf_run_AtWakeExist split: option.splits sum.splits abort.splits error.splits)
  show ?thesis
    by (subst mf_run.simps) (auto simp: load_page_def copy run_bind_def split: option.splits sum.splits)
qed

lemma handle_missing_fault_eq:
  "handle_missing_fault K yield c addr s = mf_run K yield c (mf_start c addr) s"
proof -
  have cas: "mf_run K yield c (AtCas i a) s =
      (case meta_compare_exchange i STATE_UNLOADED STATE_LOADING s of
         (Inr _, s) \<Rightarrow> load_page K c i a s
       | (Inl actual, s) \<Rightarrow>
           if actual = STATE_LOADING
           then run_bind (wait_shared_ready yield i s) (\<lambda>_ s. mf_run K yield c (AtWake a) s)
           else if actual = STATE_SHARED_READY then mf_run K yield c (AtWake a) s
           else run_err (Kernel (''unexpected template page state '' @ show_dec (unat actual) @
             '' for page '' @ show_dec (unat i))) s)" for i a s
    by (subst mf_run.simps) (auto simp: mf_run_AtRead mf_run_AtWait split: prod.splits sum.splits)
  show ?thesis
    by (cases "page_index_from_addr c addr")
      (auto simp: handle_missing_fault_def mf_start_def meta_get_def Let_def cas mf_run_AtWake
        split: prod.splits sum.splits)
qed


section \<open>Interleaved clients\<close>

text \<open>
  The clients, numbered, share the page metadata and the kernel; each is at a point of its
  handler. A client whose handler returned an error leaves the loop and takes no further fault.
  The world may change between any two actions: clients run, write and take write-protect faults.
\<close>

record 'w gsys =
  g_meta :: "template_page_meta list"
  g_world :: 'w
  g_pc :: "nat \<Rightarrow> pc"

definition sys_of :: "'w gsys \<Rightarrow> 'w sys" where
  "sys_of g = \<lparr>sy_meta = g_meta g, sy_proc = [], sy_stop = False, sy_world = g_world g\<rparr>"

inductive g_step :: "'w kernel \<Rightarrow> (nat \<Rightarrow> client_inner) \<Rightarrow> 'w gsys \<Rightarrow> 'w gsys \<Rightarrow> bool"
  for K :: "'w kernel" and cs :: "nat \<Rightarrow> client_inner" where
  fault: "g_pc g n = Finished (Inr ()) \<Longrightarrow>
    g_step K cs g (g\<lparr>g_pc := (g_pc g)(n := mf_start (cs n) addr)\<rparr>)"
| act: "mf_step K (cs n) (g_pc g n) (sys_of g) = Some (p, s) \<Longrightarrow>
    g_step K cs g \<lparr>g_meta = sy_meta s, g_world = sy_world s, g_pc = (g_pc g)(n := p)\<rparr>"
| world: "g_step K cs g (g\<lparr>g_world := w\<rparr>)"

definition g_state :: "'w gsys \<Rightarrow> usize \<Rightarrow> u8" where
  "g_state g i = tpm_state (g_meta g ! unat i)"

definition g_init :: "(nat \<Rightarrow> client_inner) \<Rightarrow> 'w gsys \<Rightarrow> bool" where
  "g_init cs g \<longleftrightarrow>
     (\<forall>n. unat (sv_len (ci_meta (cs n))) = length (g_meta g)) \<and>
     (\<forall>m \<in> set (g_meta g). tpm_state m = STATE_UNLOADED) \<and>
     (\<forall>n. g_pc g n = Finished (Inr ()))"

text \<open>The page a handler has claimed, and the page it is concerned with.\<close>

fun claimed :: "pc \<Rightarrow> usize option" where
  "claimed (AtRead i a) = Some i"
| "claimed (AtCopy i a page) = Some i"
| "claimed (AtWakeExist i a) = Some i"
| "claimed (AtPublish i) = Some i"
| "claimed _ = None"

fun pc_page :: "pc \<Rightarrow> usize option" where
  "pc_page (AtCas i a) = Some i"
| "pc_page (AtWait i a) = Some i"
| "pc_page p = claimed p"

definition g_inv :: "(nat \<Rightarrow> client_inner) \<Rightarrow> 'w gsys \<Rightarrow> bool" where
  "g_inv cs g \<longleftrightarrow>
     (\<forall>n. unat (sv_len (ci_meta (cs n))) = length (g_meta g)) \<and>
     (\<forall>k < length (g_meta g). tpm_state (g_meta g ! k) \<in> {STATE_UNLOADED, STATE_LOADING, STATE_SHARED_READY}) \<and>
     (\<forall>n i. pc_page (g_pc g n) = Some i \<longrightarrow> unat i < length (g_meta g)) \<and>
     (\<forall>n i. claimed (g_pc g n) = Some i \<longrightarrow> g_state g i = STATE_LOADING) \<and>
     (\<forall>m n i. claimed (g_pc g m) = Some i \<longrightarrow> claimed (g_pc g n) = Some i \<longrightarrow> m = n)"

lemma claimed_pc_page: "claimed p = Some i \<Longrightarrow> pc_page p = Some i"
  by (cases p) auto

lemma mf_start_page: "pc_page (mf_start c a) = Some i \<Longrightarrow> i < sv_len (ci_meta c)"
  by (auto simp: mf_start_def split: sum.splits if_splits)

lemma mf_start_claimed [simp]: "claimed (mf_start c a) = None"
  by (auto simp: mf_start_def split: sum.splits)

lemma on_world_meta:
  "on_world m s = Some (r, s') \<Longrightarrow> sy_meta s' = sy_meta s"
  "on_world_io m' s = Some (r', s') \<Longrightarrow> sy_meta s' = sy_meta s"
  by (auto simp: on_world_io_def on_world_def split: option.splits)

text \<open>
  What one action can do to the shared metadata and the claim: nothing, claim an unloaded page,
  or publish the claimed page; the claim is otherwise kept or dropped with an error.
\<close>

lemma mf_step_cases:
  assumes "mf_step K c p s = Some (p', s')"
  obtains (keep) "sy_meta s' = sy_meta s" and "claimed p' = claimed p" and "pc_page p' = None \<or> pc_page p' = pc_page p"
  | (claim) i a where "p = AtCas i a" "p' = AtRead i a" and "meta_load i s = STATE_UNLOADED"
      and "s' = meta_store i STATE_LOADING s"
  | (publish) i where "p = AtPublish i" and "p' = Finished (Inr ())" and "s' = meta_store i STATE_SHARED_READY s"
  | (abandon) i e where "claimed p = Some i" and "p' = Finished (Inl e)" and "sy_meta s' = sy_meta s"
proof (cases p)
  case (AtCas i a)
  show ?thesis
  proof (cases "meta_load i s = STATE_UNLOADED")
    case True
    with assms AtCas show ?thesis by (intro claim) (auto simp: meta_compare_exchange_def)
  next
    case False
    with assms AtCas show ?thesis
      by (intro keep) (auto simp: meta_compare_exchange_def Let_def split: if_splits)
  qed
next
  case (AtRead i a)
  with assms obtain r t where r: "on_world (overlay_read_page K (ci_backend c) i (unat (ci_page_size c))) s = Some (r, t)"
    by (auto split: option.splits)
  with assms AtRead on_world_meta(1) [OF r] show ?thesis
    by (cases r) (auto intro: abandon keep)
next
  case (AtCopy i a page)
  with assms obtain r t where r: "on_world_io (uffdio_copy K (ci_uffd c) a page (ci_page_size c) UFFDIO_COPY_MODE_WP) s = Some (r, t)"
    by (auto split: option.splits)
  with assms AtCopy on_world_meta(2) [OF r] show ?thesis
    by (auto split: sum.splits abort.splits error.splits if_splits intro: abandon keep)
next
  case (AtWakeExist i a)
  with assms obtain r t where r: "on_world_io (uffdio_wake K (ci_uffd c) a (ci_page_size c)) s = Some (r, t)"
    by (auto split: option.splits)
  with assms AtWakeExist on_world_meta(2) [OF r] show ?thesis
    by (cases r) (auto intro: abandon keep)
next
  case (AtPublish i)
  with assms show ?thesis by (intro publish) auto
next
  case (AtWait i a)
  with assms show ?thesis by (intro keep) (auto split: if_splits)
next
  case (AtWake a)
  with assms show ?thesis by (intro keep) (auto split: option.splits dest: on_world_meta)
next
  case (Finished r)
  with assms show ?thesis by (intro keep) auto
qed

lemma g_state_sys: "meta_load i (sys_of g) = g_state g i"
  by (simp add: meta_load_def sys_of_def g_state_def)

lemma g_init_inv: "g_init cs g \<Longrightarrow> g_inv cs g"
  by (auto simp: g_init_def g_inv_def)

lemma g_step_inv:
  assumes "g_inv cs g" and "g_step K cs g g'"
  shows "g_inv cs g'"
  using assms(2)
proof cases
  case (fault n addr)
  with assms(1) mf_start_page [of "cs n" addr] show ?thesis
    by (auto simp: g_inv_def g_state_def word_less_nat_alt)
next
  case (world w)
  with assms(1) show ?thesis by (simp add: g_inv_def g_state_def)
next
  case (act n p s)
  note len = assms(1) [unfolded g_inv_def, THEN conjunct1]
  have inr: "pc_page (g_pc g m) = Some i \<Longrightarrow> unat i < length (g_meta g)" for m i
    using assms(1) by (simp add: g_inv_def)
  show ?thesis
    using act(2)
  proof (cases rule: mf_step_cases)
    case keep
    with assms(1) act(1) inr show ?thesis
      by (auto simp: g_inv_def g_state_def sys_of_def)
  next
    case (claim i a)
    have i: "unat i < length (g_meta g)" using inr [of n i] claim by simp
    have un: "claimed (g_pc g m) \<noteq> Some i" for m
      using claim(3) assms(1) by (auto simp: g_inv_def g_state_sys state_defs)
    have meta: "sy_meta s = (g_meta g)[unat i := (g_meta g ! unat i)\<lparr>tpm_state := STATE_LOADING\<rparr>]"
      using claim(4) by (simp add: meta_store_def sys_of_def)
    show ?thesis
      using assms(1) act(1) claim(2) i un inr unfolding g_inv_def
      by (auto simp: meta g_state_def nth_update_word nth_list_update simp flip: word_unat_eq_iff)
  next
    case (publish i)
    have n: "claimed (g_pc g n) = Some i" using publish(1) by simp
    have i: "unat i < length (g_meta g)" using inr [of n i] publish by simp
    have only: "m = n" if "claimed (g_pc g m) = Some i" for m
      using that n assms(1) unfolding g_inv_def by blast
    have meta: "sy_meta s = (g_meta g)[unat i := (g_meta g ! unat i)\<lparr>tpm_state := STATE_SHARED_READY\<rparr>]"
      using publish(3) by (simp add: meta_store_def sys_of_def)
    show ?thesis
      using assms(1) act(1) publish(2) i only inr unfolding g_inv_def
      by (auto simp: meta g_state_def nth_update_word nth_list_update simp flip: word_unat_eq_iff)
  next
    case (abandon i e)
    with assms(1) act(1) show ?thesis
      by (auto simp: g_inv_def g_state_def sys_of_def)
  qed
qed

interpretation protocol: inductive_invariant "g_init cs" "g_step K cs" "g_inv cs" for K cs
  by unfold_locales (auto intro: g_init_inv g_step_inv)

text \<open>
  \<open>C12\<close>: in every state that any interleaving of the clients' handlers reaches from a fresh
  service, at most one client has claimed a given page for loading, and while it has, the page
  is in the loading state.
\<close>

theorem single_loader:
  assumes "g_init cs g0" and "rtranclp (g_step K cs) g0 g" and "claimed (g_pc g m) = Some i"
  shows "g_state g i = STATE_LOADING \<and> (claimed (g_pc g n) = Some i \<longrightarrow> n = m)"
  using protocol.reachable_inv [OF assms(1,2)] assms(3) unfolding g_inv_def by blast

lemma g_step_state:
  assumes "g_inv cs g" and "g_step K cs g g'" and "unat i < length (g_meta g)"
  shows "g_state g' i = g_state g i \<or>
    g_state g i = STATE_UNLOADED \<and> g_state g' i = STATE_LOADING \<and> (\<exists>n a. g_pc g n = AtCas i a \<and> g_pc g' n = AtRead i a) \<or>
    g_state g i = STATE_LOADING \<and> g_state g' i = STATE_SHARED_READY \<and> (\<exists>n. g_pc g n = AtPublish i)"
    and "length (g_meta g') = length (g_meta g)"
proof -
  show "length (g_meta g') = length (g_meta g)"
    using g_step_inv [OF assms(1,2)] assms(1) by (simp add: g_inv_def)
  show "g_state g' i = g_state g i \<or>
    g_state g i = STATE_UNLOADED \<and> g_state g' i = STATE_LOADING \<and> (\<exists>n a. g_pc g n = AtCas i a \<and> g_pc g' n = AtRead i a) \<or>
    g_state g i = STATE_LOADING \<and> g_state g' i = STATE_SHARED_READY \<and> (\<exists>n. g_pc g n = AtPublish i)"
    using assms(2)
  proof cases
    case (act n p s)
    have inr: "pc_page (g_pc g m) = Some j \<Longrightarrow> unat j < length (g_meta g)" for m j
      using assms(1) by (simp add: g_inv_def)
    show ?thesis
      using act(2)
    proof (cases rule: mf_step_cases)
      case (claim j a)
      with inr [of n j] act(1) show ?thesis
        by (cases "i = j") (auto simp: g_state_def meta_store_def sys_of_def meta_load_def nth_update_word)
    next
      case (publish j)
      then have "claimed (g_pc g n) = Some j" by simp
      with assms(1) have "g_state g j = STATE_LOADING" unfolding g_inv_def by blast
      with publish inr [of n j] act(1) show ?thesis
        by (cases "i = j") (auto simp: g_state_def meta_store_def sys_of_def nth_update_word)
    qed (use act(1) in \<open>auto simp: g_state_def sys_of_def\<close>)
  qed (auto simp: g_state_def)
qed

lemma states_distinct [simp]:
  "STATE_UNLOADED \<noteq> STATE_LOADING" "STATE_LOADING \<noteq> STATE_UNLOADED"
  "STATE_LOADING \<noteq> STATE_SHARED_READY" "STATE_SHARED_READY \<noteq> STATE_LOADING"
  "STATE_UNLOADED \<noteq> STATE_SHARED_READY" "STATE_SHARED_READY \<noteq> STATE_UNLOADED"
  by (simp_all add: state_defs)

lemma g_step_claims:
  assumes "g_inv cs g" and "g_step K cs g g'" and "claimed (g_pc g' n) = Some i"
  shows "claimed (g_pc g n) = Some i \<or> g_state g i = STATE_UNLOADED"
  using assms(2)
proof cases
  case (act m p s)
  show ?thesis
    using act(2)
  proof (cases rule: mf_step_cases)
    case (claim j a)
    with act(1) assms(3) show ?thesis by (cases "n = m") (auto simp: g_state_sys)
  qed (use act(1) assms(3) in \<open>auto split: if_splits\<close>)
qed (use assms(3) in \<open>auto split: if_splits\<close>)


text \<open>A page nobody is loading any more although its state says so.\<close>

definition orphaned :: "'w gsys \<Rightarrow> usize \<Rightarrow> bool" where
  "orphaned g i \<longleftrightarrow> g_state g i = STATE_LOADING \<and> (\<forall>n. claimed (g_pc g n) \<noteq> Some i)"

lemma g_step_wait:
  assumes "g_step K cs g g'" and "g_pc g n = AtWait i a" and "g_state g i \<noteq> STATE_SHARED_READY"
  shows "g_pc g' n = AtWait i a"
  using assms by (cases) (auto simp: g_state_sys split: if_splits)

text \<open>
  \<open>C15\<close>: a loader that fails after claiming its page (its backend read or its copy returns
  an error) orphans the page for good. In every later state of every interleaving the page is
  still in the loading state with no loader, and each client that was waiting for it is still
  waiting.
\<close>

theorem failed_load_orphans_page:
  assumes "g_init cs g0" and "rtranclp (g_step K cs) g0 g"
    and "claimed (g_pc g n) = Some i" and "g_step K cs g g1" and "g_pc g1 n = Finished (Inl e)"
    and "rtranclp (g_step K cs) g1 g2"
  shows "orphaned g2 i \<and> (\<forall>m a. g_pc g1 m = AtWait i a \<longrightarrow> g_pc g2 m = AtWait i a)"
proof -
  have inv: "g_inv cs g" by (rule protocol.reachable_inv [OF assms(1,2)])
  note inv1 = g_step_inv [OF inv assms(4)]
  have i: "unat i < length (g_meta g)" using inv claimed_pc_page [OF assms(3)] by (simp add: g_inv_def)
  have ld: "g_state g i = STATE_LOADING" and only: "claimed (g_pc g m) = Some i \<Longrightarrow> m = n" for m
    using inv assms(3) unfolding g_inv_def by blast+
  have np: "g_pc g n \<noteq> AtPublish i"
    using assms(4,5) by (auto elim!: g_step.cases split: if_splits)
  have "\<nexists>m. g_pc g m = AtPublish i"
    using only np by (metis claimed.simps(4))
  with g_step_state(1) [OF inv assms(4) i] ld have ld1: "g_state g1 i = STATE_LOADING" by auto
  have nc: "claimed (g_pc g1 m) \<noteq> Some i" for m
    using g_step_claims [OF inv assms(4), of m i] only ld assms(5) by (cases "m = n") auto
  let ?R = "\<lambda>g g'. length (g_meta g') = length (g_meta g) \<and> orphaned g' i \<and>
    (\<forall>m a. g_pc g m = AtWait i a \<longrightarrow> g_pc g' m = AtWait i a)"
  have "?R g1 g2"
  proof (rule protocol.steps_relation [OF assms(6) inv1])
    show "?R g1 g1" using ld1 nc by (simp add: orphaned_def)
    fix t u assume t: "g_inv cs t" and s: "g_step K cs t u" and R: "?R g1 t"
    have it: "unat i < length (g_meta t)" using R i g_step_state(2) [OF inv assms(4) i] by simp
    from R have o: "g_state t i = STATE_LOADING" "\<And>m. claimed (g_pc t m) \<noteq> Some i" by (auto simp: orphaned_def)
    have "\<nexists>m. g_pc t m = AtPublish i" using o(2) by (metis claimed.simps(4))
    with g_step_state [OF t s it] o(1) R have "g_state u i = STATE_LOADING" "length (g_meta u) = length (g_meta g1)"
      by auto
    moreover have "claimed (g_pc u m) \<noteq> Some i" for m
      using g_step_claims [OF t s, of m i] o by auto
    moreover have "g_pc u m = AtWait i a" if "g_pc g1 m = AtWait i a" for m a
      using g_step_wait [OF s, of m i a] R that o(1) by simp
    ultimately show "?R g1 u" by (simp add: orphaned_def)
  qed
  then show ?thesis by blast
qed

end
