(* ===== verification/Ordered_Map.thy ===== *)
theory Ordered_Map
  imports Prelude
begin

text \<open>
  The ordered map \<open>BTreeMap\<close> of the Rust standard library, as the list of its entries in
  ascending key order, with the contract its clients rely on.
\<close>

section \<open>Operations\<close>

type_synonym ('k, 'v) btree = "('k \<times> 'v) list"

fun bt_insert :: "'k::linorder \<Rightarrow> 'v \<Rightarrow> ('k, 'v) btree \<Rightarrow> ('k, 'v) btree" where
  "bt_insert k v [] = [(k, v)]"
| "bt_insert k v ((l, u) # m) =
     (if k < l then (k, v) # (l, u) # m else if k = l then (k, v) # m else (l, u) # bt_insert k v m)"

definition bt_get :: "'k \<Rightarrow> ('k, 'v) btree \<Rightarrow> 'v option" where
  "bt_get k m = map_of m k"

definition bt_remove :: "'k \<Rightarrow> ('k, 'v) btree \<Rightarrow> ('k, 'v) btree" where
  "bt_remove k m = filter (\<lambda>(l, _). l \<noteq> k) m"

text \<open>The greatest entry whose key is at most \<open>k\<close>.\<close>

fun bt_last_le :: "'k::linorder \<Rightarrow> ('k, 'v) btree \<Rightarrow> ('k \<times> 'v) option" where
  "bt_last_le k [] = None"
| "bt_last_le k ((l, u) # m) =
     (if l \<le> k then (case bt_last_le k m of None \<Rightarrow> Some (l, u) | Some e \<Rightarrow> Some e) else bt_last_le k m)"

definition bt_ok :: "('k::linorder, 'v) btree \<Rightarrow> bool" where
  "bt_ok m \<longleftrightarrow> sorted_wrt (<) (map fst m)"

section \<open>The contract of an ordered map\<close>

locale ordered_map =
  fixes get :: "'k::linorder \<Rightarrow> 'm \<Rightarrow> 'v option" and insert :: "'k \<Rightarrow> 'v \<Rightarrow> 'm \<Rightarrow> 'm"
    and remove :: "'k \<Rightarrow> 'm \<Rightarrow> 'm" and last_le :: "'k \<Rightarrow> 'm \<Rightarrow> ('k \<times> 'v) option" and invar :: "'m \<Rightarrow> bool"
  assumes get_insert: "invar m \<Longrightarrow> get k (insert l v m) = (if k = l then Some v else get k m)"
    and get_remove: "invar m \<Longrightarrow> get k (remove l m) = (if k = l then None else get k m)"
    and invar_insert: "invar m \<Longrightarrow> invar (insert k v m)"
    and invar_remove: "invar m \<Longrightarrow> invar (remove k m)"
    and last_le_Some: "invar m \<Longrightarrow> last_le k m = Some (l, v) \<longleftrightarrow>
      get l m = Some v \<and> l \<le> k \<and> (\<forall>j. get j m \<noteq> None \<longrightarrow> j \<le> k \<longrightarrow> j \<le> l)"
    and last_le_None: "invar m \<Longrightarrow> last_le k m = None \<longleftrightarrow> (\<forall>j. get j m \<noteq> None \<longrightarrow> \<not> j \<le> k)"
begin

lemma remove_insert: "invar m \<Longrightarrow> get k m = None \<Longrightarrow> get j (remove k (insert k v m)) = get j m"
  by (simp add: get_insert get_remove invar_insert)

lemma last_le_insert:
  assumes "invar m" and "l \<le> k" and "\<And>j. get j m \<noteq> None \<Longrightarrow> j \<le> k \<Longrightarrow> j \<le> l"
  shows "last_le k (insert l v m) = Some (l, v)"
  using assms by (subst last_le_Some) (auto simp: get_insert invar_insert)

lemma last_le_cong:
  assumes "invar m" and "invar n" and "\<And>j. j \<le> k \<Longrightarrow> get j m = get j n"
  shows "last_le k m = last_le k n"
proof (cases "last_le k m")
  case None
  then have "\<forall>j. get j n \<noteq> None \<longrightarrow> \<not> j \<le> k" using last_le_None [OF assms(1)] assms(3) by metis
  then have "last_le k n = None" using last_le_None [OF assms(2)] by blast
  with None show ?thesis by simp
next
  case (Some e)
  obtain l v where e: "e = (l, v)" by (cases e)
  with Some have "get l m = Some v \<and> l \<le> k \<and> (\<forall>j. get j m \<noteq> None \<longrightarrow> j \<le> k \<longrightarrow> j \<le> l)"
    using last_le_Some [OF assms(1)] by simp
  then have "last_le k n = Some (l, v)" using last_le_Some [OF assms(2)] assms(3) by metis
  with Some e show ?thesis by simp
qed

end

section \<open>The entry lists provide it\<close>

lemma set_bt_insert: "set (map fst (bt_insert k v m)) = insert k (set (map fst m))"
  by (induction k v m rule: bt_insert.induct) auto

lemma bt_ok_insert: "bt_ok m \<Longrightarrow> bt_ok (bt_insert k v m)"
  unfolding bt_ok_def
proof (induction k v m rule: bt_insert.induct)
  case (2 k v l u m)
  then show ?case using set_bt_insert [of k v m] by (auto simp: list.set_map)
qed simp

lemma bt_ok_Cons: "bt_ok ((l, u) # m) \<longleftrightarrow> (\<forall>k \<in> fst ` set m. l < k) \<and> bt_ok m"
  by (auto simp: bt_ok_def)

lemma bt_get_insert: "bt_ok m \<Longrightarrow> bt_get k (bt_insert l v m) = (if k = l then Some v else bt_get k m)"
proof (induction l v m rule: bt_insert.induct)
  case (2 l v k' u m)
  then show ?case by (auto simp: bt_get_def bt_ok_Cons)
qed (simp add: bt_get_def)

lemma bt_get_remove: "bt_get k (bt_remove l m) = (if k = l then None else bt_get k m)"
  by (induction m) (auto simp: bt_get_def bt_remove_def)

lemma bt_ok_remove: "bt_ok m \<Longrightarrow> bt_ok (bt_remove k m)"
  unfolding bt_ok_def bt_remove_def by (induction m) auto

lemma bt_get_None: "bt_get k m = None \<longleftrightarrow> k \<notin> fst ` set m"
  by (simp add: bt_get_def map_of_eq_None_iff)

lemma bt_get_Some: "bt_ok m \<Longrightarrow> bt_get k m = Some v \<longleftrightarrow> (k, v) \<in> set m"
  unfolding bt_get_def bt_ok_def by (intro map_of_eq_Some_iff) (simp add: strict_sorted_iff)

lemma bt_last_le_None: "bt_last_le k m = None \<longleftrightarrow> (\<forall>j \<in> fst ` set m. \<not> j \<le> k)"
  by (induction k m rule: bt_last_le.induct) (auto split: option.split)

lemma bt_last_le_Some:
  "bt_ok m \<Longrightarrow> bt_last_le k m = Some (l, v) \<longleftrightarrow> (l, v) \<in> set m \<and> l \<le> k \<and> (\<forall>j \<in> fst ` set m. j \<le> k \<longrightarrow> j \<le> l)"
proof (induction k m arbitrary: l v rule: bt_last_le.induct)
  case (2 k l' u m)
  then have lt: "\<And>j. j \<in> fst ` set m \<Longrightarrow> l' < j" and ok: "bt_ok m" by (auto simp: bt_ok_Cons)
  show ?case
  proof (cases "bt_last_le k m")
    case None
    then have "\<forall>j \<in> fst ` set m. \<not> j \<le> k" by (simp add: bt_last_le_None)
    with None lt show ?thesis by (auto simp: image_iff)
  next
    case (Some e)
    obtain l0 v0 where e: "e = (l0, v0)" by (cases e)
    have IH: "bt_last_le k m = Some (l, v) \<longleftrightarrow> (l, v) \<in> set m \<and> l \<le> k \<and> (\<forall>j \<in> fst ` set m. j \<le> k \<longrightarrow> j \<le> l)" for l v
      using 2(1,2) ok by (cases "l' \<le> k") auto
    from IH [of l0 v0] Some e have m0: "(l0, v0) \<in> set m" "l0 \<le> k" by auto
    then have "l' < l0" using lt by force
    with m0 have "l' \<le> k" by simp
    then have "bt_last_le k ((l', u) # m) = Some (l, v) \<longleftrightarrow> bt_last_le k m = Some (l, v)" using Some by simp
    also have "\<dots> \<longleftrightarrow> (l, v) \<in> set ((l', u) # m) \<and> l \<le> k \<and> (\<forall>j \<in> fst ` set ((l', u) # m). j \<le> k \<longrightarrow> j \<le> l)"
      unfolding IH
    proof (intro iffI)
      assume h: "(l, v) \<in> set m \<and> l \<le> k \<and> (\<forall>j \<in> fst ` set m. j \<le> k \<longrightarrow> j \<le> l)"
      then have "l' < l" by (intro lt) force
      then have "l' \<le> l" by simp
      with h show "(l, v) \<in> set ((l', u) # m) \<and> l \<le> k \<and> (\<forall>j \<in> fst ` set ((l', u) # m). j \<le> k \<longrightarrow> j \<le> l)"
        by simp
    next
      assume h: "(l, v) \<in> set ((l', u) # m) \<and> l \<le> k \<and> (\<forall>j \<in> fst ` set ((l', u) # m). j \<le> k \<longrightarrow> j \<le> l)"
      moreover have "l0 \<in> fst ` set m" using m0 by force
      ultimately have "l0 \<le> l" using m0(2) by auto
      with h \<open>l' < l0\<close> show "(l, v) \<in> set m \<and> l \<le> k \<and> (\<forall>j \<in> fst ` set m. j \<le> k \<longrightarrow> j \<le> l)" by auto
    qed
    finally show ?thesis .
  qed
qed simp

interpretation bt: ordered_map bt_get bt_insert bt_remove bt_last_le bt_ok
proof
  fix m :: "('a::linorder, 'b) btree" and k l v
  assume ok: "bt_ok m"
  have dom: "bt_get j m \<noteq> None \<longleftrightarrow> j \<in> fst ` set m" for j by (simp only: bt_get_None not_not)
  show "bt_get k (bt_insert l v m) = (if k = l then Some v else bt_get k m)" by (rule bt_get_insert [OF ok])
  show "bt_get k (bt_remove l m) = (if k = l then None else bt_get k m)" by (rule bt_get_remove)
  show "bt_ok (bt_insert k v m)" by (rule bt_ok_insert [OF ok])
  show "bt_ok (bt_remove k m)" by (rule bt_ok_remove [OF ok])
  show "bt_last_le k m = Some (l, v) \<longleftrightarrow>
      bt_get l m = Some v \<and> l \<le> k \<and> (\<forall>j. bt_get j m \<noteq> None \<longrightarrow> j \<le> k \<longrightarrow> j \<le> l)"
    unfolding bt_last_le_Some [OF ok] bt_get_Some [OF ok] dom Ball_def ..
  show "bt_last_le k m = None \<longleftrightarrow> (\<forall>j. bt_get j m \<noteq> None \<longrightarrow> \<not> j \<le> k)"
    unfolding bt_last_le_None dom Ball_def ..
qed

end
