(* ===== verification/Vm_Allocator.thy ===== *)
theory Vm_Allocator
  imports Ordered_Map
begin

unbundle bit_operations_syntax

text \<open>
  The allocators of the monitor, \<^verbatim>\<open>src/uffd-cow-gpt/cloud-hypervisor/vm-allocator/src\<close>: address
  ranges (\<^verbatim>\<open>address.rs\<close>), interrupt numbers (\<^verbatim>\<open>gsi.rs\<close>), memory slots (\<^verbatim>\<open>memory_slot.rs\<close>),
  page rounding (\<^verbatim>\<open>page_size.rs\<close>) and the system allocator that combines them (\<^verbatim>\<open>system.rs\<close>).
\<close>

section \<open>Address ranges\<close>

datatype alloc_error = AllocOverflow | AllocOverlap | UnalignedAddress

record address_allocator =
  aa_base :: u64
  aa_end :: u64
  aa_ranges :: "(u64, u64) btree"

definition allocator_new :: "u64 \<Rightarrow> u64 \<Rightarrow> address_allocator option" where
  "allocator_new base sz =
     (if sz = 0 then None
      else case checked_add base (sz - 1) of
        None \<Rightarrow> None
      | Some end_addr \<Rightarrow>
          (case checked_add base sz of
             None \<Rightarrow> None
           | Some marker \<Rightarrow> Some \<lparr>aa_base = base, aa_end = end_addr, aa_ranges = bt_insert marker 0 []\<rparr>))"

definition align_address :: "u64 \<Rightarrow> u64 \<Rightarrow> u64" where
  "align_address address alignment =
     (let align_adjust = (if address mod alignment = 0 then 0 else alignment - address mod alignment)
      in address + align_adjust)"

text \<open>The loop of \<open>available_range\<close> over the ranges in ascending order.\<close>

fun scan_ranges :: "u64 \<Rightarrow> u64 \<Rightarrow> u64 \<Rightarrow> (u64, u64) btree \<Rightarrow> alloc_error + u64" where
  "scan_ranges prev_end aligned req_size [] = Inl AllocOverflow"
| "scan_ranges prev_end aligned req_size ((address, sz) # ranges) =
     (if aligned \<le> address
      then (if prev_end > aligned then Inl AllocOverlap
            else if address - aligned < req_size then Inl AllocOverlap
            else Inr aligned)
      else scan_ranges (address + sz) aligned req_size ranges)"

definition available_range :: "address_allocator \<Rightarrow> u64 \<Rightarrow> u64 \<Rightarrow> u64 \<Rightarrow> alloc_error + u64" where
  "available_range A req_address req_size alignment =
     (let aligned = align_address req_address alignment in
      if aligned \<noteq> req_address then Inl UnalignedAddress
      else if aligned \<ge> aa_end A \<or> aligned < aa_base A then Inl AllocOverflow
      else scan_ranges (aa_base A) aligned req_size (aa_ranges A))"

text \<open>The end of the entry before, in the reversed list of ranges.\<close>

definition prev_end :: "u64 \<Rightarrow> (u64, u64) btree \<Rightarrow> u64" where
  "prev_end base rest = (case rest of [] \<Rightarrow> base | (address, sz) # _ \<Rightarrow> address + sz)"

fun first_in :: "u64 \<Rightarrow> u64 \<Rightarrow> u64 \<Rightarrow> (u64, u64) btree \<Rightarrow> u64 option" where
  "first_in base req_size alignment [] = None"
| "first_in base req_size alignment ((address, sz) # rest) =
     (case checked_sub address (align_address (prev_end base rest) alignment) of
        Some size_delta \<Rightarrow>
          if size_delta \<ge> req_size
          then Some (align_address (address - (req_size + saturating_sub alignment 1)) alignment)
          else first_in base req_size alignment rest
      | None \<Rightarrow> first_in base req_size alignment rest)"

definition first_available_range :: "address_allocator \<Rightarrow> u64 \<Rightarrow> u64 \<Rightarrow> u64 option" where
  "first_available_range A req_size alignment = first_in (aa_base A) req_size alignment (rev (aa_ranges A))"

definition is_power_of_two :: "'a::len word \<Rightarrow> bool" where
  "is_power_of_two a \<longleftrightarrow> (\<exists>k \<in> set [0..<LENGTH('a)]. a = 2 ^ k)"

definition allocate ::
  "address_allocator \<Rightarrow> u64 option \<Rightarrow> u64 \<Rightarrow> u64 option \<Rightarrow> u64 option \<times> address_allocator" where
  "allocate A address sz align_size =
     (if sz = 0 then (None, A)
      else let alignment = (case align_size of None \<Rightarrow> 4 | Some al \<Rightarrow> al) in
        if \<not> is_power_of_two alignment then (None, A)
        else case (case address of
              Some req_address \<Rightarrow>
                (case available_range A req_address sz alignment of Inr addr \<Rightarrow> Some addr | Inl _ \<Rightarrow> None)
            | None \<Rightarrow> first_available_range A sz alignment) of
          None \<Rightarrow> (None, A)
        | Some new_addr \<Rightarrow> (Some new_addr, A\<lparr>aa_ranges := bt_insert new_addr sz (aa_ranges A)\<rparr>))"

definition allocator_free :: "address_allocator \<Rightarrow> u64 \<Rightarrow> u64 \<Rightarrow> address_allocator" where
  "allocator_free A address sz =
     (case bt_get address (aa_ranges A) of
        Some range_size \<Rightarrow>
          if sz = range_size then A\<lparr>aa_ranges := bt_remove address (aa_ranges A)\<rparr> else A
      | None \<Rightarrow> A)"

section \<open>Interrupt numbers, memory slots and page rounding\<close>

record gsi_allocator =
  ga_apics :: "(u32, u32) btree"
  ga_next_irq :: u32
  ga_next_gsi :: u32

definition gsi_new :: "(u32 \<times> u32) list \<Rightarrow> gsi_allocator" where
  "gsi_new apics =
     fold (\<lambda>(base, irqs) g.
         let g = (if base < ga_next_irq g then g\<lparr>ga_next_irq := base\<rparr> else g);
             g = (if base + irqs > ga_next_gsi g then g\<lparr>ga_next_gsi := base + irqs\<rparr> else g)
         in g\<lparr>ga_apics := bt_insert base irqs (ga_apics g)\<rparr>)
       apics \<lparr>ga_apics = [], ga_next_irq = 0xffffffff, ga_next_gsi = 0\<rparr>"

definition allocate_gsi :: "gsi_allocator \<Rightarrow> u32 option \<times> gsi_allocator" where
  "allocate_gsi g =
     (case checked_add (ga_next_gsi g) 1 of
        None \<Rightarrow> (None, g)
      | Some n \<Rightarrow> (Some (ga_next_gsi g), g\<lparr>ga_next_gsi := n\<rparr>))"

definition allocate_irq :: "gsi_allocator \<Rightarrow> u32 option \<times> gsi_allocator" where
  "allocate_irq g =
     (case fold (\<lambda>(base, irqs) (irq, next_irq).
          if next_irq \<ge> base \<and> next_irq < base + irqs then (next_irq, next_irq + 1) else (irq, next_irq))
        (ga_apics g) (0, ga_next_irq g) of (irq, next_irq) \<Rightarrow>
        (if irq = 0 then None else Some irq, g\<lparr>ga_next_irq := next_irq\<rparr>))"

record slot_allocator =
  sa_next :: u32
  sa_free :: "u32 list"

text \<open>The free list is a vector used as a stack: its last element is the head here.\<close>

definition next_memory_slot :: "slot_allocator \<Rightarrow> u32 \<times> slot_allocator" where
  "next_memory_slot s =
     (case sa_free s of
        slot # rest \<Rightarrow> (slot, s\<lparr>sa_free := rest\<rparr>)
      | [] \<Rightarrow> (sa_next s, s\<lparr>sa_next := sa_next s + 1\<rparr>))"

definition free_memory_slot :: "u32 \<Rightarrow> slot_allocator \<Rightarrow> slot_allocator" where
  "free_memory_slot slot s = s\<lparr>sa_free := slot # sa_free s\<rparr>"

definition align_page_size_up :: "u64 \<Rightarrow> u64 \<Rightarrow> u64" where
  "align_page_size_up page_size address = (address + page_size - 1) AND NOT (page_size - 1)"

definition align_page_size_down :: "u64 \<Rightarrow> u64 \<Rightarrow> u64" where
  "align_page_size_down page_size address = address AND NOT (page_size - 1)"

definition is_4k_aligned :: "u64 \<Rightarrow> bool" where
  "is_4k_aligned address \<longleftrightarrow> address AND 0xfff = 0"

definition is_4k_multiple :: "u64 \<Rightarrow> bool" where
  "is_4k_multiple sz \<longleftrightarrow> sz AND 0xfff = 0"

definition is_page_size_aligned :: "u64 \<Rightarrow> u64 \<Rightarrow> bool" where
  "is_page_size_aligned page_size address \<longleftrightarrow> address AND (page_size - 1) = 0"

section \<open>The system allocator\<close>

record system_allocator =
  sys_io :: address_allocator
  sys_mmio :: address_allocator
  sys_gsi :: gsi_allocator

definition system_allocator_new ::
  "u64 \<Rightarrow> u64 \<Rightarrow> u64 \<Rightarrow> u64 \<Rightarrow> (u32 \<times> u32) list \<Rightarrow> system_allocator option" where
  "system_allocator_new io_base io_size mmio_base mmio_size apics =
     (case allocator_new io_base io_size of
        None \<Rightarrow> None
      | Some io \<Rightarrow>
          (case allocator_new mmio_base mmio_size of
             None \<Rightarrow> None
           | Some mmio \<Rightarrow> Some \<lparr>sys_io = io, sys_mmio = mmio, sys_gsi = gsi_new apics\<rparr>))"

definition system_allocate_irq :: "system_allocator \<Rightarrow> u32 option \<times> system_allocator" where
  "system_allocate_irq S = (case allocate_irq (sys_gsi S) of (r, g) \<Rightarrow> (r, S\<lparr>sys_gsi := g\<rparr>))"

definition system_allocate_gsi :: "system_allocator \<Rightarrow> u32 option \<times> system_allocator" where
  "system_allocate_gsi S = (case allocate_gsi (sys_gsi S) of (r, g) \<Rightarrow> (r, S\<lparr>sys_gsi := g\<rparr>))"

definition allocate_io_addresses ::
  "system_allocator \<Rightarrow> u64 option \<Rightarrow> u64 \<Rightarrow> u64 option \<Rightarrow> u64 option \<times> system_allocator" where
  "allocate_io_addresses S address sz align_size =
     (case allocate (sys_io S) address sz (Some (case align_size of None \<Rightarrow> 1 | Some al \<Rightarrow> al)) of
        (r, A) \<Rightarrow> (r, S\<lparr>sys_io := A\<rparr>))"

definition allocate_platform_mmio_addresses ::
  "u64 \<Rightarrow> system_allocator \<Rightarrow> u64 option \<Rightarrow> u64 \<Rightarrow> u64 option \<Rightarrow> u64 option \<times> system_allocator" where
  "allocate_platform_mmio_addresses page_size S address sz align_size =
     (case allocate (sys_mmio S) address sz (Some (case align_size of None \<Rightarrow> page_size | Some al \<Rightarrow> al)) of
        (r, A) \<Rightarrow> (r, S\<lparr>sys_mmio := A\<rparr>))"

definition free_io_addresses :: "u64 \<Rightarrow> u64 \<Rightarrow> system_allocator \<Rightarrow> system_allocator" where
  "free_io_addresses address sz S = S\<lparr>sys_io := allocator_free (sys_io S) address sz\<rparr>"

definition free_platform_mmio_addresses :: "u64 \<Rightarrow> u64 \<Rightarrow> system_allocator \<Rightarrow> system_allocator" where
  "free_platform_mmio_addresses address sz S = S\<lparr>sys_mmio := allocator_free (sys_mmio S) address sz\<rparr>"

section \<open>Chains of ranges\<close>

text \<open>Ranges in ascending order from \<open>lo\<close> on, without overlap; and where they end.\<close>

fun chain :: "nat \<Rightarrow> (u64, u64) btree \<Rightarrow> bool" where
  "chain lo [] \<longleftrightarrow> True"
| "chain lo ((a, s) # rs) \<longleftrightarrow> lo \<le> unat a \<and> unat a + unat s < 2 ^ 64 \<and> chain (unat a + unat s) rs"

fun chain_end :: "nat \<Rightarrow> (u64, u64) btree \<Rightarrow> nat" where
  "chain_end lo [] = lo"
| "chain_end lo ((a, s) # rs) = chain_end (unat a + unat s) rs"

lemma chain_append: "chain lo (xs @ ys) \<longleftrightarrow> chain lo xs \<and> chain (chain_end lo xs) ys"
  by (induction lo xs rule: chain.induct) auto

lemma chain_end_append [simp]: "chain_end lo (xs @ ys) = chain_end (chain_end lo xs) ys"
  by (induction lo xs rule: chain.induct) auto

lemma chain_end_ge: "chain lo xs \<Longrightarrow> lo \<le> chain_end lo xs"
  by (induction lo xs rule: chain.induct) auto

lemma chain_bounds: "chain lo xs \<Longrightarrow> (a, s) \<in> set xs \<Longrightarrow> lo \<le> unat a \<and> unat a + unat s \<le> chain_end lo xs"
proof (induction lo xs rule: chain.induct)
  case (2 lo b t rs)
  with chain_end_ge [of "unat b + unat t" rs] show ?case by auto
qed simp

lemma chain_insert:
  assumes "chain lo rs" and "lo \<le> unat a" and "unat a + unat s < 2 ^ 64"
    and "\<forall>(b, t) \<in> set rs. unat a + unat s \<le> unat b \<or> unat b + unat t \<le> unat a \<and> 0 < t" and "0 < s"
  shows "chain lo (bt_insert a s rs) \<and> set (bt_insert a s rs) = insert (a, s) (set rs)"
  using assms
proof (induction lo rs rule: chain.induct)
  case (2 lo b t rs)
  have s: "0 < unat s" using 2 by (simp add: word_less_nat_alt)
  from 2 have ab: "unat a + unat s \<le> unat b \<or> unat b + unat t \<le> unat a \<and> 0 < unat t" by (simp add: word_less_nat_alt)
  show ?case
  proof (cases "a < b")
    case True
    with ab have "unat a + unat s \<le> unat b" by (auto simp: word_less_nat_alt)
    with 2 True show ?thesis by simp
  next
    case False
    with ab s have le: "unat b + unat t \<le> unat a" "a \<noteq> b" by (auto simp: word_less_nat_alt)
    with 2 False show ?thesis by auto
  qed
qed simp

section \<open>Alignment\<close>

lemma power_of_two_word:
  fixes a :: "'a::len word"
  assumes "is_power_of_two a"
  obtains k where "k < LENGTH('a)" and "a = 2 ^ k" and "unat a = 2 ^ k"
  using assms by (auto simp: is_power_of_two_def unat_pow2)

lemma unat_align_address:
  assumes "unat a + unat al \<le> 2 ^ 64" and "al \<noteq> 0"
  shows "unat a \<le> unat (align_address a al)" and "unat (align_address a al) < unat a + unat al"
    and "unat (align_address a al) mod unat al = 0"
proof -
  let ?r = "unat a mod unat al"
  have al: "0 < unat al" using assms(2) by (simp add: word_neq_0_conv word_less_nat_alt)
  have r: "?r < unat al" using al by simp
  have zero: "a mod al = 0 \<longleftrightarrow> ?r = 0" by (simp add: word_unat_eq_iff unat_mod_word)
  have eq: "unat (align_address a al) = (if ?r = 0 then unat a else unat a + (unat al - ?r))"
  proof (cases "?r = 0")
    case True
    with zero show ?thesis by (simp add: align_address_def)
  next
    case False
    have "unat (al - a mod al) = unat al - ?r"
      using r by (simp add: unat_sub word_le_nat_alt unat_mod_word)
    moreover have "unat a + (unat al - ?r) < 2 ^ 64" using False assms(1) al by linarith
    ultimately have "unat (a + (al - a mod al)) = unat a + (unat al - ?r)" by (subst unat_add_nowrap) simp_all
    with False zero show ?thesis by (simp add: align_address_def)
  qed
  then show "unat a \<le> unat (align_address a al)" by simp
  show "unat (align_address a al) < unat a + unat al" using eq al r by (auto split: if_splits)
  have "(unat a + (unat al - ?r)) mod unat al = 0" if "?r \<noteq> 0"
  proof -
    have "unat a + (unat al - ?r) = unat a div unat al * unat al + unat al"
      using r div_mult_mod_eq [of "unat a" "unat al"] by linarith
    then show ?thesis by (metis mod_add_self2 mod_mult_self1_is_0 mult.commute)
  qed
  with eq show "unat (align_address a al) mod unat al = 0" by simp
qed

lemma align_address_id: "align_address a al = a \<longleftrightarrow> a mod al = 0 \<or> al = a mod al"
  by (auto simp: align_address_def)

text \<open>
  Aligning upwards from \<open>alignment - 1\<close> below rounds down, even where the subtraction wraps.
\<close>

lemma unat_align_below:
  assumes "is_power_of_two al"
  shows "unat (align_address (x - (al - 1)) al) = unat x - unat x mod unat al"
proof -
  obtain k where k: "k < 64" "unat al = 2 ^ k" by (rule power_of_two_word [OF assms]) auto
  let ?A = "unat al" and ?X = "unat x" and ?y = "x - (al - 1)"
  have pos: "0 < ?A" using k by simp
  have al1: "unat (al - 1) = ?A - 1" using pos by (simp add: unat_sub word_le_nat_alt)
  obtain q where q: "2 ^ 64 = ?A * q" using k by (metis le_imp_power_dvd dvdE less_imp_le)
  have step: "align_address ?y al = (if ?y mod al = 0 then ?y else x + 1 - ?y mod al)"
    by (simp add: align_address_def)
  show ?thesis
  proof (cases "?A - 1 \<le> ?X")
    case True
    have y: "unat ?y = ?X - (?A - 1)" using True al1 by (simp add: unat_sub word_le_nat_alt)
    have ub: "?X - (?A - 1) + ?A \<le> 2 ^ 64" using True pos unat_lt [of x] by simp
    have "al \<noteq> 0" using pos by auto
    note B = unat_align_address [of ?y al, unfolded y, OF ub this]
    let ?z = "unat (align_address ?y al)"
    have "?z \<le> ?X" using B(2) True pos by linarith
    moreover have "?X < ?z + ?A" using B(1) True pos by linarith
    ultimately have "?X div ?A = ?z div ?A" and zz: "?z = ?z div ?A * ?A"
      using B(3) pos by (auto intro!: div_nat_eqI simp: mult.commute) 
    then have "?z = ?X div ?A * ?A" by simp
    then show ?thesis by (metis minus_mod_eq_div_mult)
  next
    case False
    then have lt: "?X < ?A - 1" by simp
    have y: "unat ?y = 2 ^ 64 - (?A - 1 - ?X)"
      using lt al1 by (subst unat_sub_if_size) (simp add: word_size word_le_nat_alt)
    have "2 ^ 64 - (?A - 1 - ?X) = ?A * (q - 1) + (?X + 1)"
    proof -
      have "q \<noteq> 0" using q by (cases q) auto
      then have "2 ^ 64 = ?A * (q - 1) + ?A" using q by (cases q) simp_all
      with lt show ?thesis by linarith
    qed
    then have m: "unat ?y mod ?A = ?X + 1" unfolding y using lt by simp
    then have "unat (?y mod al) = ?X + 1" by (simp add: unat_mod_word)
    moreover have "?X + 1 < 2 ^ 64" using lt unat_lt [of al] by simp
    then have "unat (x + 1) = ?X + 1" by (simp add: unat_add_nowrap)
    ultimately have ym: "?y mod al = x + 1" by (simp add: word_unat_eq_iff)
    have "?y mod al \<noteq> 0" using \<open>unat (?y mod al) = ?X + 1\<close> by (metis Suc_eq_plus1 nat.distinct(1) unat_0)
    with step ym have "align_address ?y al = 0" by simp
    with lt show ?thesis by simp
  qed
qed

section \<open>The allocator invariant\<close>

text \<open>
  The ranges lie in the managed region in ascending order without overlap, and the last entry is
  the zero-sized marker after the region.
\<close>

definition marker :: "address_allocator \<Rightarrow> u64" where
  "marker A = aa_end A + 1"

definition alloc_wf :: "address_allocator \<Rightarrow> bool" where
  "alloc_wf A \<longleftrightarrow> (\<exists>rs. aa_ranges A = rs @ [(marker A, 0)] \<and> (\<forall>(a, s) \<in> set rs. 0 < s)) \<and>
     unat (aa_base A) \<le> unat (aa_end A) \<and> unat (aa_end A) + 1 < 2 ^ 64 \<and> chain (unat (aa_base A)) (aa_ranges A)"

text \<open>The interval of \<open>s\<close> bytes at \<open>a\<close> lies in the region and overlaps no allocated range.\<close>

definition fits :: "address_allocator \<Rightarrow> u64 \<Rightarrow> u64 \<Rightarrow> bool" where
  "fits A a s \<longleftrightarrow> unat (aa_base A) \<le> unat a \<and> unat a + unat s \<le> unat (aa_end A) + 1 \<and>
     (\<forall>(b, t) \<in> set (aa_ranges A). 0 < t \<longrightarrow> unat a + unat s \<le> unat b \<or> unat b + unat t \<le> unat a)"

lemma unat_marker: "alloc_wf A \<Longrightarrow> unat (marker A) = unat (aa_end A) + 1"
  by (simp add: alloc_wf_def marker_def unat_add_nowrap)

lemma wf_entry:
  assumes "alloc_wf A" and "(b, t) \<in> set (aa_ranges A)"
  shows "0 < t \<or> b = marker A \<and> t = 0" and "unat (aa_base A) \<le> unat b" and "unat b + unat t \<le> unat (aa_end A) + 1"
proof -
  from assms(1) obtain rs where rs: "aa_ranges A = rs @ [(marker A, 0)]" "\<forall>(a, s) \<in> set rs. 0 < s"
    by (auto simp: alloc_wf_def)
  with assms(2) show "0 < t \<or> b = marker A \<and> t = 0" by auto
  have ch: "chain (unat (aa_base A)) (aa_ranges A)" using assms(1) by (simp add: alloc_wf_def)
  have "chain_end (unat (aa_base A)) (aa_ranges A) = unat (aa_end A) + 1"
    using rs unat_marker [OF assms(1)] by simp
  with chain_bounds [OF ch assms(2)] show "unat (aa_base A) \<le> unat b" "unat b + unat t \<le> unat (aa_end A) + 1" by simp_all
qed

lemma marker_entry: "alloc_wf A \<Longrightarrow> (marker A, 0) \<in> set (aa_ranges A)"
  by (auto simp: alloc_wf_def)

lemma fits_apart:
  assumes wf: "alloc_wf A" and f: "fits A a s" and s: "0 < s"
  shows "\<forall>(b, t) \<in> set (aa_ranges A). unat a + unat s \<le> unat b \<or> unat b + unat t \<le> unat a \<and> 0 < t"
proof (intro ballI, clarify)
  fix b t assume e: "(b, t) \<in> set (aa_ranges A)" and n: "\<not> (unat b + unat t \<le> unat a \<and> 0 < t)"
  from wf_entry(1) [OF wf e] show "unat a + unat s \<le> unat b"
  proof
    assume "0 < t"
    with f e n show ?thesis by (auto simp: fits_def)
  next
    assume "b = marker A \<and> t = 0"
    with f unat_marker [OF wf] show ?thesis by (simp add: fits_def)
  qed
qed

lemma bt_insert_front:
  "k < l \<Longrightarrow> bt_insert k v (xs @ [(l, u)]) = bt_insert k v xs @ [(l, u)]"
  by (induction k v xs rule: bt_insert.induct) auto

lemma insert_wf:
  assumes wf: "alloc_wf A" and f: "fits A a s" and s: "0 < s"
  shows "alloc_wf (A\<lparr>aa_ranges := bt_insert a s (aa_ranges A)\<rparr>)"
    and "set (bt_insert a s (aa_ranges A)) = insert (a, s) (set (aa_ranges A))"
proof -
  from wf obtain rs where rs: "aa_ranges A = rs @ [(marker A, 0)]" "\<forall>(a, s) \<in> set rs. 0 < s"
    and e: "unat (aa_end A) + 1 < 2 ^ 64" and ch: "chain (unat (aa_base A)) (aa_ranges A)"
    by (auto simp: alloc_wf_def)
  have lo: "unat (aa_base A) \<le> unat a" and hi: "unat a + unat s < 2 ^ 64" using f e by (auto simp: fits_def)
  note C = chain_insert [OF ch lo hi fits_apart [OF wf f s] s]
  then show set: "set (bt_insert a s (aa_ranges A)) = insert (a, s) (set (aa_ranges A))" by blast
  have "a < marker A" using f s unat_marker [OF wf] by (simp add: fits_def word_less_nat_alt)
  then have front: "bt_insert a s (aa_ranges A) = bt_insert a s rs @ [(marker A, 0)]"
    unfolding rs(1) by (rule bt_insert_front)
  have "\<forall>(a, s) \<in> set (bt_insert a s rs). 0 < s"
  proof -
    have "set (bt_insert k v m) \<subseteq> insert (k, v) (set m)" for k v and m :: "(u64, u64) btree"
      by (induction k v m rule: bt_insert.induct) auto
    then show ?thesis using rs(2) s by fastforce
  qed
  then show "alloc_wf (A\<lparr>aa_ranges := bt_insert a s (aa_ranges A)\<rparr>)"
    using front C wf by (auto simp: alloc_wf_def marker_def)
qed

section \<open>Finding room\<close>

lemma scan_sound:
  assumes "chain lo rs" and "unat pe = lo" and "scan_ranges pe al req rs = Inr x"
  shows "x = al \<and> lo \<le> unat al \<and> (\<forall>(b, t) \<in> set rs. unat al + unat req \<le> unat b \<or> unat b + unat t \<le> unat al)"
  using assms
proof (induction lo rs arbitrary: pe rule: chain.induct)
  case (2 lo a s rs)
  have e: "unat (a + s) = unat a + unat s" using 2 by (simp add: unat_add_nowrap)
  show ?case
  proof (cases "al \<le> a")
    case True
    with 2 have "unat al + unat req \<le> unat a" "x = al" "lo \<le> unat al"
      by (auto simp: word_le_nat_alt word_less_nat_alt unat_sub not_less split: if_splits)
    with chain_bounds [of "unat a + unat s" rs] 2(2) show ?thesis by fastforce
  next
    case False
    with 2 e have "x = al \<and> unat a + unat s \<le> unat al \<and>
        (\<forall>(b, t) \<in> set rs. unat al + unat req \<le> unat b \<or> unat b + unat t \<le> unat al)"
      by (intro "2.IH" [of "a + s"]) simp_all
    with 2(2) show ?thesis by auto
  qed
qed simp

lemma scan_complete:
  assumes "chain lo rs" and "unat pe = lo" and "lo \<le> unat al" and "\<exists>(b, t) \<in> set rs. unat al \<le> unat b"
    and "\<forall>(b, t) \<in> set rs. unat al + unat req \<le> unat b \<or> unat b + unat t \<le> unat al \<and> 0 < t"
  shows "scan_ranges pe al req rs = Inr al"
  using assms
proof (induction lo rs arbitrary: pe rule: chain.induct)
  case (2 lo a s rs)
  show ?case
  proof (cases "al \<le> a")
    case True
    with 2 have "unat al + unat req \<le> unat a" by (auto simp: word_le_nat_alt word_less_nat_alt)
    with True 2 show ?thesis by (auto simp: word_le_nat_alt word_less_nat_alt unat_sub not_less)
  next
    case False
    have e: "unat (a + s) = unat a + unat s" using 2 by (simp add: unat_add_nowrap)
    have "scan_ranges (a + s) al req rs = Inr al"
      by (rule "2.IH") (use 2 False e in \<open>auto simp: word_le_nat_alt\<close>)
    with False show ?thesis by simp
  qed
qed simp

lemma prev_end_chain:
  assumes "chain (unat base) (rev zs)"
  shows "unat (prev_end base zs) = chain_end (unat base) (rev zs)"
proof (cases zs)
  case (Cons e zs')
  obtain b t where e: "e = (b, t)" by (cases e)
  with assms Cons show ?thesis by (simp add: prev_end_def chain_append unat_add_nowrap)
qed (simp add: prev_end_def)

definition room_before :: "u64 \<Rightarrow> u64 \<Rightarrow> u64 \<Rightarrow> (u64, u64) btree \<Rightarrow> u64 \<Rightarrow> bool" where
  "room_before base req al zs a \<longleftrightarrow>
     align_address (prev_end base zs) al \<le> a \<and> req \<le> a - align_address (prev_end base zs) al"

lemma first_in_Some:
  "first_in base req al xs = Some x \<Longrightarrow> \<exists>ys a s zs. xs = ys @ (a, s) # zs \<and> room_before base req al zs a \<and>
     x = align_address (a - (req + saturating_sub al 1)) al"
proof (induction xs)
  case (Cons e rest)
  obtain a s where e: "e = (a, s)" by (cases e)
  show ?case
  proof (cases "room_before base req al rest a")
    case True
    with Cons.prems e show ?thesis by (intro exI [of _ "[]"]) (auto simp: checked_sub_def room_before_def)
  next
    case False
    with Cons.prems e have "first_in base req al rest = Some x"
      by (auto simp: checked_sub_def room_before_def split: if_splits)
    from Cons.IH [OF this] obtain ys b t zs where "rest = ys @ (b, t) # zs" "room_before base req al zs b"
      "x = align_address (b - (req + saturating_sub al 1)) al" by blast
    then show ?thesis by (intro exI [of _ "e # ys"]) auto
  qed
qed simp

lemma first_in_complete:
  "room_before base req al zs a \<Longrightarrow> first_in base req al (ys @ (a, s) # zs) \<noteq> None"
proof (induction ys)
  case Nil
  then show ?case by (simp add: checked_sub_def room_before_def)
next
  case (Cons e ys)
  then show ?case by (cases e) (auto simp: checked_sub_def)
qed

text \<open>Room at the top of the address space, so that aligning upwards does not wrap around.\<close>

definition headroom :: "address_allocator \<Rightarrow> u64 \<Rightarrow> bool" where
  "headroom A al \<longleftrightarrow> unat (aa_end A) + 1 + unat al \<le> 2 ^ 64"

lemma power_of_two_pos: "is_power_of_two al \<Longrightarrow> al \<noteq> 0 \<and> 0 < unat al"
  by (auto elim!: power_of_two_word)

lemma aligned_le:
  assumes "0 < (A::nat)" and "l mod A = 0" and "l \<le> x"
  shows "l \<le> x - x mod A"
proof -
  have "l = l div A * A" using assms by (metis add.right_neutral div_mult_mod_eq)
  also have "\<dots> \<le> x div A * A" using assms(3) by (intro mult_le_mono1 div_le_mono)
  finally show ?thesis by (simp add: minus_mod_eq_div_mult)
qed

lemma aligned_least:
  assumes "0 < (A::nat)" and "l mod A = 0" and "x mod A = 0" and "l < p + A" and "p \<le> x"
  shows "l \<le> x"
proof (rule ccontr)
  assume "\<not> l \<le> x"
  then have "x < l" by simp
  have e: "l = l div A * A" "x = x div A * A" using assms(2,3) by (metis add.right_neutral div_mult_mod_eq)+
  with \<open>x < l\<close> have "x div A < l div A" by (metis leD mult_le_mono1 not_less)
  then have "(x div A + 1) * A \<le> l div A * A" by (intro mult_le_mono1) simp
  with e have "x + A \<le> l" by simp
  with assms(4,5) show False by simp
qed

lemma first_available_sound:
  assumes wf: "alloc_wf A" and al: "is_power_of_two al" and hr: "headroom A al"
    and r: "first_available_range A req al = Some x"
  shows "fits A x req \<and> unat x mod unat al = 0"
proof -
  let ?A = "unat al" and ?b = "unat (aa_base A)"
  note pos = power_of_two_pos [OF al]
  from first_in_Some [OF r [unfolded first_available_range_def]] obtain ys a s zs where
    sp: "rev (aa_ranges A) = ys @ (a, s) # zs" and room: "room_before (aa_base A) req al zs a"
    and x: "x = align_address (a - (req + saturating_sub al 1)) al" by blast
  have rg: "aa_ranges A = rev zs @ (a, s) # rev ys" using arg_cong [OF sp, of rev] by simp
  have "chain ?b (aa_ranges A)" using wf by (simp add: alloc_wf_def)
  then have ch: "chain ?b (rev zs)" "chain ?b (rev zs @ [(a, s)])" "chain (chain_end ?b (rev zs)) ((a, s) # rev ys)"
    unfolding rg by (simp_all add: chain_append)
  let ?p = "chain_end ?b (rev zs)" and ?l = "align_address (prev_end (aa_base A) zs) al"
  have pe: "unat (prev_end (aa_base A) zs) = ?p" by (rule prev_end_chain [OF ch(1)])
  have a: "?p \<le> unat a" "unat a \<le> unat (aa_end A) + 1" using ch(3) wf_entry(3) [OF wf, of a s] rg by auto
  have "unat (prev_end (aa_base A) zs) + ?A \<le> 2 ^ 64" using a hr unfolding headroom_def pe by linarith
  note L = unat_align_address [OF this conjunct1 [OF pos], unfolded pe]
  from room have "?l \<le> a" and "req \<le> a - ?l" by (simp_all add: room_before_def)
  then have lr: "unat ?l + unat req \<le> unat a" by (simp add: word_le_nat_alt unat_sub)
  then have X: "unat (a - req) = unat a - unat req" by (simp add: unat_sub word_le_nat_alt)
  have "saturating_sub al 1 = al - 1" using pos by (simp add: saturating_sub_def word_le_nat_alt)
  then have "x = align_address (a - req - (al - 1)) al" unfolding x by (simp only: diff_diff_eq)
  then have ux: "unat x = unat (a - req) - unat (a - req) mod ?A" by (simp only: unat_align_below [OF al])
  have lx: "unat ?l \<le> unat x" unfolding ux using lr pos L(3) X by (intro aligned_le) simp_all
  have xa: "unat x + unat req \<le> unat a" using ux X lr by linarith
  have "unat x + unat req \<le> unat b \<or> unat b + unat t \<le> unat x" if m: "(b, t) \<in> set (aa_ranges A)" for b t
  proof -
    consider "(b, t) \<in> set (rev zs)" | "(b, t) \<in> set ((a, s) # rev ys)" using m unfolding rg by auto
    then show ?thesis
    proof cases
      case 1
      with chain_bounds [OF ch(1) 1] L(1) lx show ?thesis by linarith
    next
      case 2
      then have "unat a \<le> unat b" using ch(3) chain_bounds [of "unat a + unat s" "rev ys" b t] by auto
      with xa show ?thesis by linarith
    qed
  qed
  moreover have "?b \<le> unat x" using chain_end_ge [OF ch(1)] L(1) lx by linarith
  moreover have "unat x mod ?A = 0" using ux by (simp add: minus_mod_eq_div_mult)
  ultimately show ?thesis using xa a by (auto simp: fits_def)
qed

lemma first_available_complete:
  assumes wf: "alloc_wf A" and al: "is_power_of_two al" and hr: "headroom A al"
    and f: "fits A x req" and xal: "unat x mod unat al = 0" and req: "0 < req"
  shows "first_available_range A req al \<noteq> None"
proof -
  let ?b = "unat (aa_base A)" and ?A = "unat al"
  note pos = power_of_two_pos [OF al]
  have "\<exists>e \<in> set (aa_ranges A). unat x + unat req \<le> unat (fst e)"
    using marker_entry [OF wf] f unat_marker [OF wf] by (force simp: fits_def)
  from split_list_first_prop [of "aa_ranges A" "\<lambda>e. unat x + unat req \<le> unat (fst e)", OF this]
  obtain pre e post where rg: "aa_ranges A = pre @ e # post" and e: "unat x + unat req \<le> unat (fst e)"
    and low: "\<forall>e \<in> set pre. \<not> unat x + unat req \<le> unat (fst e)"
    by blast
  have "chain ?b (aa_ranges A)" using wf by (simp add: alloc_wf_def)
  then have ch: "chain ?b pre" "chain (chain_end ?b pre) (e # post)" unfolding rg by (simp_all add: chain_append)
  have ends: "\<forall>(b, t) \<in> set pre. unat b + unat t \<le> unat x"
  proof (intro ballI, clarify)
    fix b t assume m: "(b, t) \<in> set pre"
    then have "(b, t) \<in> set (aa_ranges A)" by (simp add: rg)
    with fits_apart [OF wf f req] have "unat x + unat req \<le> unat b \<or> unat b + unat t \<le> unat x \<and> 0 < t" by blast
    moreover have "\<not> unat x + unat req \<le> unat b" using low m by force
    ultimately show "unat b + unat t \<le> unat x" by blast
  qed
  have "chain_end lo pre' \<le> unat x" if "lo \<le> unat x" "\<forall>(b, t) \<in> set pre'. unat b + unat t \<le> unat x" for lo pre'
    using that by (induction lo pre' rule: chain_end.induct) auto
  then have px: "chain_end ?b pre \<le> unat x" using ends f by (simp add: fits_def)
  have pe: "unat (prev_end (aa_base A) (rev pre)) = chain_end ?b pre"
    using prev_end_chain [of "aa_base A" "rev pre"] ch(1) by simp
  have "unat (prev_end (aa_base A) (rev pre)) + ?A \<le> 2 ^ 64"
    using px f hr unfolding headroom_def fits_def pe by linarith
  note L = unat_align_address [OF this conjunct1 [OF pos], unfolded pe]
  have "unat (align_address (prev_end (aa_base A) (rev pre)) al) \<le> unat x"
    using aligned_least [OF conjunct2 [OF pos] L(3) xal L(2) px] .
  then have "room_before (aa_base A) req al (rev pre) (fst e)"
    using e by (simp add: room_before_def word_le_nat_alt unat_sub)
  from first_in_complete [OF this, of "rev post" "snd e"] show ?thesis
    unfolding first_available_range_def rg by simp
qed

lemma available_range_sound:
  assumes wf: "alloc_wf A" and al: "is_power_of_two al" and r: "available_range A a req al = Inr x"
  shows "x = a \<and> fits A a req \<and> unat a mod unat al = 0"
proof -
  note pos = power_of_two_pos [OF al]
  from r have id: "align_address a al = a" and rng: "a < aa_end A" "aa_base A \<le> a"
    and sc: "scan_ranges (aa_base A) a req (aa_ranges A) = Inr x"
    by (auto simp: available_range_def Let_def split: if_splits)
  have "a mod al \<noteq> al" using pos by (metis mod_less_divisor nat_neq_iff unat_mod_word)
  with id have "a mod al = 0" by (auto simp: align_address_id)
  then have "unat a mod unat al = 0" by (metis unat_0 unat_mod_word)
  moreover have "chain (unat (aa_base A)) (aa_ranges A)" using wf by (simp add: alloc_wf_def)
  note S = scan_sound [OF this refl sc]
  have "unat a + unat req \<le> unat (aa_end A) + 1"
    using S marker_entry [OF wf] unat_marker [OF wf] rng(1) by (force simp: word_less_nat_alt)
  with S rng(2) have "fits A a req" by (auto simp: fits_def word_le_nat_alt)
  ultimately show ?thesis using S by blast
qed

lemma available_range_complete:
  assumes wf: "alloc_wf A" and al: "is_power_of_two al" and f: "fits A a req" and aal: "unat a mod unat al = 0"
    and req: "0 < req" and last: "a < aa_end A"
  shows "available_range A a req al = Inr a"
proof -
  have "unat (a mod al) = 0" using aal by (simp add: unat_mod_word)
  then have "a mod al = 0" by (simp only: unat_eq_zero)
  then have "align_address a al = a" by (simp add: align_address_def)
  moreover have "chain (unat (aa_base A)) (aa_ranges A)" using wf by (simp add: alloc_wf_def)
  then have "scan_ranges (aa_base A) a req (aa_ranges A) = Inr a"
  proof (rule scan_complete [OF _ refl])
    show "unat (aa_base A) \<le> unat a" using f by (simp add: fits_def)
    show "\<exists>(b, t) \<in> set (aa_ranges A). unat a \<le> unat b"
      by (rule bexI [OF _ marker_entry [OF wf]]) (use unat_marker [OF wf] last in \<open>simp add: word_less_nat_alt\<close>)
    show "\<forall>(b, t) \<in> set (aa_ranges A). unat a + unat req \<le> unat b \<or> unat b + unat t \<le> unat a \<and> 0 < t"
      by (rule fits_apart [OF wf f req])
  qed
  ultimately show ?thesis
    using last f by (simp add: available_range_def Let_def fits_def word_le_nat_alt word_less_nat_alt)
qed

section \<open>Properties of the address allocator\<close>

lemma allocator_new_wf:
  "allocator_new base sz = Some A \<Longrightarrow> alloc_wf A \<and> aa_base A = base \<and> unat (aa_end A) + 1 = unat base + unat sz"
proof -
  assume new: "allocator_new base sz = Some A"
  then have nz: "sz \<noteq> 0" and ovf: "unat base + unat sz < 2 ^ 64"
    and A: "A = \<lparr>aa_base = base, aa_end = base + (sz - 1), aa_ranges = [(base + sz, 0)]\<rparr>"
    by (auto simp: allocator_new_def checked_add_def split: if_splits option.splits)
  have s1: "unat (sz - 1) = unat sz - 1" and pos: "0 < unat sz"
    using nz by (simp_all add: unat_sub word_le_nat_alt word_neq_0_conv word_less_nat_alt Suc_le_eq)
  have e: "unat (base + (sz - 1)) = unat base + (unat sz - 1)" using ovf s1 pos by (subst unat_add_nowrap) simp_all
  have m: "unat (base + sz) = unat base + unat sz" using ovf by (simp add: unat_add_nowrap)
  have "base + (sz - 1) + 1 = base + sz" by simp
  with A e m ovf pos show ?thesis by (simp add: alloc_wf_def marker_def)
qed

lemma allocate_cases:
  assumes wf: "alloc_wf A" and hr: "headroom A (case align_size of None \<Rightarrow> 4 | Some al \<Rightarrow> al)"
    and run: "allocate A address sz align_size = (Some a, A')"
  shows "0 < sz" and "A' = A\<lparr>aa_ranges := bt_insert a sz (aa_ranges A)\<rparr>" and "fits A a sz"
    and "unat a mod unat (case align_size of None \<Rightarrow> 4 | Some al \<Rightarrow> al) = 0" and "address = Some r \<Longrightarrow> a = r"
proof -
  let ?al = "case align_size of None \<Rightarrow> 4 | Some al \<Rightarrow> al"
  from run show "0 < sz" and "A' = A\<lparr>aa_ranges := bt_insert a sz (aa_ranges A)\<rparr>"
    by (auto simp: allocate_def Let_def word_neq_0_conv split: if_splits option.splits sum.splits)
  from run have al: "is_power_of_two ?al"
    and got: "case address of Some r \<Rightarrow> available_range A r sz ?al = Inr a | None \<Rightarrow> first_available_range A sz ?al = Some a"
    by (auto simp: allocate_def Let_def split: if_splits option.splits sum.splits)
  have "fits A a sz \<and> unat a mod unat ?al = 0 \<and> (\<forall>r. address = Some r \<longrightarrow> a = r)"
  proof (cases address)
    case None
    with got first_available_sound [OF wf al hr] show ?thesis by simp
  next
    case (Some r)
    with got available_range_sound [OF wf al, of r sz a] show ?thesis by simp
  qed
  then show "fits A a sz" "unat a mod unat ?al = 0" "address = Some r \<Longrightarrow> a = r" by blast+
qed

text \<open>
  \<open>C23\<close>: allocation is sound. A successful allocation returns an aligned interval of the requested
  size inside the managed region that overlaps no allocated range, at the requested address if
  one was given; the allocator keeps its invariant and its ranges grow by exactly this one.
\<close>

theorem allocate_sound:
  assumes wf: "alloc_wf A" and hr: "headroom A (case align_size of None \<Rightarrow> 4 | Some al \<Rightarrow> al)"
    and run: "allocate A address sz align_size = (Some a, A')"
  shows "fits A a sz \<and> unat a mod unat (case align_size of None \<Rightarrow> 4 | Some al \<Rightarrow> al) = 0 \<and>
    (\<forall>r. address = Some r \<longrightarrow> a = r) \<and> alloc_wf A' \<and>
    set (aa_ranges A') = insert (a, sz) (set (aa_ranges A)) \<and> aa_base A' = aa_base A \<and> aa_end A' = aa_end A"
  using allocate_cases [OF assms] insert_wf [OF wf, of a sz] by auto

text \<open>
  \<open>C24\<close>: allocation is complete. If some aligned interval of the requested size is free, an
  allocation without a fixed address succeeds, and one at that very address succeeds too unless
  the address is the last one of the region.
\<close>

theorem allocate_complete:
  assumes "alloc_wf A" and "is_power_of_two al" and "headroom A al"
    and "fits A x sz" and "unat x mod unat al = 0" and "0 < sz"
  shows "(\<exists>a A'. allocate A None sz (Some al) = (Some a, A')) \<and>
    (x < aa_end A \<longrightarrow> fst (allocate A (Some x) sz (Some al)) = Some x)"
  using first_available_complete [OF assms] available_range_complete [OF assms(1,2,4,5,6)] assms(2,6)
  by (auto simp: allocate_def Let_def word_neq_0_conv)

text \<open>Removing an entry keeps a chain a chain.\<close>

lemma chain_mono: "lo \<le> lo' \<Longrightarrow> chain lo' rs \<Longrightarrow> chain lo rs"
  by (cases rs) auto

lemma chain_remove: "chain lo rs \<Longrightarrow> chain lo (bt_remove a rs)"
proof (induction lo rs rule: chain.induct)
  case (2 lo b t rs)
  then have "chain (unat b + unat t) (bt_remove a rs)" by simp
  moreover from this have "chain lo (bt_remove a rs)" by (rule chain_mono [rotated]) (use 2 in simp)
  ultimately show ?case using 2 by (auto simp: bt_remove_def)
qed (simp add: bt_remove_def)

lemma bt_remove_insert: "k \<notin> fst ` set m \<Longrightarrow> bt_remove k (bt_insert k v m) = m"
proof (induction k v m rule: bt_insert.induct)
  case (2 k v l u m)
  moreover have "bt_remove k m' = m'" if "k \<notin> fst ` set m'" for m' :: "('a, 'b) btree"
    using that by (force simp: bt_remove_def filter_id_conv)
  ultimately show ?case by (auto simp: bt_remove_def)
qed (simp add: bt_remove_def)

lemma wf_keys:
  assumes "alloc_wf A"
  shows "bt_ok (aa_ranges A)"
proof -
  have "bt_ok (xs @ [(m, 0)])" if "chain lo (xs @ [(m, 0)])" "\<forall>(a, s) \<in> set xs. 0 < s" for lo xs m
    using that
  proof (induction xs arbitrary: lo)
    case (Cons e xs)
    obtain a s where e: "e = (a, s)" by (cases e)
    have ok: "bt_ok (xs @ [(m, 0)])" by (rule Cons.IH [of "unat a + unat s"]) (use Cons.prems e in auto)
    have "a < k" if "k \<in> fst ` set (xs @ [(m, 0)])" for k
    proof -
      from that obtain t where "(k, t) \<in> set (xs @ [(m, 0)])" unfolding image_iff by (metis prod.collapse)
      with chain_bounds [of "unat a + unat s" "xs @ [(m, 0)]" k t] Cons.prems e show ?thesis
        by (auto simp: word_less_nat_alt)
    qed
    with ok e show ?case by (auto simp: bt_ok_Cons)
  qed (simp add: bt_ok_def)
  with assms show ?thesis by (auto simp: alloc_wf_def)
qed

lemma free_wf:
  assumes wf: "alloc_wf A" and nz: "sz \<noteq> 0"
  shows "alloc_wf (allocator_free A b sz)"
proof (cases "bt_get b (aa_ranges A) = Some sz")
  case True
  from wf obtain rs where rs: "aa_ranges A = rs @ [(marker A, 0)]" "\<forall>(a, s) \<in> set rs. 0 < s"
    by (auto simp: alloc_wf_def)
  have "b \<noteq> marker A"
  proof
    assume "b = marker A"
    moreover have "bt_get (marker A) (aa_ranges A) = Some 0"
      using marker_entry [OF wf] by (simp add: bt_get_Some [OF wf_keys [OF wf]])
    ultimately show False using True nz by simp
  qed
  then have "bt_remove b (aa_ranges A) = bt_remove b rs @ [(marker A, 0)]" by (simp add: rs(1) bt_remove_def)
  moreover have "\<forall>(a, s) \<in> set (bt_remove b rs). 0 < s" using rs(2) by (auto simp: bt_remove_def)
  ultimately show ?thesis
    using True wf chain_remove [of "unat (aa_base A)" "aa_ranges A" b]
    by (auto simp: allocator_free_def alloc_wf_def marker_def)
next
  case False
  with wf show ?thesis by (auto simp: allocator_free_def split: option.split)
qed

lemma set_free:
  assumes wf: "alloc_wf A"
  shows "set (aa_ranges (allocator_free A b sz)) = set (aa_ranges A) - {(b, sz)}"
proof (cases "bt_get b (aa_ranges A) = Some sz")
  case True
  have "c = b \<Longrightarrow> (c, t) \<in> set (aa_ranges A) \<Longrightarrow> t = sz" for c t
    using True by (simp add: bt_get_Some [OF wf_keys [OF wf], symmetric])
  with True show ?thesis by (auto simp: allocator_free_def bt_remove_def)
next
  case False
  then have "(b, sz) \<notin> set (aa_ranges A)" by (simp add: bt_get_Some [OF wf_keys [OF wf], symmetric])
  with False show ?thesis by (auto simp: allocator_free_def split: option.split)
qed


text \<open>
  Two departures from the documentation. The last address of the region cannot be requested, and
  freeing the address after the region with size zero removes the end marker, after which no
  allocation succeeds any more.
\<close>

lemma last_address_refused:
  assumes "allocator_new base sz = Some A"
  shows "fits A (aa_end A) 1 \<and> fst (allocate A (Some (aa_end A)) 1 (Some 1)) = None"
proof -
  note new = allocator_new_wf [OF assms]
  have "aa_ranges A = [(base + sz, 0)]"
    using assms by (auto simp: allocator_new_def checked_add_def split: if_splits option.splits)
  with new have "fits A (aa_end A) 1" by (auto simp: fits_def alloc_wf_def)
  moreover have "available_range A (aa_end A) 1 1 = Inl AllocOverflow"
    by (simp add: available_range_def align_address_def)
  ultimately show ?thesis by (simp add: allocate_def Let_def)
qed

lemma free_removes_marker:
  assumes "allocator_new base sz = Some A"
  shows "aa_ranges (allocator_free A (base + sz) 0) = [] \<and>
    fst (allocate (allocator_free A (base + sz) 0) address n align_size) = None"
proof -
  have e: "aa_ranges (allocator_free A (base + sz) 0) = []"
    using assms by (auto simp: allocator_new_def allocator_free_def checked_add_def bt_get_def bt_remove_def
        split: if_splits option.splits)
  then show ?thesis
    by (auto simp: allocate_def Let_def available_range_def first_available_range_def split: option.split sum.split)
qed

section \<open>An instance\<close>

text \<open>The region of the documentation's example: 64 KiB from 0x1000 on.\<close>

definition ex_alloc :: address_allocator where
  "ex_alloc = \<lparr>aa_base = 0x1000, aa_end = 0x10fff, aa_ranges = [(0x11000, 0)]\<rparr>"

lemma ex_alloc_new: "allocator_new 0x1000 0x10000 = Some ex_alloc"
  by (simp add: allocator_new_def checked_add_def ex_alloc_def)

lemma ex_alloc_wf: "alloc_wf ex_alloc" "headroom ex_alloc 0x100"
  using allocator_new_wf [OF ex_alloc_new] by (simp_all add: headroom_def ex_alloc_def)

lemma ex_align: "is_power_of_two (0x100 :: u64)"
  by (simp add: is_power_of_two_def bex_simps upt_rec [of 0] upt_rec [of "Suc _"])

lemma ex_allocate:
  "allocate ex_alloc None 0x110 (Some 0x100) =
     (Some 0x10e00, ex_alloc\<lparr>aa_ranges := [(0x10e00, 0x110), (0x11000, 0)]\<rparr>)"
  by (simp add: allocate_def ex_align first_available_range_def ex_alloc_def prev_end_def align_address_def
      checked_sub_def saturating_sub_def)

theorem allocate_sound_witness:
  "fits ex_alloc 0x10e00 0x110 \<and> unat (0x10e00 :: u64) mod unat (0x100 :: u64) = 0 \<and>
   alloc_wf (ex_alloc\<lparr>aa_ranges := [(0x10e00, 0x110), (0x11000, 0)]\<rparr>)"
  using allocate_sound [OF ex_alloc_wf(1) _ ex_allocate] ex_alloc_wf(2) by simp

theorem allocate_complete_witness:
  "fst (allocate ex_alloc (Some 0x2000) 0x110 (Some 0x100)) = Some 0x2000"
proof -
  have "fits ex_alloc 0x2000 0x110" by (simp add: fits_def ex_alloc_def)
  from allocate_complete [OF ex_alloc_wf(1) ex_align ex_alloc_wf(2) this] show ?thesis by (simp add: ex_alloc_def)
qed


end
