(* ===== verification/Vm_Bus.thy ===== *)
theory Vm_Bus
  imports Ordered_Map
begin

text \<open>
  The address bus of the monitor, \<^verbatim>\<open>src/uffd-cow-gpt/cloud-hypervisor/vm-device/src/bus.rs\<close>: the map
  from address ranges to devices and the routing of reads and writes. Devices are handles; the
  world they act on is a parameter, and so are the calls of the device trait and whether the weak
  reference to a device can still be upgraded.
\<close>

section \<open>Operations\<close>

datatype bus_error = BusOverlap | ZeroSizedRange | MissingAddressRange

record bus_range =
  br_base :: u64
  br_len :: u64

definition overlaps :: "bus_range \<Rightarrow> u64 \<Rightarrow> u64 \<Rightarrow> bool" where
  "overlaps r base len \<longleftrightarrow> br_base r < base + len \<and> base < br_base r + br_len r"

text \<open>
  Ranges compare by their base alone, so the map is keyed by the base; an entry holds the length
  of its range and the device.
\<close>

type_synonym 'd bus = "(u64, u64 \<times> 'd) btree"

definition bus_new :: "'d bus" where
  "bus_new = []"

definition first_before :: "('d \<Rightarrow> bool) \<Rightarrow> 'd bus \<Rightarrow> u64 \<Rightarrow> (bus_range \<times> 'd) option" where
  "first_before alive bus addr =
     (case bt_last_le addr bus of
        None \<Rightarrow> None
      | Some (base, len, dev) \<Rightarrow> if alive dev then Some (\<lparr>br_base = base, br_len = len\<rparr>, dev) else None)"

definition resolve :: "('d \<Rightarrow> bool) \<Rightarrow> 'd bus \<Rightarrow> u64 \<Rightarrow> (u64 \<times> u64 \<times> 'd) option" where
  "resolve alive bus addr =
     (case first_before alive bus addr of
        Some (rng, dev) \<Rightarrow>
          (let offset = addr - br_base rng in
           if offset < br_len rng then Some (br_base rng, offset, dev) else None)
      | None \<Rightarrow> None)"

text \<open>
  Insertion looks for an overlap under the read lock and then inserts under the write lock. An
  insertion that finds its key present replaces the value and keeps the key, hence its length.
\<close>

definition insert_check :: "u64 \<Rightarrow> u64 \<Rightarrow> 'd bus \<Rightarrow> (bus_error, unit) outcome" where
  "insert_check base len bus =
     (if len = 0 then Inl (Err ZeroSizedRange)
      else if \<exists>(b, l, _) \<in> set bus. overlaps \<lparr>br_base = b, br_len = l\<rparr> base len then Inl (Err BusOverlap)
      else Inr ())"

definition insert_commit :: "'d \<Rightarrow> u64 \<Rightarrow> u64 \<Rightarrow> 'd bus \<Rightarrow> (bus_error, unit) outcome \<times> 'd bus" where
  "insert_commit device base len bus =
     (case bt_get base bus of
        Some (l, _) \<Rightarrow> (Inl (Err BusOverlap), bt_insert base (l, device) bus)
      | None \<Rightarrow> (Inr (), bt_insert base (len, device) bus))"

definition bus_insert :: "'d \<Rightarrow> u64 \<Rightarrow> u64 \<Rightarrow> 'd bus \<Rightarrow> (bus_error, unit) outcome \<times> 'd bus" where
  "bus_insert device base len bus =
     (case insert_check base len bus of
        Inl e \<Rightarrow> (Inl e, bus)
      | Inr _ \<Rightarrow> insert_commit device base len bus)"

definition bus_remove :: "u64 \<Rightarrow> u64 \<Rightarrow> 'd bus \<Rightarrow> (bus_error, unit) outcome \<times> 'd bus" where
  "bus_remove base len bus =
     (if len = 0 then (Inl (Err ZeroSizedRange), bus)
      else if bt_get base bus = None then (Inl (Err MissingAddressRange), bus)
      else (Inr (), bt_remove base bus))"

definition remove_by_device :: "('d \<Rightarrow> bool) \<Rightarrow> 'd \<Rightarrow> 'd bus \<Rightarrow> (bus_error, unit) outcome \<times> 'd bus" where
  "remove_by_device alive device bus =
     (if \<exists>(_, _, d) \<in> set bus. \<not> alive d then (Inl Panic, bus)
      else (Inr (), fold bt_remove (map fst (filter (\<lambda>(_, _, d). d = device) bus)) bus))"

definition update_range ::
  "('d \<Rightarrow> bool) \<Rightarrow> u64 \<Rightarrow> u64 \<Rightarrow> u64 \<Rightarrow> u64 \<Rightarrow> 'd bus \<Rightarrow> (bus_error, unit) outcome \<times> 'd bus" where
  "update_range alive old_base old_len new_base new_len bus =
     (case resolve alive bus old_base of
        None \<Rightarrow> (Inl (Err MissingAddressRange), bus)
      | Some (_, _, device) \<Rightarrow>
          (case bus_remove old_base old_len bus of
             (Inl e, bus) \<Rightarrow> (Inl e, bus)
           | (Inr _, bus) \<Rightarrow> bus_insert device new_base new_len bus))"

definition bus_read ::
  "('d \<Rightarrow> bool) \<Rightarrow> ('d \<Rightarrow> u64 \<Rightarrow> u64 \<Rightarrow> nat \<Rightarrow> 'w \<Rightarrow> bytes \<times> 'w) \<Rightarrow> 'd bus \<Rightarrow> u64 \<Rightarrow> bytes \<Rightarrow> 'w \<Rightarrow>
     (bus_error, unit) outcome \<times> bytes \<times> 'w" where
  "bus_read alive dev_read bus addr data w =
     (case resolve alive bus addr of
        Some (base, offset, dev) \<Rightarrow> (case dev_read dev base offset (length data) w of (data, w) \<Rightarrow> (Inr (), data, w))
      | None \<Rightarrow> (Inl (Err MissingAddressRange), data, w))"

definition bus_write ::
  "('d \<Rightarrow> bool) \<Rightarrow> ('d \<Rightarrow> u64 \<Rightarrow> u64 \<Rightarrow> bytes \<Rightarrow> 'w \<Rightarrow> 'b option \<times> 'w) \<Rightarrow> 'd bus \<Rightarrow> u64 \<Rightarrow> bytes \<Rightarrow> 'w \<Rightarrow>
     (bus_error, 'b option) outcome \<times> 'w" where
  "bus_write alive dev_write bus addr data w =
     (case resolve alive bus addr of
        Some (base, offset, dev) \<Rightarrow> (case dev_write dev base offset data w of (r, w) \<Rightarrow> (Inr r, w))
      | None \<Rightarrow> (Inl (Err MissingAddressRange), w))"

section \<open>The bus invariant\<close>

text \<open>The ranges are non-empty, do not reach the end of the address space and do not overlap.\<close>

definition covers :: "u64 \<Rightarrow> u64 \<Rightarrow> u64 \<Rightarrow> bool" where
  "covers base len addr \<longleftrightarrow> unat base \<le> unat addr \<and> unat addr < unat base + unat len"

definition bus_wf :: "'d bus \<Rightarrow> bool" where
  "bus_wf bus \<longleftrightarrow> bt_ok bus \<and> (\<forall>(b, l, d) \<in> set bus. 0 < l \<and> unat b + unat l < 2 ^ 64) \<and>
     (\<forall>(b, l, d) \<in> set bus. \<forall>(b', l', d') \<in> set bus. b \<noteq> b' \<longrightarrow>
        unat b + unat l \<le> unat b' \<or> unat b' + unat l' \<le> unat b)"

lemma bus_wfD:
  assumes "bus_wf bus"
  shows "bt_ok bus" "(b, l, d) \<in> set bus \<Longrightarrow> 0 < unat l \<and> unat b + unat l < 2 ^ 64"
    "(b, l, d) \<in> set bus \<Longrightarrow> (b', l', d') \<in> set bus \<Longrightarrow> b \<noteq> b' \<Longrightarrow>
       unat b + unat l \<le> unat b' \<or> unat b' + unat l' \<le> unat b"
    "(b, l, d) \<in> set bus \<Longrightarrow> (b, l', d') \<in> set bus \<Longrightarrow> l' = l \<and> d' = d"
proof -
  show ok: "bt_ok bus" using assms by (simp add: bus_wf_def)
  show "(b, l, d) \<in> set bus \<Longrightarrow> 0 < unat l \<and> unat b + unat l < 2 ^ 64"
    using assms unfolding bus_wf_def word_less_nat_alt by auto
  show "(b, l, d) \<in> set bus \<Longrightarrow> (b', l', d') \<in> set bus \<Longrightarrow> b \<noteq> b' \<Longrightarrow>
       unat b + unat l \<le> unat b' \<or> unat b' + unat l' \<le> unat b"
    using assms unfolding bus_wf_def by blast
  show "(b, l, d) \<in> set bus \<Longrightarrow> (b, l', d') \<in> set bus \<Longrightarrow> l' = l \<and> d' = d"
    by (simp add: bt_get_Some [OF ok, symmetric])
qed

lemma bus_wfI:
  assumes "bt_ok bus" and "\<And>b l d. (b, l, d) \<in> set bus \<Longrightarrow> 0 < unat l \<and> unat b + unat l < 2 ^ 64"
    and "\<And>b l d b' l' d'. (b, l, d) \<in> set bus \<Longrightarrow> (b', l', d') \<in> set bus \<Longrightarrow> b \<noteq> b' \<Longrightarrow>
       unat b + unat l \<le> unat b' \<or> unat b' + unat l' \<le> unat b"
  shows "bus_wf bus"
proof -
  have "\<forall>(b, l, d) \<in> set bus. 0 < l \<and> unat b + unat l < 2 ^ 64"
    using assms(2) by (auto simp: word_less_nat_alt)
  moreover have "\<forall>(b, l, d) \<in> set bus. \<forall>(b', l', d') \<in> set bus. b \<noteq> b' \<longrightarrow>
      unat b + unat l \<le> unat b' \<or> unat b' + unat l' \<le> unat b"
    using assms(3) by blast
  ultimately show ?thesis using assms(1) by (simp add: bus_wf_def)
qed

lemma overlaps_nat:
  assumes "unat b + unat l < 2 ^ 64" and "unat base + unat len < 2 ^ 64"
  shows "overlaps \<lparr>br_base = b, br_len = l\<rparr> base len \<longleftrightarrow>
    unat b < unat base + unat len \<and> unat base < unat b + unat l"
proof -
  have "unat (b + l) = unat b + unat l" "unat (base + len) = unat base + unat len"
    using assms by (auto intro: unat_add_nowrap)
  then show ?thesis by (simp add: overlaps_def word_less_nat_alt)
qed

lemma covers_alt: "covers b l addr \<longleftrightarrow> b \<le> addr \<and> addr - b < l"
proof (cases "b \<le> addr")
  case True
  then have "unat b \<le> unat addr" "unat (addr - b) = unat addr - unat b"
    by (simp_all add: word_le_nat_alt unat_sub)
  with True show ?thesis unfolding covers_def word_less_nat_alt by linarith
qed (simp add: covers_def word_le_nat_alt)

lemma last_le_covers:
  assumes wf: "bus_wf bus" and e: "(b, l, d) \<in> set bus" and c: "covers b l addr"
  shows "bt_last_le addr bus = Some (b, l, d)"
proof -
  have "j \<le> b" if j: "(j, l', d') \<in> set bus" "j \<le> addr" for j l' d'
  proof (rule ccontr)
    assume "\<not> j \<le> b"
    then have "b \<noteq> j" "unat b < unat j" by (auto simp: word_le_nat_alt)
    with bus_wfD(3) [OF wf e j(1) \<open>b \<noteq> j\<close>] bus_wfD(2) [OF wf j(1)] c j(2) show False
      unfolding covers_def word_le_nat_alt by linarith
  qed
  moreover have "b \<le> addr" using c by (simp add: covers_alt)
  ultimately show ?thesis
    unfolding bt_last_le_Some [OF bus_wfD(1) [OF wf]] using e by fastforce
qed

lemma resolve_alt:
  "resolve alive bus addr = (case bt_last_le addr bus of
     Some (b, l, d) \<Rightarrow> if alive d \<and> addr - b < l then Some (b, addr - b, d) else None | None \<Rightarrow> None)"
  by (simp add: resolve_def first_before_def Let_def split: option.split)

lemma resolve_Some:
  assumes wf: "bus_wf bus"
  shows "resolve alive bus addr = Some (b, off, d) \<longleftrightarrow>
    (\<exists>l. (b, l, d) \<in> set bus \<and> covers b l addr \<and> alive d \<and> off = addr - b)"
proof
  assume "resolve alive bus addr = Some (b, off, d)"
  then obtain l where l: "bt_last_le addr bus = Some (b, l, d)" "alive d" "addr - b < l" "off = addr - b"
    unfolding resolve_alt by (auto split: option.splits if_splits)
  from l(1) have "(b, l, d) \<in> set bus \<and> b \<le> addr"
    unfolding bt_last_le_Some [OF bus_wfD(1) [OF wf]] by blast
  with l show "\<exists>l. (b, l, d) \<in> set bus \<and> covers b l addr \<and> alive d \<and> off = addr - b"
    unfolding covers_alt by blast
next
  assume "\<exists>l. (b, l, d) \<in> set bus \<and> covers b l addr \<and> alive d \<and> off = addr - b"
  then obtain l where l: "(b, l, d) \<in> set bus" "covers b l addr" "alive d" "off = addr - b" by blast
  then show "resolve alive bus addr = Some (b, off, d)"
    using last_le_covers [OF wf l(1,2)] by (simp add: resolve_alt covers_alt)
qed

text \<open>
  \<open>C26\<close>: routing is exact. On a well-formed bus an address is resolved to a device exactly when
  the address lies in the range of that device and the device is alive, with the base of the
  range and the offset into it; there is at most one such device, whatever the order in which
  devices were inserted.
\<close>

theorem resolve_exact:
  assumes "bus_wf bus"
  shows "(resolve alive bus addr = Some (b, off, d) \<longleftrightarrow>
      (\<exists>l. (b, l, d) \<in> set bus \<and> covers b l addr \<and> alive d \<and> off = addr - b)) \<and>
    (resolve alive bus addr = None \<longleftrightarrow> (\<forall>(b, l, d) \<in> set bus. covers b l addr \<longrightarrow> \<not> alive d))"
proof -
  have "resolve alive bus addr = None \<longleftrightarrow> \<not> (\<exists>b off d. resolve alive bus addr = Some (b, off, d))"
    by (cases "resolve alive bus addr") auto
  with resolve_Some [OF assms] show ?thesis by (auto simp: Ball_def)
qed

section \<open>Insertion and removal\<close>

lemma bus_insert_Ok:
  assumes wf: "bus_wf bus" and nowrap: "unat base + unat len < 2 ^ 64"
    and run: "bus_insert device base len bus = (Inr (), bus')"
  shows "bus' = bt_insert base (len, device) bus" and "0 < unat len" and "base \<notin> fst ` set bus"
    and "(b, l, d) \<in> set bus \<Longrightarrow> unat b + unat l \<le> unat base \<or> unat base + unat len \<le> unat b"
proof -
  from run have ck: "insert_check base len bus = Inr ()" and cm: "insert_commit device base len bus = (Inr (), bus')"
    by (auto simp: bus_insert_def split: sum.splits)
  from cm show b': "bus' = bt_insert base (len, device) bus" and "base \<notin> fst ` set bus"
    by (auto simp: insert_commit_def bt_get_None [symmetric] split: option.splits)
  from ck show "0 < unat len" by (auto simp: insert_check_def word_neq_0_conv word_less_nat_alt split: if_splits)
  assume e: "(b, l, d) \<in> set bus"
  with ck have "\<not> overlaps \<lparr>br_base = b, br_len = l\<rparr> base len" by (force simp: insert_check_def split: if_splits)
  with overlaps_nat [OF conjunct2 [OF bus_wfD(2) [OF wf e]] nowrap]
  show "unat b + unat l \<le> unat base \<or> unat base + unat len \<le> unat b" by auto
qed

lemma set_bt_insert_new:
  "k \<notin> fst ` set m \<Longrightarrow> set (bt_insert k v m) = insert (k, v) (set m)"
  by (induction k v m rule: bt_insert.induct) auto

lemma bus_insert_wf:
  assumes wf: "bus_wf bus" and nowrap: "unat base + unat len < 2 ^ 64"
    and run: "bus_insert device base len bus = (Inr (), bus')"
  shows "bus_wf bus'" and "set bus' = insert (base, len, device) (set bus)"
proof -
  note I = bus_insert_Ok [OF assms]
  show set: "set bus' = insert (base, len, device) (set bus)" unfolding I(1) by (rule set_bt_insert_new [OF I(3)])
  have ok: "bt_ok bus'" unfolding I(1) by (rule bt_ok_insert [OF bus_wfD(1) [OF wf]])
  show "bus_wf bus'"
  proof (rule bus_wfI [OF ok])
    fix b l d assume "(b, l, d) \<in> set bus'"
    then show "0 < unat l \<and> unat b + unat l < 2 ^ 64"
      using bus_wfD(2) [OF wf, of b l d] I(2) nowrap unfolding set by blast
  next
    fix b l d b' l' d' assume "(b, l, d) \<in> set bus'" "(b', l', d') \<in> set bus'" "b \<noteq> b'"
    then show "unat b + unat l \<le> unat b' \<or> unat b' + unat l' \<le> unat b"
      using bus_wfD(3) [OF wf, of b l d b' l' d'] I(4) [of b l d] I(4) [of b' l' d'] unfolding set by blast
  qed
qed

lemma option_triple_eqI:
  assumes "\<And>a b c. x = Some (a, b, c) \<longleftrightarrow> y = Some (a, b, c)"
  shows "x = y"
proof (cases y)
  case None
  then show ?thesis using assms by (cases x) auto
next
  case (Some t)
  then show ?thesis using assms by (cases t) auto
qed

lemma resolve_new:
  assumes wf: "bus_wf bus" and nowrap: "unat base + unat len < 2 ^ 64"
    and run: "bus_insert device base len bus = (Inr (), bus')"
  shows "resolve alive bus' addr =
    (if covers base len addr then (if alive device then Some (base, addr - base, device) else None)
     else resolve alive bus addr)"
proof (rule option_triple_eqI)
  fix b off d
  note I = bus_insert_Ok [OF assms] and W = bus_insert_wf [OF assms]
  show "resolve alive bus' addr = Some (b, off, d) \<longleftrightarrow>
    (if covers base len addr then (if alive device then Some (base, addr - base, device) else None)
     else resolve alive bus addr) = Some (b, off, d)"
  proof (cases "covers base len addr")
    case True
    have only: "\<not> covers b l addr" if "(b, l, d) \<in> set bus" for b l d
      using I(4) [OF that] True unfolding covers_def by linarith
    have "resolve alive bus' addr = Some (b, off, d) \<longleftrightarrow> b = base \<and> off = addr - base \<and> d = device \<and> alive d"
      unfolding resolve_Some [OF W(1)] W(2) using True only by blast
    with True show ?thesis by auto
  next
    case False
    then show ?thesis using resolve_Some [OF W(1)] resolve_Some [OF wf] W(2) by auto
  qed
qed

lemma insert_check_Ok:
  assumes wf: "bus_wf bus" and nowrap: "unat base + unat len < 2 ^ 64" and ck: "insert_check base len bus = Inr ()"
  shows "bt_get base bus = None"
proof (cases "bt_get base bus")
  case (Some e)
  obtain l d where e: "(base, l, d) \<in> set bus"
    using Some bt_get_Some [OF bus_wfD(1) [OF wf]] by (cases e) auto
  have "\<not> overlaps \<lparr>br_base = base, br_len = l\<rparr> base len" "0 < unat len"
    using ck e by (force simp: insert_check_def unat_gt_0 split: if_splits)+
  with overlaps_nat [OF conjunct2 [OF bus_wfD(2) [OF wf e]] nowrap] bus_wfD(2) [OF wf e]
  show ?thesis by auto
qed

lemma insert_check_free:
  assumes wf: "bus_wf bus" and nowrap: "unat base + unat len < 2 ^ 64" and len: "len \<noteq> 0"
    and free: "\<And>b l d. (b, l, d) \<in> set bus \<Longrightarrow> unat b + unat l \<le> unat base \<or> unat base + unat len \<le> unat b"
  shows "insert_check base len bus = Inr ()"
proof -
  have "\<not> overlaps \<lparr>br_base = b, br_len = l\<rparr> base len" if "(b, l, d) \<in> set bus" for b l d
    unfolding overlaps_nat [OF conjunct2 [OF bus_wfD(2) [OF wf that]] nowrap] using free [OF that] by linarith
  then show ?thesis using len by (auto simp: insert_check_def)
qed

text \<open>
  Insertion. Inserting a range that ends inside the address space succeeds exactly when it
  is not empty and overlaps no range of the bus; the bus then stays well-formed, every address of
  the range resolves to the new device and every other address resolves as before. When it fails
  the bus is unchanged.
\<close>

theorem bus_insert_exact:
  assumes wf: "bus_wf bus" and nowrap: "unat base + unat len < 2 ^ 64"
  shows "(\<exists>bus'. bus_insert device base len bus = (Inr (), bus') \<and> bus_wf bus' \<and> 0 < unat len \<and>
      (\<forall>(b, l, d) \<in> set bus. unat b + unat l \<le> unat base \<or> unat base + unat len \<le> unat b) \<and>
      (\<forall>addr. resolve alive bus' addr =
        (if covers base len addr then (if alive device then Some (base, addr - base, device) else None)
         else resolve alive bus addr))) \<or>
    bus_insert device base len bus = (Inl (Err ZeroSizedRange), bus) \<and> len = 0 \<or>
    bus_insert device base len bus = (Inl (Err BusOverlap), bus) \<and>
      (\<exists>(b, l, d) \<in> set bus. unat b < unat base + unat len \<and> unat base < unat b + unat l)"
proof (cases "insert_check base len bus")
  case (Inl e)
  have ov: "overlaps \<lparr>br_base = b, br_len = l\<rparr> base len \<longleftrightarrow> unat b < unat base + unat len \<and> unat base < unat b + unat l"
    if "(b, l, d) \<in> set bus" for b l d
    by (rule overlaps_nat [OF conjunct2 [OF bus_wfD(2) [OF wf that]] nowrap])
  from Inl consider "len = 0" "e = Err ZeroSizedRange"
    | b l d where "e = Err BusOverlap" "(b, l, d) \<in> set bus" "overlaps \<lparr>br_base = b, br_len = l\<rparr> base len"
    by (auto simp: insert_check_def split: if_splits)
  then show ?thesis
  proof cases
    case 1
    with Inl show ?thesis by (simp add: bus_insert_def)
  next
    case 2
    with ov [OF 2(2)] Inl show ?thesis by (intro disjI2) (auto simp: bus_insert_def)
  qed
next
  case (Inr u)
  then have "bus_insert device base len bus = (Inr (), bt_insert base (len, device) bus)"
    using insert_check_Ok [OF wf nowrap] by (simp add: bus_insert_def insert_commit_def)
  note run = this and I = bus_insert_Ok [OF wf nowrap this] and W = bus_insert_wf [OF wf nowrap this]
  have "\<forall>(b, l, d) \<in> set bus. unat b + unat l \<le> unat base \<or> unat base + unat len \<le> unat b"
    using I(4) by blast
  with run W(1) I(2) resolve_new [OF wf nowrap run] show ?thesis by blast
qed

lemma bus_remove_Ok:
  assumes wf: "bus_wf bus" and run: "bus_remove base len bus = (Inr (), bus')"
  shows "bus_wf bus'" and "set bus' = {e \<in> set bus. fst e \<noteq> base}" and "base \<in> fst ` set bus"
proof -
  from run have b': "bus' = bt_remove base bus" and "bt_get base bus \<noteq> None"
    by (auto simp: bus_remove_def split: if_splits)
  then show set: "set bus' = {e \<in> set bus. fst e \<noteq> base}" and "base \<in> fst ` set bus"
    by (auto simp: bt_remove_def bt_get_None)
  have "bt_ok bus'" unfolding b' by (rule bt_ok_remove [OF bus_wfD(1) [OF wf]])
  then show "bus_wf bus'" by (rule bus_wfI) (use bus_wfD(2,3) [OF wf] set in blast)+
qed

text \<open>
  Moving a device. When the range of a live device is moved to a free range, the addresses
  of the new range resolve to that device, the addresses of the old range that are not in the new
  one resolve to nothing, and all other addresses resolve as before.
\<close>

theorem update_range_exact:
  assumes wf: "bus_wf bus" and old: "(old_base, l, device) \<in> set bus" "alive device" "old_len \<noteq> 0"
    and nowrap: "unat new_base + unat new_len < 2 ^ 64"
    and free: "new_len \<noteq> 0" "\<And>b l d. (b, l, d) \<in> set bus \<Longrightarrow> b \<noteq> old_base \<Longrightarrow>
      unat b + unat l \<le> unat new_base \<or> unat new_base + unat new_len \<le> unat b"
  shows "\<exists>bus'. update_range alive old_base old_len new_base new_len bus = (Inr (), bus') \<and> bus_wf bus' \<and>
    (\<forall>addr. resolve alive bus' addr =
      (if covers new_base new_len addr then Some (new_base, addr - new_base, device)
       else if covers old_base l addr then None else resolve alive bus addr))"
proof -
  have "covers old_base l old_base" using bus_wfD(2) [OF wf old(1)] by (simp add: covers_def)
  then have r: "resolve alive bus old_base = Some (old_base, 0, device)"
    unfolding resolve_Some [OF wf] using old by auto
  have "bt_get old_base bus = Some (l, device)" using old(1) bt_get_Some [OF bus_wfD(1) [OF wf]] by simp
  then obtain bus1 where rm: "bus_remove old_base old_len bus = (Inr (), bus1)"
    using old(3) by (simp add: bus_remove_def)
  note R = bus_remove_Ok [OF wf rm]
  have "insert_check new_base new_len bus1 = Inr ()"
    by (rule insert_check_free [OF R(1) nowrap free(1)]) (use free(2) R(2) in auto)
  then obtain bus2 where ins: "bus_insert device new_base new_len bus1 = (Inr (), bus2)"
    using insert_check_Ok [OF R(1) nowrap] by (simp add: bus_insert_def insert_commit_def)
  have gone: "resolve alive bus1 addr = (if covers old_base l addr then None else resolve alive bus addr)" for addr
  proof (rule option_triple_eqI)
    fix b off d
    have "b = old_base" if "(b, l', d') \<in> set bus" "covers b l' addr" "covers old_base l addr" for l' d'
      using bus_wfD(3) [OF wf that(1) old(1)] that(2,3) unfolding covers_def by linarith
    moreover have "l' = l" if "(old_base, l', d') \<in> set bus" for l' d'
      using bus_wfD(4) [OF wf old(1) that] by simp
    ultimately show "resolve alive bus1 addr = Some (b, off, d) \<longleftrightarrow>
      (if covers old_base l addr then None else resolve alive bus addr) = Some (b, off, d)"
      unfolding resolve_Some [OF R(1)] R(2) using resolve_Some [OF wf] by (auto split: if_splits)
  qed
  have "update_range alive old_base old_len new_base new_len bus = (Inr (), bus2)"
    using r rm ins by (simp add: update_range_def)
  moreover have "resolve alive bus2 addr =
      (if covers new_base new_len addr then Some (new_base, addr - new_base, device)
       else if covers old_base l addr then None else resolve alive bus addr)" for addr
    unfolding resolve_new [OF R(1) nowrap ins] gone using old(2) by simp
  ultimately show ?thesis using bus_insert_wf(1) [OF R(1) nowrap ins] by blast
qed

text \<open>Removing by device keeps the bus well-formed and takes off exactly the ranges of the device.\<close>

lemma remove_by_device_Ok:
  assumes wf: "bus_wf bus" and run: "remove_by_device alive device bus = (Inr (), bus')"
  shows "bus_wf bus'" and "set bus' = {(b, l, d) \<in> set bus. d \<noteq> device}"
proof -
  have fold: "set (fold bt_remove ks m) = {e \<in> set m. fst e \<notin> set ks}" for ks and m :: "'a bus"
    by (induction ks arbitrary: m) (auto simp: bt_remove_def)
  have ok: "bt_ok m \<Longrightarrow> bt_ok (fold bt_remove ks m)" for ks and m :: "'a bus"
    by (induction ks arbitrary: m) (simp_all add: bt_ok_remove)
  from run have b': "bus' = fold bt_remove (map fst (filter (\<lambda>(_, _, d). d = device) bus)) bus"
    by (auto simp: remove_by_device_def split: if_splits)
  show set: "set bus' = {(b, l, d) \<in> set bus. d \<noteq> device}"
  proof -
    define K where "K = set (map fst (filter (\<lambda>(_, _, d). d = device) bus))"
    have "b \<in> K \<longleftrightarrow> d = device" if "(b, l, d) \<in> set bus" for b l d
    proof
      assume "b \<in> K"
      then obtain l' where "(b, l', device) \<in> set bus" by (auto simp: K_def)
      with bus_wfD(4) [OF wf that] show "d = device" by blast
    next
      assume "d = device"
      with that have "(b, l, d) \<in> set (filter (\<lambda>(_, _, d). d = device) bus)" by simp
      then show "b \<in> K" unfolding K_def list.set_map by (rule image_eqI [rotated]) simp
    qed
    then show ?thesis unfolding b' fold K_def [symmetric] by auto
  qed
  show "bus_wf bus'"
  proof (rule bus_wfI)
    show "bt_ok bus'" unfolding b' by (rule ok [OF bus_wfD(1) [OF wf]])
  qed (use bus_wfD(2,3) [OF wf] set in blast)+
qed

section \<open>Where the bus loses a device\<close>

text \<open>
  A move to an occupied range fails, and the device is no longer on the bus at either range: the
  old range is removed before the new one is checked.
\<close>

lemma update_range_loses_device:
  fixes bus :: "nat bus"
  defines "bus \<equiv> [(0x10, 0x10, 1), (0x20, 0x10, 2)]"
  shows "update_range (\<lambda>_. True) 0x10 0x10 0x28 0x10 bus = (Inl (Err BusOverlap), [(0x20, 0x10, 2)])"
  by (simp add: bus_def update_range_def resolve_alt bus_remove_def bt_get_def bt_remove_def bus_insert_def
      insert_check_def overlaps_def)

text \<open>
  The overlap check and the insertion take the lock separately. Two insertions of overlapping
  ranges that interleave both pass the check and both succeed.
\<close>

lemma insert_race:
  "insert_check 0x10 0x10 ([] :: nat bus) = Inr () \<and> insert_check 0x18 0x10 ([] :: nat bus) = Inr () \<and>
   insert_commit 1 0x10 0x10 ([] :: nat bus) = (Inr (), [(0x10, 0x10, 1)]) \<and>
   insert_commit 2 0x18 0x10 [(0x10, 0x10, 1 :: nat)] = (Inr (), [(0x10, 0x10, 1), (0x18, 0x10, 2)]) \<and>
   \<not> bus_wf [(0x10, 0x10, 1), (0x18, 0x10, 2 :: nat)]"
  by (simp add: insert_check_def overlaps_def insert_commit_def bt_get_def bus_wf_def)

section \<open>An instance\<close>

definition ex_bus :: "nat bus" where
  "ex_bus = [(0x10, 0x10, 1), (0x20, 0x10, 2)]"

lemma ex_bus_wf: "bus_wf ex_bus"
  by (simp add: bus_wf_def ex_bus_def bt_ok_def)

theorem resolve_exact_witness: "resolve (\<lambda>_. True) ex_bus 0x2f = Some (0x20, 0xf, 2)"
  using resolve_exact [OF ex_bus_wf, of "\<lambda>_. True" "0x2f" "0x20" "0xf" 2] by (auto simp: ex_bus_def covers_def)

theorem bus_insert_exact_witness:
  "\<exists>bus'. bus_insert 3 0x30 8 ex_bus = (Inr (), bus') \<and> bus_wf bus' \<and>
     resolve (\<lambda>_. True) bus' 0x37 = Some (0x30, 7, 3)"
  using bus_insert_exact [OF ex_bus_wf, of "0x30" 8 3 "\<lambda>_. True"] by (auto simp: ex_bus_def covers_def)

theorem update_range_exact_witness:
  "\<exists>bus'. update_range (\<lambda>_. True) 0x10 0x10 0x8 0x10 ex_bus = (Inr (), bus') \<and> bus_wf bus' \<and>
     resolve (\<lambda>_. True) bus' 0x9 = Some (0x8, 1, 1) \<and> resolve (\<lambda>_. True) bus' 0x1c = None"
proof -
  have "(0x10, 0x10, 1) \<in> set ex_bus" by (simp add: ex_bus_def)
  from update_range_exact [OF ex_bus_wf this, of "\<lambda>_. True" "0x10" "0x8" "0x10"]
  obtain bus' where "update_range (\<lambda>_. True) 0x10 0x10 0x8 0x10 ex_bus = (Inr (), bus')" "bus_wf bus'"
    and r: "\<And>addr. resolve (\<lambda>_. True) bus' addr =
      (if covers 0x8 0x10 addr then Some (0x8, addr - 0x8, 1)
       else if covers 0x10 0x10 addr then None else resolve (\<lambda>_. True) ex_bus addr)"
    by (auto simp: ex_bus_def)
  moreover have "resolve (\<lambda>_. True) bus' 0x9 = Some (0x8, 1, 1)" "resolve (\<lambda>_. True) bus' 0x1c = None"
    by (simp_all add: r covers_def)
  ultimately show ?thesis by blast
qed

end
