(* ===== verification/Std_Io.thy ===== *)
theory Std_Io
  imports Kernel
begin

text \<open>
  The input and output loops of the Rust standard library that the sources rely on: the retry
  of an interrupted call, \<open>Read::read_exact\<close>, \<open>Write::write_all\<close> and \<open>Seek::seek\<close>, over
  the system calls of the kernel record.
\<close>

section \<open>Operations\<close>

definition io_kind :: "io_error \<Rightarrow> error_kind" where
  "io_kind err =
     (case err of
        Os code \<Rightarrow>
          if code = 1 \<or> code = 13 then KPermissionDenied
          else if code = EINTR then KInterrupted
          else if code = EAGAIN then KWouldBlock
          else if code = 32 then KBrokenPipe
          else if code = 104 then KConnectionReset
          else KOther
      | Custom kind _ \<Rightarrow> kind)"

text \<open>Repeat a system call while it is interrupted by a signal.\<close>

partial_function (option) retry_intr ::
  "'w kernel \<Rightarrow> ('w \<Rightarrow> int \<times> 'a \<times> 'w) \<Rightarrow> 'w \<Rightarrow> (io_error, nat \<times> 'a, 'w) run" where
  "retry_intr K call w =
     (let ret = call w; n = fst ret; a = fst (snd ret); w' = snd (snd ret)
      in if n < 0
         then (if k_errno K w' = EINTR then retry_intr K call w'
               else Some (Inl (Err (Os (k_errno K w'))), w'))
         else Some (Inr (nat n, a), w'))"

function read_exact :: "'w kernel \<Rightarrow> fd \<Rightarrow> nat \<Rightarrow> 'w \<Rightarrow> (io_error, bytes, 'w) run" where
  "read_exact K fd n w =
     (if n = 0 then run_ret [] w
      else run_bind (retry_intr K (k_read K fd n) w) (\<lambda>(nread, buf) w.
        if nread = 0 then run_err (Custom UnexpectedEof ''failed to fill whole buffer'') w
        else if n < nread then run_panic w
        else run_bind (read_exact K fd (n - nread) w) (\<lambda>rest.
          run_ret (take nread buf @ rest))))"
  by pat_completeness auto
termination
  by (relation "measure (\<lambda>(K, fd, n, w). n)") auto

declare read_exact.simps [simp del]

function write_all :: "'w kernel \<Rightarrow> fd \<Rightarrow> bytes \<Rightarrow> 'w \<Rightarrow> (io_error, unit, 'w) run" where
  "write_all K fd buf w =
     (if buf = [] then run_ret () w
      else run_bind (retry_intr K (\<lambda>w. case k_write K fd buf w of (n, w') \<Rightarrow> (n, (), w')) w) (\<lambda>(n, _) w.
        if n = 0 then run_err (Custom KOther ''failed to write whole buffer'') w
        else if length buf < n then run_panic w
        else write_all K fd (drop n buf) w))"
  by pat_completeness auto
termination
  by (relation "measure (\<lambda>(K, fd, buf, w). length buf)") auto

declare write_all.simps [simp del]

definition seek_start :: "'w kernel \<Rightarrow> fd \<Rightarrow> u64 \<Rightarrow> 'w \<Rightarrow> (io_error, unit, 'w) run" where
  "seek_start K fd off w =
     (case k_lseek K fd off w of (r, w') \<Rightarrow>
        if r < 0 then run_err (Os (k_errno K w')) w' else run_ret () w')"

section \<open>Contracts\<close>

text \<open>
  \<open>read(2)\<close> on a descriptor whose remaining bytes are \<open>avail\<close>: a call that succeeds consumes a
  prefix, zero is returned only at the end, and an interrupted call uses up one of finitely many
  pending signals.
\<close>

definition read_ok :: "'w kernel \<Rightarrow> ('w \<Rightarrow> bytes) \<Rightarrow> ('w \<Rightarrow> nat) \<Rightarrow> fd \<Rightarrow> bool" where
  "read_ok K avail pending fd \<longleftrightarrow>
     (\<forall>n w r buf w'. k_read K fd n w = (r, buf, w') \<longrightarrow>
        pending w' \<le> pending w \<and>
        (r < 0 \<longrightarrow> avail w' = avail w \<and> (k_errno K w' = EINTR \<longrightarrow> pending w' < pending w)) \<and>
        (0 \<le> r \<longrightarrow> nat r \<le> n \<and> nat r \<le> length (avail w) \<and>
           take (nat r) buf = take (nat r) (avail w) \<and> avail w' = drop (nat r) (avail w)) \<and>
        (r = 0 \<longrightarrow> n = 0 \<or> avail w = []))"

text \<open>\<open>write(2)\<close>: a call that succeeds appends a prefix of the buffer to what was sent.\<close>

definition write_ok :: "'w kernel \<Rightarrow> ('w \<Rightarrow> bytes) \<Rightarrow> ('w \<Rightarrow> nat) \<Rightarrow> fd \<Rightarrow> bool" where
  "write_ok K sent pending fd \<longleftrightarrow>
     (\<forall>buf w r w'. k_write K fd buf w = (r, w') \<longrightarrow>
        pending w' \<le> pending w \<and>
        (r < 0 \<longrightarrow> sent w' = sent w \<and> (k_errno K w' = EINTR \<longrightarrow> pending w' < pending w)) \<and>
        (0 \<le> r \<longrightarrow> nat r \<le> length buf \<and> sent w' = sent w @ take (nat r) buf))"

section \<open>The retry loop\<close>

text \<open>
  The loop ends with a call that was not interrupted, made in a world that differs from the first
  only by interrupted calls.
\<close>

lemma retry_intr_last:
  assumes "\<And>w r a w'. call w = (r, a, w') \<Longrightarrow> r < 0 \<Longrightarrow> k_errno K w' = EINTR \<Longrightarrow>
      (pending w' :: nat) < pending w \<and> f w' = f w"
  obtains v r a v' where "call v = (r, a, v')" and "f v = f w" and "r < 0 \<longrightarrow> k_errno K v' \<noteq> EINTR"
    and "retry_intr K call w =
      Some (if r < 0 then Inl (Err (Os (k_errno K v'))) else Inr (nat r, a), v')"
proof (induction "pending w" arbitrary: w thesis rule: less_induct)
  case less
  obtain r a w' where c: "call w = (r, a, w')" by (cases "call w")
  show ?case
  proof (cases "r < 0 \<and> k_errno K w' = EINTR")
    case True
    with assms [OF c] have p: "pending w' < pending w" and fw: "f w' = f w" by auto
    have eq: "retry_intr K call w = retry_intr K call w'"
      using True by (subst retry_intr.simps) (simp add: c Let_def)
    show ?thesis
      by (rule less.hyps [OF p]) (use fw eq less.prems in auto)
  next
    case False
    then show ?thesis by (intro less.prems [OF c]) (auto simp: c Let_def retry_intr.simps [of K call w])
  qed
qed

lemma retry_intr_frame:
  assumes "\<And>w. f (snd (snd (call w))) = f w" and "retry_intr K call w = Some (r, w')"
  shows "f w' = f w"
proof -
  have "K' = K \<longrightarrow> call' = call \<longrightarrow> f (snd rw) = f w" if "retry_intr K' call' w = Some rw" for K' call' w rw
    using that
  proof (rule retry_intr.raw_induct
      [rotated, where P = "\<lambda>K' call' w rw. K' = K \<longrightarrow> call' = call \<longrightarrow> f (snd rw) = f w"], goal_cases)
    case (1 g K' call' w rw)
    then show ?case using assms(1) [of w] by (auto simp: Let_def split: if_splits)
  qed
  from this [OF assms(2)] show ?thesis by simp
qed

section \<open>Exact reads and writes\<close>

lemma read_exact_spec:
  assumes ok: "read_ok K avail pending fd"
  shows "\<exists>res w'. read_exact K fd n w = Some (res, w') \<and> res \<noteq> Inl Panic \<and>
    (\<forall>bs. res = Inr bs \<longrightarrow> bs = take n (avail w) \<and> length bs = n \<and> avail w' = drop n (avail w)) \<and>
    (\<forall>e. res = Inl e \<longrightarrow> (\<exists>k < n. avail w' = drop k (avail w)))"
proof (induction n arbitrary: w rule: less_induct)
  case (less n)
  show ?case
  proof (cases "n = 0")
    case True
    then show ?thesis by (simp add: read_exact.simps)
  next
    case False
    show ?thesis
    proof (rule retry_intr_last [of "k_read K fd n" K pending avail w])
      fix v r buf v'
      assume c: "k_read K fd n v = (r, buf, v')" and v: "avail v = avail w"
        and run: "retry_intr K (k_read K fd n) w =
          Some (if r < 0 then Inl (Err (Os (k_errno K v'))) else Inr (nat r, buf), v')"
      note d = ok [unfolded read_ok_def, rule_format, OF c]
      show ?thesis
      proof (cases "r \<le> 0")
        case True
        with run False d v show ?thesis by (auto simp: read_exact.simps [of K fd n] intro!: exI [where x = 0])
      next
        case pos: False
        with d have le: "nat r \<le> n" and av: "avail v' = drop (nat r) (avail w)"
          and buf: "take (nat r) buf = take (nat r) (avail w)" and len: "nat r \<le> length (avail w)"
          by (auto simp: v)
        from less.IH [of "n - nat r" v'] pos False obtain res w' where
          rest: "read_exact K fd (n - nat r) v' = Some (res, w')" "res \<noteq> Inl Panic"
          and bs: "\<forall>bs. res = Inr bs \<longrightarrow> bs = take (n - nat r) (avail v') \<and> length bs = n - nat r \<and>
            avail w' = drop (n - nat r) (avail v')"
          and err: "\<forall>e. res = Inl e \<longrightarrow> (\<exists>k < n - nat r. avail w' = drop k (avail v'))" by auto
        have eq: "read_exact K fd n w = run_bind (Some (res, w')) (\<lambda>rest. run_ret (take (nat r) buf @ rest))"
          using run rest pos False le by (simp add: read_exact.simps [of K fd n])
        show ?thesis
        proof (cases res)
          case (Inl e)
          with err av obtain k where "k < n - nat r" and "avail w' = drop (k + nat r) (avail w)" by auto
          then have "\<exists>k < n. avail w' = drop k (avail w)" by (intro exI [where x = "k + nat r"]) simp
          with eq rest Inl show ?thesis by simp
        next
          case (Inr b)
          have "take (nat r) (avail w) @ take (n - nat r) (drop (nat r) (avail w)) = take n (avail w)"
            using le by (metis le_add_diff_inverse take_add)
          moreover have "length (take n (avail w)) = n"
            using bs Inr len le av by (auto simp: min_def)
          ultimately show ?thesis using eq Inr bs buf av le by auto
        qed
      qed
    qed (use ok in \<open>auto simp: read_ok_def\<close>)
  qed
qed

lemma read_exact_frame:
  assumes "\<And>n w. f (snd (snd (k_read K fd n w))) = f w" and "read_exact K fd n w = Some (r, w')"
  shows "f w' = f w"
  using assms(2)
proof (induction n arbitrary: w r w' rule: less_induct)
  case (less n)
  show ?case
  proof (cases "n = 0")
    case True
    with less.prems show ?thesis by (simp add: read_exact.simps)
  next
    case False
    with less.prems obtain r1 w1 where r1: "retry_intr K (k_read K fd n) w = Some (r1, w1)"
      by (cases "retry_intr K (k_read K fd n) w") (auto simp: read_exact.simps [of K fd n])
    note f1 = retry_intr_frame [of f, OF assms(1) r1]
    show ?thesis
    proof (cases "\<exists>k buf. r1 = Inr (k, buf) \<and> k \<noteq> 0 \<and> k \<le> n")
      case True
      then obtain k buf where k: "r1 = Inr (k, buf)" "k \<noteq> 0" "k \<le> n" by blast
      with less.prems False r1 have
        "run_bind (read_exact K fd (n - k) w1) (\<lambda>rest. run_ret (take k buf @ rest)) = Some (r, w')"
        by (simp add: read_exact.simps [of K fd n])
      then obtain r2 where "read_exact K fd (n - k) w1 = Some (r2, w')"
        by (auto simp: run_bind_def split: option.splits sum.splits)
      with less.IH [of "n - k"] k False f1 show ?thesis by fastforce
    next
      case stop: False
      with less.prems False r1 f1 show ?thesis
        by (cases r1) (auto simp: read_exact.simps [of K fd n] not_le split: if_splits)
    qed
  qed
qed

lemma write_all_spec:
  assumes ok: "write_ok K sent pending fd"
  shows "\<exists>res w'. write_all K fd buf w = Some (res, w') \<and> res \<noteq> Inl Panic \<and>
    (res = Inr () \<longrightarrow> sent w' = sent w @ buf)"
proof (induction "length buf" arbitrary: buf w rule: less_induct)
  case less
  show ?case
  proof (cases "buf = []")
    case True
    then show ?thesis by (simp add: write_all.simps)
  next
    case False
    let ?call = "\<lambda>w. case k_write K fd buf w of (n, w') \<Rightarrow> (n, (), w')"
    show ?thesis
    proof (rule retry_intr_last [of ?call K pending sent w])
      fix v r u v'
      assume c: "?call v = (r, u, v')" and v: "sent v = sent w"
        and run: "retry_intr K ?call w = Some (if r < 0 then Inl (Err (Os (k_errno K v'))) else Inr (nat r, u), v')"
      from c have "k_write K fd buf v = (r, v')" by (auto split: prod.splits)
      note d = ok [unfolded write_ok_def, rule_format, OF this]
      show ?thesis
      proof (cases "r \<le> 0")
        case True
        with run False show ?thesis by (auto simp: write_all.simps [of K fd buf])
      next
        case pos: False
        with d have le: "nat r \<le> length buf" and s: "sent v' = sent w @ take (nat r) buf" by (auto simp: v)
        have "write_all K fd buf w = write_all K fd (drop (nat r) buf) v'"
          using run pos False le by (simp add: write_all.simps [of K fd buf])
        with less.hyps [of "drop (nat r) buf" v'] pos False le s show ?thesis by auto
      qed
    qed (use ok in \<open>auto simp: write_ok_def split: prod.splits\<close>)
  qed
qed

lemma write_all_frame:
  assumes "\<And>buf w. f (snd (k_write K fd buf w)) = f w" and "write_all K fd buf w = Some (r, w')"
  shows "f w' = f w"
  using assms(2)
proof (induction "length buf" arbitrary: buf w rule: less_induct)
  case less
  let ?call = "\<lambda>w. case k_write K fd buf w of (n, w') \<Rightarrow> (n, (), w')"
  show ?case
  proof (cases "buf = []")
    case True
    with less.prems show ?thesis by (simp add: write_all.simps)
  next
    case False
    with less.prems obtain r1 w1 where r1: "retry_intr K ?call w = Some (r1, w1)"
      by (cases "retry_intr K ?call w") (auto simp: write_all.simps [of K fd buf])
    have "f w1 = f w"
      by (rule retry_intr_frame [OF _ r1]) (simp add: case_prod_beta assms(1))
    moreover have "f w' = f w1" if "write_all K fd (drop k buf) w1 = Some (r, w')" and "k \<noteq> 0" for k
      by (rule less.hyps [OF _ that(1)]) (use False that(2) in simp)
    ultimately show ?thesis using less.prems False r1
      by (cases r1) (auto simp: write_all.simps [of K fd buf] split: if_splits)
  qed
qed

end
