(* ===== verification/Rate_Limiter.thy ===== *)
theory Rate_Limiter
  imports Std_Io
begin

text \<open>
  The token-bucket rate limiter,
  \<^verbatim>\<open>src/uffd-cow-gpt/cloud-hypervisor/rate_limiter/src/lib.rs\<close>. Instants are nanoseconds; an operation
  takes the readings of the clock it makes as arguments. Floating-point arithmetic and the timer
  descriptor of the \<open>vmm_sys_util\<close> crate are parameters.
\<close>

section \<open>Token buckets\<close>

definition REFILL_TIMER_INTERVAL_MS :: u64 where
  "REFILL_TIMER_INTERVAL_MS = 100"

definition NANOSEC_IN_ONE_MILLISEC :: u64 where
  "NANOSEC_IN_ONE_MILLISEC = 1000000"

function gcd_u64 :: "u64 \<Rightarrow> u64 \<Rightarrow> u64" where
  "gcd_u64 x y = (if y \<noteq> 0 then gcd_u64 y (x mod y) else x)"
  by pat_completeness auto
termination
proof (relation "measure (\<lambda>(x, y). unat y)", goal_cases)
  case (2 x y)
  then have "0 < unat y" by (simp add: unat_gt_0)
  then show ?case by (simp add: unat_mod_word)
qed simp

declare gcd_u64.simps [simp del]

datatype 'f bucket_reduction = Failure | Success | OverConsumption 'f

record 'f float_ops =
  f_of_u64 :: "u64 \<Rightarrow> 'f"
  f_div :: "'f \<Rightarrow> 'f \<Rightarrow> 'f"
  f_mul :: "'f \<Rightarrow> 'f \<Rightarrow> 'f"
  f_to_u64 :: "'f \<Rightarrow> u64"

record token_bucket =
  tb_size :: u64
  tb_one_time_burst :: u64
  tb_refill_time :: u64
  tb_budget :: u64
  tb_last_update :: nat
  tb_processed_capacity :: u64
  tb_processed_refill_time :: u64

definition bucket_new :: "nat \<Rightarrow> u64 \<Rightarrow> u64 \<Rightarrow> u64 \<Rightarrow> token_bucket option" where
  "bucket_new now sz one_time_burst complete_refill_time_ms =
     (if sz = 0 \<or> complete_refill_time_ms = 0 then None
      else let complete_refill_time_ns = complete_refill_time_ms * NANOSEC_IN_ONE_MILLISEC;
               common_factor = gcd_u64 sz complete_refill_time_ns in
        Some \<lparr>tb_size = sz, tb_one_time_burst = one_time_burst, tb_refill_time = complete_refill_time_ms,
          tb_budget = sz, tb_last_update = now, tb_processed_capacity = sz div common_factor,
          tb_processed_refill_time = complete_refill_time_ns div common_factor\<rparr>)"

text \<open>
  The part of \<open>reduce\<close> after the one-time burst: the readings \<open>t1\<close> and \<open>t2\<close> are those of
  \<open>elapsed\<close> and of the following \<open>now\<close>.
\<close>

definition refill :: "nat \<Rightarrow> nat \<Rightarrow> token_bucket \<Rightarrow> (unit, token_bucket) outcome" where
  "refill t1 t2 b =
     (let time_delta = of_nat (t1 - tb_last_update b) in
      bindE (div_w (time_delta * tb_processed_capacity b) (tb_processed_refill_time b)) (\<lambda>n.
        let budget = tb_budget b + n in
        Inr (b\<lparr>tb_last_update := t2, tb_budget := (if budget \<ge> tb_size b then tb_size b else budget)\<rparr>)))"

definition take_tokens :: "'f float_ops \<Rightarrow> token_bucket \<Rightarrow> u64 \<Rightarrow> 'f bucket_reduction \<times> token_bucket" where
  "take_tokens F b tokens =
     (if tokens > tb_budget b
      then (if tokens > tb_size b
            then (OverConsumption (f_div F (f_of_u64 F (tokens - tb_budget b)) (f_of_u64 F (tb_size b))), b\<lparr>tb_budget := 0\<rparr>)
            else (Failure, b))
      else (Success, b\<lparr>tb_budget := tb_budget b - tokens\<rparr>))"

text \<open>In the first branch the only reading of the clock is \<open>t1\<close>.\<close>

definition reduce ::
  "'f float_ops \<Rightarrow> nat \<Rightarrow> nat \<Rightarrow> token_bucket \<Rightarrow> u64 \<Rightarrow> (unit, 'f bucket_reduction \<times> token_bucket) outcome" where
  "reduce F t1 t2 b tokens =
     (if tb_one_time_burst b > 0 \<and> tb_one_time_burst b \<ge> tokens
      then Inr (Success, b\<lparr>tb_one_time_burst := tb_one_time_burst b - tokens, tb_last_update := t1\<rparr>)
      else let tokens' = (if tb_one_time_burst b > 0 then tokens - tb_one_time_burst b else tokens);
               b' = (if tb_one_time_burst b > 0 then b\<lparr>tb_one_time_burst := 0\<rparr> else b) in
        bindE (refill t1 t2 b') (\<lambda>b. Inr (take_tokens F b tokens')))"

definition replenish :: "token_bucket \<Rightarrow> u64 \<Rightarrow> token_bucket" where
  "replenish b tokens =
     (if tb_one_time_burst b > 0 then b\<lparr>tb_one_time_burst := tb_one_time_burst b + tokens\<rparr>
      else b\<lparr>tb_budget := min (tb_budget b + tokens) (tb_size b)\<rparr>)"

section \<open>The limiter\<close>

datatype token_type = Bytes | Ops

datatype bucket_update = NoUpdate | Disabled | Update token_bucket

datatype limiter_error = SpuriousRateLimiterEvent string | TimerFdWaitError io_error

text \<open>The timer descriptor: creation, the flag calls, arming for some milliseconds, and waiting.\<close>

record 'w timer_ops =
  t_new :: "'w \<Rightarrow> (io_error + fd) \<times> 'w"
  t_getfl :: "fd \<Rightarrow> 'w \<Rightarrow> int \<times> 'w"
  t_setfl :: "fd \<Rightarrow> int \<Rightarrow> 'w \<Rightarrow> int \<times> 'w"
  t_errno :: "'w \<Rightarrow> int"
  t_reset :: "fd \<Rightarrow> u64 \<Rightarrow> 'w \<Rightarrow> (io_error + unit) \<times> 'w"
  t_wait :: "fd \<Rightarrow> 'w \<Rightarrow> (io_error + u64) \<times> 'w"

record 'w rate_limiter =
  rl_bandwidth :: "token_bucket option"
  rl_ops :: "token_bucket option"
  rl_timer_fd :: fd
  rl_timer_active :: bool
  rl_world :: 'w

unbundle bit_operations_syntax

definition limiter_new ::
  "'w timer_ops \<Rightarrow> nat \<Rightarrow> nat \<Rightarrow> u64 \<Rightarrow> u64 \<Rightarrow> u64 \<Rightarrow> u64 \<Rightarrow> u64 \<Rightarrow> u64 \<Rightarrow> 'w \<Rightarrow> (io_error + 'w rate_limiter) \<times> 'w" where
  "limiter_new T now1 now2 bytes_total bytes_burst bytes_refill ops_total ops_burst ops_refill w =
     (let bytes_bucket = bucket_new now1 bytes_total bytes_burst bytes_refill;
          ops_bucket = bucket_new now2 ops_total ops_burst ops_refill in
      case t_new T w of
        (Inl e, w) \<Rightarrow> (Inl e, w)
      | (Inr fd, w) \<Rightarrow>
          (case t_getfl T fd w of (flags, w) \<Rightarrow>
           case t_setfl T fd (flags OR 2048) w of (ret, w) \<Rightarrow>
             if ret < 0 then (Inl (Os (t_errno T w)), w)
             else (Inr \<lparr>rl_bandwidth = bytes_bucket, rl_ops = ops_bucket, rl_timer_fd = fd,
               rl_timer_active = False, rl_world = w\<rparr>, w)))"

definition get_bucket :: "token_type \<Rightarrow> 'w rate_limiter \<Rightarrow> token_bucket option" where
  "get_bucket k l = (case k of Bytes \<Rightarrow> rl_bandwidth l | Ops \<Rightarrow> rl_ops l)"

definition put_bucket :: "token_type \<Rightarrow> token_bucket \<Rightarrow> 'w rate_limiter \<Rightarrow> 'w rate_limiter" where
  "put_bucket k b l = (case k of Bytes \<Rightarrow> l\<lparr>rl_bandwidth := Some b\<rparr> | Ops \<Rightarrow> l\<lparr>rl_ops := Some b\<rparr>)"

definition activate_timer :: "'w timer_ops \<Rightarrow> u64 \<Rightarrow> 'w rate_limiter \<Rightarrow> (unit, unit) outcome \<times> 'w rate_limiter" where
  "activate_timer T dur l =
     (case t_reset T (rl_timer_fd l) dur (rl_world l) of
        (Inl _, w) \<Rightarrow> (Inl Panic, l\<lparr>rl_world := w\<rparr>)
      | (Inr _, w) \<Rightarrow> (Inr (), l\<lparr>rl_world := w, rl_timer_active := True\<rparr>))"

definition is_blocked :: "'w rate_limiter \<Rightarrow> bool" where
  "is_blocked l = rl_timer_active l"

definition consume ::
  "'w timer_ops \<Rightarrow> 'f float_ops \<Rightarrow> nat \<Rightarrow> nat \<Rightarrow> u64 \<Rightarrow> token_type \<Rightarrow> 'w rate_limiter \<Rightarrow>
     (unit, bool) outcome \<times> 'w rate_limiter" where
  "consume T F t1 t2 tokens token_type l =
     (if is_blocked l then (Inr False, l)
      else case get_bucket token_type l of
        None \<Rightarrow> (Inr True, l)
      | Some bucket \<Rightarrow>
          (case reduce F t1 t2 bucket tokens of
             Inl e \<Rightarrow> (Inl e, l)
           | Inr (res, bucket') \<Rightarrow>
               let l = put_bucket token_type bucket' l in
               (case res of
                  Failure \<Rightarrow>
                    if \<not> is_blocked l
                    then (case activate_timer T REFILL_TIMER_INTERVAL_MS l of
                            (Inl e, l) \<Rightarrow> (Inl e, l) | (Inr _, l) \<Rightarrow> (Inr False, l))
                    else (Inr False, l)
                | Success \<Rightarrow> (Inr True, l)
                | OverConsumption ratio \<Rightarrow>
                    (case activate_timer T (f_to_u64 F (f_mul F ratio (f_of_u64 F (tb_refill_time bucket)))) l of
                       (Inl e, l) \<Rightarrow> (Inl e, l) | (Inr _, l) \<Rightarrow> (Inr True, l)))))"

definition manual_replenish :: "u64 \<Rightarrow> token_type \<Rightarrow> 'w rate_limiter \<Rightarrow> 'w rate_limiter" where
  "manual_replenish tokens token_type l =
     (case get_bucket token_type l of
        Some bucket \<Rightarrow> put_bucket token_type (replenish bucket tokens) l
      | None \<Rightarrow> l)"

partial_function (option) event_handler ::
  "'w timer_ops \<Rightarrow> 'w rate_limiter \<Rightarrow> (limiter_error, unit, 'w rate_limiter) run" where
  "event_handler T l =
     (case t_wait T (rl_timer_fd l) (rl_world l) of
        (Inr _, w) \<Rightarrow> Some (Inr (), l\<lparr>rl_world := w, rl_timer_active := False\<rparr>)
      | (Inl err, w) \<Rightarrow>
          if io_kind err = KInterrupted then event_handler T (l\<lparr>rl_world := w\<rparr>)
          else if io_kind err = KWouldBlock
          then Some (Inl (Err (SpuriousRateLimiterEvent ''Rate limiter event handler called without a present timer'')),
                 l\<lparr>rl_world := w\<rparr>)
          else Some (Inl (Err (TimerFdWaitError err)), l\<lparr>rl_world := w\<rparr>))"

definition update_bucket :: "bucket_update \<Rightarrow> token_bucket option \<Rightarrow> token_bucket option" where
  "update_bucket u b = (case u of Disabled \<Rightarrow> None | Update tb \<Rightarrow> Some tb | NoUpdate \<Rightarrow> b)"

definition update_buckets :: "bucket_update \<Rightarrow> bucket_update \<Rightarrow> 'w rate_limiter \<Rightarrow> 'w rate_limiter" where
  "update_buckets bytes ops l =
     l\<lparr>rl_bandwidth := update_bucket bytes (rl_bandwidth l), rl_ops := update_bucket ops (rl_ops l)\<rparr>"

section \<open>The bucket invariant\<close>

lemma unat_gcd_u64: "unat (gcd_u64 x y) = gcd (unat x) (unat y)"
proof (induction x y rule: gcd_u64.induct)
  case (1 x y)
  show ?case
  proof (cases "y = 0")
    case True
    then show ?thesis by (simp add: gcd_u64.simps)
  next
    case False
    with 1 have "unat (gcd_u64 x y) = gcd (unat y) (unat x mod unat y)"
      by (simp add: gcd_u64.simps [of x y] unat_mod_word)
    then show ?thesis by (simp add: gcd_red_nat [of "unat x"])
  qed
qed

text \<open>The refill rate in lowest terms, and a budget within the size.\<close>

definition bucket_ok :: "token_bucket \<Rightarrow> bool" where
  "bucket_ok b \<longleftrightarrow> tb_budget b \<le> tb_size b \<and> 0 < unat (tb_size b) \<and> 0 < unat (tb_processed_refill_time b) \<and>
     unat (tb_processed_capacity b) * (unat (tb_refill_time b) * 1000000) =
       unat (tb_size b) * unat (tb_processed_refill_time b)"

lemma bucket_new_ok:
  assumes new: "bucket_new now sz burst ms = Some b" and nowrap: "unat ms * 1000000 < 2 ^ 64"
  shows "bucket_ok b" and "tb_size b = sz" and "tb_one_time_burst b = burst" and "tb_refill_time b = ms"
    and "tb_budget b = sz" and "tb_last_update b = now"
proof -
  define ns where "ns = ms * NANOSEC_IN_ONE_MILLISEC"
  define g where "g = gcd_u64 sz ns"
  have pos: "0 < unat sz" "0 < unat ms"
    using new by (auto simp: bucket_new_def unat_gt_0 split: if_splits)
  have b: "b = \<lparr>tb_size = sz, tb_one_time_burst = burst, tb_refill_time = ms, tb_budget = sz, tb_last_update = now,
      tb_processed_capacity = sz div g, tb_processed_refill_time = ns div g\<rparr>"
    using new by (auto simp: bucket_new_def g_def ns_def Let_def split: if_splits)
  have uns: "unat ns = unat ms * 1000000"
    unfolding ns_def NANOSEC_IN_ONE_MILLISEC_def using nowrap by (subst unat_mult_nowrap) simp_all
  have ug: "unat g = gcd (unat sz) (unat ns)" by (simp add: g_def unat_gcd_u64)
  have gpos: "0 < unat g" using pos(1) by (simp add: ug)
  have d: "unat g dvd unat sz" "unat g dvd unat ns" by (simp_all add: ug)
  have "0 < unat ns div unat g"
    using d(2) gpos uns pos(2) by (simp add: div_greater_zero_iff dvd_imp_le)
  moreover have "unat sz div unat g * unat ns = unat sz * (unat ns div unat g)"
    using d by (metis div_mult_swap mult.commute)
  ultimately show "bucket_ok b"
    using pos by (simp add: bucket_ok_def b unat_div_word uns [symmetric])
qed (use assms in \<open>auto simp: bucket_new_def Let_def split: if_splits\<close>)

lemma refill_Inr:
  assumes ok: "bucket_ok b" and fits: "unat (tb_size b) + (t1 - tb_last_update b) * unat (tb_processed_capacity b) < 2 ^ 64"
  defines "n \<equiv> (t1 - tb_last_update b) * unat (tb_processed_capacity b) div unat (tb_processed_refill_time b)"
  shows "\<exists>b'. refill t1 t2 b = Inr b' \<and> bucket_ok b' \<and>
    unat (tb_budget b') = min (unat (tb_size b)) (unat (tb_budget b) + n) \<and>
    b' = b\<lparr>tb_last_update := t2, tb_budget := tb_budget b'\<rparr>"
proof -
  define d where "d = t1 - tb_last_update b"
  have prt: "0 < unat (tb_processed_refill_time b)" and le: "unat (tb_budget b) \<le> unat (tb_size b)"
    using ok by (auto simp: bucket_ok_def word_le_nat_alt)
  have c0: "0 < unat (tb_processed_capacity b)"
  proof (rule ccontr)
    assume "\<not> 0 < unat (tb_processed_capacity b)"
    with ok show False by (auto simp: bucket_ok_def)
  qed
  have dc: "d * unat (tb_processed_capacity b) < 2 ^ 64" using fits by (simp add: d_def)
  have "d \<le> d * unat (tb_processed_capacity b)" using c0 by simp
  with dc have "d < 2 ^ 64" by linarith
  then have ud: "unat (of_nat d :: u64) = d" by (simp add: unsigned_of_nat take_bit_nat_eq_self)
  have m: "unat (of_nat d * tb_processed_capacity b) = d * unat (tb_processed_capacity b)"
    using dc by (subst unat_mult_nowrap) (simp_all add: ud)
  define q where "q = of_nat d * tb_processed_capacity b div tb_processed_refill_time b"
  have uq: "unat q = n" unfolding q_def unat_div_word m n_def by (simp add: d_def)
  have "n \<le> d * unat (tb_processed_capacity b)" by (simp add: n_def d_def)
  then have "unat (tb_budget b) + n < 2 ^ 64" using fits le unfolding d_def by linarith
  then have ub: "unat (tb_budget b + q) = unat (tb_budget b) + n" using uq by (subst unat_add_nowrap) simp_all
  define budget where "budget = (if tb_budget b + q \<ge> tb_size b then tb_size b else tb_budget b + q)"
  have run: "refill t1 t2 b = Inr (b\<lparr>tb_last_update := t2, tb_budget := budget\<rparr>)"
    using prt by (auto simp: refill_def div_w_def Let_def d_def q_def budget_def)
  have bud: "unat budget = min (unat (tb_size b)) (unat (tb_budget b) + n)"
    using ub by (simp add: budget_def word_le_nat_alt min_def)
  then have "bucket_ok (b\<lparr>tb_last_update := t2, tb_budget := budget\<rparr>)"
    using ok by (simp add: bucket_ok_def word_le_nat_alt)
  with run bud show ?thesis by simp
qed

text \<open>
  One call: the tokens granted and those kept, burst included, exceed what was there before by at
  most the refill of the time that passed.
\<close>

definition kept :: "token_bucket \<Rightarrow> nat" where
  "kept b = unat (tb_one_time_burst b) + unat (tb_budget b)"

definition granted :: "'f bucket_reduction \<Rightarrow> u64 \<Rightarrow> nat" where
  "granted res tokens = (case res of Failure \<Rightarrow> 0 | _ \<Rightarrow> unat tokens)"

definition same_rate :: "token_bucket \<Rightarrow> token_bucket \<Rightarrow> bool" where
  "same_rate b b' \<longleftrightarrow> tb_size b' = tb_size b \<and> tb_refill_time b' = tb_refill_time b \<and>
     tb_processed_capacity b' = tb_processed_capacity b \<and> tb_processed_refill_time b' = tb_processed_refill_time b"

lemma take_tokens_kept:
  assumes "bucket_ok b" and "tokens \<le> tb_size b" and "take_tokens F b tokens = (res, b')"
  shows "granted res tokens + unat (tb_budget b') \<le> unat (tb_budget b)" and "bucket_ok b'"
    and "b' = b\<lparr>tb_budget := tb_budget b'\<rparr>" and "res = Success \<or> res = Failure \<and> tb_budget b < tokens"
proof -
  have "unat (tb_budget b - tokens) = unat (tb_budget b) - unat tokens" if "tokens \<le> tb_budget b"
    using that by (simp add: unat_sub)
  with assms show "granted res tokens + unat (tb_budget b') \<le> unat (tb_budget b)" and "bucket_ok b'"
    and "b' = b\<lparr>tb_budget := tb_budget b'\<rparr>" and "res = Success \<or> res = Failure \<and> tb_budget b < tokens"
    by (auto simp: take_tokens_def granted_def bucket_ok_def word_le_nat_alt word_less_nat_alt split: if_splits)
qed

lemma reduce_kept:
  assumes ok: "bucket_ok b" and fits: "unat (tb_size b) + (t1 - tb_last_update b) * unat (tb_processed_capacity b) < 2 ^ 64"
    and order: "tb_last_update b \<le> t1" "t1 \<le> t2" and tok: "tokens \<le> tb_size b"
  shows "\<exists>res b'. reduce F t1 t2 b tokens = Inr (res, b') \<and> bucket_ok b' \<and> same_rate b b' \<and>
    t1 \<le> tb_last_update b' \<and> tb_last_update b' \<le> t2 \<and>
    (granted res tokens + kept b') * unat (tb_processed_refill_time b) \<le>
      kept b * unat (tb_processed_refill_time b) + (t1 - tb_last_update b) * unat (tb_processed_capacity b)"
proof (cases "tb_one_time_burst b > 0 \<and> tb_one_time_burst b \<ge> tokens")
  case True
  define b' where "b' = b\<lparr>tb_one_time_burst := tb_one_time_burst b - tokens, tb_last_update := t1\<rparr>"
  have run: "reduce F t1 t2 b tokens = Inr (Success, b')" using True by (simp add: reduce_def b'_def)
  have "granted Success tokens + kept b' = kept b"
    using True by (simp add: kept_def b'_def granted_def unat_sub word_le_nat_alt)
  moreover have "bucket_ok b'" "same_rate b b'" using ok by (simp_all add: bucket_ok_def b'_def same_rate_def)
  moreover have "tb_last_update b' = t1" by (simp add: b'_def)
  ultimately show ?thesis using run order by (intro exI [of _ Success] exI [of _ b']) (simp add: granted_def)
next
  case False
  define k where "k = (if tb_one_time_burst b > 0 then tokens - tb_one_time_burst b else tokens)"
  define b1 where "b1 = (if tb_one_time_burst b > 0 then b\<lparr>tb_one_time_burst := 0\<rparr> else b)"
  define p c d where "p = unat (tb_processed_refill_time b)" and "c = unat (tb_processed_capacity b)"
    and "d = t1 - tb_last_update b"
  have b1: "bucket_ok b1" "tb_size b1 = tb_size b" "tb_last_update b1 = tb_last_update b" "tb_budget b1 = tb_budget b"
    "tb_processed_capacity b1 = tb_processed_capacity b" "tb_processed_refill_time b1 = tb_processed_refill_time b"
    "tb_one_time_burst b1 = 0" "tb_refill_time b1 = tb_refill_time b"
    using ok by (simp_all add: b1_def bucket_ok_def word_neq_0_conv [symmetric])
  from refill_Inr [OF b1(1), of t1 t2] fits obtain b2 where
    r: "refill t1 t2 b1 = Inr b2" "bucket_ok b2"
      "unat (tb_budget b2) \<le> unat (tb_budget b) + d * c div p"
      "b2 = b1\<lparr>tb_last_update := t2, tb_budget := tb_budget b2\<rparr>"
    unfolding b1 p_def c_def d_def by auto
  have s2: "tb_size b2 = tb_size b" "tb_last_update b2 = t2" "tb_one_time_burst b2 = 0" "same_rate b b2"
    by (subst r(4); simp add: b1 same_rate_def)+
  have kt: "unat k + unat (tb_one_time_burst b) = unat tokens"
    using False by (auto simp: k_def unat_sub word_neq_0_conv [symmetric] word_le_nat_alt)
  then have kle: "k \<le> tb_size b2" using tok unfolding s2 by (simp add: word_le_nat_alt)
  obtain res b' where t: "take_tokens F b2 k = (res, b')" by (cases "take_tokens F b2 k")
  note T = take_tokens_kept [OF r(2) kle t]
  have run: "reduce F t1 t2 b tokens = Inr (res, b')"
    using False r(1) t by (auto simp: reduce_def k_def [symmetric] b1_def [symmetric] Let_def)
  have g: "granted res tokens \<le> granted res k + unat (tb_one_time_burst b)"
    using T(4) kt by (auto simp: granted_def)
  have s': "tb_one_time_burst b' = 0" "tb_last_update b' = t2" "same_rate b b'"
    using s2 by (subst T(3); simp add: same_rate_def)+
  have "granted res tokens + kept b' \<le> kept b + d * c div p"
    using g T(1) r(3) s'(1) by (simp add: kept_def)
  then have "(granted res tokens + kept b') * p \<le> kept b * p + d * c div p * p"
    unfolding add_mult_distrib [symmetric] by (rule mult_le_mono1)
  also have "\<dots> \<le> kept b * p + d * c" by simp
  finally show ?thesis using run T(2) s' order by (auto simp: p_def c_def d_def)
qed

section \<open>The rate is enforced\<close>

text \<open>A sequence of requests, each with the clock readings of its call, and the tokens granted.\<close>

fun run_calls ::
  "'f float_ops \<Rightarrow> (nat \<times> nat \<times> u64) list \<Rightarrow> token_bucket \<Rightarrow> (unit, nat \<times> token_bucket) outcome" where
  "run_calls F [] b = Inr (0, b)"
| "run_calls F ((t1, t2, tokens) # cs) b =
     bindE (reduce F t1 t2 b tokens) (\<lambda>(res, b). bindE (run_calls F cs b) (\<lambda>(g, b).
       Inr (granted res tokens + g, b)))"

text \<open>
  The readings never go back, no request exceeds the size, and the time between two calls is short
  enough for the refill product to stay within 64 bits. The numbers \<open>u\<close> and \<open>t\<close> bound the time of
  the last update.
\<close>

fun paced :: "nat \<Rightarrow> nat \<Rightarrow> nat \<Rightarrow> nat \<Rightarrow> (nat \<times> nat \<times> u64) list \<Rightarrow> bool" where
  "paced c s u t [] \<longleftrightarrow> True"
| "paced c s u t ((t1, t2, tokens) # cs) \<longleftrightarrow>
     t \<le> t1 \<and> t1 \<le> t2 \<and> s + (t1 - u) * c < 2 ^ 64 \<and> unat tokens \<le> s \<and> paced c s t1 t2 cs"

fun end_time :: "nat \<Rightarrow> (nat \<times> nat \<times> u64) list \<Rightarrow> nat" where
  "end_time t [] = t"
| "end_time t ((t1, t2, tokens) # cs) = end_time t2 cs"

lemma end_time_ge: "paced c s u t cs \<Longrightarrow> t \<le> end_time t cs"
  by (induction c s u t cs rule: paced.induct) auto

lemma run_calls_kept:
  assumes "bucket_ok b" and "u \<le> tb_last_update b" and "tb_last_update b \<le> t"
    and "paced (unat (tb_processed_capacity b)) (unat (tb_size b)) u t cs"
  shows "\<exists>g b'. run_calls F cs b = Inr (g, b') \<and>
    g * unat (tb_processed_refill_time b) \<le> kept b * unat (tb_processed_refill_time b) +
      (end_time t cs - tb_last_update b) * unat (tb_processed_capacity b)"
  using assms
proof (induction cs arbitrary: b u t)
  case (Cons x cs)
  obtain t1 t2 tokens where x: "x = (t1, t2, tokens)" by (cases x)
  define p c s where "p = unat (tb_processed_refill_time b)" and "c = unat (tb_processed_capacity b)"
    and "s = unat (tb_size b)"
  have pc: "t \<le> t1" "t1 \<le> t2" "s + (t1 - u) * c < 2 ^ 64" "unat tokens \<le> s" "paced c s t1 t2 cs"
    using Cons.prems(4) by (simp_all add: x c_def s_def)
  have "(t1 - tb_last_update b) * c \<le> (t1 - u) * c" using Cons.prems(2) by (intro mult_le_mono1) simp
  then have "s + (t1 - tb_last_update b) * c < 2 ^ 64" using pc(3) by linarith
  moreover have "tokens \<le> tb_size b" using pc(4) by (simp add: word_le_nat_alt s_def)
  ultimately obtain res b' where r: "reduce F t1 t2 b tokens = Inr (res, b')" "bucket_ok b'" "same_rate b b'"
    "t1 \<le> tb_last_update b'" "tb_last_update b' \<le> t2"
    "(granted res tokens + kept b') * p \<le> kept b * p + (t1 - tb_last_update b) * c"
    using reduce_kept [OF Cons.prems(1), of t1 t2 tokens F] Cons.prems(3) pc(1,2)
    unfolding p_def c_def s_def by auto
  have sr: "unat (tb_processed_refill_time b') = p" "unat (tb_processed_capacity b') = c" "unat (tb_size b') = s"
    using r(3) by (simp_all add: same_rate_def p_def c_def s_def)
  from Cons.IH [OF r(2,4,5)] pc(5) obtain g b'' where
    g: "run_calls F cs b' = Inr (g, b'')" "g * p \<le> kept b' * p + (end_time t2 cs - tb_last_update b') * c"
    unfolding sr by blast
  have "run_calls F (x # cs) b = Inr (granted res tokens + g, b'')" using r(1) g(1) by (simp add: x)
  moreover have "(granted res tokens + g) * p \<le> kept b * p + (end_time t (x # cs) - tb_last_update b) * c"
  proof -
    have "t2 \<le> end_time t2 cs" by (rule end_time_ge [OF pc(5)])
    then have "(t1 - tb_last_update b) + (end_time t2 cs - tb_last_update b') \<le> end_time t2 cs - tb_last_update b"
      using r(4,5) pc(1,2) Cons.prems(3) by simp
    then have "(t1 - tb_last_update b) * c + (end_time t2 cs - tb_last_update b') * c \<le>
        (end_time t2 cs - tb_last_update b) * c"
      unfolding add_mult_distrib [symmetric] by (rule mult_le_mono1)
    with r(6) g(2) show ?thesis unfolding x end_time.simps add_mult_distrib by linarith
  qed
  ultimately show ?case unfolding p_def c_def by blast
qed simp

text \<open>
  \<open>C30\<close>: the rate is enforced. Whatever the sequence of requests, none larger than the bucket, the
  tokens granted up to the last call are at most the one-time burst, plus the size of the bucket,
  plus the size times the elapsed fraction of the refill time; no call panics.
\<close>

theorem rate_enforced:
  assumes new: "bucket_new t0 sz burst ms = Some b" and nowrap: "unat ms * 1000000 < 2 ^ 64"
    and paced: "paced (unat (tb_processed_capacity b)) (unat sz) t0 t0 cs"
  shows "\<exists>g b'. run_calls F cs b = Inr (g, b') \<and>
    g * (unat ms * 1000000) \<le> (unat burst + unat sz) * (unat ms * 1000000) + (end_time t0 cs - t0) * unat sz"
proof -
  note N = bucket_new_ok [OF new nowrap]
  define p c R where "p = unat (tb_processed_refill_time b)" and "c = unat (tb_processed_capacity b)"
    and "R = unat ms * 1000000"
  have "kept b = unat burst + unat sz" by (simp add: kept_def N)
  with run_calls_kept [OF N(1), of t0 t0 cs F] paced obtain g b' where
    g: "run_calls F cs b = Inr (g, b')" "g * p \<le> (unat burst + unat sz) * p + (end_time t0 cs - t0) * c"
    unfolding N p_def c_def by auto
  have rate: "c * R = unat sz * p" and p0: "0 < p" using N(1) by (simp_all add: bucket_ok_def N p_def c_def R_def)
  define el where "el = end_time t0 cs - t0"
  have "g * R * p = g * p * R" by simp
  also have "\<dots> \<le> ((unat burst + unat sz) * p + el * c) * R" using g(2) unfolding el_def by (rule mult_le_mono1)
  also have "\<dots> = (unat burst + unat sz) * R * p + el * (c * R)" by (simp add: algebra_simps)
  also have "\<dots> = ((unat burst + unat sz) * R + el * unat sz) * p" unfolding rate by (simp add: algebra_simps)
  finally have "g * R \<le> (unat burst + unat sz) * R + el * unat sz" using p0 by simp
  with g(1) show ?thesis unfolding R_def el_def by blast
qed

text \<open>
  A request is not starved. On a limiter that is not blocked, a request no larger than its
  bucket succeeds once the refill time has passed since the last update of the bucket.
\<close>

theorem consume_after_refill:
  assumes free: "\<not> is_blocked l" and b: "get_bucket k l = Some b" and ok: "bucket_ok b" and tok: "tokens \<le> tb_size b"
    and wait: "tb_last_update b + unat (tb_refill_time b) * 1000000 \<le> t1"
    and fits: "unat (tb_size b) + (t1 - tb_last_update b) * unat (tb_processed_capacity b) < 2 ^ 64"
  shows "\<exists>l'. consume T F t1 t2 tokens k l = (Inr True, l') \<and> \<not> is_blocked l'"
proof -
  have "\<exists>b'. reduce F t1 t2 b tokens = Inr (Success, b')"
  proof (cases "tb_one_time_burst b > 0 \<and> tb_one_time_burst b \<ge> tokens")
    case True
    then show ?thesis by (simp add: reduce_def)
  next
    case False
    define n where "n = (if tb_one_time_burst b > 0 then tokens - tb_one_time_burst b else tokens)"
    define b1 where "b1 = (if tb_one_time_burst b > 0 then b\<lparr>tb_one_time_burst := 0\<rparr> else b)"
    define c p where "c = unat (tb_processed_capacity b)" and "p = unat (tb_processed_refill_time b)"
    have b1: "bucket_ok b1" "tb_size b1 = tb_size b" "tb_last_update b1 = tb_last_update b" "tb_budget b1 = tb_budget b"
      "tb_processed_capacity b1 = tb_processed_capacity b" "tb_processed_refill_time b1 = tb_processed_refill_time b"
      using ok by (simp_all add: b1_def bucket_ok_def)
    have p0: "0 < p" and rate: "c * (unat (tb_refill_time b) * 1000000) = unat (tb_size b) * p"
      using ok by (simp_all add: bucket_ok_def c_def p_def)
    have "unat (tb_refill_time b) * 1000000 * c \<le> (t1 - tb_last_update b) * c"
      using wait by (intro mult_le_mono1) simp
    then have "unat (tb_size b) * p div p \<le> (t1 - tb_last_update b) * c div p"
      using rate by (intro div_le_mono) (simp add: mult.commute)
    then have full: "unat (tb_size b) \<le> (t1 - tb_last_update b) * c div p" using p0 by simp
    with refill_Inr [OF b1(1), of t1 t2] fits obtain b2 where
      r: "refill t1 t2 b1 = Inr b2" "unat (tb_budget b2) = unat (tb_size b)"
      unfolding b1 c_def p_def by auto
    have "n \<le> tokens"
      using False by (auto simp: n_def word_le_nat_alt unat_sub)
    then have "n \<le> tb_budget b2" using tok r(2) by (simp add: word_le_nat_alt)
    then have "take_tokens F b2 n = (Success, b2\<lparr>tb_budget := tb_budget b2 - n\<rparr>)"
      by (simp add: take_tokens_def not_less)
    then show ?thesis
      using False r(1) by (auto simp: reduce_def n_def [symmetric] b1_def [symmetric] Let_def)
  qed
  then obtain b' where "reduce F t1 t2 b tokens = Inr (Success, b')" ..
  then show ?thesis using free b
    by (cases k) (auto simp: consume_def Let_def is_blocked_def put_bucket_def)
qed

text \<open>
  Two departures. A request that fails has nevertheless used up the rest of the one-time burst,
  and a long idle time makes the refill product wrap: a bucket of a prime number of bytes with a
  refill time of one second that has been idle for more than eighteen seconds gets 55 tokens.
\<close>

lemma failed_request_loses_burst:
  assumes "0 < tb_one_time_burst b" and "tb_one_time_burst b < tokens"
    and "reduce F t1 t2 b tokens = Inr (Failure, b')"
  shows "tb_one_time_burst b' = 0"
  using assms by (auto simp: reduce_def Let_def refill_def take_tokens_def bindE_def div_w_def split: sum.splits if_splits)

definition idle_bucket :: token_bucket where
  "idle_bucket = \<lparr>tb_size = 1000000007, tb_one_time_burst = 0, tb_refill_time = 1000, tb_budget = 0,
     tb_last_update = 0, tb_processed_capacity = 1000000007, tb_processed_refill_time = 1000000000\<rparr>"

lemma idle_bucket_not_refilled:
  "\<exists>b'. refill 18446744000 18446744000 idle_bucket = Inr b' \<and> tb_budget b' = 55 \<and>
    18 * unat (tb_refill_time idle_bucket) * 1000000 < 18446744000"
  by (simp add: refill_def div_w_def Let_def idle_bucket_def)

section \<open>An instance\<close>

definition ex_float :: "nat float_ops" where
  "ex_float = \<lparr>f_of_u64 = unat, f_div = (div), f_mul = (*), f_to_u64 = of_nat\<rparr>"

definition ex_bucket :: token_bucket where
  "ex_bucket = \<lparr>tb_size = 1000, tb_one_time_burst = 0, tb_refill_time = 1000, tb_budget = 1000,
     tb_last_update = 0, tb_processed_capacity = 1, tb_processed_refill_time = 1000000\<rparr>"

lemma ex_bucket_new: "bucket_new 0 1000 0 1000 = Some ex_bucket"
proof -
  have "gcd_u64 1000 1000000000 = 1000" by (simp add: gcd_u64.simps [of 1000] gcd_u64.simps [of "1000000000"] gcd_u64.simps [of _ 0])
  then show ?thesis by (simp add: bucket_new_def NANOSEC_IN_ONE_MILLISEC_def ex_bucket_def)
qed

definition ex_timer :: "unit timer_ops" where
  "ex_timer = \<lparr>t_new = (\<lambda>w. (Inr 3, w)), t_getfl = (\<lambda>_ w. (0, w)), t_setfl = (\<lambda>_ _ w. (0, w)), t_errno = (\<lambda>_. 0),
     t_reset = (\<lambda>_ _ w. (Inr (), w)), t_wait = (\<lambda>_ w. (Inr 1, w))\<rparr>"

definition ex_limiter :: "unit rate_limiter" where
  "ex_limiter = \<lparr>rl_bandwidth = Some (ex_bucket\<lparr>tb_budget := 0\<rparr>), rl_ops = None, rl_timer_fd = 3, rl_timer_active = False, rl_world = ()\<rparr>"

theorem rate_enforced_witness:
  "\<exists>g b'. run_calls ex_float [(0, 0, 600), (500000000, 500000001, 600)] ex_bucket = Inr (g, b') \<and> g \<le> 1500"
  using rate_enforced [OF ex_bucket_new, of "[(0, 0, 600), (500000000, 500000001, 600)]" ex_float]
  by (auto simp: ex_bucket_def)

theorem consume_after_refill_witness:
  "\<exists>l'. consume ex_timer ex_float 1000000000 1000000001 700 Bytes ex_limiter = (Inr True, l') \<and> \<not> is_blocked l'"
  using consume_after_refill [of ex_limiter Bytes "ex_bucket\<lparr>tb_budget := 0\<rparr>" 700 1000000000 ex_timer ex_float 1000000001]
  by (simp add: ex_limiter_def is_blocked_def get_bucket_def bucket_ok_def ex_bucket_def)

end
