(* ===== verification/Reference_Kernel.thy ===== *)
theory Reference_Kernel
  imports Template_Protocol
begin

unbundle bit_operations_syntax

text \<open>
  A small operating system that satisfies the contracts the development places on the kernel:
  byte memory, read-only files, mappings placed above all client regions and userfaultfd
  requests that succeed. The properties that assume a contract are applied to it here, on a
  region of three pages over a backend of two layers.
\<close>

section \<open>The system\<close>

record ref_world =
  rw_mem :: "(nat \<times> u8) list"
  rw_files :: "(fd \<times> bytes) list"
  rw_msgs :: "bytes list"

definition ref_byte :: "ref_world \<Rightarrow> nat \<Rightarrow> u8" where
  "ref_byte w a = (case map_of (rw_mem w) a of Some b \<Rightarrow> b | None \<Rightarrow> 0)"

definition ref_load :: "u64 \<Rightarrow> nat \<Rightarrow> ref_world \<Rightarrow> bytes" where
  "ref_load a n w = map (ref_byte w) [unat a..<unat a + n]"

definition ref_store :: "u64 \<Rightarrow> bytes \<Rightarrow> ref_world \<Rightarrow> ref_world" where
  "ref_store a bs w = w\<lparr>rw_mem := zip [unat a..<unat a + length bs] bs @ rw_mem w\<rparr>"

definition ref_clear :: "u64 \<Rightarrow> usize \<Rightarrow> ref_world \<Rightarrow> ref_world" where
  "ref_clear a len w =
     w\<lparr>rw_mem := filter (\<lambda>(x, _). \<not> (unat a \<le> x \<and> x < unat a + unat len)) (rw_mem w)\<rparr>"

definition ref_content :: "ref_world \<Rightarrow> fd \<Rightarrow> bytes" where
  "ref_content w fd = (case map_of (rw_files w) fd of Some bs \<Rightarrow> bs | None \<Rightarrow> [])"

definition ref_mmap :: "u64 \<Rightarrow> usize \<Rightarrow> int \<Rightarrow> int \<Rightarrow> fd \<Rightarrow> int \<Rightarrow> ref_world \<Rightarrow> u64 \<times> ref_world" where
  "ref_mmap addr len prot flags fd off w =
     (let a = (if flags AND MAP_FIXED = 0 then 0x100000 else addr) in (a, ref_clear a len w))"

definition ref_ioctl :: "fd \<Rightarrow> u64 \<Rightarrow> ioctl_arg \<Rightarrow> ref_world \<Rightarrow> int \<times> ioctl_arg \<times> ref_world" where
  "ref_ioctl fd req arg w =
     (case arg of
        ArgCopy cp \<Rightarrow> if req = UFFDIO_COPY then (0, arg, ref_store (cp_dst cp) (cp_src cp) w) else (0, arg, w)
      | ArgApi api \<Rightarrow> (0, ArgApi (api\<lparr>ua_features := -1\<rparr>), w)
      | ArgRegister reg \<Rightarrow> (0, ArgRegister (reg\<lparr>rg_ioctls := -1\<rparr>), w)
      | _ \<Rightarrow> (0, arg, w))"

definition ref_pread :: "fd \<Rightarrow> nat \<Rightarrow> u64 \<Rightarrow> ref_world \<Rightarrow> int \<times> bytes \<times> ref_world" where
  "ref_pread fd n off w =
     (let bs = take n (drop (unat off) (ref_content w fd)) in (int (length bs), bs, w))"

definition ref_read :: "fd \<Rightarrow> nat \<Rightarrow> ref_world \<Rightarrow> int \<times> bytes \<times> ref_world" where
  "ref_read fd n w =
     (case rw_msgs w of [] \<Rightarrow> (-1, [], w) | m # ms \<Rightarrow> (int (length m), m, w\<lparr>rw_msgs := ms\<rparr>))"

definition ref_kernel :: "ref_world kernel" where
  "ref_kernel =
     \<lparr>k_syscall = (\<lambda>_ _ w. (5, w)),
      k_sysconf = (\<lambda>_ w. (8, w)),
      k_ftruncate = (\<lambda>_ _ w. (0, w)),
      k_mmap = ref_mmap,
      k_munmap = (\<lambda>a len w. (0, ref_clear a len w)),
      k_ioctl = ref_ioctl,
      k_poll = (\<lambda>_ _ _ w. if rw_msgs w = [] then (0, 0, w) else (1, POLLIN, w)),
      k_read = ref_read,
      k_pread = ref_pread,
      k_errno = (\<lambda>_. EAGAIN),
      k_strerror = (\<lambda>_. ''error''),
      k_load = ref_load,
      k_store = ref_store,
      k_write = (\<lambda>_ bs w. (int (length bs), w)),
      k_lseek = (\<lambda>_ off w. (sint off, w)),
      k_connect = (\<lambda>_ w. (6, w)),
      k_epoll_create = (\<lambda>_ w. (7, w)),
      k_epoll_add = (\<lambda>_ _ _ _ w. (0, w)),
      k_epoll_wait = (\<lambda>_ _ _ w. (0, [], w))\<rparr>"

lemma ref_kernel_simps [simp]:
  "k_syscall ref_kernel = (\<lambda>_ _ w. (5, w))" "k_sysconf ref_kernel = (\<lambda>_ w. (8, w))"
  "k_ftruncate ref_kernel = (\<lambda>_ _ w. (0, w))" "k_mmap ref_kernel = ref_mmap"
  "k_munmap ref_kernel = (\<lambda>a len w. (0, ref_clear a len w))" "k_ioctl ref_kernel = ref_ioctl"
  "k_poll ref_kernel = (\<lambda>_ _ _ w. if rw_msgs w = [] then (0, 0, w) else (1, POLLIN, w))"
  "k_read ref_kernel = ref_read" "k_pread ref_kernel = ref_pread" "k_errno ref_kernel = (\<lambda>_. EAGAIN)"
  "k_load ref_kernel = ref_load" "k_store ref_kernel = ref_store"
  by (simp_all add: ref_kernel_def)

section \<open>It meets the contracts\<close>

lemma map_of_zip_upt:
  "map_of (zip [a..<a + length bs] bs) x = (if a \<le> x \<and> x < a + length bs then Some (bs ! (x - a)) else None)"
proof (cases "a \<le> x \<and> x < a + length bs")
  case True
  then have "map_of (zip [a..<a + length bs] bs) ([a..<a + length bs] ! (x - a)) = Some (bs ! (x - a))"
    by (intro map_of_zip_nth) auto
  with True show ?thesis by simp
next
  case False
  then have "map_of (zip [a..<a + length bs] bs) x = None" by (subst map_of_zip_is_None) auto
  with False show ?thesis by (simp only: if_False)
qed

lemma ref_byte_store:
  "ref_byte (ref_store a bs w) x =
     (if unat a \<le> x \<and> x < unat a + length bs then bs ! (x - unat a) else ref_byte w x)"
  by (simp add: ref_byte_def ref_store_def map_add_def map_of_zip_upt)

lemma ref_load_store_same: "length bs = n \<Longrightarrow> ref_load a n (ref_store a bs w) = bs"
  by (rule nth_equalityI) (auto simp: ref_load_def ref_byte_store)

lemma ref_load_store_other:
  "disjoint_ranges a (length bs) b m \<Longrightarrow> ref_load b m (ref_store a bs w) = ref_load b m w"
  by (rule nth_equalityI) (auto simp: ref_load_def ref_byte_store disjoint_ranges_def)

lemma map_of_filter_key: "P x \<Longrightarrow> map_of (filter (\<lambda>(k, _). P k) xs) x = map_of xs x"
  by (induction xs) auto

lemma ref_byte_clear:
  "\<not> (unat a \<le> x \<and> x < unat a + unat len) \<Longrightarrow> ref_byte (ref_clear a len w) x = ref_byte w x"
  by (simp add: ref_byte_def ref_clear_def map_of_filter_key)

lemma ref_load_clear:
  "disjoint_ranges a (unat len) b m \<Longrightarrow> ref_load b m (ref_clear a len w) = ref_load b m w"
  by (rule nth_equalityI) (auto simp: ref_load_def ref_byte_clear disjoint_ranges_def)

lemma ref_store_ok: "store_ok ref_kernel"
  by (simp add: store_ok_def ref_load_store_same ref_load_store_other) (simp add: ref_load_def)

lemma ref_mmap_ok:
  assumes "unat base + sz \<le> 0x100000"
  shows "mmap_ok ref_kernel base sz"
proof -
  have away: "disjoint_ranges 0x100000 n base sz" for n
    using assms by (simp add: disjoint_ranges_def)
  have "disjoint_ranges 0x100000 n b m" if "range_within b m base sz" for n b m
    using disjoint_ranges_within [OF away that] .
  with away show ?thesis
    by (auto simp: mmap_ok_def ref_mmap_def ref_load_clear Let_def)
qed

lemma ref_uffd_ok: "uffd_ok ref_kernel"
  unfolding uffd_ok_def
  by (auto simp: ref_ioctl_def ref_load_store_same ref_load_store_other UFFDIO_COPY_def UFFDIO_WAKE_def
      UFFDIO_WRITEPROTECT_def split: ioctl_arg.splits if_splits)

lemma ref_pread_ok: "pread_ok ref_kernel ref_content (\<lambda>_. 0)"
  by (auto simp: pread_ok_def ref_pread_def Let_def)

lemma ref_pread_frame: "pread_frame ref_kernel"
  by (simp add: pread_frame_def ref_pread_def Let_def)

lemma ref_kernel_ok:
  "unat (ci_base_addr c) + unat (ci_region_size c) \<le> 0x100000 \<Longrightarrow>
     kernel_ok ref_kernel ref_content (\<lambda>_. 0) c"
  by (simp add: kernel_ok_def ref_pread_ok ref_pread_frame ref_store_ok ref_mmap_ok ref_uffd_ok)

section \<open>A region of three pages\<close>

definition ex_layers :: "layer list" where
  "ex_layers = [\<lparr>ly_name = ''base'', ly_file = 3, ly_bitmap = [7]\<rparr>, \<lparr>ly_name = ''delta'', ly_file = 4, ly_bitmap = [2]\<rparr>]"

definition ex_backend :: overlay_backend where
  "ex_backend = \<lparr>ob_page_size = 8, ob_page_count = 3, ob_layers = ex_layers, ob_merged_bitmap = [7]\<rparr>"

definition ex_client :: client_inner where
  "ex_client = \<lparr>ci_uffd = 5, ci_base_addr = 0x1000, ci_region_size = 24, ci_page_size = 8, ci_page_count = 3,
     ci_meta = \<lparr>sv_addr = 0x100000, sv_len = 3\<rparr>, ci_backend = ex_backend\<rparr>"

definition ex_world :: ref_world where
  "ex_world = \<lparr>rw_mem = [], rw_files = [(3, replicate 8 65 @ replicate 8 66 @ replicate 8 67), (4, replicate 24 90)],
     rw_msgs = []\<rparr>"

definition ex_meta :: "template_page_meta list" where
  "ex_meta = [\<lparr>tpm_state = 0, tpm_backend_offset = 0\<rparr>, \<lparr>tpm_state = 0, tpm_backend_offset = 8\<rparr>,
     \<lparr>tpm_state = 0, tpm_backend_offset = 16\<rparr>]"

definition ex_sys :: "ref_world sys" where
  "ex_sys = \<lparr>sy_meta = ex_meta, sy_proc = replicate 3 proc_page_meta_new, sy_stop = False, sy_world = ex_world\<rparr>"

lemma less_Suc_cases: "(\<forall>k < Suc n. P k) \<longleftrightarrow> P n \<and> (\<forall>k < n. P k)"
  by (auto simp: less_Suc_eq)

lemma ex_words: "bitmap_words 3 = 1"
  by (simp add: bitmap_words_def div_ceil_def)

lemma ex_backend_wf: "overlay_wf ex_backend"
  by (simp add: overlay_wf_def ex_backend_def ex_layers_def layers_ok_def ex_words)

lemma ex_client_wf: "client_wf ex_client ex_sys"
proof -
  have "client_geom ex_client"
    unfolding client_geom_def ex_client_def by (intro conjI exI [where x = 3]) simp_all
  then show ?thesis
    using ex_backend_wf by (simp add: client_wf_def) (simp add: ex_client_def ex_backend_def ex_sys_def ex_meta_def)
qed

lemma ex_kernel_ok: "kernel_ok ref_kernel ref_content (\<lambda>_. 0) ex_client"
  by (rule ref_kernel_ok) (simp add: ex_client_def)

section \<open>Applications\<close>

theorem bitmap_from_get_witness:
  "\<exists>bm. bitmap_from 70 (\<lambda>i. i mod 3 = 0) = (Inr bm :: (unit, u64 list) outcome) \<and> length bm = 2 \<and>
     (bitmap_get bm 69 :: (unit, bool) outcome) = Inr True \<and> (bitmap_get bm 68 :: (unit, bool) outcome) = Inr False"
proof -
  have "bitmap_words 70 = 2" by (simp add: bitmap_words_def div_ceil_def)
  with bitmap_from_get [of 70 "\<lambda>i. i mod 3 = 0", where ?'e = unit] show ?thesis by auto
qed

theorem overlay_locate_top_layer_witness:
  "overlay_locate ex_backend 1 = Inr \<lparr>pl_layer_name = ''delta'', pl_offset = 8\<rparr>"
proof -
  have i: "1 < ob_page_count ex_backend" by (simp add: ex_backend_def)
  show ?thesis
    unfolding overlay_locate_top_layer [OF ex_backend_wf i]
    by (simp add: ex_backend_def ex_layers_def top_layer_def layer_has_def bitmap_get_def index_def)
qed

lemma ex_overlay_page: "overlay_page ex_backend (ref_content ex_world) 1 = Some (replicate 8 90)"
  by (simp add: overlay_page_def ex_backend_def ex_layers_def top_layer_def layer_has_def ref_content_def ex_world_def)




theorem checkpoint_export_dirty_witness:
  "\<exists>ck. checkpoint_export ref_kernel ex_client ex_sys = Inr ck \<and> ck_dirty_pages ck = [] \<and>
     ck_merged_backend_bitmap ck = [7]"
proof -
  have "filter (is_dirty ex_sys) (range_w 0 (ci_page_count ex_client)) = []"
    by (auto simp: filter_empty_conv is_dirty_def ex_sys_def ex_client_def proc_page_meta_new_def word_less_nat_alt)
  with checkpoint_export_dirty [OF ex_client_wf, of ref_kernel] show ?thesis
    by (auto simp: ex_client_def ex_backend_def)
qed


theorem client_setup_wf_witness:
  "\<exists>ts s1 c s2. template_service_new ref_kernel 24 ex_backend ex_sys = Some (Inr ts, s1) \<and>
     client_new ref_kernel ts 0x1000 s1 = Some (Inr c, s2) \<and> client_wf c s2"
proof -
  have mul: "checked_mul (3::usize) sizeof_template_page_meta = Some 48"
    by (simp add: checked_mul_def sizeof_template_page_meta_def)
  obtain ts s1 where ts: "template_service_new ref_kernel 24 ex_backend ex_sys = Some (Inr ts, s1)"
    and ps: "ts_page_size ts = 8"
    by (simp add: template_service_new_def on_world_def sys_page_size_def ex_backend_def memfd_create_def
        ftruncate_fd_def shared_meta_new_def mul ref_mmap_def MAP_SHARED_def MAP_ANONYMOUS_def MAP_FIXED_def
        is_map_failed_def Let_def ex_sys_def)
  obtain c s2 where c: "client_new ref_kernel ts 0x1000 s1 = Some (Inr c, s2)"
    by (simp add: client_new_def on_world_def create_userfaultfd_def ioctl_checked_def map_err_def ioctl_io_def
        ref_ioctl_def register_uffd_def ensure_ioctl_def Let_def ioctl_bit_COPY_def ioctl_bit_WAKE_def
        ioctl_bit_WRITEPROTECT_def)
  from client_setup_wf [OF ex_backend_wf ts c, of 3] ps ts c show ?thesis by auto
qed

section \<open>Two clients\<close>

text \<open>
  Two clients of one service fault on page 1; the first claims it, the second waits, the backend
  files become unreadable, and the first client's read fails.
\<close>

definition ex_start :: "ref_world gsys" where
  "ex_start = \<lparr>g_meta = ex_meta, g_world = ex_world, g_pc = (\<lambda>_. Finished (Inr ()))\<rparr>"

definition ex_faulted :: "ref_world gsys" where
  "ex_faulted = ex_start\<lparr>g_pc := (\<lambda>_. Finished (Inr ()))(0 := AtCas 1 0x1008)\<rparr>"

definition ex_claimed :: "ref_world gsys" where
  "ex_claimed = ex_start\<lparr>g_meta := ex_meta[1 := \<lparr>tpm_state = 1, tpm_backend_offset = 8\<rparr>],
     g_pc := (\<lambda>_. Finished (Inr ()))(0 := AtRead 1 0x1008)\<rparr>"

definition ex_second :: "ref_world gsys" where
  "ex_second = ex_claimed\<lparr>g_pc := (g_pc ex_claimed)(1 := AtCas 1 0x1008)\<rparr>"

definition ex_waiting :: "ref_world gsys" where
  "ex_waiting = ex_claimed\<lparr>g_pc := (g_pc ex_claimed)(1 := AtWait 1 0x1008)\<rparr>"

definition ex_unreadable :: "ref_world gsys" where
  "ex_unreadable = ex_waiting\<lparr>g_world := ex_world\<lparr>rw_files := []\<rparr>\<rparr>"

definition ex_failed :: "ref_world gsys" where
  "ex_failed = ex_unreadable\<lparr>g_pc := (g_pc ex_unreadable)(0 :=
     Finished (Inl (Err (Io (Custom UnexpectedEof ''unexpected EOF while reading backend'')))))\<rparr>"

abbreviation ex_step :: "ref_world gsys \<Rightarrow> ref_world gsys \<Rightarrow> bool" where
  "ex_step \<equiv> g_step ref_kernel (\<lambda>_. ex_client)"

lemma ex_init: "g_init (\<lambda>_. ex_client) ex_start"
  by (simp add: g_init_def ex_start_def ex_client_def ex_meta_def STATE_UNLOADED_def)

lemma ex_mf_start: "mf_start ex_client 0x100B = AtCas 1 0x1008"
  by (simp add: mf_start_def page_index_from_addr_def ex_client_def page_start_def)

lemma ex_step1: "ex_step ex_start ex_faulted"
  using g_step.fault [of ex_start 0 ref_kernel "\<lambda>_. ex_client" "0x100B"]
  by (simp add: ex_mf_start ex_faulted_def) (simp add: ex_start_def)

lemma ex_step2: "ex_step ex_faulted ex_claimed"
  using g_step.act [of ref_kernel "\<lambda>_. ex_client" 0 ex_faulted]
  by (simp add: ex_faulted_def ex_claimed_def ex_start_def sys_of_def meta_compare_exchange_def meta_load_def
      meta_store_def ex_meta_def state_defs Let_def)

lemma ex_step3: "ex_step ex_claimed ex_second"
  using g_step.fault [of ex_claimed 1 ref_kernel "\<lambda>_. ex_client" "0x100B"]
  by (simp add: ex_mf_start ex_second_def) (simp add: ex_claimed_def)

lemma ex_step4: "ex_step ex_second ex_waiting"
  using g_step.act [of ref_kernel "\<lambda>_. ex_client" 1 ex_second]
  by (simp add: ex_second_def ex_waiting_def ex_claimed_def ex_start_def sys_of_def meta_compare_exchange_def
      meta_load_def ex_meta_def state_defs Let_def)

lemma ex_step5: "ex_step ex_waiting ex_unreadable"
  unfolding ex_unreadable_def by (rule g_step.world)

lemma ex_step6: "ex_step ex_unreadable ex_failed"
proof -
  have "pread_exact ref_kernel 4 8 8 (ex_world\<lparr>rw_files := []\<rparr>) =
      Some (Inl (Err (Io (Custom UnexpectedEof ''unexpected EOF while reading backend''))), ex_world\<lparr>rw_files := []\<rparr>)"
    by (simp add: pread_exact.simps pread_some.simps ref_pread_def ref_content_def Let_def)
  then have "overlay_read_page ref_kernel ex_backend 1 8 (ex_world\<lparr>rw_files := []\<rparr>) =
      Some (Inl (Err (Io (Custom UnexpectedEof ''unexpected EOF while reading backend''))), ex_world\<lparr>rw_files := []\<rparr>)"
    by (simp add: overlay_read_page_def ex_backend_def ex_layers_def bitmap_get_def index_def Let_def
        word_le_nat_alt)
  then show ?thesis
    using g_step.act [of ref_kernel "\<lambda>_. ex_client" 0 ex_unreadable]
    by (simp add: ex_unreadable_def ex_waiting_def ex_claimed_def ex_failed_def ex_start_def sys_of_def on_world_def ex_client_def)
qed

lemma ex_reach_claimed: "rtranclp ex_step ex_start ex_claimed"
  using ex_step1 ex_step2 by (meson converse_rtranclp_into_rtranclp rtranclp.rtrancl_refl)

lemma ex_reach_unreadable: "rtranclp ex_step ex_start ex_unreadable"
  using ex_reach_claimed ex_step3 ex_step4 ex_step5 by (meson rtranclp.rtrancl_into_rtrancl)

theorem single_loader_witness:
  "claimed (g_pc ex_claimed 0) = Some 1 \<and> g_state ex_claimed 1 = STATE_LOADING"
proof -
  have "claimed (g_pc ex_claimed 0) = Some 1" by (simp add: ex_claimed_def)
  with single_loader [OF ex_init ex_reach_claimed, of 0 1] show ?thesis by simp
qed


theorem failed_load_orphans_page_witness: "orphaned ex_failed 1 \<and> g_pc ex_failed 1 = AtWait 1 0x1008"
proof -
  have "claimed (g_pc ex_unreadable 0) = Some 1"
    by (simp add: ex_unreadable_def ex_waiting_def ex_claimed_def)
  moreover have "g_pc ex_failed 0 =
      Finished (Inl (Err (Io (Custom UnexpectedEof ''unexpected EOF while reading backend''))))"
    and "g_pc ex_failed 1 = AtWait 1 0x1008"
    by (simp_all add: ex_failed_def ex_unreadable_def ex_waiting_def)
  ultimately show ?thesis
    using failed_load_orphans_page [OF ex_init ex_reach_unreadable _ ex_step6, of 0 1 _ ex_failed] by blast
qed

end
