(* ===== verification/Template_Wire.thy ===== *)
theory Template_Wire
  imports Std_Io
begin

unbundle bit_operations_syntax

text \<open>
  The page protocol between the template service (\<^verbatim>\<open>src/uffd-cow-gpt/src/main.rs\<close>) and the
  client inside the virtual machine monitor
  (\<^verbatim>\<open>src/uffd-cow-gpt/cloud-hypervisor/vmm/src/template_memory.rs\<close>), with the metrics that
  the service keeps. Both ends are related to one specification of the reply stream.
\<close>

section \<open>The client\<close>

definition service_connect :: "'w kernel \<Rightarrow> string \<Rightarrow> 'w \<Rightarrow> (io_error, fd, 'w) run" where
  "service_connect K socket_path w =
     (case k_connect K socket_path w of (fd, w') \<Rightarrow>
        if fd < 0 then run_err (Os (k_errno K w')) w' else run_ret fd w')"

definition service_read_page ::
  "'w kernel \<Rightarrow> fd \<Rightarrow> u64 \<Rightarrow> nat \<Rightarrow> 'w \<Rightarrow> (io_error, bytes, 'w) run" where
  "service_read_page K stream offset dst_len w =
     (if dst_len \<ge> 2 ^ 32
      then run_err (Custom KInvalidInput ''template page request exceeds u32::MAX'') w
      else let len = (word_of_nat dst_len :: u32) in
        run_bind (write_all K stream (to_le_bytes offset) w) (\<lambda>_ w.
        run_bind (write_all K stream (to_le_bytes len) w) (\<lambda>_ w.
        run_bind (read_exact K stream 8 w) (\<lambda>header w.
          let status = (from_le_bytes (take 4 header) :: u32);
              response_len = unat (from_le_bytes (take 4 (drop 4 header)) :: u32)
          in if status \<noteq> 0
             then run_err (Custom KOther (''template service read failed for offset '' @ hex0x offset)) w
             else if response_len \<noteq> dst_len
             then run_err (Custom KInvalidData (''template service returned '' @ show_dec response_len @
                    '' bytes, expected '' @ show_dec dst_len)) w
             else read_exact K stream dst_len w))))"

section \<open>The metrics of the service\<close>

record service_metrics =
  mt_backend_bytes :: u64
  mt_page_size :: u64
  mt_template_dir :: string
  mt_socket :: string
  mt_page_requests :: u64
  mt_request_errors :: u64
  mt_bytes_served :: u64
  mt_connections :: u64
  mt_unique_pages_seen :: "u64 set"

definition metrics_new :: "u64 \<Rightarrow> u64 \<Rightarrow> string \<Rightarrow> string \<Rightarrow> service_metrics" where
  "metrics_new backend_bytes page_size template_dir socket =
     \<lparr>mt_backend_bytes = backend_bytes, mt_page_size = page_size, mt_template_dir = template_dir,
      mt_socket = socket, mt_page_requests = 0, mt_request_errors = 0, mt_bytes_served = 0,
      mt_connections = 0, mt_unique_pages_seen = {}\<rparr>"

definition record_unique_pages :: "u64 \<Rightarrow> u64 \<Rightarrow> service_metrics \<Rightarrow> service_metrics" where
  "record_unique_pages offset len m =
     (if len = 0 \<or> mt_page_size m = 0 then m
      else let first_page = offset div mt_page_size m;
               last_page = (offset + len - 1) div mt_page_size m
           in m\<lparr>mt_unique_pages_seen := fold insert
                (map word_of_nat [unat first_page..<Suc (unat last_page)]) (mt_unique_pages_seen m)\<rparr>)"

definition unique_pages :: "service_metrics \<Rightarrow> u64" where
  "unique_pages m = word_of_nat (card (mt_unique_pages_seen m))"

definition unique_bytes :: "service_metrics \<Rightarrow> u64" where
  "unique_bytes m = unique_pages m * mt_page_size m"

definition duplicate_requests :: "service_metrics \<Rightarrow> u64" where
  "duplicate_requests m = saturating_sub (mt_page_requests m) (unique_pages m)"

text \<open>
  \<open>TemplateServiceState\<close>: the metrics and the log file. A log line is one formatted write of
  the whole line.
\<close>

record 'w service =
  sv_metrics :: service_metrics
  sv_world :: 'w

definition on_service :: "('w \<Rightarrow> (io_error, 'a, 'w) run) \<Rightarrow> 'w service \<Rightarrow> (io_error, 'a, 'w service) run" where
  "on_service m s =
     (case m (sv_world s) of None \<Rightarrow> None | Some (r, w) \<Rightarrow> Some (r, s\<lparr>sv_world := w\<rparr>))"

definition bytes_of :: "string \<Rightarrow> bytes" where
  "bytes_of s = map (\<lambda>c. word_of_nat (of_char c)) s"

definition log_writeln :: "'w kernel \<Rightarrow> fd \<Rightarrow> string \<Rightarrow> 'w service \<Rightarrow> (io_error, unit, 'w service) run" where
  "log_writeln K log line = on_service (write_all K log (bytes_of (line @ [CHR 0x0A])))"

abbreviation show_w :: "'a::len word \<Rightarrow> string" where
  "show_w v \<equiv> show_dec (unat v)"

definition write_summary :: "'w kernel \<Rightarrow> fd \<Rightarrow> 'w service \<Rightarrow> (io_error, unit, 'w service) run" where
  "write_summary K log s =
     (let m = sv_metrics s in
      log_writeln K log
        (''metrics backend_bytes='' @ show_w (mt_backend_bytes m) @ '' page_size='' @ show_w (mt_page_size m) @
         '' page_requests='' @ show_w (mt_page_requests m) @ '' request_errors='' @ show_w (mt_request_errors m) @
         '' bytes_served='' @ show_w (mt_bytes_served m) @ '' unique_pages='' @ show_w (unique_pages m) @
         '' unique_bytes='' @ show_w (unique_bytes m) @ '' duplicate_requests='' @ show_w (duplicate_requests m) @
         '' connections='' @ show_w (mt_connections m)) s)"

definition log_start :: "'w kernel \<Rightarrow> fd \<Rightarrow> 'w service \<Rightarrow> (io_error, unit, 'w service) run" where
  "log_start K log s =
     (let m = sv_metrics s in
      run_bind (log_writeln K log
        (''start template_dir='' @ mt_template_dir m @ '' socket='' @ mt_socket m @
         '' backend_bytes='' @ show_w (mt_backend_bytes m) @ '' page_size='' @ show_w (mt_page_size m)) s)
        (\<lambda>_. write_summary K log))"

definition record_connection :: "'w kernel \<Rightarrow> fd \<Rightarrow> 'w service \<Rightarrow> (io_error, unit, 'w service) run" where
  "record_connection K log s =
     (let m = (sv_metrics s)\<lparr>mt_connections := mt_connections (sv_metrics s) + 1\<rparr> in
      run_bind (log_writeln K log (''connection_open connections='' @ show_w (mt_connections m)) (s\<lparr>sv_metrics := m\<rparr>))
        (\<lambda>_. write_summary K log))"

definition count_request :: "u64 \<Rightarrow> u64 \<Rightarrow> service_metrics \<Rightarrow> service_metrics" where
  "count_request offset len m =
     record_unique_pages offset len
       (m\<lparr>mt_page_requests := mt_page_requests m + 1, mt_bytes_served := mt_bytes_served m + len\<rparr>)"

definition record_page_request ::
  "'w kernel \<Rightarrow> fd \<Rightarrow> u64 \<Rightarrow> u64 \<Rightarrow> 'w service \<Rightarrow> (io_error, unit, 'w service) run" where
  "record_page_request K log offset len s =
     (let m = count_request offset len (sv_metrics s) in
      run_bind (log_writeln K log
        (''page_request offset='' @ show_w offset @ '' offset_hex='' @ hex0x offset @ '' len='' @ show_w len @
         '' page_requests='' @ show_w (mt_page_requests m) @ '' unique_pages='' @ show_w (unique_pages m))
        (s\<lparr>sv_metrics := m\<rparr>))
        (\<lambda>_. write_summary K log))"

definition record_page_request_error ::
  "'w kernel \<Rightarrow> fd \<Rightarrow> u64 \<Rightarrow> u64 \<Rightarrow> 'w service \<Rightarrow> (io_error, unit, 'w service) run" where
  "record_page_request_error K log offset len s =
     (let m = (sv_metrics s)\<lparr>mt_request_errors := mt_request_errors (sv_metrics s) + 1\<rparr> in
      run_bind (log_writeln K log
        (''page_request_error offset='' @ show_w offset @ '' offset_hex='' @ hex0x offset @ '' len='' @ show_w len @
         '' request_errors='' @ show_w (mt_request_errors m))
        (s\<lparr>sv_metrics := m\<rparr>))
        (\<lambda>_. write_summary K log))"

section \<open>Serving a connection\<close>

text \<open>One turn of the loop: \<open>Inr False\<close> is its normal return, \<open>Inr True\<close> the end of its body.\<close>

definition serve_turn :: "'w kernel \<Rightarrow> fd \<Rightarrow> fd \<Rightarrow> fd \<Rightarrow> 'w service \<Rightarrow> (io_error, bool, 'w service) run" where
  "serve_turn K log stream memory s =
     (case on_service (read_exact K stream 12) s of
        None \<Rightarrow> None
      | Some (Inl (Err err), s) \<Rightarrow>
          if io_kind err \<in> {UnexpectedEof, KConnectionReset, KBrokenPipe} then run_ret False s else run_err err s
      | Some (Inl Panic, s) \<Rightarrow> run_panic s
      | Some (Inr request, s) \<Rightarrow>
          (let offset = (from_le_bytes (take 8 request) :: u64);
               len = (from_le_bytes (take 4 (drop 8 request)) :: u32)
           in case on_service (\<lambda>w. run_bind (seek_start K memory offset w) (\<lambda>_. read_exact K memory (unat len))) s of
                None \<Rightarrow> None
              | Some (Inr page, s) \<Rightarrow>
                  run_bind (on_service (write_all K stream (to_le_bytes (0 :: u32))) s) (\<lambda>_ s.
                  run_bind (on_service (write_all K stream (to_le_bytes len)) s) (\<lambda>_ s.
                  run_bind (on_service (write_all K stream page) s) (\<lambda>_ s.
                  run_bind (record_page_request K log offset (ucast len) s) (\<lambda>_ s.
                    run_ret True s))))
              | Some (Inl (Err err), s) \<Rightarrow>
                  run_bind (on_service (write_all K stream (to_le_bytes (1 :: u32))) s) (\<lambda>_ s.
                  run_bind (on_service (write_all K stream (to_le_bytes (0 :: u32))) s) (\<lambda>_ s.
                  run_bind (record_page_request_error K log offset (ucast len) s) (\<lambda>_ s.
                    run_err err s)))
              | Some (Inl Panic, s) \<Rightarrow> run_panic s))"

partial_function (option) serve_template_connection ::
  "'w kernel \<Rightarrow> fd \<Rightarrow> fd \<Rightarrow> fd \<Rightarrow> 'w service \<Rightarrow> (io_error, unit, 'w service) run" where
  "serve_template_connection K log stream memory s =
     (case serve_turn K log stream memory s of
        None \<Rightarrow> None
      | Some (Inl e, s) \<Rightarrow> Some (Inl e, s)
      | Some (Inr continue, s) \<Rightarrow>
          if continue then serve_template_connection K log stream memory s else Some (Inr (), s))"

section \<open>The specification of the protocol\<close>

definition request :: "u64 \<Rightarrow> u32 \<Rightarrow> bytes" where
  "request offset len = to_le_bytes offset @ to_le_bytes len"

definition file_page :: "bytes \<Rightarrow> u64 \<Rightarrow> u32 \<Rightarrow> bytes" where
  "file_page file offset len = take (unat len) (drop (unat offset) file)"

definition good_reply :: "bytes \<Rightarrow> u64 \<Rightarrow> u32 \<Rightarrow> bytes" where
  "good_reply file offset len = to_le_bytes (0 :: u32) @ to_le_bytes len @ file_page file offset len"

text \<open>
  The bytes the service sends, given the bytes it has received: one reply per complete request
  that lies within the file, and an error reply at the first one that does not, after which the
  connection is closed.
\<close>

function answers :: "bytes \<Rightarrow> bytes \<Rightarrow> bytes" where
  "answers file q =
     (if length q < 12 then []
      else let offset = (from_le_bytes (take 8 q) :: u64); len = (from_le_bytes (take 4 (drop 8 q)) :: u32)
           in if length (file_page file offset len) = unat len
              then good_reply file offset len @ answers file (drop 12 q)
              else to_le_bytes (1 :: u32) @ to_le_bytes (0 :: u32))"
  by pat_completeness auto
termination
  by (relation "measure (\<lambda>(file, q). length q)") auto

declare answers.simps [simp del]

lemma take_request [simp]:
  "take 8 (request offset len) = to_le_bytes offset" "drop 8 (request offset len) = to_le_bytes len"
  "length (request offset len) = 12"
  by (simp_all add: request_def)

lemma from_to_le [simp]:
  "(from_le_bytes (to_le_bytes (v::u64)) :: u64) = v" "(from_le_bytes (to_le_bytes (u::u32)) :: u32) = u"
  by (simp_all add: from_to_le_bytes)

lemma answers_request:
  "answers file (request offset len @ q) =
     (if length (file_page file offset len) = unat len
      then good_reply file offset len @ answers file q
      else to_le_bytes (1 :: u32) @ to_le_bytes (0 :: u32))"
  by (subst answers.simps) (simp add: Let_def)

lemma answers_short: "length q < 12 \<Longrightarrow> answers file q = []"
  by (simp add: answers.simps)

text \<open>A stream of complete requests that all lie within the file.\<close>

fun requests :: "(u64 \<times> u32) list \<Rightarrow> bytes" where
  "requests [] = []"
| "requests ((offset, len) # rs) = request offset len @ requests rs"

definition in_file :: "bytes \<Rightarrow> (u64 \<times> u32) list \<Rightarrow> bool" where
  "in_file file rs \<longleftrightarrow> (\<forall>(offset, len) \<in> set rs. length (file_page file offset len) = unat len)"

lemma answers_requests:
  "in_file file rs \<Longrightarrow> answers file (requests rs @ q) = answers file (requests rs) @ answers file q"
proof (induction rs)
  case Nil
  show ?case by (simp add: answers_short)
next
  case (Cons r rs)
  obtain offset len where r: "r = (offset, len)" by (cases r)
  with Cons show ?case by (simp add: in_file_def answers_request)
qed

section \<open>The service implements the specification\<close>

text \<open>
  The descriptors of one connection of the service: the stream delivers \<open>inc\<close> and collects
  \<open>sent\<close>, the template file has the fixed content \<open>file\<close> and is read from where the last seek
  put it, and input and output on one descriptor leave the others alone.
\<close>

definition service_io_ok ::
  "'w kernel \<Rightarrow> fd \<Rightarrow> fd \<Rightarrow> fd \<Rightarrow> ('w \<Rightarrow> bytes) \<Rightarrow> ('w \<Rightarrow> bytes) \<Rightarrow> ('w \<Rightarrow> bytes) \<Rightarrow> ('w \<Rightarrow> bytes) \<Rightarrow>
   bytes \<Rightarrow> ('w \<Rightarrow> nat) \<Rightarrow> bool" where
  "service_io_ok K log stream memory inc sent logged favail file pending \<longleftrightarrow>
     read_ok K inc pending stream \<and> write_ok K sent pending stream \<and>
     read_ok K favail pending memory \<and> write_ok K logged pending log \<and>
     (\<forall>n w. sent (snd (snd (k_read K stream n w))) = sent w) \<and>
     (\<forall>n w. (inc (snd (snd (k_read K memory n w))), sent (snd (snd (k_read K memory n w)))) = (inc w, sent w)) \<and>
     (\<forall>bs w. inc (snd (k_write K stream bs w)) = inc w) \<and>
     (\<forall>bs w. (inc (snd (k_write K log bs w)), sent (snd (k_write K log bs w))) = (inc w, sent w)) \<and>
     (\<forall>off w r w'. k_lseek K memory off w = (r, w') \<longrightarrow> inc w' = inc w \<and> sent w' = sent w \<and>
        (0 \<le> r \<longrightarrow> favail w' = drop (unat off) file))"

lemma ends_on_service:
  "ends (m (sv_world s)) Q \<Longrightarrow>
     ends (on_service m s) (\<lambda>r t. sv_metrics t = sv_metrics s \<and> Q r (sv_world t))"
  by (auto simp: ends_def on_service_def)

lemma stream_write:
  assumes "service_io_ok K log stream memory inc sent logged favail file pending"
  shows "ends (on_service (write_all K stream bs) s) (\<lambda>r t. sv_metrics t = sv_metrics s \<and>
    r \<noteq> Inl Panic \<and> inc (sv_world t) = inc (sv_world s) \<and>
    (r = Inr () \<longrightarrow> sent (sv_world t) = sent (sv_world s) @ bs))"
proof (rule ends_on_service)
  have "write_ok K sent pending stream" and fr: "\<And>bs w. inc (snd (k_write K stream bs w)) = inc w"
    using assms by (simp_all add: service_io_ok_def)
  from write_all_spec [OF this(1), of bs "sv_world s"] write_all_frame [of inc, OF fr]
  show "ends (write_all K stream bs (sv_world s)) (\<lambda>r w'. r \<noteq> Inl Panic \<and> inc w' = inc (sv_world s) \<and>
      (r = Inr () \<longrightarrow> sent w' = sent (sv_world s) @ bs))"
    by (fastforce intro: endsI)
qed

text \<open>An operation that only logs: it returns, and the stream and the metrics are as before.\<close>

lemma log_quiet:
  assumes "service_io_ok K log stream memory inc sent logged favail file pending"
  shows "ends (log_writeln K log line s) (\<lambda>r t. sv_metrics t = sv_metrics s \<and>
    r \<noteq> Inl Panic \<and> inc (sv_world t) = inc (sv_world s) \<and> sent (sv_world t) = sent (sv_world s))"
  unfolding log_writeln_def
proof (rule ends_on_service)
  let ?bs = "bytes_of (line @ [CHR 0x0A])"
  have "write_ok K logged pending log"
    and fr: "\<And>bs w. (inc (snd (k_write K log bs w)), sent (snd (k_write K log bs w))) = (inc w, sent w)"
    using assms by (simp_all add: service_io_ok_def)
  from write_all_spec [OF this(1), of ?bs "sv_world s"] write_all_frame [of "\<lambda>w. (inc w, sent w)", OF fr]
  show "ends (write_all K log ?bs (sv_world s)) (\<lambda>r w'. r \<noteq> Inl Panic \<and>
      inc w' = inc (sv_world s) \<and> sent w' = sent (sv_world s))"
    by (fastforce intro: endsI)
qed

lemma summary_quiet:
  assumes "service_io_ok K log stream memory inc sent logged favail file pending"
  shows "ends (write_summary K log s) (\<lambda>r t. sv_metrics t = sv_metrics s \<and>
    r \<noteq> Inl Panic \<and> inc (sv_world t) = inc (sv_world s) \<and> sent (sv_world t) = sent (sv_world s))"
  unfolding write_summary_def Let_def by (rule log_quiet [OF assms])

lemma record_page_request_spec:
  assumes ok: "service_io_ok K log stream memory inc sent logged favail file pending"
  shows "ends (record_page_request K log offset len s)
    (\<lambda>r t. sv_metrics t = count_request offset len (sv_metrics s) \<and> r \<noteq> Inl Panic \<and>
      inc (sv_world t) = inc (sv_world s) \<and> sent (sv_world t) = sent (sv_world s))"
  unfolding record_page_request_def Let_def
  by (rule ends_bind [OF log_quiet [OF ok]], simp) (rule ends_mono [OF summary_quiet [OF ok]], simp)

lemma record_error_spec:
  assumes ok: "service_io_ok K log stream memory inc sent logged favail file pending"
  shows "ends (record_page_request_error K log offset len s) (\<lambda>r t. r \<noteq> Inl Panic)"
  unfolding record_page_request_error_def Let_def
  by (rule ends_bind [OF log_quiet [OF ok]], simp) (rule ends_mono [OF summary_quiet [OF ok]], simp)

lemma read_template:
  assumes "service_io_ok K log stream memory inc sent logged favail file pending"
  shows "ends (on_service (\<lambda>w. run_bind (seek_start K memory offset w) (\<lambda>_. read_exact K memory (unat (len::u32)))) s)
    (\<lambda>r t. sv_metrics t = sv_metrics s \<and> r \<noteq> Inl Panic \<and> inc (sv_world t) = inc (sv_world s) \<and>
      sent (sv_world t) = sent (sv_world s) \<and>
      (\<forall>page. r = Inr page \<longrightarrow> page = file_page file offset len \<and> length page = unat len))"
proof (rule ends_on_service)
  let ?w = "sv_world s"
  have fok: "read_ok K favail pending memory"
    and ffr: "\<And>n w. (inc (snd (snd (k_read K memory n w))), sent (snd (snd (k_read K memory n w)))) = (inc w, sent w)"
    using assms by (simp_all add: service_io_ok_def)
  have "ends (seek_start K memory offset ?w) (\<lambda>r w'. r \<noteq> Inl Panic \<and> inc w' = inc ?w \<and> sent w' = sent ?w \<and>
      (r = Inr () \<longrightarrow> favail w' = drop (unat offset) file))"
    using assms by (cases "k_lseek K memory offset ?w") (auto simp: seek_start_def service_io_ok_def)
  then show "ends (run_bind (seek_start K memory offset ?w) (\<lambda>_. read_exact K memory (unat len)))
      (\<lambda>r w'. r \<noteq> Inl Panic \<and> inc w' = inc ?w \<and> sent w' = sent ?w \<and>
        (\<forall>page. r = Inr page \<longrightarrow> page = file_page file offset len \<and> length page = unat len))"
  proof (rule ends_bind, simp)
    fix u w1
    assume "Inr u \<noteq> Inl Panic \<and> inc w1 = inc ?w \<and> sent w1 = sent ?w \<and>
      (Inr u = Inr () \<longrightarrow> favail w1 = drop (unat offset) file)"
    with read_exact_spec [OF fok, of "unat len" w1] read_exact_frame [of "\<lambda>w. (inc w, sent w)", OF ffr]
    show "ends (read_exact K memory (unat len) w1) (\<lambda>r w'. r \<noteq> Inl Panic \<and> inc w' = inc ?w \<and> sent w' = sent ?w \<and>
        (\<forall>page. r = Inr page \<longrightarrow> page = file_page file offset len \<and> length page = unat len))"
      unfolding file_page_def by (fastforce intro: endsI)
  qed
qed

lemma reply_good:
  assumes ok: "service_io_ok K log stream memory inc sent logged favail file pending"
  shows "ends (run_bind (on_service (write_all K stream hd0) s) (\<lambda>_ s.
      run_bind (on_service (write_all K stream hd1) s) (\<lambda>_ s.
      run_bind (on_service (write_all K stream page) s) (\<lambda>_ s.
      run_bind (record_page_request K log offset len s) (\<lambda>_ s. run_ret True s)))))
    (\<lambda>r t. r \<noteq> Inl Panic \<and> r \<noteq> Inr False \<and> (r = Inr True \<longrightarrow> inc (sv_world t) = inc (sv_world s) \<and>
      sent (sv_world t) = sent (sv_world s) @ hd0 @ hd1 @ page \<and>
      sv_metrics t = count_request offset len (sv_metrics s)))"
  apply (rule ends_bind [OF stream_write [OF ok]], simp)
  apply (rule ends_bind [OF stream_write [OF ok]], simp)
  apply (rule ends_bind [OF stream_write [OF ok]], simp)
  apply (rule ends_bind [OF record_page_request_spec [OF ok]], simp)
  apply simp
  done

lemma reply_bad:
  assumes ok: "service_io_ok K log stream memory inc sent logged favail file pending"
  shows "ends (run_bind (on_service (write_all K stream hd0) s) (\<lambda>_ s.
      run_bind (on_service (write_all K stream hd1) s) (\<lambda>_ s.
      run_bind (record_page_request_error K log offset len s) (\<lambda>_ s. run_err err s))))
    (\<lambda>r t. \<exists>e. r = Inl (Err e))"
proof -
  have inl: "\<exists>e. Inl x = Inl (Err e)" if "Inl x \<noteq> Inl Panic" for x :: "io_error abort"
    using that by (cases x) auto
  show ?thesis
    apply (rule ends_bind [OF stream_write [OF ok]], rule inl, simp)
    apply (rule ends_bind [OF stream_write [OF ok]], rule inl, simp)
    apply (rule ends_bind [OF record_error_spec [OF ok]], rule inl, simp)
    apply simp
    done
qed

text \<open>
  One turn of the service: a complete request within the file is answered and counted, an
  incomplete one ends the connection.
\<close>

lemma serve_turn_spec:
  assumes ok: "service_io_ok K log stream memory inc sent logged favail file pending"
  shows "ends (serve_turn K log stream memory s) (\<lambda>r t. r \<noteq> Inl Panic \<and>
    (r = Inr True \<longrightarrow> (\<exists>q offset len. inc (sv_world s) = q @ inc (sv_world t) \<and> length q = 12 \<and>
       offset = from_le_bytes (take 8 q) \<and> len = from_le_bytes (take 4 (drop 8 q)) \<and>
       length (file_page file offset len) = unat len \<and>
       sent (sv_world t) = sent (sv_world s) @ good_reply file offset len \<and>
       sv_metrics t = count_request offset (ucast len) (sv_metrics s))) \<and>
    (r = Inr False \<longrightarrow> (\<exists>q. inc (sv_world s) = q @ inc (sv_world t) \<and> length q < 12 \<and>
       sent (sv_world t) = sent (sv_world s) \<and> sv_metrics t = sv_metrics s)))"
    (is "ends _ ?Q")
proof -
  let ?i = "inc (sv_world s)"
  have rok: "read_ok K inc pending stream" and rfr: "\<And>n w. sent (snd (snd (k_read K stream n w))) = sent w"
    using ok by (simp_all add: service_io_ok_def)
  from read_exact_spec [OF rok, of 12 "sv_world s"] obtain r1 w1 where
    r1: "read_exact K stream 12 (sv_world s) = Some (r1, w1)" "r1 \<noteq> Inl Panic"
    and q1: "\<forall>bs. r1 = Inr bs \<longrightarrow> bs = take 12 ?i \<and> length bs = 12 \<and> inc w1 = drop 12 ?i"
    and e1: "\<forall>e. r1 = Inl e \<longrightarrow> (\<exists>k < 12. inc w1 = drop k ?i)" by blast
  note s1 = read_exact_frame [of sent, OF rfr r1(1)]
  let ?s = "s\<lparr>sv_world := w1\<rparr>"
  have on1: "on_service (read_exact K stream 12) s = Some (r1, ?s)" using r1(1) by (simp add: on_service_def)
  show ?thesis
  proof (cases r1)
    case (Inl e)
    with r1(2) obtain err where e: "e = Err err" by (cases e) auto
    from e1 Inl obtain k where k: "k < 12" "inc w1 = drop k ?i" by blast
    have "\<exists>q. ?i = q @ inc w1 \<and> length q < 12"
      by (rule exI [where x = "take k ?i"]) (use k in auto)
    with on1 Inl e s1 show ?thesis by (simp add: serve_turn_def)
  next
    case (Inr q)
    let ?o = "from_le_bytes (take 8 q) :: u64" and ?l = "from_le_bytes (take 4 (drop 8 q)) :: u32"
    have "q = take 12 ?i" and len: "length q = 12" and "inc w1 = drop 12 ?i" using q1 Inr by blast+
    then have q: "?i = q @ inc w1" by simp
    obtain r2 t where
      rd: "on_service (\<lambda>w. run_bind (seek_start K memory ?o w) (\<lambda>_. read_exact K memory (unat ?l))) ?s = Some (r2, t)"
      and r2: "r2 \<noteq> Inl Panic" "sv_metrics t = sv_metrics s" "inc (sv_world t) = inc w1" "sent (sv_world t) = sent (sv_world s)"
      and page: "\<forall>page. r2 = Inr page \<longrightarrow> page = file_page file ?o ?l \<and> length page = unat ?l"
      using read_template [OF ok, of ?o ?l ?s] s1 by (auto elim!: endsE)
    show ?thesis
    proof (cases r2)
      case (Inl x)
      with r2(1) obtain err where "x = Err err" by (cases x) auto
      with Inl on1 Inr rd show ?thesis
        by (simp add: serve_turn_def Let_def) (rule ends_mono [OF reply_bad [OF ok]], auto)
    next
      case pg: (Inr pg)
      with page have p: "pg = file_page file ?o ?l" "length (file_page file ?o ?l) = unat ?l" by auto
      from pg on1 Inr rd show ?thesis
        by (simp add: serve_turn_def Let_def)
          (rule ends_mono [OF reply_good [OF ok]], use q len r2 p in \<open>auto simp: good_reply_def\<close>)
    qed
  qed
qed

text \<open>
  \<open>C21\<close>: serving a connection comes to an end, never panics, and a connection that ends normally
  has been answered exactly as the protocol prescribes: the bytes sent are the specified answers
  to the bytes consumed, all of them page data of the template file at the requested offsets, and
  the request counter has grown by the number of requests.
\<close>

theorem serve_connection_answers:
  assumes ok: "service_io_ok K log stream memory inc sent logged favail file pending"
  shows "\<exists>r s'. serve_template_connection K log stream memory s = Some (r, s') \<and> r \<noteq> Inl Panic \<and>
    (r = Inr () \<longrightarrow> (\<exists>q. inc (sv_world s) = q @ inc (sv_world s') \<and>
      sent (sv_world s') = sent (sv_world s) @ answers file q \<and>
      mt_page_requests (sv_metrics s') = mt_page_requests (sv_metrics s) + word_of_nat (length q div 12)))"
proof (induction "length (inc (sv_world s))" arbitrary: s rule: less_induct)
  case less
  obtain r t where t: "serve_turn K log stream memory s = Some (r, t)" "r \<noteq> Inl Panic"
    and good: "r = Inr True \<longrightarrow> (\<exists>q offset len. inc (sv_world s) = q @ inc (sv_world t) \<and> length q = 12 \<and>
      offset = from_le_bytes (take 8 q) \<and> len = from_le_bytes (take 4 (drop 8 q)) \<and>
      length (file_page file offset len) = unat len \<and>
      sent (sv_world t) = sent (sv_world s) @ good_reply file offset len \<and>
      sv_metrics t = count_request offset (ucast len) (sv_metrics s))"
    and stop: "r = Inr False \<longrightarrow> (\<exists>q. inc (sv_world s) = q @ inc (sv_world t) \<and> length q < 12 \<and>
      sent (sv_world t) = sent (sv_world s) \<and> sv_metrics t = sv_metrics s)"
    using serve_turn_spec [OF ok, of s] by (auto elim!: endsE)
  show ?case
  proof (cases "r = Inr True")
    case False
    with t stop show ?thesis
      by (subst serve_template_connection.simps) (auto simp: answers_short split: sum.split)
  next
    case True
    with good obtain q offset len where q: "inc (sv_world s) = q @ inc (sv_world t)" "length q = 12"
      "offset = from_le_bytes (take 8 q)" "len = from_le_bytes (take 4 (drop 8 q))"
      "length (file_page file offset len) = unat len"
      "sent (sv_world t) = sent (sv_world s) @ good_reply file offset len"
      "sv_metrics t = count_request offset (ucast len) (sv_metrics s)" by blast
    have eq: "serve_template_connection K log stream memory s = serve_template_connection K log stream memory t"
      using True t by (subst serve_template_connection.simps) simp
    have "answers file (q @ q') = good_reply file offset len @ answers file q'" for q'
      using q by (subst answers.simps) (simp add: Let_def)
    moreover have "mt_page_requests (sv_metrics t) = mt_page_requests (sv_metrics s) + 1"
      using q(7) by (simp add: count_request_def record_unique_pages_def Let_def)
    moreover have "length (q @ q') div 12 = Suc (length q' div 12)" for q' using q(2) by simp
    ultimately have lift: "inc (sv_world t) = q' @ inc (sv_world s') \<and>
        sent (sv_world s') = sent (sv_world t) @ answers file q' \<and>
        mt_page_requests (sv_metrics s') = mt_page_requests (sv_metrics t) + word_of_nat (length q' div 12) \<Longrightarrow>
      \<exists>q. inc (sv_world s) = q @ inc (sv_world s') \<and>
        sent (sv_world s') = sent (sv_world s) @ answers file q \<and>
        mt_page_requests (sv_metrics s') = mt_page_requests (sv_metrics s) + word_of_nat (length q div 12)" for q' s'
      using q(1,6) by (intro exI [where x = "q @ q'"]) (simp del: length_append)
    have "length (inc (sv_world t)) < length (inc (sv_world s))" using q(1,2) by simp
    from less [OF this] lift show ?thesis unfolding eq by blast
  qed
qed

section \<open>The client obtains the pages of the file\<close>

text \<open>
  The stream of the client: it delivers what the service sends. All that the service answers to
  what has been sent is what was received (\<open>got\<close>) and what is still to be received (\<open>inc\<close>).
\<close>

definition client_io_ok ::
  "'w kernel \<Rightarrow> fd \<Rightarrow> ('w \<Rightarrow> bytes) \<Rightarrow> ('w \<Rightarrow> bytes) \<Rightarrow> ('w \<Rightarrow> bytes) \<Rightarrow> bytes \<Rightarrow> ('w \<Rightarrow> nat) \<Rightarrow> bool" where
  "client_io_ok K stream sent inc got file pending \<longleftrightarrow>
     read_ok K inc pending stream \<and> write_ok K sent pending stream \<and>
     (\<forall>n w. sent (snd (snd (k_read K stream n w))) = sent w) \<and>
     (\<forall>bs w. got (snd (k_write K stream bs w)) = got w) \<and>
     (\<forall>w. got w @ inc w = answers file (sent w))"

lemma service_read_page_spec:
  assumes ok: "client_io_ok K stream sent inc got file pending"
    and idle: "inc w = []" "sent w = requests rs" "in_file file rs"
  shows "\<exists>r w'. service_read_page K stream offset n w = Some (r, w') \<and> r \<noteq> Inl Panic \<and>
    (\<forall>dst. r = Inr dst \<longrightarrow> dst = take n (drop (unat offset) file) \<and> length dst = n \<and>
       inc w' = [] \<and> sent w' = requests (rs @ [(offset, word_of_nat n)]) \<and>
       in_file file (rs @ [(offset, word_of_nat n)]))"
proof (cases "n < 2 ^ 32")
  case False
  then show ?thesis by (simp add: service_read_page_def)
next
  case n: True
  let ?l = "word_of_nat n :: u32"
  define page where "page = take n (drop (unat offset) file)"
  let ?Q = "\<lambda>r w'. r \<noteq> Inl Panic \<and> (\<forall>dst. r = Inr dst \<longrightarrow> dst = page \<and> length dst = n \<and> inc w' = [] \<and>
      sent w' = requests (rs @ [(offset, ?l)]) \<and> in_file file (rs @ [(offset, ?l)]))"
  have l: "unat ?l = n" using n by (simp add: unat_of_nat)
  then have fp: "file_page file offset ?l = page" by (simp add: file_page_def page_def)
  have rok: "read_ok K inc pending stream" and wok: "write_ok K sent pending stream"
    and rfr: "\<And>n w. sent (snd (snd (k_read K stream n w))) = sent w"
    and wfr: "\<And>bs w. got (snd (k_write K stream bs w)) = got w"
    and link: "\<And>w. got w @ inc w = answers file (sent w)"
    using ok by (simp_all add: client_io_ok_def)
  have wr: "ends (write_all K stream bs w) (\<lambda>r w'. r \<noteq> Inl Panic \<and> got w' = got w \<and>
      (r = Inr () \<longrightarrow> sent w' = sent w @ bs))" for bs w
    using write_all_spec [OF wok, of bs w] write_all_frame [of got, OF wfr] by (fastforce intro: endsI)
  have rd: "ends (read_exact K stream k w) (\<lambda>r w'. r \<noteq> Inl Panic \<and> sent w' = sent w \<and>
      (\<forall>bs. r = Inr bs \<longrightarrow> bs = take k (inc w) \<and> length bs = k \<and> inc w' = drop k (inc w)))" for k w
    using read_exact_spec [OF rok, of k w] read_exact_frame [of sent, OF rfr] by (fastforce intro: endsI)
  have reqs: "requests (rs @ [(offset, ?l)]) = requests rs @ request offset ?l" by (induction rs) auto
  have fin: "in_file file (rs @ [(offset, ?l)]) \<longleftrightarrow> length page = n"
    using idle(3) l fp by (auto simp: in_file_def)
  have reply: "inc w2 = (if length page = n then good_reply file offset ?l
      else to_le_bytes (1 :: u32) @ to_le_bytes (0 :: u32))"
    if "got w2 = got w" and "sent w2 = sent w @ to_le_bytes offset @ to_le_bytes ?l" for w2
  proof -
    have "got w = answers file (requests rs)" using link [of w] idle by simp
    moreover have "got w2 @ inc w2 = answers file (requests rs @ request offset ?l)"
      using link [of w2] that(2) idle(2) by (simp add: request_def)
    ultimately show ?thesis
      using answers_requests [OF idle(3)] answers_request [where q = "[]" and len = ?l] that(1) l
      by (simp add: answers_short fp)
  qed
  have body: "ends (let status = (from_le_bytes (take 4 header) :: u32);
        response_len = unat (from_le_bytes (take 4 (drop 4 header)) :: u32)
      in if status \<noteq> 0 then run_err e1 w3
         else if response_len \<noteq> n then run_err (e2 response_len) w3 else read_exact K stream n w3) ?Q"
    if w2: "got w2 = got w" "sent w2 = sent w @ to_le_bytes offset @ to_le_bytes ?l"
      and w3: "header = take 8 (inc w2)" "inc w3 = drop 8 (inc w2)" "sent w3 = sent w2" for header w2 w3 e1 e2
  proof (cases "length page = n")
    case False
    with reply [OF w2] w3(1) have "take 4 header = to_le_bytes (1 :: u32)" by simp
    then show ?thesis by simp
  next
    case True
    with reply [OF w2] w3(1,2) l have "take 4 header = to_le_bytes (0 :: u32)" and "take 4 (drop 4 header) = to_le_bytes ?l"
      and "inc w3 = page" by (simp_all add: good_reply_def fp)
    with True l show ?thesis
      by simp
        (rule ends_mono [OF rd], use w2 w3(3) idle(2) fin in \<open>simp add: reqs request_def\<close>)
  qed
  have "ends (service_read_page K stream offset n w) ?Q"
    using n unfolding service_read_page_def
    apply (simp only: not_le [symmetric] if_False Let_def [of ?l])
    apply (rule ends_bind [OF wr], simp)
    apply (rule ends_bind [OF wr], simp)
    apply (rule ends_bind [OF rd], simp)
    subgoal for _ s1 _ s2 header s3 by (rule body [of s2]) auto
    done
  then show ?thesis by (simp add: ends_def page_def)
qed

text \<open>
  \<open>C22\<close>: a client whose earlier requests all lay within the template file and were fully
  received gets from \<open>read_page\<close>, when it succeeds, exactly the requested bytes of the file, and
  is again ready for the next request; a request beyond the file always fails; the call always
  returns and never panics.
\<close>

theorem service_read_page_correct:
  assumes ok: "client_io_ok K stream sent inc got file pending"
    and idle: "inc w = []" "sent w = requests rs" "in_file file rs"
  shows "\<exists>r w'. service_read_page K stream offset n w = Some (r, w') \<and> r \<noteq> Inl Panic \<and>
    (\<forall>dst. r = Inr dst \<longrightarrow> dst = take n (drop (unat offset) file) \<and> length dst = n \<and>
       inc w' = [] \<and> sent w' = requests (rs @ [(offset, word_of_nat n)]) \<and>
       in_file file (rs @ [(offset, word_of_nat n)]))"
  using assms by (rule service_read_page_spec)

section \<open>The metrics\<close>

definition pages_of :: "u64 \<Rightarrow> u64 \<times> u64 \<Rightarrow> u64 set" where
  "pages_of page_size = (\<lambda>(offset, len).
     if len = 0 \<or> page_size = 0 then {}
     else {p. unat offset div unat page_size \<le> unat p \<and> unat p \<le> (unat offset + unat len - 1) div unat page_size})"

lemma set_word_interval:
  "set (map word_of_nat [unat (a::'a word)..<Suc (unat (b::'a word))]) = {p::'a::len word. unat a \<le> unat p \<and> unat p \<le> unat b}"
proof (intro set_eqI iffI)
  fix p :: "'a word"
  assume "p \<in> set (map word_of_nat [unat a..<Suc (unat b)])"
  then obtain k where k: "unat a \<le> k" "k \<le> unat b" "p = word_of_nat k" by auto
  then have "unat p = k" using le_less_trans [OF k(2) unat_lt] by (simp add: unat_of_nat)
  with k show "p \<in> {p. unat a \<le> unat p \<and> unat p \<le> unat b}" by (simp del: upt_Suc)
next
  fix p :: "'a word"
  assume "p \<in> {p. unat a \<le> unat p \<and> unat p \<le> unat b}"
  then have "unat p \<in> {unat a..<Suc (unat b)}" by (simp del: upt_Suc)
  then have "word_of_nat (unat p) \<in> (word_of_nat :: nat \<Rightarrow> 'a word) ` {unat a..<Suc (unat b)}" by (rule imageI)
  then show "p \<in> set (map word_of_nat [unat a..<Suc (unat b)])" by (simp del: upt_Suc)
qed

lemma record_unique_pages_eq:
  assumes "unat offset + unat len < 2 ^ 64"
  shows "record_unique_pages offset len m =
    m\<lparr>mt_unique_pages_seen := mt_unique_pages_seen m \<union> pages_of (mt_page_size m) (offset, len)\<rparr>"
proof (cases "len = 0 \<or> mt_page_size m = 0")
  case True
  then show ?thesis by (auto simp: record_unique_pages_def pages_of_def)
next
  case False
  have "0 < unat len" using False by (simp add: word_neq_0_conv word_less_nat_alt)
  then have "unat (offset + len - 1) = unat offset + unat len - 1"
    using assms by (subst unat_sub) (simp_all add: unat_add_nowrap word_le_nat_alt)
  then have "fold insert (map word_of_nat [unat (offset div mt_page_size m)..<
      Suc (unat ((offset + len - 1) div mt_page_size m))]) S = pages_of (mt_page_size m) (offset, len) \<union> S" for S
    using False by (simp only: union_set_fold [symmetric] set_word_interval) (simp add: pages_of_def unat_div_word)
  with False show ?thesis by (simp only: record_unique_pages_def Let_def if_False) (simp add: Un_commute)
qed

lemma count_request_eq:
  "unat offset + unat len < 2 ^ 64 \<Longrightarrow> count_request offset len m =
     m\<lparr>mt_page_requests := mt_page_requests m + 1, mt_bytes_served := mt_bytes_served m + len,
       mt_unique_pages_seen := mt_unique_pages_seen m \<union> pages_of (mt_page_size m) (offset, len)\<rparr>"
  by (simp add: count_request_def record_unique_pages_eq)

lemma count_requests:
  assumes "\<forall>(offset, len) \<in> set reqs. unat offset + unat len < 2 ^ 64"
  shows "fold (\<lambda>(offset, len). count_request offset len) reqs m =
    m\<lparr>mt_page_requests := mt_page_requests m + word_of_nat (length reqs),
      mt_bytes_served := mt_bytes_served m + sum_list (map snd reqs),
      mt_unique_pages_seen := mt_unique_pages_seen m \<union> (\<Union>r \<in> set reqs. pages_of (mt_page_size m) r)\<rparr>"
  using assms
proof (induction reqs arbitrary: m)
  case (Cons r reqs)
  obtain offset len where r: "r = (offset, len)" by (cases r)
  with Cons show ?case by (simp add: count_request_eq Un_assoc algebra_simps)
qed simp

text \<open>
  The metrics of the service after any sequence of served requests whose byte ranges do
  not wrap: the request counter and the byte counter have grown by the number and the total size
  of the requests, and the set of unique pages is exactly the set of pages the requests touched.
\<close>

theorem metrics_count_requests:
  assumes "\<forall>(offset, len) \<in> set reqs. unat offset + unat len < 2 ^ 64"
  shows "fold (\<lambda>(offset, len). count_request offset len) reqs m =
    m\<lparr>mt_page_requests := mt_page_requests m + word_of_nat (length reqs),
      mt_bytes_served := mt_bytes_served m + sum_list (map snd reqs),
      mt_unique_pages_seen := mt_unique_pages_seen m \<union> (\<Union>r \<in> set reqs. pages_of (mt_page_size m) r)\<rparr>"
  using assms by (rule count_requests)

text \<open>
  For requests of one page each, as the clients make them, the reported number of
  duplicate requests of a fresh service is the number of requests that hit a page already
  requested: the requests minus the distinct pages.
\<close>

theorem duplicate_requests_exact:
  assumes "\<forall>(offset, len) \<in> set reqs. unat offset + unat len < 2 ^ 64"
    and "\<forall>r \<in> set reqs. pages_of page_size r = {page r}" and "length reqs < 2 ^ 64"
    and "m = fold (\<lambda>(offset, len). count_request offset len) reqs (metrics_new backend_bytes page_size dir socket)"
  shows "unat (duplicate_requests m) = length reqs - card (page ` set reqs) \<and>
    unat (unique_pages m) = card (page ` set reqs)"
proof -
  have m: "mt_page_requests m = word_of_nat (length reqs)" "mt_unique_pages_seen m = page ` set reqs"
    using assms(2,4) count_requests [OF assms(1), of "metrics_new backend_bytes page_size dir socket"]
    by (auto simp: metrics_new_def)
  have "card (page ` set reqs) \<le> length reqs"
    by (meson card_image_le card_length finite_set order_trans)
  with m assms(3) show ?thesis
    by (simp add: duplicate_requests_def unique_pages_def unat_saturating_sub unat_of_nat)
qed

end
