(* ===== verification/Restore_Backend.thy ===== *)
theory Restore_Backend
  imports Template_Client Template_Wire
begin

unbundle bit_operations_syntax

text \<open>
  The restore backend of the virtual machine monitor
  (\<^verbatim>\<open>src/uffd-cow-gpt/cloud-hypervisor/vmm/src/template_memory.rs\<close>): the ranges of guest
  memory to restore, the metadata of their pages, the location of a faulting page and of the
  copy-on-write chunk it belongs to, and the reading of a page from the snapshot file or the
  template service.
\<close>

section \<open>Data\<close>

definition STATE_PRIVATE_DIRTY :: u8 where "STATE_PRIVATE_DIRTY = 3"
definition DEFAULT_COW_CHUNK_SIZE :: u64 where "DEFAULT_COW_CHUNK_SIZE = 1024 * 1024"

lemmas restore_state_defs = state_defs STATE_PRIVATE_DIRTY_def

record template_range =
  tr_host_addr :: u64
  tr_length :: u64
  tr_file_offset :: u64
  tr_page_size :: u64
  tr_first_page_index :: u64

record template_fault =
  tf_page_addr :: u64
  tf_page_size :: u64
  tf_page_index :: u64
  tf_backend_offset :: u64

record cow_chunk =
  cc_start_addr :: u64
  cc_len :: u64
  cc_first_page_index :: u64
  cc_page_count :: u64
  cc_page_size :: u64

record restore_page =
  rp_state :: u8
  rp_backend_offset :: u64

datatype page_source = SourceFile fd | SourceService fd

record restore_backend =
  rb_source :: page_source
  rb_ranges :: "template_range list"
  rb_pages :: "restore_page list"

section \<open>Operations\<close>

definition range_new :: "u64 \<Rightarrow> u64 \<Rightarrow> u64 \<Rightarrow> u64 \<Rightarrow> template_range" where
  "range_new host_addr len file_offset page_size =
     \<lparr>tr_host_addr = host_addr, tr_length = len, tr_file_offset = file_offset,
      tr_page_size = page_size, tr_first_page_index = 0\<rparr>"

definition range_page_count :: "template_range \<Rightarrow> (io_error, u64) outcome" where
  "range_page_count r = div_ceil_w (tr_length r) (tr_page_size r)"

definition range_locate :: "template_range \<Rightarrow> u64 \<Rightarrow> (io_error, template_fault option) outcome" where
  "range_locate r fault_addr =
     (let page_addr = fault_addr AND NOT (tr_page_size r - 1) in
      if page_addr < tr_host_addr r \<or> page_addr \<ge> tr_host_addr r + tr_length r then Inr None
      else let offset_in_range = page_addr - tr_host_addr r in
        bindE (div_w offset_in_range (tr_page_size r)) (\<lambda>page.
          Inr (Some \<lparr>tf_page_addr = page_addr, tf_page_size = tr_page_size r,
            tf_page_index = tr_first_page_index r + page,
            tf_backend_offset = tr_file_offset r + offset_in_range\<rparr>)))"

definition page_meta_new :: "u64 \<Rightarrow> restore_page" where
  "page_meta_new backend_offset = \<lparr>rp_state = STATE_UNLOADED, rp_backend_offset = backend_offset\<rparr>"

text \<open>The loop of \<open>TemplateRestoreBackend::new\<close> over the ranges.\<close>

fun number_ranges ::
  "u64 \<Rightarrow> template_range list \<Rightarrow> (io_error, template_range list \<times> restore_page list) outcome" where
  "number_ranges first_page_index [] = Inr ([], [])"
| "number_ranges first_page_index (r # rs) =
     bindE (range_page_count r) (\<lambda>n.
       let pages = map (\<lambda>page. page_meta_new (tr_file_offset r + page * tr_page_size r)) (range_w 0 n)
       in bindE (number_ranges (first_page_index + n) rs) (\<lambda>(rs', pages').
         Inr (r\<lparr>tr_first_page_index := first_page_index\<rparr> # rs', pages @ pages')))"

definition restore_new :: "page_source \<Rightarrow> template_range list \<Rightarrow> (io_error, restore_backend) outcome" where
  "restore_new source ranges =
     bindE (number_ranges 0 ranges) (\<lambda>(ranges, pages).
       Inr \<lparr>rb_source = source, rb_ranges = ranges, rb_pages = pages\<rparr>)"

definition from_file :: "fd \<Rightarrow> template_range list \<Rightarrow> (io_error, restore_backend) outcome" where
  "from_file snapshot_file ranges = restore_new (SourceFile snapshot_file) ranges"

definition from_service ::
  "'w kernel \<Rightarrow> string \<Rightarrow> template_range list \<Rightarrow> 'w \<Rightarrow> (io_error, restore_backend, 'w) run" where
  "from_service K socket_path ranges w =
     run_bind (service_connect K socket_path w) (\<lambda>stream.
       run_lift (restore_new (SourceService stream) ranges))"

definition total_pages :: "restore_backend \<Rightarrow> u64" where
  "total_pages b = word_of_nat (length (rb_pages b))"

definition max_page_size :: "restore_backend \<Rightarrow> u64 \<Rightarrow> u64" where
  "max_page_size b default_page_size =
     (case map tr_page_size (rb_ranges b) of [] \<Rightarrow> default_page_size | x # xs \<Rightarrow> fold max xs x)"

fun locate_in :: "template_range list \<Rightarrow> u64 \<Rightarrow> (io_error, template_fault option) outcome" where
  "locate_in [] fault_addr = Inr None"
| "locate_in (r # rs) fault_addr =
     bindE (range_locate r fault_addr) (\<lambda>found.
       case found of Some fault \<Rightarrow> Inr (Some fault) | None \<Rightarrow> locate_in rs fault_addr)"

definition locate_fault :: "restore_backend \<Rightarrow> u64 \<Rightarrow> (io_error, template_fault option) outcome" where
  "locate_fault b = locate_in (rb_ranges b)"

definition cow_chunk_size :: "u64 \<Rightarrow> u64" where
  "cow_chunk_size page_size =
     (if page_size \<ge> DEFAULT_COW_CHUNK_SIZE then page_size else DEFAULT_COW_CHUNK_SIZE)"

fun find_page_range :: "template_range list \<Rightarrow> u64 \<Rightarrow> (io_error, template_range option) outcome" where
  "find_page_range [] page_index = Inr None"
| "find_page_range (r # rs) page_index =
     (if page_index \<ge> tr_first_page_index r
      then bindE (range_page_count r) (\<lambda>n.
        if page_index < tr_first_page_index r + n then Inr (Some r) else find_page_range rs page_index)
      else find_page_range rs page_index)"

definition cow_chunk_for_fault :: "restore_backend \<Rightarrow> template_fault \<Rightarrow> (io_error, cow_chunk option) outcome" where
  "cow_chunk_for_fault b fault =
     bindE (find_page_range (rb_ranges b) (tf_page_index fault)) (\<lambda>found.
       case found of
         None \<Rightarrow> Inr None
       | Some r \<Rightarrow>
           (let offset_in_range = (tf_page_index fault - tr_first_page_index r) * tr_page_size r;
                chunk_size = cow_chunk_size (tr_page_size r);
                chunk_offset = (offset_in_range div chunk_size) * chunk_size;
                len = min chunk_size (tr_length r - chunk_offset)
            in bindE (div_w chunk_offset (tr_page_size r)) (\<lambda>pages_before.
               bindE (div_ceil_w len (tr_page_size r)) (\<lambda>count.
                 Inr (Some \<lparr>cc_start_addr = tr_host_addr r + chunk_offset, cc_len = len,
                   cc_first_page_index = tr_first_page_index r + pages_before,
                   cc_page_count = count, cc_page_size = tr_page_size r\<rparr>)))))"

text \<open>
  Reading a page into the front of the handler's page buffer; the result is the new buffer.
\<close>

definition restore_read_page ::
  "'w kernel \<Rightarrow> restore_backend \<Rightarrow> template_fault \<Rightarrow> bytes \<Rightarrow> 'w \<Rightarrow> (io_error, bytes, 'w) run" where
  "restore_read_page K b fault page_buf w =
     run_bind (run_lift (index (rb_pages b) (tf_page_index fault)) w) (\<lambda>meta w.
       let n = unat (tf_page_size fault) in
       case rb_source b of
         SourceFile snapshot_file \<Rightarrow>
           run_bind (seek_start K snapshot_file (rp_backend_offset meta) w) (\<lambda>_ w.
             if length page_buf < n then run_panic w
             else run_bind (read_exact K snapshot_file n w) (\<lambda>bs. run_ret (bs @ drop n page_buf)))
       | SourceService stream \<Rightarrow>
           if length page_buf < n then run_panic w
           else run_bind (service_read_page K stream (rp_backend_offset meta) n w) (\<lambda>bs.
             run_ret (bs @ drop n page_buf)))"

section \<open>Well-formed backends\<close>

text \<open>
  A range of guest memory: a power-of-two page size, page-aligned host address and length, and
  no wrap-around of the address space or of the file offsets.
\<close>

definition range_wf :: "template_range \<Rightarrow> bool" where
  "range_wf r \<longleftrightarrow> (\<exists>k < 64. tr_page_size r = 2 ^ k) \<and>
     unat (tr_host_addr r) mod unat (tr_page_size r) = 0 \<and>
     unat (tr_length r) mod unat (tr_page_size r) = 0 \<and>
     unat (tr_host_addr r) + unat (tr_length r) < 2 ^ 64 \<and>
     unat (tr_file_offset r) + unat (tr_length r) < 2 ^ 64"

definition npages :: "template_range \<Rightarrow> nat" where
  "npages r = unat (tr_length r) div unat (tr_page_size r)"

fun numbered :: "nat \<Rightarrow> template_range list \<Rightarrow> bool" where
  "numbered n [] \<longleftrightarrow> True"
| "numbered n (r # rs) \<longleftrightarrow> unat (tr_first_page_index r) = n \<and> numbered (n + npages r) rs"

fun ranges_disjoint :: "template_range list \<Rightarrow> bool" where
  "ranges_disjoint [] \<longleftrightarrow> True"
| "ranges_disjoint (r # rs) \<longleftrightarrow> ranges_disjoint rs \<and>
     (\<forall>s \<in> set rs. disjoint_ranges (tr_host_addr r) (unat (tr_length r)) (tr_host_addr s) (unat (tr_length s)))"

abbreviation total_npages :: "template_range list \<Rightarrow> nat" where
  "total_npages rs \<equiv> sum_list (map npages rs)"

text \<open>The range of a page and its position there, from its global index.\<close>

fun home :: "template_range list \<Rightarrow> nat \<Rightarrow> (template_range \<times> nat) option" where
  "home [] i = None"
| "home (r # rs) i = (if i < npages r then Some (r, i) else home rs (i - npages r))"

definition ranges_ok :: "template_range list \<Rightarrow> bool" where
  "ranges_ok rs \<longleftrightarrow> (\<forall>r \<in> set rs. range_wf r) \<and> ranges_disjoint rs \<and> total_npages rs < 2 ^ 64"

definition backend_wf :: "restore_backend \<Rightarrow> bool" where
  "backend_wf b \<longleftrightarrow> ranges_ok (rb_ranges b) \<and> numbered 0 (rb_ranges b) \<and>
     length (rb_pages b) = total_npages (rb_ranges b) \<and>
     (\<forall>i r p. home (rb_ranges b) i = Some (r, p) \<longrightarrow>
        unat (rp_backend_offset (rb_pages b ! i)) = unat (tr_file_offset r) + p * unat (tr_page_size r))"

lemma div_ceil_exact: "0 < b \<Longrightarrow> (a * b + b - 1) div b = (a::nat)"
proof -
  assume b: "0 < b"
  then have "a * b + b - 1 = a * b + (b - 1)" by simp
  with b show ?thesis by (simp only: div_mult_self3) simp
qed

lemma range_wf_ps:
  assumes "range_wf r"
  shows "tr_page_size r \<noteq> 0" and "0 < unat (tr_page_size r)"
    and "unat (tr_length r) = npages r * unat (tr_page_size r)"
proof -
  show "0 < unat (tr_page_size r)" using assms by (auto simp: range_wf_def unat_pow2)
  then show "tr_page_size r \<noteq> 0" by auto
  show "unat (tr_length r) = npages r * unat (tr_page_size r)"
    using assms by (auto simp: range_wf_def npages_def)
qed

lemma range_page_count_wf:
  assumes "range_wf r"
  shows "range_page_count r = Inr (word_of_nat (npages r))" and "unat (word_of_nat (npages r) :: u64) = npages r"
proof -
  note ps = range_wf_ps [OF assms]
  have c: "unat (div_ceil (tr_length r) (tr_page_size r)) = npages r"
    using div_ceil_exact [OF ps(2), of "npages r"] unfolding unat_div_ceil [OF ps(1)] ps(3) .
  have eq: "div_ceil (tr_length r) (tr_page_size r) = word_of_nat (npages r)" unfolding c [symmetric] by simp
  with ps show "range_page_count r = Inr (word_of_nat (npages r))"
    by (simp add: range_page_count_def div_ceil_w_def)
  show "unat (word_of_nat (npages r) :: u64) = npages r"
    using c unfolding eq .
qed

lemma home_total: "i < total_npages rs \<Longrightarrow> \<exists>r p. home rs i = Some (r, p)"
  by (induction rs arbitrary: i) auto

lemma home_Some:
  "home rs i = Some (r, p) \<Longrightarrow> r \<in> set rs \<and> p < npages r \<and> i < total_npages rs"
  by (induction rs arbitrary: i) (auto split: if_splits, fastforce+)

lemma home_first:
  "numbered n rs \<Longrightarrow> home rs i = Some (r, p) \<Longrightarrow> unat (tr_first_page_index r) + p = n + i"
proof (induction rs arbitrary: n i)
  case (Cons s rs)
  show ?case
  proof (cases "i < npages s")
    case False
    with Cons.prems Cons.IH [of "n + npages s" "i - npages s"] show ?thesis by simp
  qed (use Cons.prems in auto)
qed simp

lemma home_index:
  "numbered n rs \<Longrightarrow> r \<in> set rs \<Longrightarrow> p < npages r \<Longrightarrow>
     n \<le> unat (tr_first_page_index r) \<and> home rs (unat (tr_first_page_index r) + p - n) = Some (r, p)"
proof (induction rs arbitrary: n)
  case (Cons s rs)
  show ?case
  proof (cases "r = s")
    case True
    with Cons.prems show ?thesis by simp
  next
    case False
    with Cons.prems Cons.IH [of "n + npages s"] have "n + npages s \<le> unat (tr_first_page_index r)"
      and "home rs (unat (tr_first_page_index r) + p - (n + npages s)) = Some (r, p)" by auto
    moreover from this(1) have "\<not> unat (tr_first_page_index r) + p - n < npages s" by arith
    ultimately show ?thesis by simp
  qed
qed simp

lemma backend_home:
  assumes "backend_wf b" and "home (rb_ranges b) i = Some (r, p)"
  shows "range_wf r" and "r \<in> set (rb_ranges b)" and "p < npages r" and "i < length (rb_pages b)"
    and "unat (tr_first_page_index r) + p = i" and "length (rb_pages b) < 2 ^ 64"
    and "unat (rp_backend_offset (rb_pages b ! i)) = unat (tr_file_offset r) + p * unat (tr_page_size r)"
  using assms home_Some [OF assms(2)] home_first [of 0 "rb_ranges b" i r p]
  by (auto simp: backend_wf_def ranges_ok_def)

lemma range_first_room:
  assumes "backend_wf b" and "r \<in> set (rb_ranges b)"
  shows "unat (tr_first_page_index r) + npages r \<le> length (rb_pages b)"
proof (cases "npages r")
  case 0
  have "numbered n rs \<Longrightarrow> r \<in> set rs \<Longrightarrow> unat (tr_first_page_index r) \<le> n + total_npages rs" for n rs
  proof (induction rs arbitrary: n)
    case (Cons s rs)
    show ?case
    proof (cases "r = s")
      case False
      then have "unat (tr_first_page_index r) \<le> n + npages s + total_npages rs"
        using Cons.prems by (intro Cons.IH) simp_all
      then show ?thesis by simp
    qed (use Cons.prems in simp)
  qed simp
  from this [of 0 "rb_ranges b"] assms 0 show ?thesis by (simp add: backend_wf_def)
next
  case (Suc p)
  with assms have "home (rb_ranges b) (unat (tr_first_page_index r) + p) = Some (r, p)"
    using home_index [of 0 "rb_ranges b" r p] by (simp add: backend_wf_def)
  from backend_home(4,5) [OF assms(1) this] Suc show ?thesis by simp
qed

section \<open>Construction\<close>

lemma range_wf_first [simp]:
  "range_wf (r\<lparr>tr_first_page_index := n\<rparr>) = range_wf r" "npages (r\<lparr>tr_first_page_index := n\<rparr>) = npages r"
  by (simp_all add: range_wf_def npages_def)

lemma number_ranges_spec:
  assumes "\<forall>r \<in> set rs. range_wf r" and "unat first + total_npages rs < 2 ^ 64"
  shows "\<exists>rs' pages. number_ranges first rs = Inr (rs', pages) \<and>
    map (\<lambda>r. r\<lparr>tr_first_page_index := 0\<rparr>) rs' = map (\<lambda>r. r\<lparr>tr_first_page_index := 0\<rparr>) rs \<and>
    numbered (unat first) rs' \<and> length pages = total_npages rs \<and>
    (\<forall>i r p. home rs' i = Some (r, p) \<longrightarrow> rp_state (pages ! i) = STATE_UNLOADED \<and>
       unat (rp_backend_offset (pages ! i)) = unat (tr_file_offset r) + p * unat (tr_page_size r))"
  using assms
proof (induction rs arbitrary: first)
  case Nil
  then show ?case by simp
next
  case (Cons r rs)
  have wf: "range_wf r" using Cons.prems by simp
  note n = range_page_count_wf [OF wf] and ps = range_wf_ps [OF wf]
  have first: "unat (first + word_of_nat (npages r)) = unat first + npages r"
    using Cons.prems(2) n(2) by (subst unat_add_nowrap) simp_all
  from Cons.IH [of "first + word_of_nat (npages r)"] Cons.prems first obtain rs' pages where
    IH: "number_ranges (first + word_of_nat (npages r)) rs = Inr (rs', pages)"
    "map (\<lambda>r. r\<lparr>tr_first_page_index := 0\<rparr>) rs' = map (\<lambda>r. r\<lparr>tr_first_page_index := 0\<rparr>) rs"
    "numbered (unat first + npages r) rs'" "length pages = total_npages rs"
    "\<forall>i r p. home rs' i = Some (r, p) \<longrightarrow> rp_state (pages ! i) = STATE_UNLOADED \<and>
       unat (rp_backend_offset (pages ! i)) = unat (tr_file_offset r) + p * unat (tr_page_size r)" by auto
  let ?here = "map (\<lambda>page. page_meta_new (tr_file_offset r + page * tr_page_size r)) (range_w 0 (word_of_nat (npages r)))"
  have here: "length ?here = npages r" using n(2) by simp
  have off: "unat (rp_backend_offset (?here ! i)) = unat (tr_file_offset r) + i * unat (tr_page_size r)"
    and st: "rp_state (?here ! i) = STATE_UNLOADED" if "i < npages r" for i
  proof -
    have "i * unat (tr_page_size r) \<le> unat (tr_length r)" using that ps(3) by simp
    moreover have i: "unat (word_of_nat i :: u64) = i"
      using that n(2) by (metis unat_word_of_nat_less)
    moreover have "unat (tr_file_offset r) + unat (tr_length r) < 2 ^ 64" using wf by (simp add: range_wf_def)
    ultimately have "unat (tr_file_offset r + word_of_nat i * tr_page_size r) =
        unat (tr_file_offset r) + i * unat (tr_page_size r)"
      by (subst unat_add_nowrap) (simp_all add: unat_mult_nowrap)
    with that n(2) show "unat (rp_backend_offset (?here ! i)) = unat (tr_file_offset r) + i * unat (tr_page_size r)"
      by (simp add: page_meta_new_def)
    show "rp_state (?here ! i) = STATE_UNLOADED" using that n(2) by (simp add: page_meta_new_def)
  qed
  have "number_ranges first (r # rs) = Inr (r\<lparr>tr_first_page_index := first\<rparr> # rs', ?here @ pages)"
    using IH(1) n(1) by (simp add: Let_def)
  then show ?case using IH(2-5) here off st
    by (auto simp: nth_append split: if_splits)
qed

lemma ranges_ok_first: "ranges_ok (map (\<lambda>r. r\<lparr>tr_first_page_index := n\<rparr>) rs) = ranges_ok rs"
proof -
  have "ranges_disjoint (map (\<lambda>r. r\<lparr>tr_first_page_index := n\<rparr>) rs) = ranges_disjoint rs"
    by (induction rs) auto
  then show ?thesis by (simp add: ranges_ok_def comp_def)
qed

lemma restore_new_spec:
  assumes "ranges_ok rs"
  shows "\<exists>b. restore_new source rs = Inr b \<and> backend_wf b \<and> rb_source b = source \<and>
    map (\<lambda>r. r\<lparr>tr_first_page_index := 0\<rparr>) (rb_ranges b) = map (\<lambda>r. r\<lparr>tr_first_page_index := 0\<rparr>) rs \<and>
    (\<forall>pg \<in> set (rb_pages b). rp_state pg = STATE_UNLOADED)"
proof -
  from assms number_ranges_spec [of rs 0] obtain rs' pages where
    N: "number_ranges 0 rs = Inr (rs', pages)"
    "map (\<lambda>r. r\<lparr>tr_first_page_index := 0\<rparr>) rs' = map (\<lambda>r. r\<lparr>tr_first_page_index := 0\<rparr>) rs"
    "numbered 0 rs'" "length pages = total_npages rs"
    "\<forall>i r p. home rs' i = Some (r, p) \<longrightarrow> rp_state (pages ! i) = STATE_UNLOADED \<and>
       unat (rp_backend_offset (pages ! i)) = unat (tr_file_offset r) + p * unat (tr_page_size r)"
    by (auto simp: ranges_ok_def)
  have ok: "ranges_ok rs'" using assms N(2) ranges_ok_first by metis
  have tot: "total_npages rs' = total_npages rs"
    using arg_cong [OF N(2), of "\<lambda>rs. sum_list (map npages rs)"] by (simp add: comp_def)
  have "rp_state (pages ! i) = STATE_UNLOADED" if "i < length pages" for i
    using home_total [of i rs'] that N(4,5) tot by auto
  then show ?thesis using N ok tot
    by (auto simp: restore_new_def backend_wf_def in_set_conv_nth)
qed

text \<open>
  Building a restore backend over well-formed ranges never panics and establishes the
  backend invariant: pages are numbered contiguously over the ranges, each page carries the file
  offset its range prescribes, and every page is unloaded.
\<close>

theorem restore_new_wf:
  assumes "ranges_ok rs"
  shows "\<exists>b. restore_new source rs = Inr b \<and> backend_wf b \<and> rb_source b = source \<and>
    map (\<lambda>r. r\<lparr>tr_first_page_index := 0\<rparr>) (rb_ranges b) = map (\<lambda>r. r\<lparr>tr_first_page_index := 0\<rparr>) rs \<and>
    (\<forall>pg \<in> set (rb_pages b). rp_state pg = STATE_UNLOADED)"
  using assms by (rule restore_new_spec)

section \<open>Locating a fault\<close>

lemma align_range:
  fixes a h l p :: nat
  assumes "0 < p" and "h mod p = 0" and "l mod p = 0"
  shows "h \<le> a - a mod p \<longleftrightarrow> h \<le> a" and "a - a mod p < h + l \<longleftrightarrow> a < h + l"
    and "h \<le> a \<Longrightarrow> a - a mod p = h + (a - h) div p * p"
proof -
  obtain H L where h: "h = H * p" and l: "l = L * p" using assms by (metis mod_0_imp_dvd dvd_div_mult_self)
  have a: "a - a mod p = (a div p) * p" by (simp add: minus_mod_eq_div_mult)
  have div_le: "H * p \<le> a \<longleftrightarrow> H \<le> a div p" for H
    using assms(1) by (simp add: less_eq_div_iff_mult_less_eq)
  show "h \<le> a - a mod p \<longleftrightarrow> h \<le> a" unfolding a h div_le using assms(1) by simp
  have "(H + L) * p \<le> a \<longleftrightarrow> (H + L) * p \<le> (a div p) * p" unfolding div_le using assms(1) by simp
  then show "a - a mod p < h + l \<longleftrightarrow> a < h + l" unfolding a h l by (simp add: add_mult_distrib flip: not_le)
  assume "h \<le> a"
  then obtain d where d: "a = h + d" using le_Suc_ex by blast
  then show "a - a mod p = h + (a - h) div p * p"
    using assms(1) unfolding a h by (simp add: add_mult_distrib)
qed

definition in_range :: "template_range \<Rightarrow> u64 \<Rightarrow> bool" where
  "in_range r a \<longleftrightarrow> unat (tr_host_addr r) \<le> unat a \<and> unat a < unat (tr_host_addr r) + unat (tr_length r)"

lemma range_locate_wf:
  assumes "range_wf r"
  shows "\<not> in_range r a \<Longrightarrow> range_locate r a = Inr None"
    and "in_range r a \<Longrightarrow> \<exists>p < npages r. unat a div unat (tr_page_size r) =
        (unat (tr_host_addr r) + p * unat (tr_page_size r)) div unat (tr_page_size r) \<and>
      range_locate r a = Inr (Some \<lparr>tf_page_addr = tr_host_addr r + word_of_nat p * tr_page_size r,
        tf_page_size = tr_page_size r, tf_page_index = tr_first_page_index r + word_of_nat p,
        tf_backend_offset = tr_file_offset r + word_of_nat p * tr_page_size r\<rparr>)"
proof -
  let ?p = "unat (tr_page_size r)" and ?h = "unat (tr_host_addr r)" and ?l = "unat (tr_length r)"
  let ?pa = "a AND NOT (tr_page_size r - 1)"
  obtain k where k: "k < 64" "tr_page_size r = 2 ^ k" using assms by (auto simp: range_wf_def)
  note ps = range_wf_ps [OF assms]
  have pa: "unat ?pa = unat a - unat a mod ?p"
    using unat_align_down [of a k] k by (simp add: unat_pow2)
  have al: "?h mod ?p = 0" "?l mod ?p = 0" and fits: "?h + ?l < 2 ^ 64" using assms by (simp_all add: range_wf_def)
  note ar = align_range [OF ps(2) al, of "unat a"]
  have hl: "unat (tr_host_addr r + tr_length r) = ?h + ?l" using fits by (intro unat_add_nowrap) simp
  have cond: "\<not> (?pa < tr_host_addr r \<or> ?pa \<ge> tr_host_addr r + tr_length r) \<longleftrightarrow> in_range r a"
    by (simp add: word_less_nat_alt word_le_nat_alt pa hl in_range_def not_less not_le ar(1,2))
  show "range_locate r a = Inr None" if "\<not> in_range r a"
    using that cond by (simp add: range_locate_def Let_def)
  assume ins: "in_range r a"
  define p where "p = (unat a - ?h) div ?p"
  have "unat a - ?h < npages r * ?p" using ins ps(3) by (auto simp: in_range_def)
  then have pn: "p < npages r" unfolding p_def using ps(2) by (simp add: less_mult_imp_div_less)
  have pap: "unat ?pa = ?h + p * ?p" using ar(3) ins pa by (simp add: in_range_def p_def)
  have "p * ?p \<le> ?l" using pn ps(3) by simp
  then have w: "unat (word_of_nat p * tr_page_size r) = p * ?p"
    using fits pn range_page_count_wf(2) [OF assms]
    by (subst unat_mult_nowrap) (simp_all add: unat_word_of_nat_less [of p "word_of_nat (npages r)"])
  have "unat (tr_host_addr r + word_of_nat p * tr_page_size r) = ?h + p * ?p"
    using w fits \<open>p * ?p \<le> ?l\<close> by (subst unat_add_nowrap) simp_all
  with pap have pa_eq: "?pa = tr_host_addr r + word_of_nat p * tr_page_size r" by (simp add: word_unat_eq_iff)
  have off: "?pa - tr_host_addr r = word_of_nat p * tr_page_size r" by (simp add: pa_eq)
  have "(word_of_nat p * tr_page_size r) div tr_page_size r = (word_of_nat p :: u64)"
    using w ps(2) pn range_page_count_wf(2) [OF assms]
    by (simp add: word_unat_eq_iff unat_div_word unat_word_of_nat_less [of p "word_of_nat (npages r)"])
  then have "range_locate r a = Inr (Some \<lparr>tf_page_addr = tr_host_addr r + word_of_nat p * tr_page_size r,
        tf_page_size = tr_page_size r, tf_page_index = tr_first_page_index r + word_of_nat p,
        tf_backend_offset = tr_file_offset r + word_of_nat p * tr_page_size r\<rparr>)"
    using cond ins ps(1) off unfolding range_locate_def Let_def div_w_def
    by (simp add: pa_eq)
  moreover have "unat a div ?p = (?h + p * ?p) div ?p"
    using pap pa ps(2) by (metis minus_mod_eq_div_mult nonzero_mult_div_cancel_right not_less0)
  ultimately show "\<exists>p < npages r. unat a div ?p = (?h + p * ?p) div ?p \<and>
      range_locate r a = Inr (Some \<lparr>tf_page_addr = tr_host_addr r + word_of_nat p * tr_page_size r,
        tf_page_size = tr_page_size r, tf_page_index = tr_first_page_index r + word_of_nat p,
        tf_backend_offset = tr_file_offset r + word_of_nat p * tr_page_size r\<rparr>)"
    using pn by blast
qed

definition addr_of :: "template_range \<Rightarrow> nat \<Rightarrow> u64" where
  "addr_of r p = tr_host_addr r + word_of_nat p * tr_page_size r"

lemma unat_page_offset:
  assumes "range_wf r" and "p \<le> npages r"
  shows "unat (word_of_nat p * tr_page_size r :: u64) = p * unat (tr_page_size r)"
    and "p * unat (tr_page_size r) \<le> unat (tr_length r)" and "unat (word_of_nat p :: u64) = p"
proof -
  have "p < 2 ^ 64" using assms(2) range_page_count_wf(2) [OF assms(1)] unat_lt [of "word_of_nat (npages r) :: u64"]
    by simp
  then show p: "unat (word_of_nat p :: u64) = p" by (simp add: unat_of_nat)
  show le: "p * unat (tr_page_size r) \<le> unat (tr_length r)" using assms range_wf_ps(3) [OF assms(1)] by simp
  show "unat (word_of_nat p * tr_page_size r :: u64) = p * unat (tr_page_size r)"
    using le_less_trans [OF le unat_lt] p by (simp add: unat_mult_nowrap)
qed

lemma unat_addr_of:
  assumes "range_wf r" and "p \<le> npages r"
  shows "unat (addr_of r p) = unat (tr_host_addr r) + p * unat (tr_page_size r)"
  using unat_page_offset [OF assms] assms(1) by (simp add: addr_of_def range_wf_def unat_add_nowrap)

lemma pages_apart_in:
  assumes "range_wf r" and "p < npages r" and "q < npages r" and "p \<noteq> q"
  shows "disjoint_ranges (addr_of r p) (unat (tr_page_size r)) (addr_of r q) (unat (tr_page_size r))"
proof -
  have "p + 1 \<le> q \<or> q + 1 \<le> p" using assms(4) by arith
  then have "(p + 1) * unat (tr_page_size r) \<le> q * unat (tr_page_size r) \<or>
      (q + 1) * unat (tr_page_size r) \<le> p * unat (tr_page_size r)"
    by (meson mult_le_mono1)
  then show ?thesis using assms by (auto simp: disjoint_ranges_def unat_addr_of)
qed

lemma page_in_range:
  assumes "range_wf r" and "p < npages r"
  shows "range_within (addr_of r p) (unat (tr_page_size r)) (tr_host_addr r) (unat (tr_length r))"
proof -
  have "(p + 1) * unat (tr_page_size r) \<le> unat (tr_length r)"
    unfolding range_wf_ps(3) [OF assms(1)] using assms(2) by (intro mult_le_mono1) simp
  then show ?thesis using assms by (simp add: range_within_def unat_addr_of)
qed

lemma home_apart:
  assumes "\<forall>r \<in> set rs. range_wf r" and "ranges_disjoint rs"
    and "home rs i = Some (r, p)" and "home rs j = Some (s, q)" and "i \<noteq> j"
  shows "disjoint_ranges (addr_of r p) (unat (tr_page_size r)) (addr_of s q) (unat (tr_page_size s))"
  using assms
proof (induction rs arbitrary: i j r p s q)
  case (Cons t rs)
  have cross: "disjoint_ranges (addr_of t a) (unat (tr_page_size t)) (addr_of u c) (unat (tr_page_size u))"
    if "a < npages t" and "home rs l = Some (u, c)" for a u c l
  proof -
    from home_Some [OF that(2)] have u: "u \<in> set rs" "c < npages u" by simp_all
    with Cons.prems(2) have "disjoint_ranges (tr_host_addr t) (unat (tr_length t)) (tr_host_addr u) (unat (tr_length u))"
      by simp
    with page_in_range [of t a] page_in_range [of u c] that(1) u Cons.prems(1) show ?thesis
      by (auto simp: disjoint_ranges_def range_within_def)
  qed
  show ?case
  proof (cases "i < npages t"; cases "j < npages t")
    assume "i < npages t" "j < npages t"
    with Cons.prems show ?thesis by (auto intro: pages_apart_in)
  next
    assume "i < npages t" "\<not> j < npages t"
    with Cons.prems cross [of i "j - npages t" s q] show ?thesis by simp
  next
    assume "\<not> i < npages t" "j < npages t"
    with Cons.prems cross [of j "i - npages t" r p] show ?thesis
      by (simp add: disjoint_ranges_sym [of "addr_of r p"])
  next
    assume "\<not> i < npages t" "\<not> j < npages t"
    with Cons.prems Cons.IH [of "i - npages t" r p "j - npages t" s q] show ?thesis by auto
  qed
qed simp

text \<open>The page with a given index, as the fault that concerns it.\<close>

definition fault_of :: "restore_backend \<Rightarrow> nat \<Rightarrow> template_fault" where
  "fault_of b i =
     (case home (rb_ranges b) i of
        None \<Rightarrow> \<lparr>tf_page_addr = 0, tf_page_size = 0, tf_page_index = 0, tf_backend_offset = 0\<rparr>
      | Some (r, p) \<Rightarrow> \<lparr>tf_page_addr = addr_of r p, tf_page_size = tr_page_size r,
          tf_page_index = word_of_nat i, tf_backend_offset = rp_backend_offset (rb_pages b ! i)\<rparr>)"

abbreviation pg_addr :: "restore_backend \<Rightarrow> nat \<Rightarrow> u64" where
  "pg_addr b i \<equiv> tf_page_addr (fault_of b i)"

abbreviation pg_size :: "restore_backend \<Rightarrow> nat \<Rightarrow> nat" where
  "pg_size b i \<equiv> unat (tf_page_size (fault_of b i))"

lemma backend_page:
  assumes "backend_wf b" and "i < length (rb_pages b)"
  obtains r p where "home (rb_ranges b) i = Some (r, p)"
  using home_total [of i "rb_ranges b"] assms by (auto simp: backend_wf_def)

lemma pages_apart:
  assumes "backend_wf b" and "i < length (rb_pages b)" and "j < length (rb_pages b)" and "i \<noteq> j"
  shows "disjoint_ranges (pg_addr b i) (pg_size b i) (pg_addr b j) (pg_size b j)"
proof -
  obtain r p where r: "home (rb_ranges b) i = Some (r, p)" by (rule backend_page [OF assms(1,2)])
  obtain s q where s: "home (rb_ranges b) j = Some (s, q)" by (rule backend_page [OF assms(1,3)])
  from assms(1) have "\<forall>r \<in> set (rb_ranges b). range_wf r" "ranges_disjoint (rb_ranges b)"
    by (simp_all add: backend_wf_def ranges_ok_def)
  from home_apart [OF this r s assms(4)] r s show ?thesis by (simp add: fault_of_def)
qed

lemma locate_in_wf:
  assumes "\<forall>r \<in> set rs. range_wf r"
  shows "(\<forall>r \<in> set rs. \<not> in_range r a) \<and> locate_in rs a = Inr None \<or>
    (\<exists>r \<in> set rs. \<exists>p < npages r. unat a div unat (tr_page_size r) = unat (addr_of r p) div unat (tr_page_size r) \<and>
      in_range r a \<and> locate_in rs a = Inr (Some \<lparr>tf_page_addr = addr_of r p, tf_page_size = tr_page_size r,
        tf_page_index = tr_first_page_index r + word_of_nat p,
        tf_backend_offset = tr_file_offset r + word_of_nat p * tr_page_size r\<rparr>))"
  using assms
proof (induction rs)
  case (Cons r rs)
  have wf: "range_wf r" using Cons.prems by simp
  show ?case
  proof (cases "in_range r a")
    case False
    with range_locate_wf(1) [OF wf] Cons show ?thesis by auto
  next
    case True
    from range_locate_wf(2) [OF wf True] obtain p where p: "p < npages r"
      "unat a div unat (tr_page_size r) = (unat (tr_host_addr r) + p * unat (tr_page_size r)) div unat (tr_page_size r)"
      "range_locate r a = Inr (Some \<lparr>tf_page_addr = addr_of r p, tf_page_size = tr_page_size r,
        tf_page_index = tr_first_page_index r + word_of_nat p,
        tf_backend_offset = tr_file_offset r + word_of_nat p * tr_page_size r\<rparr>)"
      unfolding addr_of_def by blast
    have "unat (addr_of r p) = unat (tr_host_addr r) + p * unat (tr_page_size r)"
      using unat_addr_of [OF wf] p(1) by simp
    with p True show ?thesis by (intro disjI2 bexI [of _ r] exI [of _ p]) simp_all
  qed
qed simp

lemma locate_fault_cases:
  assumes wf: "backend_wf b"
  obtains (none) "locate_fault b a = Inr None" and "\<forall>r \<in> set (rb_ranges b). \<not> in_range r a"
  | (page) i where "locate_fault b a = Inr (Some (fault_of b i))" and "i < length (rb_pages b)"
      and "unat (pg_addr b i) \<le> unat a" and "unat a < unat (pg_addr b i) + pg_size b i"
proof -
  from wf have wfs: "\<forall>r \<in> set (rb_ranges b). range_wf r" and num: "numbered 0 (rb_ranges b)"
    by (simp_all add: backend_wf_def ranges_ok_def)
  from locate_in_wf [OF wfs, of a] show thesis
  proof (elim disjE bexE exE conjE)
    fix r p assume r: "r \<in> set (rb_ranges b)" "p < npages r" "in_range r a"
      and dv: "unat a div unat (tr_page_size r) = unat (addr_of r p) div unat (tr_page_size r)"
      and loc: "locate_in (rb_ranges b) a = Inr (Some \<lparr>tf_page_addr = addr_of r p, tf_page_size = tr_page_size r,
        tf_page_index = tr_first_page_index r + word_of_nat p,
        tf_backend_offset = tr_file_offset r + word_of_nat p * tr_page_size r\<rparr>)"
    let ?i = "unat (tr_first_page_index r) + p" and ?s = "unat (tr_page_size r)"
    have h: "home (rb_ranges b) ?i = Some (r, p)" using home_index [OF num r(1,2)] by simp
    note H = backend_home [OF wf h] and P = unat_page_offset [OF H(1), of p]
    have idx: "tr_first_page_index r + word_of_nat p = word_of_nat ?i" by simp
    have "unat (tr_file_offset r + word_of_nat p * tr_page_size r) = unat (tr_file_offset r) + p * ?s"
      using P r(2) H(1) by (subst unat_add_nowrap) (auto simp: range_wf_def)
    then have off: "tr_file_offset r + word_of_nat p * tr_page_size r = rp_backend_offset (rb_pages b ! ?i)"
      using H(7) by (simp add: word_unat_eq_iff)
    have al: "unat (addr_of r p) mod ?s = 0"
      using unat_addr_of [OF H(1), of p] r(2) H(1) by (simp add: range_wf_def)
    then have ad: "unat (addr_of r p) = unat a div ?s * ?s" using dv by (metis add.right_neutral div_mult_mod_eq)
    have "unat a = unat a div ?s * ?s + unat a mod ?s" by simp
    moreover have "unat a mod ?s < ?s" using range_wf_ps(2) [OF H(1)] by simp
    ultimately have "unat (addr_of r p) \<le> unat a" and "unat a < unat (addr_of r p) + ?s" using ad by linarith+
    then show thesis
      by (intro page [of ?i]) (use loc h off H(4) in \<open>simp_all add: locate_fault_def fault_of_def del: of_nat_add\<close>, simp)
  qed (use none in \<open>simp add: locate_fault_def\<close>)
qed

text \<open>
  The location of a fault is exact. In a well-formed backend a fault address inside some
  range is mapped to the one page that contains it, with the page's own address, size, index and
  backend offset (so the consistency assertion before each read holds); an address outside all
  ranges is not located, and the search never panics.
\<close>

theorem locate_fault_exact:
  assumes "backend_wf b"
  shows "(\<exists>r \<in> set (rb_ranges b). in_range r a) \<and>
      (\<exists>i < length (rb_pages b). locate_fault b a = Inr (Some (fault_of b i)) \<and>
         unat (pg_addr b i) \<le> unat a \<and> unat a < unat (pg_addr b i) + pg_size b i \<and>
         tf_backend_offset (fault_of b i) = rp_backend_offset (rb_pages b ! unat (tf_page_index (fault_of b i)))) \<or>
    (\<forall>r \<in> set (rb_ranges b). \<not> in_range r a) \<and> locate_fault b a = Inr None"
  using assms
proof (cases rule: locate_fault_cases [where a = a])
  case none
  then show ?thesis by blast
next
  case (page i)
  obtain r p where h: "home (rb_ranges b) i = Some (r, p)" by (rule backend_page [OF assms page(2)])
  note H = backend_home [OF assms h]
  have "in_range r a"
    using page(3,4) page_in_range [OF H(1,3)] h by (simp add: fault_of_def in_range_def range_within_def)
  moreover have "unat (tf_page_index (fault_of b i)) = i"
    using h H(4,6) by (simp add: fault_of_def unat_of_nat)
  moreover have "tf_backend_offset (fault_of b i) = rp_backend_offset (rb_pages b ! i)"
    using h by (simp add: fault_of_def)
  ultimately show ?thesis using page H(2) by metis
qed

section \<open>Copy-on-write chunks\<close>

text \<open>The number of pages of a chunk in a range, and the first page of the chunk of a page.\<close>

definition chunk_pages :: "template_range \<Rightarrow> nat" where
  "chunk_pages r = unat (cow_chunk_size (tr_page_size r)) div unat (tr_page_size r)"

definition chunk_first :: "template_range \<Rightarrow> nat \<Rightarrow> nat" where
  "chunk_first r p = p div chunk_pages r * chunk_pages r"

definition chunk_count :: "template_range \<Rightarrow> nat \<Rightarrow> nat" where
  "chunk_count r p = min (chunk_pages r) (npages r - chunk_first r p)"

lemma chunk_size_pages:
  assumes "range_wf r"
  shows "unat (cow_chunk_size (tr_page_size r)) = chunk_pages r * unat (tr_page_size r)" and "0 < chunk_pages r"
proof -
  obtain k where k: "k < 64" "tr_page_size r = 2 ^ k" using assms by (auto simp: range_wf_def)
  have d: "unat DEFAULT_COW_CHUNK_SIZE = 2 ^ 20" by (simp add: DEFAULT_COW_CHUNK_SIZE_def)
  have ps: "unat (tr_page_size r) = 2 ^ k" using k by (simp add: unat_pow2)
  have "2 ^ k dvd unat (cow_chunk_size (tr_page_size r))"
  proof (cases "k < 20")
    case True
    then have "\<not> tr_page_size r \<ge> DEFAULT_COW_CHUNK_SIZE"
      using d ps power_strict_increasing [of k 20 "2::nat"] by (simp add: word_le_nat_alt)
    then show ?thesis using d True le_imp_power_dvd [of k 20 "2::nat"] by (simp add: cow_chunk_size_def)
  next
    case False
    then have "tr_page_size r \<ge> DEFAULT_COW_CHUNK_SIZE"
      using d ps power_increasing [of 20 k "2::nat"] by (simp add: word_le_nat_alt)
    then show ?thesis using ps by (simp add: cow_chunk_size_def)
  qed
  then show eq: "unat (cow_chunk_size (tr_page_size r)) = chunk_pages r * unat (tr_page_size r)"
    by (simp add: chunk_pages_def ps)
  have "0 < unat (cow_chunk_size (tr_page_size r))"
    using d ps by (auto simp: cow_chunk_size_def)
  with eq show "0 < chunk_pages r" by simp
qed

lemma chunk_bounds:
  assumes "range_wf r" and "p < npages r"
  shows "chunk_first r p \<le> p" and "p < chunk_first r p + chunk_count r p"
    and "chunk_first r p + chunk_count r p \<le> npages r"
proof -
  note m = chunk_size_pages(2) [OF assms(1)]
  show "chunk_first r p \<le> p" by (simp add: chunk_first_def)
  have "p < chunk_first r p + chunk_pages r"
    unfolding chunk_first_def using mod_less_divisor [OF m, of p] div_mult_mod_eq [of p "chunk_pages r"] by linarith
  with assms(2) show "p < chunk_first r p + chunk_count r p" by (auto simp: chunk_count_def min_def)
  with assms(2) show "chunk_first r p + chunk_count r p \<le> npages r"
    using \<open>chunk_first r p \<le> p\<close> by (auto simp: chunk_count_def min_def)
qed

lemma chunk_same:
  assumes "range_wf r" and "chunk_first r p \<le> q" and "q < chunk_first r p + chunk_count r p"
  shows "chunk_first r q = chunk_first r p" and "chunk_count r q = chunk_count r p"
proof -
  note m = chunk_size_pages(2) [OF assms(1)]
  have "q div chunk_pages r = p div chunk_pages r"
    using assms(2,3) m by (intro div_nat_eqI) (auto simp: chunk_first_def chunk_count_def mult.commute)
  then show "chunk_first r q = chunk_first r p" by (simp add: chunk_first_def)
  then show "chunk_count r q = chunk_count r p" by (simp add: chunk_count_def)
qed

lemma find_page_range_home:
  assumes "\<forall>r \<in> set rs. range_wf r" and "numbered n rs" and "n + total_npages rs < 2 ^ 64"
    and "home rs i = Some (r, p)"
  shows "find_page_range rs (word_of_nat (n + i)) = Inr (Some r)"
  using assms
proof (induction rs arbitrary: n i)
  case (Cons s rs)
  have i: "n + i < 2 ^ 64" using home_Some [OF Cons.prems(4)] Cons.prems(3) by simp
  have u: "unat (word_of_nat (n + i) :: u64) = n + i" using i by (simp add: unat_of_nat del: of_nat_add)
  have s: "unat (tr_first_page_index s) = n" "range_wf s" using Cons.prems by simp_all
  note c = range_page_count_wf [OF s(2)]
  have e: "unat (tr_first_page_index s + word_of_nat (npages s)) = n + npages s"
    using Cons.prems(3) s c(2) by (subst unat_add_nowrap) simp_all
  have ge: "tr_first_page_index s \<le> word_of_nat (n + i)" using s u by (simp add: word_le_nat_alt)
  show ?case
  proof (cases "i < npages s")
    case True
    with ge c e u Cons.prems(4) show ?thesis by (simp add: word_less_nat_alt del: of_nat_add)
  next
    case False
    then have "find_page_range (s # rs) (word_of_nat (n + i)) = find_page_range rs (word_of_nat (n + i))"
      using ge c e u by (simp add: word_less_nat_alt del: of_nat_add)
    moreover have "n + npages s + (i - npages s) = n + i" using False by simp
    moreover have "find_page_range rs (word_of_nat (n + npages s + (i - npages s))) = Inr (Some r)"
      using Cons.prems False by (intro Cons.IH) simp_all
    ultimately show ?thesis by metis
  qed
qed simp

definition chunk_of :: "template_range \<Rightarrow> nat \<Rightarrow> cow_chunk" where
  "chunk_of r p =
     \<lparr>cc_start_addr = addr_of r (chunk_first r p),
      cc_len = word_of_nat (chunk_count r p) * tr_page_size r,
      cc_first_page_index = tr_first_page_index r + word_of_nat (chunk_first r p),
      cc_page_count = word_of_nat (chunk_count r p), cc_page_size = tr_page_size r\<rparr>"

lemma cow_chunk_eq:
  assumes wf: "backend_wf b" and h: "home (rb_ranges b) i = Some (r, p)"
  shows "cow_chunk_for_fault b (fault_of b i) = Inr (Some (chunk_of r p))"
proof -
  note H = backend_home [OF wf h]
  let ?s = "unat (tr_page_size r)" and ?c = "chunk_first r p" and ?n = "chunk_count r p"
  note ps = range_wf_ps [OF H(1)] and cs = chunk_size_pages [OF H(1)] and cb = chunk_bounds [OF H(1,3)]
  from wf have rs: "\<forall>r \<in> set (rb_ranges b). range_wf r" "numbered 0 (rb_ranges b)" "0 + total_npages (rb_ranges b) < 2 ^ 64"
    by (simp_all add: backend_wf_def ranges_ok_def)
  have find: "find_page_range (rb_ranges b) (word_of_nat i) = Inr (Some r)"
    using find_page_range_home [OF rs h] by simp
  have diff: "word_of_nat i - tr_first_page_index r = word_of_nat p" unfolding H(5) [symmetric] by simp
  note offp = unat_page_offset [OF H(1), of p] and offc = unat_page_offset [OF H(1), of ?c]
    and offn = unat_page_offset [OF H(1), of ?n]
  have coff: "(word_of_nat p * tr_page_size r) div cow_chunk_size (tr_page_size r) * cow_chunk_size (tr_page_size r) =
      word_of_nat ?c * tr_page_size r"
  proof -
    let ?x = "word_of_nat p * tr_page_size r :: u64" and ?cs = "cow_chunk_size (tr_page_size r)"
    have "unat (?x div ?cs) * unat ?cs = p * ?s div (?s * chunk_pages r) * (chunk_pages r * ?s)"
      using offp(1) H(3) by (simp add: unat_div_word cs(1) mult.commute)
    also have "\<dots> = ?c * ?s" using ps(2) by (simp add: chunk_first_def div_mult2_eq)
    finally have e: "unat (?x div ?cs) * unat ?cs = ?c * ?s" .
    have "?c * ?s < 2 ^ 64" using offc(1) cb H(3) unat_lt [of "word_of_nat ?c * tr_page_size r :: u64"] by simp
    then have "unat (?x div ?cs * ?cs) = ?c * ?s" unfolding e [symmetric] by (intro unat_mult_nowrap) simp
    then show ?thesis using offc(1) cb H(3) by (simp only: word_unat_eq_iff)
  qed
  have len: "min (cow_chunk_size (tr_page_size r)) (tr_length r - word_of_nat ?c * tr_page_size r) =
      word_of_nat ?n * tr_page_size r"
  proof -
    have "word_of_nat ?c * tr_page_size r \<le> tr_length r"
      using offc cb H(3) by (simp add: word_le_nat_alt)
    then have "unat (tr_length r - word_of_nat ?c * tr_page_size r) = (npages r - ?c) * ?s"
      using offc(1) cb H(3) ps(3) by (simp add: unat_sub diff_mult_distrib)
    then have "unat (min (cow_chunk_size (tr_page_size r)) (tr_length r - word_of_nat ?c * tr_page_size r)) = ?n * ?s"
      using cs(1) ps(2) by (auto simp: min_def word_le_nat_alt chunk_count_def)
    then show ?thesis using offn(1) cb H(3) by (simp add: word_unat_eq_iff)
  qed
  have "word_of_nat ?c * tr_page_size r div tr_page_size r = (word_of_nat ?c :: u64)"
    using offc cb H(3) ps(2) by (simp add: word_unat_eq_iff unat_div_word)
  moreover have "div_ceil (word_of_nat ?n * tr_page_size r) (tr_page_size r) = (word_of_nat ?n :: u64)"
    using offn cb H(3) div_ceil_exact [OF ps(2), of ?n] ps(1) by (simp add: word_unat_eq_iff unat_div_ceil)
  ultimately show ?thesis
    using h find diff ps(1) unfolding cow_chunk_for_fault_def chunk_of_def
    by (simp add: fault_of_def Let_def coff len div_w_def div_ceil_w_def addr_of_def)
qed

lemma chunk_exact:
  assumes "backend_wf b" and "i < length (rb_pages b)"
  shows "\<exists>ch. cow_chunk_for_fault b (fault_of b i) = Inr (Some ch) \<and>
    (let first = unat (cc_first_page_index ch); count = unat (cc_page_count ch) in
      first \<le> i \<and> i < first + count \<and> first + count \<le> length (rb_pages b) \<and>
      cc_start_addr ch = pg_addr b first \<and> cc_page_size ch = tf_page_size (fault_of b i) \<and>
      unat (cc_len ch) = count * pg_size b i \<and>
      (\<forall>j. first \<le> j \<and> j < first + count \<longrightarrow>
         pg_size b j = pg_size b i \<and> unat (pg_addr b j) = unat (cc_start_addr ch) + (j - first) * pg_size b i \<and>
         cow_chunk_for_fault b (fault_of b j) = Inr (Some ch)))"
proof -
  obtain r p where h: "home (rb_ranges b) i = Some (r, p)" by (rule backend_page [OF assms])
  note H = backend_home [OF assms(1) h] and cb = chunk_bounds [OF backend_home(1,3) [OF assms(1) h]]
  let ?f = "unat (tr_first_page_index r)" and ?c = "chunk_first r p" and ?n = "chunk_count r p"
  have num: "numbered 0 (rb_ranges b)" using assms(1) by (simp add: backend_wf_def)
  have room: "?f + npages r \<le> length (rb_pages b)" by (rule range_first_room [OF assms(1) H(2)])
  have hj: "home (rb_ranges b) (?f + q) = Some (r, q)" if "q < npages r" for q
    using home_index [OF num H(2) that] by simp
  have chq: "chunk_of r q = chunk_of r p" if "?c \<le> q" "q < ?c + ?n" for q
    using chunk_same [OF H(1) that] by (simp add: chunk_of_def)
  have u: "unat (cc_first_page_index (chunk_of r p)) = ?f + ?c" "unat (cc_page_count (chunk_of r p)) = ?n"
    "unat (cc_len (chunk_of r p)) = ?n * unat (tr_page_size r)"
    using unat_page_offset [OF H(1), of ?c] unat_page_offset [OF H(1), of ?n] cb H(3,6) room
    by (simp_all add: chunk_of_def unat_add_nowrap)
  have pj: "fault_of b (?f + q) = \<lparr>tf_page_addr = addr_of r q, tf_page_size = tr_page_size r,
      tf_page_index = word_of_nat (?f + q), tf_backend_offset = rp_backend_offset (rb_pages b ! (?f + q))\<rparr>"
    if "q < npages r" for q
    using hj [OF that] by (simp add: fault_of_def)
  show ?thesis
  proof (intro exI [of _ "chunk_of r p"] conjI)
    show "cow_chunk_for_fault b (fault_of b i) = Inr (Some (chunk_of r p))" by (rule cow_chunk_eq [OF assms(1) h])
    have i: "i = ?f + p" using H(5) by simp
    have rest: "pg_size b j = pg_size b i \<and>
        unat (pg_addr b j) = unat (cc_start_addr (chunk_of r p)) + (j - (?f + ?c)) * pg_size b i \<and>
        cow_chunk_for_fault b (fault_of b j) = Inr (Some (chunk_of r p))"
      if "?f + ?c \<le> j" "j < ?f + ?c + ?n" for j
    proof -
      define q where "q = j - ?f"
      have q: "j = ?f + q" "?c \<le> q" "q < ?c + ?n" using that by (simp_all add: q_def)
      then have qn: "q < npages r" using cb by simp
      have "unat (addr_of r q) = unat (addr_of r ?c) + (q - ?c) * unat (tr_page_size r)"
        using unat_addr_of [OF H(1)] qn q cb H(3) by (simp add: diff_mult_distrib)
      then show ?thesis
        using cow_chunk_eq [OF assms(1) hj [OF qn]] chq [OF q(2,3)] pj [OF qn] pj [OF H(3)] q(1,2) i
        by (simp add: chunk_of_def [of r p])
    qed
    show "let first = unat (cc_first_page_index (chunk_of r p)); count = unat (cc_page_count (chunk_of r p)) in
      first \<le> i \<and> i < first + count \<and> first + count \<le> length (rb_pages b) \<and>
      cc_start_addr (chunk_of r p) = pg_addr b first \<and> cc_page_size (chunk_of r p) = tf_page_size (fault_of b i) \<and>
      unat (cc_len (chunk_of r p)) = count * pg_size b i \<and>
      (\<forall>j. first \<le> j \<and> j < first + count \<longrightarrow>
         pg_size b j = pg_size b i \<and> unat (pg_addr b j) = unat (cc_start_addr (chunk_of r p)) + (j - first) * pg_size b i \<and>
         cow_chunk_for_fault b (fault_of b j) = Inr (Some (chunk_of r p)))"
      unfolding Let_def u using cb room i pj [OF H(3)] pj [of ?c] rest H(3) by (simp add: chunk_of_def)
  qed
qed

text \<open>
  The copy-on-write chunk of a page. In a well-formed backend the chunk of every page is
  found; it consists of whole consecutive pages of the page's own range, starts at the address of
  its first page, is as long as its pages together, contains the page, and each of its pages has
  the same chunk, so the chunks partition the pages.
\<close>

theorem cow_chunk_exact:
  assumes "backend_wf b" and "i < length (rb_pages b)"
  shows "\<exists>ch. cow_chunk_for_fault b (fault_of b i) = Inr (Some ch) \<and>
    (let first = unat (cc_first_page_index ch); count = unat (cc_page_count ch) in
      first \<le> i \<and> i < first + count \<and> first + count \<le> length (rb_pages b) \<and>
      cc_start_addr ch = pg_addr b first \<and> cc_page_size ch = tf_page_size (fault_of b i) \<and>
      unat (cc_len ch) = count * pg_size b i \<and>
      (\<forall>j. first \<le> j \<and> j < first + count \<longrightarrow>
         pg_size b j = pg_size b i \<and> unat (pg_addr b j) = unat (cc_start_addr ch) + (j - first) * pg_size b i \<and>
         cow_chunk_for_fault b (fault_of b j) = Inr (Some ch)))"
  using assms by (rule chunk_exact)

end
