(* ===== verification/Restore_Handler.thy ===== *)
theory Restore_Handler
  imports Restore_Backend
begin

unbundle bit_operations_syntax

text \<open>
  The page-fault handler of the virtual machine monitor: the userfaultfd wrappers of
  \<^verbatim>\<open>src/uffd-cow-gpt/cloud-hypervisor/vmm/src/uffd.rs\<close> and the handler loop of
  \<^verbatim>\<open>template_memory.rs\<close> beside it. The handler thread owns the backend and its page
  metadata; they are part of its state, with the page buffer, the counters and the world.
\<close>

section \<open>The userfaultfd wrappers\<close>

definition UFFD_FEATURE_MISSING_HUGETLBFS :: u64 where "UFFD_FEATURE_MISSING_HUGETLBFS = push_bit 4 1"

definition UFFD_API_RANGE_IOCTLS_BASIC :: u64 where
  "UFFD_API_RANGE_IOCTLS_BASIC =
     push_bit (unat ioctl_bit_WAKE) 1 OR push_bit (unat ioctl_bit_COPY) 1 OR push_bit (unat ioctl_bit_WRITEPROTECT) 1"

definition ioctl_ioc :: "u64 \<Rightarrow> u64 \<Rightarrow> u64 \<Rightarrow> u64 \<Rightarrow> u64" where
  "ioctl_ioc dir typ nr sz = push_bit 30 dir OR push_bit 16 sz OR push_bit 8 typ OR nr"

definition uffd_create :: "'w kernel \<Rightarrow> u64 \<Rightarrow> 'w \<Rightarrow> (io_error, fd, 'w) run" where
  "uffd_create K required_features w =
     (case k_syscall K SYS_USERFAULTFD [SysInt (O_CLOEXEC OR O_NONBLOCK)] w of (fd, w) \<Rightarrow>
        if fd < 0
        then let err = Os (k_errno K w) in
          if io_kind err = KPermissionDenied
          then run_err (Custom (io_kind err) (display_io K err @
            ''; on-demand restore requires userfaultfd permissions that can handle '' @
            ''KVM/kernel-originated faults. Enable vm.unprivileged_userfaultfd=1 or run '' @
            ''cloud-hypervisor with CAP_SYS_PTRACE'')) w
          else run_err err w
        else run_bind (ioctl_io K fd UFFDIO_API
            (ArgApi \<lparr>ua_api = UFFD_API, ua_features = required_features, ua_ioctls = 0\<rparr>) w)
          (\<lambda>_. run_ret fd))"

definition uffd_register :: "'w kernel \<Rightarrow> fd \<Rightarrow> u64 \<Rightarrow> u64 \<Rightarrow> 'w \<Rightarrow> (io_error, u64, 'w) run" where
  "uffd_register K fd addr len w =
     run_bind (ioctl_io K fd UFFDIO_REGISTER
         (ArgRegister \<lparr>rg_range = \<lparr>ur_start = addr, ur_len = len\<rparr>,
            rg_mode = UFFDIO_REGISTER_MODE_MISSING OR UFFDIO_REGISTER_MODE_WP, rg_ioctls = 0\<rparr>) w)
       (\<lambda>arg. run_ret (case arg of ArgRegister reg \<Rightarrow> rg_ioctls reg | _ \<Rightarrow> 0))"

definition copy_with_mode ::
  "'w kernel \<Rightarrow> fd \<Rightarrow> u64 \<Rightarrow> bytes \<Rightarrow> u64 \<Rightarrow> u64 \<Rightarrow> 'w \<Rightarrow> (io_error, unit, 'w) run" where
  "copy_with_mode K fd dst src len mode w =
     run_bind (ioctl_io K fd UFFDIO_COPY
         (ArgCopy \<lparr>cp_dst = dst, cp_src = src, cp_len = len, cp_mode = mode, cp_copy = 0\<rparr>) w)
       (\<lambda>_. run_ret ())"

definition copy_wp :: "'w kernel \<Rightarrow> fd \<Rightarrow> u64 \<Rightarrow> bytes \<Rightarrow> u64 \<Rightarrow> 'w \<Rightarrow> (io_error, unit, 'w) run" where
  "copy_wp K fd dst src len = copy_with_mode K fd dst src len UFFDIO_COPY_MODE_WP"

definition uffd_wake :: "'w kernel \<Rightarrow> fd \<Rightarrow> u64 \<Rightarrow> u64 \<Rightarrow> 'w \<Rightarrow> (io_error, unit, 'w) run" where
  "uffd_wake K fd addr len w =
     run_bind (ioctl_io K fd UFFDIO_WAKE (ArgRange \<lparr>ur_start = addr, ur_len = len\<rparr>) w) (\<lambda>_. run_ret ())"

definition writeprotect_dontwake :: "'w kernel \<Rightarrow> fd \<Rightarrow> u64 \<Rightarrow> u64 \<Rightarrow> 'w \<Rightarrow> (io_error, unit, 'w) run" where
  "writeprotect_dontwake K fd addr len w =
     run_bind (ioctl_io K fd UFFDIO_WRITEPROTECT
         (ArgWriteProtect \<lparr>wp_range = \<lparr>ur_start = addr, ur_len = len\<rparr>,
            wp_mode = UFFDIO_WRITEPROTECT_MODE_DONTWAKE\<rparr>) w)
       (\<lambda>_. run_ret ())"

section \<open>The handler state\<close>

record 'w hstate =
  hs_backend :: restore_backend
  hs_buf :: bytes
  hs_served :: u64
  hs_dirtied :: u64
  hs_logged :: bool
  hs_world :: 'w

definition on_h :: "('w \<Rightarrow> (io_error, 'a, 'w) run) \<Rightarrow> 'w hstate \<Rightarrow> (io_error, 'a, 'w hstate) run" where
  "on_h m s = (case m (hs_world s) of None \<Rightarrow> None | Some (r, w) \<Rightarrow> Some (r, s\<lparr>hs_world := w\<rparr>))"

definition state_load :: "u64 \<Rightarrow> 'w hstate \<Rightarrow> (io_error, u8, 'w hstate) run" where
  "state_load i s =
     run_bind (run_lift (index (rb_pages (hs_backend s)) i) s) (\<lambda>pg s. run_ret (rp_state pg) s)"

definition state_store :: "u64 \<Rightarrow> u8 \<Rightarrow> 'w hstate \<Rightarrow> (io_error, unit, 'w hstate) run" where
  "state_store i st s =
     run_bind (run_lift (index (rb_pages (hs_backend s)) i) s) (\<lambda>pg s.
       run_ret () (s\<lparr>hs_backend := (hs_backend s)\<lparr>rb_pages :=
         (rb_pages (hs_backend s))[unat i := pg\<lparr>rp_state := st\<rparr>]\<rparr>\<rparr>))"

text \<open>A wake whose failure is only logged.\<close>

definition wake_warn :: "'w kernel \<Rightarrow> fd \<Rightarrow> template_fault \<Rightarrow> 'w hstate \<Rightarrow> (io_error, unit, 'w hstate) run" where
  "wake_warn K uffd fault s =
     (case on_h (uffd_wake K uffd (tf_page_addr fault) (tf_page_size fault)) s of
        Some (Inl (Err _), s) \<Rightarrow> run_ret () s
      | r \<Rightarrow> r)"

text \<open>
  The copy loop: it is repeated while the kernel reports a transient failure, yielding to the
  other threads in between; \<open>True\<close> is a fresh copy, \<open>False\<close> a page that was already present.
\<close>

partial_function (option) copy_retry ::
  "'w kernel \<Rightarrow> ('w \<Rightarrow> 'w) \<Rightarrow> fd \<Rightarrow> u64 \<Rightarrow> bytes \<Rightarrow> u64 \<Rightarrow> 'w \<Rightarrow> (io_error, bool, 'w) run" where
  "copy_retry K yield uffd dst src len w =
     (case copy_wp K uffd dst src len w of
        None \<Rightarrow> None
      | Some (Inr _, w) \<Rightarrow> Some (Inr True, w)
      | Some (Inl (Err e), w) \<Rightarrow>
          if raw_os_error e = Some EEXIST then Some (Inr False, w)
          else if raw_os_error e = Some EAGAIN then copy_retry K yield uffd dst src len (yield w)
          else Some (Inl (Err e), w)
      | Some (Inl Panic, w) \<Rightarrow> Some (Inl Panic, w))"

definition read_into_buf :: "'w kernel \<Rightarrow> template_fault \<Rightarrow> 'w hstate \<Rightarrow> (io_error, unit, 'w hstate) run" where
  "read_into_buf K fault s =
     run_bind (on_h (restore_read_page K (hs_backend s) fault (hs_buf s)) s) (\<lambda>buf s.
       run_ret () (s\<lparr>hs_buf := buf\<rparr>))"

section \<open>Missing faults\<close>

text \<open>Waiting for a page in the loading state.\<close>

partial_function (option) wait_loaded ::
  "('w \<Rightarrow> 'w) \<Rightarrow> u64 \<Rightarrow> 'w hstate \<Rightarrow> (io_error, unit, 'w hstate) run" where
  "wait_loaded yield i s =
     (case state_load i s of
        None \<Rightarrow> None
      | Some (Inl e, s) \<Rightarrow> Some (Inl e, s)
      | Some (Inr st, s) \<Rightarrow>
          if st = STATE_SHARED_READY \<or> st = STATE_PRIVATE_DIRTY then Some (Inr (), s)
          else wait_loaded yield i (s\<lparr>hs_world := yield (hs_world s)\<rparr>))"

definition load_missing ::
  "'w kernel \<Rightarrow> ('w \<Rightarrow> 'w) \<Rightarrow> fd \<Rightarrow> template_fault \<Rightarrow> 'w hstate \<Rightarrow> (io_error, unit, 'w hstate) run" where
  "load_missing K yield uffd fault s =
     run_bind (state_store (tf_page_index fault) STATE_LOADING s) (\<lambda>_ s.
     run_bind (read_into_buf K fault s) (\<lambda>_ s.
     run_bind (on_h (copy_retry K yield uffd (tf_page_addr fault)
         (take (unat (tf_page_size fault)) (hs_buf s)) (tf_page_size fault)) s) (\<lambda>copied s.
     run_bind (state_store (tf_page_index fault) STATE_SHARED_READY s) (\<lambda>_ s.
     run_bind (if copied then run_ret () s else wake_warn K uffd fault s) (\<lambda>_ s.
       run_ret () (s\<lparr>hs_served := hs_served s + 1\<rparr>))))))"

definition missing_fault ::
  "'w kernel \<Rightarrow> ('w \<Rightarrow> 'w) \<Rightarrow> fd \<Rightarrow> template_fault \<Rightarrow> 'w hstate \<Rightarrow> (io_error, unit, 'w hstate) run" where
  "missing_fault K yield uffd fault s =
     run_bind (state_load (tf_page_index fault) s) (\<lambda>st s.
       if st = STATE_UNLOADED then load_missing K yield uffd fault s
       else if st = STATE_LOADING
       then run_bind (wait_loaded yield (tf_page_index fault) s) (\<lambda>_ s. wake_warn K uffd fault s)
       else if st = STATE_SHARED_READY \<or> st = STATE_PRIVATE_DIRTY then wake_warn K uffd fault s
       else run_err (Custom KOther (''template UFFD handler: unexpected state '' @ show_dec (unat st) @
         '' for page '' @ show_dec (unat (tf_page_index fault)))) s)"

section \<open>Write-protect faults\<close>

text \<open>
  Acquiring one page of the chunk: an unloaded or ready page is moved to the loading state and
  its old state returned; a page that is already private is skipped.
\<close>

partial_function (option) acquire_page ::
  "('w \<Rightarrow> 'w) \<Rightarrow> u64 \<Rightarrow> 'w hstate \<Rightarrow> (io_error, u8 option, 'w hstate) run" where
  "acquire_page yield i s =
     (case state_load i s of
        None \<Rightarrow> None
      | Some (Inl e, s) \<Rightarrow> Some (Inl e, s)
      | Some (Inr st, s) \<Rightarrow>
          if st = STATE_UNLOADED \<or> st = STATE_SHARED_READY
          then run_bind (state_store i STATE_LOADING s) (\<lambda>_ s. Some (Inr (Some st), s))
          else if st = STATE_LOADING then acquire_page yield i (s\<lparr>hs_world := yield (hs_world s)\<rparr>)
          else if st = STATE_PRIVATE_DIRTY then Some (Inr None, s)
          else Some (Inl (Err (Custom KOther (''template UFFD handler: COW chunk saw unexpected page state '' @
            show_dec (unat st) @ '' for page '' @ show_dec (unat i)))), s))"

definition acquire_chunk ::
  "('w \<Rightarrow> 'w) \<Rightarrow> cow_chunk \<Rightarrow> 'w hstate \<Rightarrow> (io_error, (u64 \<times> u8) list, 'w hstate) run" where
  "acquire_chunk yield chunk s =
     run_for (\<lambda>chunk_page acquired s.
         let i = cc_first_page_index chunk + chunk_page in
         run_bind (acquire_page yield i s) (\<lambda>old s.
           run_ret (case old of None \<Rightarrow> acquired | Some st \<Rightarrow> acquired @ [(i, st)]) s))
       (range_w 0 (cc_page_count chunk)) [] s"

definition load_acquired ::
  "'w kernel \<Rightarrow> ('w \<Rightarrow> 'w) \<Rightarrow> fd \<Rightarrow> cow_chunk \<Rightarrow> u64 \<times> u8 \<Rightarrow> 'w hstate \<Rightarrow> (io_error, unit, 'w hstate) run" where
  "load_acquired K yield uffd chunk = (\<lambda>(i, old) s.
     if old \<noteq> STATE_UNLOADED then run_ret () s
     else run_bind (run_lift (index (rb_pages (hs_backend s)) i) s) (\<lambda>pg s.
       let page_fault = \<lparr>tf_page_addr = cc_start_addr chunk + (i - cc_first_page_index chunk) * cc_page_size chunk,
             tf_page_size = cc_page_size chunk, tf_page_index = i, tf_backend_offset = rp_backend_offset pg\<rparr>
       in run_bind (read_into_buf K page_fault s) (\<lambda>_ s.
          run_bind (on_h (copy_retry K yield uffd (tf_page_addr page_fault)
              (take (unat (tf_page_size page_fault)) (hs_buf s)) (tf_page_size page_fault)) s) (\<lambda>_ s.
            run_ret () (s\<lparr>hs_served := hs_served s + 1\<rparr>)))))"

text \<open>
  Replacing the chunk by a private copy of its bytes: the snapshot buffer is on the handler's own
  heap.
\<close>

definition privatise ::
  "'w kernel \<Rightarrow> fd \<Rightarrow> cow_chunk \<Rightarrow> 'w hstate \<Rightarrow> (io_error, unit, 'w hstate) run" where
  "privatise K uffd chunk s =
     (let chunk_len = unat (cc_len chunk);
          snapshot = k_load K (cc_start_addr chunk) chunk_len (hs_world s)
      in run_bind (on_h (writeprotect_dontwake K uffd (cc_start_addr chunk) (cc_len chunk)) s) (\<lambda>_ s.
        case k_mmap K (cc_start_addr chunk) (cc_len chunk) (PROT_READ OR PROT_WRITE)
            (MAP_PRIVATE OR MAP_ANONYMOUS OR MAP_FIXED) (-1) 0 (hs_world s) of (private_page, w) \<Rightarrow>
          if is_map_failed private_page
          then run_err (Os (k_errno K w)) (s\<lparr>hs_world := w\<rparr>)
          else run_ret () (s\<lparr>hs_world := k_store K private_page snapshot w\<rparr>)))"

definition mark_chunk :: "cow_chunk \<Rightarrow> 'w hstate \<Rightarrow> (io_error, unit, 'w hstate) run" where
  "mark_chunk chunk s =
     run_for (\<lambda>chunk_page _ s. state_store (cc_first_page_index chunk + chunk_page) STATE_PRIVATE_DIRTY s)
       (range_w 0 (cc_page_count chunk)) () s"

definition wp_fault ::
  "'w kernel \<Rightarrow> ('w \<Rightarrow> 'w) \<Rightarrow> fd \<Rightarrow> template_fault \<Rightarrow> 'w hstate \<Rightarrow> (io_error, unit, 'w hstate) run" where
  "wp_fault K yield uffd fault s =
     run_bind (run_lift (cow_chunk_for_fault (hs_backend s) fault) s) (\<lambda>found s.
       case found of
         None \<Rightarrow> run_err (Custom KOther (''template UFFD handler: cannot locate COW chunk for page '' @
           show_dec (unat (tf_page_index fault)))) s
       | Some chunk \<Rightarrow>
           if unat (cc_page_size chunk) > length (hs_buf s)
           then run_err (Custom KInvalidInput ''COW chunk page size exceeds handler page buffer'') s
           else run_bind (acquire_chunk yield chunk s) (\<lambda>acquired s.
             if acquired = [] then wake_warn K uffd fault s
             else run_bind (run_for (\<lambda>a _. load_acquired K yield uffd chunk a) acquired () s) (\<lambda>_ s.
               run_bind (privatise K uffd chunk s) (\<lambda>_ s.
               run_bind (mark_chunk chunk s) (\<lambda>_ s.
                 on_h (uffd_wake K uffd (cc_start_addr chunk) (cc_len chunk))
                   (s\<lparr>hs_dirtied := hs_dirtied s + word_of_nat (length acquired)\<rparr>))))))"

section \<open>The loop\<close>

definition EVENT_STOP :: u64 where "EVENT_STOP = 0"
definition EVENT_UFFD :: u64 where "EVENT_UFFD = 1"
definition EPOLLIN :: u32 where "EPOLLIN = 0x1"
definition EPOLLHUP :: u32 where "EPOLLHUP = 0x10"

text \<open>
  The scan of the ready events: \<open>None\<close> ends the loop (stop event, or the descriptor was closed),
  otherwise whether there is a fault to read. A stop event is consumed.
\<close>

fun scan_events ::
  "'w kernel \<Rightarrow> fd \<Rightarrow> (u32 \<times> u64) list \<Rightarrow> bool \<Rightarrow> 'w \<Rightarrow> bool option \<times> 'w" where
  "scan_events K stop_event [] got_uffd_data w = (Some got_uffd_data, w)"
| "scan_events K stop_event ((evt_flags, token) # events) got_uffd_data w =
     (if token = EVENT_STOP then (None, snd (snd (k_read K stop_event 8 w)))
      else if token = EVENT_UFFD \<and> evt_flags AND EPOLLHUP \<noteq> 0 \<and> evt_flags AND EPOLLIN = 0 then (None, w)
      else scan_events K stop_event events
        (got_uffd_data \<or> token = EVENT_UFFD \<and> evt_flags AND EPOLLIN \<noteq> 0) w)"

definition serve_fault ::
  "'w kernel \<Rightarrow> ('w \<Rightarrow> 'w) \<Rightarrow> fd \<Rightarrow> uffd_msg \<Rightarrow> 'w hstate \<Rightarrow> (io_error, unit, 'w hstate) run" where
  "serve_fault K yield uffd msg s =
     run_bind (run_lift (locate_fault (hs_backend s) (msg_pf_address msg)) s) (\<lambda>found s.
       case found of
         None \<Rightarrow> run_err (Custom KOther (''template UFFD handler: fault at '' @ hex0x (msg_pf_address msg) @
           '' does not belong to any registered range'')) s
       | Some fault \<Rightarrow>
           if msg_pf_flags msg AND UFFD_PAGEFAULT_FLAG_WP \<noteq> 0 then wp_fault K yield uffd fault s
           else run_bind (missing_fault K yield uffd fault s) (\<lambda>_ s.
             run_ret () (if hs_served s = total_pages (hs_backend s) \<and> \<not> hs_logged s
                         then s\<lparr>hs_logged := True\<rparr> else s)))"

text \<open>One turn: \<open>Inr False\<close> is the normal return of the loop.\<close>

definition handler_turn ::
  "'w kernel \<Rightarrow> ('w \<Rightarrow> 'w) \<Rightarrow> fd \<Rightarrow> fd \<Rightarrow> fd \<Rightarrow> 'w hstate \<Rightarrow> (io_error, bool, 'w hstate) run" where
  "handler_turn K yield epoll_fd uffd stop_event s =
     (case k_epoll_wait K epoll_fd (-1) 2 (hs_world s) of (n, events, w) \<Rightarrow>
        let s = s\<lparr>hs_world := w\<rparr> in
        if n < 0
        then (if io_kind (Os (k_errno K w)) = KInterrupted then run_ret True s else run_err (Os (k_errno K w)) s)
        else case scan_events K stop_event (take (nat n) events) False (hs_world s) of (scan, w) \<Rightarrow>
          let s = s\<lparr>hs_world := w\<rparr> in
          case scan of
            None \<Rightarrow> run_ret False s
          | Some got_uffd_data \<Rightarrow>
              if \<not> got_uffd_data then run_ret True s
              else case k_read K uffd sizeof_uffd_msg (hs_world s) of (nread, buf, w) \<Rightarrow>
                let s = s\<lparr>hs_world := w\<rparr> in
                if nread < 0
                then (if io_kind (Os (k_errno K w)) = KWouldBlock then run_ret True s
                      else run_err (Os (k_errno K w)) s)
                else if nread = 0 then run_ret False s
                else if nat nread \<noteq> sizeof_uffd_msg
                then run_err (Custom UnexpectedEof ''Short read from userfaultfd'') s
                else let msg = uffd_msg_of_bytes buf in
                  if msg_event msg \<noteq> UFFD_EVENT_PAGEFAULT then run_ret True s
                  else run_bind (serve_fault K yield uffd msg s) (\<lambda>_. run_ret True))"

partial_function (option) handler_run ::
  "'w kernel \<Rightarrow> ('w \<Rightarrow> 'w) \<Rightarrow> fd \<Rightarrow> fd \<Rightarrow> fd \<Rightarrow> 'w hstate \<Rightarrow> (io_error, unit, 'w hstate) run" where
  "handler_run K yield epoll_fd uffd stop_event s =
     (case handler_turn K yield epoll_fd uffd stop_event s of
        None \<Rightarrow> None
      | Some (Inl e, s) \<Rightarrow> Some (Inl e, s)
      | Some (Inr continue, s) \<Rightarrow>
          if continue then handler_run K yield epoll_fd uffd stop_event s else Some (Inr (), s))"

text \<open>A failed set-up call of the event queue, wrapped by \<open>io::Error::other\<close>.\<close>

definition epoll_checked :: "'w kernel \<Rightarrow> int \<times> 'w \<Rightarrow> (io_error, int, 'w) run" where
  "epoll_checked K rw =
     (case rw of (r, w) \<Rightarrow>
        if r < 0 then run_err (Custom KOther (display_io K (Os (k_errno K w)))) w else run_ret r w)"

definition handler_start :: "restore_backend \<Rightarrow> u64 \<Rightarrow> 'w \<Rightarrow> 'w hstate" where
  "handler_start backend page_size w =
     \<lparr>hs_backend = backend, hs_buf = replicate (unat page_size) 0, hs_served = 0, hs_dirtied = 0,
      hs_logged = False, hs_world = w\<rparr>"

definition handler_loop ::
  "'w kernel \<Rightarrow> ('w \<Rightarrow> 'w) \<Rightarrow> fd \<Rightarrow> fd \<Rightarrow> restore_backend \<Rightarrow> u64 \<Rightarrow> 'w \<Rightarrow> (io_error, unit, 'w hstate) run" where
  "handler_loop K yield uffd stop_event backend page_size w =
     (let s = handler_start backend page_size w in
      run_bind (on_h (\<lambda>w. epoll_checked K (k_epoll_create K True w)) s) (\<lambda>epoll_fd s.
      run_bind (on_h (\<lambda>w. epoll_checked K (k_epoll_add K epoll_fd stop_event EPOLLIN EVENT_STOP w)) s) (\<lambda>_ s.
      run_bind (on_h (\<lambda>w. epoll_checked K (k_epoll_add K epoll_fd uffd (EPOLLIN OR EPOLLHUP) EVENT_UFFD w)) s) (\<lambda>_ s.
        handler_run K yield epoll_fd uffd stop_event s))))"

end
