(* ===== verification/Restore_Proofs.thy ===== *)
theory Restore_Proofs
  imports Restore_Handler
begin

unbundle bit_operations_syntax

text \<open>
  Correctness of the restore handler: what each kind of fault does to the page states, the
  counters and the guest memory, under the documented behaviour of the kernel calls.
\<close>

section \<open>Backends that differ in the page states only\<close>

definition st :: "restore_backend \<Rightarrow> nat \<Rightarrow> u8" where
  "st b i = rp_state (rb_pages b ! i)"

definition with_states :: "restore_backend \<Rightarrow> (nat \<Rightarrow> u8) \<Rightarrow> restore_backend" where
  "with_states b f =
     b\<lparr>rb_pages := map (\<lambda>i. (rb_pages b ! i)\<lparr>rp_state := f i\<rparr>) [0..<length (rb_pages b)]\<rparr>"

abbreviation n_pages :: "restore_backend \<Rightarrow> nat" where
  "n_pages b \<equiv> length (rb_pages b)"

lemma with_states_simps [simp]:
  "rb_ranges (with_states b f) = rb_ranges b" "rb_source (with_states b f) = rb_source b"
  "n_pages (with_states b f) = n_pages b" "i < n_pages b \<Longrightarrow> st (with_states b f) i = f i"
  "i < n_pages b \<Longrightarrow> rp_backend_offset (rb_pages (with_states b f) ! i) = rp_backend_offset (rb_pages b ! i)"
  by (simp_all add: with_states_def st_def)

lemma with_states_with_states [simp]: "with_states (with_states b f) g = with_states b g"
  by (simp add: with_states_def)

lemma with_states_cong:
  "(\<And>i. i < n_pages b \<Longrightarrow> f i = g i) \<Longrightarrow> with_states b f = with_states b g"
  by (simp add: with_states_def)

lemma with_states_upd [simp]:
  "with_states b ((st (with_states b f))(i := v)) = with_states b (f(i := v))"
  by (rule with_states_cong) simp

lemma with_states_id: "with_states b (st b) = b"
proof -
  have "map (\<lambda>i. (rb_pages b ! i)\<lparr>rp_state := st b i\<rparr>) [0..<n_pages b] = rb_pages b"
    by (rule nth_equalityI) (simp_all add: st_def)
  then show ?thesis by (simp add: with_states_def)
qed

lemma wf_with_states [simp]: "backend_wf (with_states b f) = backend_wf b"
proof -
  have "rp_backend_offset (rb_pages (with_states b f) ! i) = rp_backend_offset (rb_pages b ! i)"
    if "n_pages b = total_npages (rb_ranges b)" and "home (rb_ranges b) i = Some (r, p)" for i r p
    using that home_Some [OF that(2)] by simp
  then show ?thesis unfolding backend_wf_def with_states_simps by metis
qed

lemma fault_of_with_states [simp]:
  assumes "backend_wf b"
  shows "fault_of (with_states b f) i = fault_of b i"
proof (cases "home (rb_ranges b) i")
  case (Some rp)
  obtain r p where "rp = (r, p)" by (cases rp)
  with Some backend_home(4) [OF assms, of i r p] show ?thesis by (simp add: fault_of_def)
qed (simp add: fault_of_def)

lemma chunk_with_states [simp]:
  "cow_chunk_for_fault (with_states b f) = cow_chunk_for_fault b" "locate_fault (with_states b f) = locate_fault b"
  "total_pages (with_states b f) = total_pages b"
  by (rule ext, simp add: cow_chunk_for_fault_def)
    (simp_all add: locate_fault_def total_pages_def)

lemma index_page [simp]:
  "unat i < length xs \<Longrightarrow> index xs i = Inr (xs ! unat i)"
  by (simp add: index_def)

lemma state_load_eq [simp]:
  "unat i < n_pages (hs_backend s) \<Longrightarrow> state_load i s = Some (Inr (st (hs_backend s) (unat i)), s)"
  by (simp add: state_load_def st_def)

lemma state_store_eq [simp]:
  assumes "unat i < n_pages (hs_backend s)"
  shows "state_store i v s =
    Some (Inr (), s\<lparr>hs_backend := with_states (hs_backend s) ((st (hs_backend s))(unat i := v))\<rparr>)"
proof -
  let ?b = "hs_backend s"
  have "(rb_pages ?b)[unat i := (rb_pages ?b ! unat i)\<lparr>rp_state := v\<rparr>] =
      map (\<lambda>j. (rb_pages ?b ! j)\<lparr>rp_state := ((st ?b)(unat i := v)) j\<rparr>) [0..<n_pages ?b]"
    by (rule nth_equalityI) (auto simp: nth_list_update st_def)
  with assms show ?thesis by (simp add: state_store_def with_states_def)
qed

section \<open>The contract of the kernel\<close>

text \<open>Loading in two parts.\<close>

definition load_split :: "'w kernel \<Rightarrow> bool" where
  "load_split K \<longleftrightarrow> (\<forall>a n m w. unat a + n + m < 2 ^ 64 \<longrightarrow>
     k_load K a (n + m) w = k_load K a n w @ k_load K (a + word_of_nat n) m w)"

text \<open>
  A call that leaves alone the guest memory, the set \<open>present\<close> of pages populated through the
  userfaultfd and the page source.
\<close>

definition undisturbed :: "'w kernel \<Rightarrow> ('w \<Rightarrow> bool) \<Rightarrow> ('w \<Rightarrow> u64 set) \<Rightarrow> 'w \<Rightarrow> 'w \<Rightarrow> bool" where
  "undisturbed K ready present w w' \<longleftrightarrow>
     (\<forall>a n. k_load K a n w' = k_load K a n w) \<and> present w' = present w \<and> ready w' = ready w"

text \<open>
  What \<open>mmap(2)\<close> and \<open>ioctl_userfaultfd(2)\<close> document, for the guest memory of one handler: a
  copy installs its source in a page that was missing and is refused as existing only for a page
  that is present, transient refusals come to an end, waking and changing write protection change
  no byte, and a fixed mapping affects its own range only.
\<close>

definition guest_ok ::
  "'w kernel \<Rightarrow> ('w \<Rightarrow> 'w) \<Rightarrow> fd \<Rightarrow> ('w \<Rightarrow> bool) \<Rightarrow> ('w \<Rightarrow> u64 set) \<Rightarrow> ('w \<Rightarrow> nat) \<Rightarrow> bool" where
  "guest_ok K yield uffd ready present busy \<longleftrightarrow>
     store_ok K \<and> load_split K \<and>
     (\<forall>a bs w. present (k_store K a bs w) = present w \<and> ready (k_store K a bs w) = ready w) \<and>
     (\<forall>a len prot flags fd off w r w'. k_mmap K a len prot flags fd off w = (r, w') \<longrightarrow>
        flags AND MAP_FIXED \<noteq> 0 \<longrightarrow> \<not> is_map_failed r \<longrightarrow>
        r = a \<and> present w' = present w \<and> ready w' = ready w \<and>
        (\<forall>b m. disjoint_ranges a (unat len) b m \<longrightarrow> k_load K b m w' = k_load K b m w)) \<and>
     (\<forall>req arg w ret arg' w'. k_ioctl K uffd req arg w = (ret, arg', w') \<longrightarrow>
        req = UFFDIO_WAKE \<or> req = UFFDIO_WRITEPROTECT \<or> ret < 0 \<longrightarrow> undisturbed K ready present w w') \<and>
     (\<forall>cp w ret arg' w'. k_ioctl K uffd UFFDIO_COPY (ArgCopy cp) w = (ret, arg', w') \<longrightarrow>
        (0 \<le> ret \<longrightarrow> length (cp_src cp) = unat (cp_len cp) \<longrightarrow>
           k_load K (cp_dst cp) (unat (cp_len cp)) w' = cp_src cp \<and>
           present w' = insert (cp_dst cp) (present w) \<and> ready w' = ready w \<and>
           (\<forall>b m. disjoint_ranges (cp_dst cp) (unat (cp_len cp)) b m \<longrightarrow> k_load K b m w' = k_load K b m w)) \<and>
        (ret < 0 \<longrightarrow> k_errno K w' = EEXIST \<longrightarrow> cp_dst cp \<in> present w) \<and>
        (ret < 0 \<longrightarrow> k_errno K w' = EAGAIN \<longrightarrow> busy (yield w') < busy w)) \<and>
     (\<forall>w. undisturbed K ready present w (yield w)) \<and>
     (\<forall>fd t n w. undisturbed K ready present w (snd (snd (k_epoll_wait K fd t n w)))) \<and>
     (\<forall>n w. undisturbed K ready present w (snd (snd (k_read K uffd n w))))"

lemma guest_okD:
  assumes "guest_ok K yield uffd ready present busy"
  shows "store_ok K" "load_split K"
    "present (k_store K a bs w) = present w" "ready (k_store K a bs w) = ready w"
    "k_mmap K a len prot flags fd off w = (r, w') \<Longrightarrow> flags AND MAP_FIXED \<noteq> 0 \<Longrightarrow> \<not> is_map_failed r \<Longrightarrow>
       r = a \<and> present w' = present w \<and> ready w' = ready w \<and>
       (\<forall>b m. disjoint_ranges a (unat len) b m \<longrightarrow> k_load K b m w' = k_load K b m w)"
    "k_ioctl K uffd req arg w = (ret, arg', w') \<Longrightarrow> req = UFFDIO_WAKE \<or> req = UFFDIO_WRITEPROTECT \<or> ret < 0 \<Longrightarrow>
       undisturbed K ready present w w'"
    "k_ioctl K uffd UFFDIO_COPY (ArgCopy cp) w = (ret, arg', w') \<Longrightarrow> 0 \<le> ret \<Longrightarrow> length (cp_src cp) = unat (cp_len cp) \<Longrightarrow>
       k_load K (cp_dst cp) (unat (cp_len cp)) w' = cp_src cp \<and>
       present w' = insert (cp_dst cp) (present w) \<and> ready w' = ready w \<and>
       (\<forall>b m. disjoint_ranges (cp_dst cp) (unat (cp_len cp)) b m \<longrightarrow> k_load K b m w' = k_load K b m w)"
    "k_ioctl K uffd UFFDIO_COPY (ArgCopy cp) w = (ret, arg', w') \<Longrightarrow> ret < 0 \<Longrightarrow> k_errno K w' = EEXIST \<Longrightarrow>
       cp_dst cp \<in> present w"
    "k_ioctl K uffd UFFDIO_COPY (ArgCopy cp) w = (ret, arg', w') \<Longrightarrow> ret < 0 \<Longrightarrow> k_errno K w' = EAGAIN \<Longrightarrow>
       busy (yield w') < busy w"
    "undisturbed K ready present w (yield w)"
    "undisturbed K ready present w (snd (snd (k_epoll_wait K fd t n w)))"
    "undisturbed K ready present w (snd (snd (k_read K uffd n w)))"
  using assms unfolding guest_ok_def by (elim conjE, assumption | elim conjE, simp; fail | elim conjE, metis)+

lemma undisturbed_trans:
  "undisturbed K ready present w w' \<Longrightarrow> undisturbed K ready present w' w'' \<Longrightarrow> undisturbed K ready present w w''"
  by (simp add: undisturbed_def)

lemma undisturbed_refl [simp]: "undisturbed K ready present w w"
  by (simp add: undisturbed_def)

section \<open>Single calls\<close>

lemma ends_on_h:
  "ends (m (hs_world s)) Q \<Longrightarrow> ends (on_h m s) (\<lambda>r t. \<exists>w. t = s\<lparr>hs_world := w\<rparr> \<and> Q r w)"
  by (auto simp: ends_def on_h_def)

lemma wake_ends:
  assumes "guest_ok K yield uffd ready present busy"
  shows "ends (uffd_wake K uffd a len w) (\<lambda>r w'. r \<noteq> Inl Panic \<and> undisturbed K ready present w w')"
proof -
  obtain ret arg w' where io: "k_ioctl K uffd UFFDIO_WAKE (ArgRange \<lparr>ur_start = a, ur_len = len\<rparr>) w = (ret, arg, w')"
    by (metis prod_cases3)
  with guest_okD(6) [OF assms io] show ?thesis by (simp add: uffd_wake_def ioctl_io_def)
qed

lemma writeprotect_ends:
  assumes "guest_ok K yield uffd ready present busy"
  shows "ends (writeprotect_dontwake K uffd a len w) (\<lambda>r w'. r \<noteq> Inl Panic \<and> undisturbed K ready present w w')"
proof -
  obtain ret arg w' where io: "k_ioctl K uffd UFFDIO_WRITEPROTECT (ArgWriteProtect
      \<lparr>wp_range = \<lparr>ur_start = a, ur_len = len\<rparr>, wp_mode = UFFDIO_WRITEPROTECT_MODE_DONTWAKE\<rparr>) w = (ret, arg, w')"
    by (metis prod_cases3)
  with guest_okD(6) [OF assms io] show ?thesis by (simp add: writeprotect_dontwake_def ioctl_io_def)
qed

lemma wake_warn_ends:
  assumes "guest_ok K yield uffd ready present busy"
  shows "ends (wake_warn K uffd fault s)
    (\<lambda>r t. r = Inr () \<and> (\<exists>w. t = s\<lparr>hs_world := w\<rparr> \<and> undisturbed K ready present (hs_world s) w))"
proof -
  from ends_on_h [where m = "uffd_wake K uffd (tf_page_addr fault) (tf_page_size fault)" and s = s, OF wake_ends [OF assms]]
  obtain r w where
    "on_h (uffd_wake K uffd (tf_page_addr fault) (tf_page_size fault)) s = Some (r, s\<lparr>hs_world := w\<rparr>)"
    "r \<noteq> Inl Panic" "undisturbed K ready present (hs_world s) w" by (auto elim!: endsE)
  then show ?thesis by (auto simp: wake_warn_def split: sum.splits abort.splits)
qed

lemma copy_retry_ends:
  assumes ok: "guest_ok K yield uffd ready present busy" and len: "length src = unat len" and "dst \<notin> present w"
  shows "ends (copy_retry K yield uffd dst src len w) (\<lambda>r w'. r \<noteq> Inl Panic \<and> r \<noteq> Inr False \<and>
    (r = Inr True \<longrightarrow> k_load K dst (unat len) w' = src \<and> present w' = insert dst (present w) \<and> ready w' = ready w \<and>
       (\<forall>b m. disjoint_ranges dst (unat len) b m \<longrightarrow> k_load K b m w' = k_load K b m w)))"
  using assms(3)
proof (induction "busy w" arbitrary: w rule: less_induct)
  case less
  let ?cp = "\<lparr>cp_dst = dst, cp_src = src, cp_len = len, cp_mode = UFFDIO_COPY_MODE_WP, cp_copy = 0\<rparr>"
  obtain ret arg w' where io: "k_ioctl K uffd UFFDIO_COPY (ArgCopy ?cp) w = (ret, arg, w')" by (metis prod_cases3)
  have cw: "copy_wp K uffd dst src len w =
      (if ret < 0 then Some (Inl (Err (Os (k_errno K w'))), w') else Some (Inr (), w'))"
    by (simp add: copy_wp_def copy_with_mode_def ioctl_io_def io)
  show ?case
  proof (cases "ret < 0")
    case False
    with guest_okD(7) [OF ok io] len cw show ?thesis by (subst copy_retry.simps) simp
  next
    case True
    have nex: "k_errno K w' \<noteq> EEXIST" using guest_okD(8) [OF ok io True] less.prems by auto
    show ?thesis
    proof (cases "k_errno K w' = EAGAIN")
      case False
      with True nex cw show ?thesis by (subst copy_retry.simps) (simp add: raw_os_error_def)
    next
      case again: True
      have b: "busy (yield w') < busy w" by (rule guest_okD(9) [OF ok io True again])
      have u: "undisturbed K ready present w (yield w')"
        using guest_okD(6) [OF ok io] True guest_okD(10) [OF ok] undisturbed_trans by metis
      have "copy_retry K yield uffd dst src len w = copy_retry K yield uffd dst src len (yield w')"
        using True nex again cw by (subst copy_retry.simps) (simp add: raw_os_error_def)
      with less.hyps [OF b] u less.prems show ?thesis by (simp add: undisturbed_def)
    qed
  qed
qed

section \<open>Reading pages of the snapshot\<close>

definition snap :: "restore_backend \<Rightarrow> bytes \<Rightarrow> nat \<Rightarrow> bytes" where
  "snap b file i = take (pg_size b i) (drop (unat (rp_backend_offset (rb_pages b ! i))) file)"

definition pgb :: "'w kernel \<Rightarrow> restore_backend \<Rightarrow> nat \<Rightarrow> 'w \<Rightarrow> bytes" where
  "pgb K b i w = k_load K (pg_addr b i) (pg_size b i) w"

text \<open>What the handler needs of its page source.\<close>

definition source_ok ::
  "'w kernel \<Rightarrow> restore_backend \<Rightarrow> bytes \<Rightarrow> ('w \<Rightarrow> bool) \<Rightarrow> ('w \<Rightarrow> u64 set) \<Rightarrow> bool" where
  "source_ok K b file ready present \<longleftrightarrow>
     (\<forall>i buf w. i < n_pages b \<longrightarrow> pg_size b i \<le> length buf \<longrightarrow> ready w \<longrightarrow>
        ends (restore_read_page K b (fault_of b i) buf w) (\<lambda>r w'. r \<noteq> Inl Panic \<and>
          (\<forall>buf'. r = Inr buf' \<longrightarrow> undisturbed K ready present w w' \<and>
             buf' = snap b file i @ drop (pg_size b i) buf \<and> length (snap b file i) = pg_size b i)))"

text \<open>
  It is provided by both kinds of source: a snapshot file that is read from where the last seek
  put it, and a connection to the template service. Input and output on the source leave the
  guest memory alone.
\<close>

definition snapshot_io_ok ::
  "'w kernel \<Rightarrow> restore_backend \<Rightarrow> bytes \<Rightarrow> ('w \<Rightarrow> bool) \<Rightarrow> ('w \<Rightarrow> u64 set) \<Rightarrow> bool" where
  "snapshot_io_ok K b file ready present \<longleftrightarrow>
     (let view = (\<lambda>w. (\<lambda>a n. k_load K a n w, present w)) in
      case rb_source b of
        SourceFile fd \<Rightarrow>
          (\<exists>avail pending. read_ok K avail pending fd \<and>
             (\<forall>off w r w'. k_lseek K fd off w = (r, w') \<longrightarrow> 0 \<le> r \<longrightarrow> avail w' = drop (unat off) file)) \<and>
          (\<forall>w. ready w) \<and>
          (\<forall>n w. view (snd (snd (k_read K fd n w))) = view w) \<and>
          (\<forall>off w. view (snd (k_lseek K fd off w)) = view w)
      | SourceService fd \<Rightarrow>
          (\<exists>sent inc got pending. client_io_ok K fd sent inc got file pending \<and>
             (\<forall>w. ready w \<longleftrightarrow> inc w = [] \<and> (\<exists>rs. sent w = requests rs \<and> in_file file rs))) \<and>
          (\<forall>i < n_pages b. pg_size b i < 2 ^ 32) \<and>
          (\<forall>n w. view (snd (snd (k_read K fd n w))) = view w) \<and>
          (\<forall>bs w. view (snd (k_write K fd bs w)) = view w))"

lemma service_read_page_frame:
  assumes "\<And>n w. f (snd (snd (k_read K fd n w))) = f w" and "\<And>bs w. f (snd (k_write K fd bs w)) = f w"
    and "service_read_page K fd off n w = Some (r, w')"
  shows "f w' = f w"
proof -
  note R = read_exact_frame [of f K fd, OF assms(1)] and W = write_all_frame [of f K fd, OF assms(2)]
  show ?thesis
    using assms(3) unfolding service_read_page_def Let_def run_bind_def
    by (auto split: if_splits option.splits sum.splits dest!: R W)
qed

lemma fault_index:
  assumes "backend_wf b" and "i < n_pages b"
  shows "unat (tf_page_index (fault_of b i)) = i" and "0 < pg_size b i"
proof -
  obtain r p where h: "home (rb_ranges b) i = Some (r, p)" by (rule backend_page [OF assms])
  with backend_home [OF assms(1) h] range_wf_ps(2) [of r] show "unat (tf_page_index (fault_of b i)) = i" "0 < pg_size b i"
    by (simp_all add: fault_of_def unat_of_nat)
qed

lemma source_ok:
  assumes wf: "backend_wf b" and io: "snapshot_io_ok K b file ready present"
  shows "source_ok K b file ready present"
  unfolding source_ok_def
proof (intro allI impI)
  fix i and buf :: bytes and w
  assume i: "i < n_pages b" and buf: "pg_size b i \<le> length buf" and rdy: "ready w"
  let ?f = "fault_of b i" and ?n = "pg_size b i" and ?off = "rp_backend_offset (rb_pages b ! i)"
  let ?view = "\<lambda>w. (\<lambda>a n. k_load K a n w, present w)"
  note idx = fault_index(1) [OF wf i]
  have und: "undisturbed K ready present w w'" if "?view w' = ?view w" "ready w'" for w'
    using that rdy by (auto simp: undisturbed_def dest: fun_cong)
  let ?Q = "\<lambda>r w'. r \<noteq> Inl Panic \<and> (\<forall>buf'. r = Inr buf' \<longrightarrow> undisturbed K ready present w w' \<and>
             buf' = snap b file i @ drop ?n buf \<and> length (snap b file i) = ?n)"
  show "ends (restore_read_page K b ?f buf w) ?Q"
  proof (cases "rb_source b")
    case (SourceFile fd)
    with io obtain avail pending where rok: "read_ok K avail pending fd"
      and sk: "\<And>off w r w'. k_lseek K fd off w = (r, w') \<Longrightarrow> 0 \<le> r \<Longrightarrow> avail w' = drop (unat off) file"
      and rd: "\<And>w. ready w" and fr: "\<And>n w. ?view (snd (snd (k_read K fd n w))) = ?view w"
      and fs: "\<And>off w. ?view (snd (k_lseek K fd off w)) = ?view w"
      by (auto simp: snapshot_io_ok_def Let_def)
    obtain r0 w0 where l: "k_lseek K fd ?off w = (r0, w0)" by fastforce
    have v0: "?view w0 = ?view w" using fs [of ?off w] by (simp add: l)
    show ?thesis
    proof (cases "r0 < 0")
      case True
      with SourceFile i idx l show ?thesis by (simp add: restore_read_page_def seek_start_def Let_def)
    next
      case False
      from read_exact_spec [OF rok, of ?n w0] obtain r w1 where r: "read_exact K fd ?n w0 = Some (r, w1)" "r \<noteq> Inl Panic"
        "\<forall>bs. r = Inr bs \<longrightarrow> bs = take ?n (avail w0) \<and> length bs = ?n" by blast
      have v1: "?view w1 = ?view w" using read_exact_frame [of ?view, OF fr r(1)] v0 by metis
      have av: "avail w0 = drop (unat ?off) file" using sk [OF l] False by simp
      have eq: "restore_read_page K b ?f buf w = run_bind (Some (r, w1)) (\<lambda>bs. run_ret (bs @ drop ?n buf))"
        using SourceFile i idx l False buf r(1) by (simp add: restore_read_page_def seek_start_def Let_def)
      show ?thesis
      proof (cases r)
        case (Inl e)
        with eq r(2) show ?thesis by simp
      next
        case (Inr bs)
        with r(3) av have "bs = snap b file i" "length bs = ?n" by (auto simp: snap_def)
        with eq Inr und [OF v1 rd] show ?thesis by simp
      qed
    qed
  next
    case (SourceService fd)
    with io obtain sent inc got pending where cl: "client_io_ok K fd sent inc got file pending"
      and rd: "\<And>w. ready w \<longleftrightarrow> inc w = [] \<and> (\<exists>rs. sent w = requests rs \<and> in_file file rs)"
      and fr: "\<And>n w. ?view (snd (snd (k_read K fd n w))) = ?view w"
      and fw: "\<And>bs w. ?view (snd (k_write K fd bs w)) = ?view w"
      by (auto simp: snapshot_io_ok_def Let_def)
    from rdy rd obtain rs where idle: "inc w = []" "sent w = requests rs" "in_file file rs" by blast
    from service_read_page_spec [OF cl idle, of ?off ?n] obtain r w1 where
      r: "service_read_page K fd ?off ?n w = Some (r, w1)" "r \<noteq> Inl Panic"
      and dst: "\<forall>dst. r = Inr dst \<longrightarrow> dst = take ?n (drop (unat ?off) file) \<and> length dst = ?n \<and>
        inc w1 = [] \<and> sent w1 = requests (rs @ [(?off, word_of_nat ?n)]) \<and> in_file file (rs @ [(?off, word_of_nat ?n)])"
      by blast
    have v1: "?view w1 = ?view w" by (rule service_read_page_frame [OF fr fw r(1)])
    have eq: "restore_read_page K b ?f buf w = run_bind (Some (r, w1)) (\<lambda>bs. run_ret (bs @ drop ?n buf))"
      using SourceService i idx buf r(1) by (simp add: restore_read_page_def Let_def)
    show ?thesis
    proof (cases r)
      case (Inl e)
      with eq r(2) show ?thesis by simp
    next
      case (Inr bs)
      with dst have bs: "bs = snap b file i" "length bs = ?n" and "ready w1" by (auto simp: snap_def rd)
      with eq Inr und [OF v1] show ?thesis by simp
    qed
  qed
qed

section \<open>Loading one page\<close>

lemma read_page_with_states:
  assumes "backend_wf b" and "i < n_pages b"
  shows "restore_read_page K (with_states b f) (fault_of b i) = restore_read_page K b (fault_of b i)"
  using assms fault_index [OF assms] by (intro ext) (simp add: restore_read_page_def Let_def split: page_source.split)

lemma snap_with_states [simp]: "backend_wf b \<Longrightarrow> i < n_pages b \<Longrightarrow> snap (with_states b f) file i = snap b file i"
  by (simp add: snap_def)

lemma pgb_with_states [simp]: "backend_wf b \<Longrightarrow> pgb K (with_states b f) i w = pgb K b i w"
  by (simp add: pgb_def)

lemma source_ok_with_states [simp]:
  "backend_wf b \<Longrightarrow> source_ok K (with_states b f) file ready present = source_ok K b file ready present"
  by (simp add: source_ok_def read_page_with_states cong: imp_cong)

lemma read_into_buf_ends:
  assumes "source_ok K b file ready present" and "hs_backend s = b" and "i < n_pages b"
    and "pg_size b i \<le> length (hs_buf s)" and "ready (hs_world s)"
  shows "ends (read_into_buf K (fault_of b i) s) (\<lambda>r t. r \<noteq> Inl Panic \<and>
    (r = Inr () \<longrightarrow> (\<exists>w. t = s\<lparr>hs_world := w, hs_buf := snap b file i @ drop (pg_size b i) (hs_buf s)\<rparr> \<and>
       undisturbed K ready present (hs_world s) w \<and> length (snap b file i) = pg_size b i)))"
proof -
  have "ends (on_h (restore_read_page K (hs_backend s) (fault_of b i) (hs_buf s)) s) (\<lambda>r t. \<exists>w. t = s\<lparr>hs_world := w\<rparr> \<and>
      r \<noteq> Inl Panic \<and> (\<forall>buf'. r = Inr buf' \<longrightarrow> undisturbed K ready present (hs_world s) w \<and>
        buf' = snap b file i @ drop (pg_size b i) (hs_buf s) \<and> length (snap b file i) = pg_size b i))"
    using assms by (intro ends_on_h) (simp add: source_ok_def)
  then show ?thesis unfolding read_into_buf_def by (rule ends_bind) auto
qed

text \<open>The effect on the guest memory of populating a set of pages with their snapshot bytes.\<close>

definition populated ::
  "'w kernel \<Rightarrow> restore_backend \<Rightarrow> bytes \<Rightarrow> ('w \<Rightarrow> bool) \<Rightarrow> ('w \<Rightarrow> u64 set) \<Rightarrow> nat set \<Rightarrow> 'w \<Rightarrow> 'w \<Rightarrow> bool" where
  "populated K b file ready present P w w' \<longleftrightarrow>
     ready w' = ready w \<and> present w' = present w \<union> pg_addr b ` P \<and>
     (\<forall>j < n_pages b. pgb K b j w' = (if j \<in> P then snap b file j else pgb K b j w)) \<and>
     (\<forall>j \<in> P. length (snap b file j) = pg_size b j)"

lemma populated_undisturbed:
  "undisturbed K ready present w w' \<Longrightarrow> populated K b file ready present P w' w'' \<Longrightarrow>
     populated K b file ready present P w w''"
  "populated K b file ready present P w w' \<Longrightarrow> undisturbed K ready present w' w'' \<Longrightarrow>
     populated K b file ready present P w w''"
  by (simp_all add: populated_def undisturbed_def pgb_def)

lemma populated_trans:
  "populated K b file ready present P w w' \<Longrightarrow> populated K b file ready present Q w' w'' \<Longrightarrow>
     populated K b file ready present (P \<union> Q) w w''"
  by (auto simp: populated_def)

lemma populated_empty [simp]: "populated K b file ready present {} w w' \<longleftrightarrow>
    ready w' = ready w \<and> present w' = present w \<and> (\<forall>j < n_pages b. pgb K b j w' = pgb K b j w)"
  by (simp add: populated_def)

lemma copy_page_ends:
  assumes ok: "guest_ok K yield uffd ready present busy" and wf: "backend_wf b" and i: "i < n_pages b"
    and "pg_addr b i \<notin> present (hs_world s)" and "length (snap b file i) = pg_size b i"
    and "hs_buf s = snap b file i @ rest"
  shows "ends (on_h (copy_retry K yield uffd (pg_addr b i) (take (pg_size b i) (hs_buf s)) (tf_page_size (fault_of b i))) s)
    (\<lambda>r t. r \<noteq> Inl Panic \<and> r \<noteq> Inr False \<and> (r = Inr True \<longrightarrow>
      (\<exists>w. t = s\<lparr>hs_world := w\<rparr> \<and> populated K b file ready present {i} (hs_world s) w)))"
proof -
  have tk: "take (pg_size b i) (hs_buf s) = snap b file i" using assms(5,6) by simp
  have "ends (on_h (copy_retry K yield uffd (pg_addr b i) (take (pg_size b i) (hs_buf s)) (tf_page_size (fault_of b i))) s)
    (\<lambda>r t. \<exists>w. t = s\<lparr>hs_world := w\<rparr> \<and> r \<noteq> Inl Panic \<and> r \<noteq> Inr False \<and>
      (r = Inr True \<longrightarrow> k_load K (pg_addr b i) (pg_size b i) w = snap b file i \<and>
        present w = insert (pg_addr b i) (present (hs_world s)) \<and> ready w = ready (hs_world s) \<and>
        (\<forall>a m. disjoint_ranges (pg_addr b i) (pg_size b i) a m \<longrightarrow> k_load K a m w = k_load K a m (hs_world s))))"
    unfolding tk using assms(4,5) by (intro ends_on_h copy_retry_ends [OF ok])
  then show ?thesis
    by (rule ends_mono) (use pages_apart [OF wf i] assms(5) in \<open>auto simp: populated_def pgb_def\<close>)
qed

lemma load_missing_ends:
  assumes ok: "guest_ok K yield uffd ready present busy" and src: "source_ok K b file ready present"
    and wf: "backend_wf b" and b: "hs_backend s = b" and i: "i < n_pages b"
    and buf: "pg_size b i \<le> length (hs_buf s)" and rdy: "ready (hs_world s)"
    and np: "pg_addr b i \<notin> present (hs_world s)"
  shows "ends (load_missing K yield uffd (fault_of b i) s) (\<lambda>r t. r \<noteq> Inl Panic \<and> (r = Inr () \<longrightarrow>
    hs_backend t = with_states b ((st b)(i := STATE_SHARED_READY)) \<and> length (hs_buf t) = length (hs_buf s) \<and>
    hs_served t = hs_served s + 1 \<and> hs_dirtied t = hs_dirtied s \<and>
    populated K b file ready present {i} (hs_world s) (hs_world t)))"
proof -
  let ?f = "fault_of b i" and ?b1 = "with_states b ((st b)(i := STATE_LOADING))"
  note idx = fault_index(1) [OF wf i]
  have i1: "i < n_pages ?b1" and f1: "fault_of ?b1 i = ?f" using i wf by simp_all
  have src1: "source_ok K ?b1 file ready present" using src wf by simp
  let ?s1 = "s\<lparr>hs_backend := ?b1\<rparr>"
  have st1: "state_store (tf_page_index ?f) STATE_LOADING s = Some (Inr (), ?s1)" using idx i b by simp
  have "ends (run_bind (read_into_buf K ?f ?s1) (\<lambda>_ s.
     run_bind (on_h (copy_retry K yield uffd (tf_page_addr ?f) (take (unat (tf_page_size ?f)) (hs_buf s)) (tf_page_size ?f)) s) (\<lambda>copied s.
     run_bind (state_store (tf_page_index ?f) STATE_SHARED_READY s) (\<lambda>_ s.
     run_bind (if copied then run_ret () s else wake_warn K uffd ?f s) (\<lambda>_ s.
       run_ret () (s\<lparr>hs_served := hs_served s + 1\<rparr>))))))
    (\<lambda>r t. r \<noteq> Inl Panic \<and> (r = Inr () \<longrightarrow>
    hs_backend t = with_states b ((st b)(i := STATE_SHARED_READY)) \<and> length (hs_buf t) = length (hs_buf s) \<and>
    hs_served t = hs_served s + 1 \<and> hs_dirtied t = hs_dirtied s \<and>
    populated K b file ready present {i} (hs_world s) (hs_world t)))"
  proof (rule ends_bind [OF read_into_buf_ends [OF src1 _ i1, unfolded f1]], goal_cases)
    case (5 u t)
    then obtain w where t: "t = ?s1\<lparr>hs_world := w, hs_buf := snap b file i @ drop (pg_size b i) (hs_buf s)\<rparr>"
      and und: "undisturbed K ready present (hs_world s) w" and len: "length (snap b file i) = pg_size b i"
      using wf i by auto
    have np1: "pg_addr b i \<notin> present (hs_world t)" using np und t by (simp add: undisturbed_def)
    show ?case
    proof (rule ends_bind [OF copy_page_ends [OF ok wf i np1 len, where rest = "drop (pg_size b i) (hs_buf s)"]], goal_cases)
      case 1
      show ?case using t wf i by simp
    next
      case (3 copied t2)
      then obtain w2 where c: "copied" and t2: "t2 = t\<lparr>hs_world := w2\<rparr>"
        and pop: "populated K b file ready present {i} (hs_world t) w2"
        by (cases copied) auto
      have "populated K b file ready present {i} (hs_world s) w2"
        using populated_undisturbed(1) [OF und] pop t by simp
      moreover have "with_states b (((st b)(i := STATE_LOADING))(i := STATE_SHARED_READY)) = with_states b ((st b)(i := STATE_SHARED_READY))"
        by simp
      ultimately show ?case using c t2 t idx i b len buf wf by simp
    qed auto
  qed (use assms in auto)
  with st1 show ?thesis by (simp add: load_missing_def)
qed

end
