(* ===== verification/Restore_Chunk.thy ===== *)
theory Restore_Chunk
  imports Restore_Proofs
begin

unbundle bit_operations_syntax

text \<open>
  The steps of a write-protect fault on a chunk of pages: acquiring the pages, loading those that
  are missing, replacing the chunk by a private copy, and marking its pages.
\<close>

section \<open>The chunk of a page\<close>

text \<open>The chunk of page \<open>i\<close>: the pages from \<open>c\<close> on, \<open>n\<close> of them.\<close>

definition chunk_at :: "restore_backend \<Rightarrow> nat \<Rightarrow> cow_chunk \<Rightarrow> nat \<Rightarrow> nat \<Rightarrow> bool" where
  "chunk_at b i ch c n \<longleftrightarrow>
     unat (cc_first_page_index ch) = c \<and> unat (cc_page_count ch) = n \<and>
     c \<le> i \<and> i < c + n \<and> c + n \<le> n_pages b \<and>
     cc_start_addr ch = pg_addr b c \<and> cc_page_size ch = tf_page_size (fault_of b i) \<and>
     unat (cc_len ch) = n * pg_size b i \<and> unat (cc_start_addr ch) + unat (cc_len ch) < 2 ^ 64 \<and>
     (\<forall>j. c \<le> j \<and> j < c + n \<longrightarrow>
        pg_size b j = pg_size b i \<and> unat (pg_addr b j) = unat (cc_start_addr ch) + (j - c) * pg_size b i)"

lemma page_end:
  assumes "backend_wf b" and "i < n_pages b"
  shows "unat (pg_addr b i) + pg_size b i < 2 ^ 64"
proof -
  obtain r p where h: "home (rb_ranges b) i = Some (r, p)" by (rule backend_page [OF assms])
  note H = backend_home [OF assms(1) h]
  show ?thesis using page_in_range [OF H(1,3)] H(1) h
    by (simp add: fault_of_def range_within_def range_wf_def)
qed

lemma chunk_at_ex:
  assumes wf: "backend_wf b" and i: "i < n_pages b"
  obtains ch c n where "cow_chunk_for_fault b (fault_of b i) = Inr (Some ch)" and "chunk_at b i ch c n"
proof -
  from chunk_exact [OF assms] obtain ch where ch: "cow_chunk_for_fault b (fault_of b i) = Inr (Some ch)"
    and F: "let first = unat (cc_first_page_index ch); count = unat (cc_page_count ch) in
      first \<le> i \<and> i < first + count \<and> first + count \<le> n_pages b \<and>
      cc_start_addr ch = pg_addr b first \<and> cc_page_size ch = tf_page_size (fault_of b i) \<and>
      unat (cc_len ch) = count * pg_size b i \<and>
      (\<forall>j. first \<le> j \<and> j < first + count \<longrightarrow>
         pg_size b j = pg_size b i \<and> unat (pg_addr b j) = unat (cc_start_addr ch) + (j - first) * pg_size b i \<and>
         cow_chunk_for_fault b (fault_of b j) = Inr (Some ch))" by (elim exE conjE)
  let ?c = "unat (cc_first_page_index ch)" and ?n = "unat (cc_page_count ch)"
  from F have bd: "?c \<le> i" "i < ?c + ?n" "?c + ?n \<le> n_pages b" and len: "unat (cc_len ch) = ?n * pg_size b i"
    and ch2: "cc_start_addr ch = pg_addr b ?c" "cc_page_size ch = tf_page_size (fault_of b i)"
    and pg: "\<And>j. ?c \<le> j \<Longrightarrow> j < ?c + ?n \<Longrightarrow> pg_size b j = pg_size b i \<and>
      unat (pg_addr b j) = unat (cc_start_addr ch) + (j - ?c) * pg_size b i"
    unfolding Let_def by (elim conjE, assumption | elim conjE, blast)+
  define l where "l = ?c + ?n - 1"
  have l: "?c \<le> l" "l < ?c + ?n" "l < n_pages b" and ln: "?n = (l - ?c) + 1" using bd unfolding l_def by linarith+
  have "unat (cc_len ch) = (l - ?c) * pg_size b i + pg_size b i" unfolding len by (subst ln) (simp add: add_mult_distrib)
  with page_end [OF wf l(3)] pg [OF l(1,2)] have "unat (cc_start_addr ch) + unat (cc_len ch) < 2 ^ 64" by simp
  with bd len ch2 have "chunk_at b i ch ?c ?n" unfolding chunk_at_def by (intro conjI allI impI) (use pg in blast)+
  with ch that show thesis by blast
qed

lemma chunk_atD:
  assumes "chunk_at b i ch c n"
  shows "unat (cc_first_page_index ch) = c" "unat (cc_page_count ch) = n" "c \<le> i" "i < c + n" "c + n \<le> n_pages b"
    "cc_start_addr ch = pg_addr b c" "cc_page_size ch = tf_page_size (fault_of b i)" "unat (cc_len ch) = n * pg_size b i"
    "unat (cc_start_addr ch) + unat (cc_len ch) < 2 ^ 64"
    "c \<le> j \<Longrightarrow> j < c + n \<Longrightarrow> pg_size b j = pg_size b i"
    "c \<le> j \<Longrightarrow> j < c + n \<Longrightarrow> unat (pg_addr b j) = unat (cc_start_addr ch) + (j - c) * pg_size b i"
  using assms unfolding chunk_at_def by (elim conjE, assumption | elim conjE, blast)+

lemma chunk_range:
  assumes "chunk_at b i ch c n" and "n_pages b < 2 ^ 64"
  shows "map (\<lambda>k. unat (cc_first_page_index ch + k)) (range_w 0 (cc_page_count ch)) = [c..<c + n]"
proof -
  note D = chunk_atD [OF assms(1)]
  have "unat (cc_first_page_index ch + word_of_nat k) = c + k" if "k < n" for k
  proof -
    have "k < 2 ^ 64" "c + k < 2 ^ 64" using that D(5) assms(2) by simp_all
    then show ?thesis using D(1) by (simp add: unat_add_nowrap unat_of_nat)
  qed
  then show ?thesis using D(2) by (auto simp: range_w_def intro!: nth_equalityI)
qed

text \<open>The fault record built for a page of the chunk is the fault of that page.\<close>

lemma chunk_fault:
  assumes wf: "backend_wf b" and ch: "chunk_at b i ch c n" and j: "c \<le> j" "j < c + n"
  shows "\<lparr>tf_page_addr = cc_start_addr ch + (word_of_nat j - cc_first_page_index ch) * cc_page_size ch,
      tf_page_size = cc_page_size ch, tf_page_index = word_of_nat j,
      tf_backend_offset = rp_backend_offset (rb_pages b ! j)\<rparr> = fault_of b j"
proof -
  note D = chunk_atD [OF ch]
  have jn: "j < n_pages b" using j D(5) by simp
  obtain r p where h: "home (rb_ranges b) j = Some (r, p)" by (rule backend_page [OF wf jn])
  have c64: "cc_first_page_index ch = word_of_nat c" unfolding D(1) [symmetric] by simp
  have d: "word_of_nat j - cc_first_page_index ch = word_of_nat (j - c)" using j by (simp add: c64 of_nat_diff)
  have le: "(j - c) * pg_size b i \<le> n * pg_size b i" using j by (intro mult_le_mono1) simp
  have top: "unat (cc_start_addr ch) + (j - c) * pg_size b i < 2 ^ 64" using D(8,9) le by linarith
  note le
  moreover have "n * pg_size b i < 2 ^ 64" using D(8) unat_lt [of "cc_len ch"] by simp
  ultimately have lim: "(j - c) * pg_size b i < 2 ^ 64" by (rule le_less_trans)
  moreover have "0 < pg_size b i" using fault_index(2) [OF wf jn] D(10) [OF j] by simp
  then have "j - c \<le> (j - c) * pg_size b i" by simp
  ultimately have "j - c < 2 ^ 64" by (meson le_less_trans)
  then have jc: "unat (word_of_nat (j - c) :: u64) = j - c" by (simp add: unat_of_nat)
  have "unat (word_of_nat (j - c) * cc_page_size ch) = (j - c) * pg_size b i"
    using lim jc D(7) by (simp add: unat_mult_nowrap)
  then have "unat (cc_start_addr ch + (word_of_nat j - cc_first_page_index ch) * cc_page_size ch) = unat (pg_addr b j)"
    unfolding d using top D(11) [OF j] by (subst unat_add_nowrap) simp_all
  then have a: "cc_start_addr ch + (word_of_nat j - cc_first_page_index ch) * cc_page_size ch = pg_addr b j"
    by (simp only: word_unat_eq_iff)
  have s: "cc_page_size ch = tf_page_size (fault_of b j)"
    using D(7) D(10) [OF j] by (simp add: word_unat_eq_iff)
  show ?thesis using h a s by (simp add: fault_of_def)
qed

lemma chunk_apart:
  assumes wf: "backend_wf b" and ch: "chunk_at b i ch c n" and j: "j < n_pages b" "\<not> (c \<le> j \<and> j < c + n)"
  shows "disjoint_ranges (cc_start_addr ch) (unat (cc_len ch)) (pg_addr b j) (pg_size b j)"
proof -
  note D = chunk_atD [OF ch]
  have "disjoint_ranges (cc_start_addr ch) (m * pg_size b i) (pg_addr b j) (pg_size b j)" if "0 < m" "m \<le> n" for m
    using that
  proof (induction m)
    case (Suc m)
    have k: "c \<le> c + m" "c + m < c + n" "c + m < n_pages b" "c + m \<noteq> j" using Suc.prems D(5) j(2) by auto
    from pages_apart [OF wf k(3) j(1) k(4)] D(10) [OF k(1,2)] D(11) [OF k(1,2)]
    have pa: "unat (cc_start_addr ch) + m * pg_size b i + pg_size b i \<le> unat (pg_addr b j) \<or>
        unat (pg_addr b j) + pg_size b j \<le> unat (cc_start_addr ch) + m * pg_size b i"
      by (simp add: disjoint_ranges_def)
    show ?case
    proof (cases m)
      case 0
      with pa show ?thesis by (simp add: disjoint_ranges_def)
    next
      case (Suc m')
      with Suc.IH Suc.prems have "disjoint_ranges (cc_start_addr ch) (m * pg_size b i) (pg_addr b j) (pg_size b j)" by simp
      with pa fault_index(2) [OF wf j(1)] show ?thesis by (auto simp: disjoint_ranges_def)
    qed
  qed simp
  from this [of n] D(3,4,8) show ?thesis by simp
qed

lemma pg_addr_inj:
  assumes "backend_wf b" and "i < n_pages b" and "j < n_pages b" and "pg_addr b i = pg_addr b j"
  shows "i = j"
  using pages_apart [OF assms(1-3)] fault_index(2) [OF assms(1,2)] fault_index(2) [OF assms(1,3)] assms(4)
  by (auto simp: disjoint_ranges_def)

section \<open>Acquiring and marking\<close>

abbreviation settled :: "u8 \<Rightarrow> bool" where
  "settled x \<equiv> x = STATE_UNLOADED \<or> x = STATE_SHARED_READY \<or> x = STATE_PRIVATE_DIRTY"

lemma states_differ [simp]:
  "STATE_UNLOADED \<noteq> STATE_SHARED_READY" "STATE_UNLOADED \<noteq> STATE_PRIVATE_DIRTY" "STATE_UNLOADED \<noteq> STATE_LOADING"
  "STATE_SHARED_READY \<noteq> STATE_UNLOADED" "STATE_PRIVATE_DIRTY \<noteq> STATE_UNLOADED" "STATE_LOADING \<noteq> STATE_UNLOADED"
  "STATE_LOADING \<noteq> STATE_SHARED_READY" "STATE_LOADING \<noteq> STATE_PRIVATE_DIRTY" "STATE_SHARED_READY \<noteq> STATE_PRIVATE_DIRTY"
  "STATE_SHARED_READY \<noteq> STATE_LOADING" "STATE_PRIVATE_DIRTY \<noteq> STATE_LOADING" "STATE_PRIVATE_DIRTY \<noteq> STATE_SHARED_READY"
  by (simp_all add: restore_state_defs)

lemma acquire_page_eq:
  assumes "hs_backend s = with_states b f" and "unat i < n_pages b" and "settled (f (unat i))"
  shows "acquire_page yield i s =
    (if f (unat i) = STATE_PRIVATE_DIRTY then Some (Inr None, s)
     else Some (Inr (Some (f (unat i))), s\<lparr>hs_backend := with_states b (f(unat i := STATE_LOADING))\<rparr>))"
  using assms by (subst acquire_page.simps) auto

lemma acquire_loop:
  assumes "hs_backend s = with_states b f" and "map (\<lambda>k. unat (a + k)) ks = js" and "distinct js"
    and "\<forall>j \<in> set js. j < n_pages b \<and> settled (f j)"
  shows "run_for (\<lambda>chunk_page acquired s.
      let i = a + chunk_page in
      run_bind (acquire_page yield i s) (\<lambda>old s.
        run_ret (case old of None \<Rightarrow> acquired | Some x \<Rightarrow> acquired @ [(i, x)]) s)) ks acc s =
    Some (Inr (acc @ map (\<lambda>j. (word_of_nat j, f j)) (filter (\<lambda>j. f j \<noteq> STATE_PRIVATE_DIRTY) js)),
      s\<lparr>hs_backend := with_states b (\<lambda>j. if j \<in> set js \<and> f j \<noteq> STATE_PRIVATE_DIRTY then STATE_LOADING else f j)\<rparr>)"
  using assms
proof (induction ks arbitrary: js s f acc)
  case Nil
  then show ?case by simp
next
  case (Cons k ks)
  let ?j = "unat (a + k)"
  from Cons.prems obtain js' where js: "js = ?j # js'" "map (\<lambda>k. unat (a + k)) ks = js'" "?j \<notin> set js'" "distinct js'"
    by (cases js) auto
  have wj: "word_of_nat ?j = a + k" by simp
  show ?case
  proof (cases "f ?j = STATE_PRIVATE_DIRTY")
    case True
    have "(\<lambda>j. if j \<in> set js' \<and> f j \<noteq> STATE_PRIVATE_DIRTY then STATE_LOADING else f j) =
        (\<lambda>j. if j \<in> set js \<and> f j \<noteq> STATE_PRIVATE_DIRTY then STATE_LOADING else f j)" using True js by auto
    with True Cons.IH [OF Cons.prems(1) js(2,4)] Cons.prems js show ?thesis
      by (simp add: acquire_page_eq [OF Cons.prems(1)])
  next
    case False
    define g where "g = f(?j := STATE_LOADING)"
    define s1 where "s1 = s\<lparr>hs_backend := with_states b g\<rparr>"
    have acq: "acquire_page yield (a + k) s = Some (Inr (Some (f ?j)), s1)"
      using False Cons.prems js by (simp add: acquire_page_eq [OF Cons.prems(1)] s1_def g_def)
    have gj: "g j = f j" if "j \<in> set js'" for j using that js(3) by (auto simp: g_def)
    have flt: "filter (\<lambda>j. g j \<noteq> STATE_PRIVATE_DIRTY) js' = filter (\<lambda>j. f j \<noteq> STATE_PRIVATE_DIRTY) js'"
      and mp: "map (\<lambda>j. (word_of_nat j :: u64, g j)) (filter (\<lambda>j. f j \<noteq> STATE_PRIVATE_DIRTY) js') =
        map (\<lambda>j. (word_of_nat j, f j)) (filter (\<lambda>j. f j \<noteq> STATE_PRIVATE_DIRTY) js')"
      by (auto simp: gj intro: filter_cong)
    have st: "(\<lambda>j. if j \<in> set js' \<and> g j \<noteq> STATE_PRIVATE_DIRTY then STATE_LOADING else g j) =
        (\<lambda>j. if j \<in> set js \<and> f j \<noteq> STATE_PRIVATE_DIRTY then STATE_LOADING else f j)"
      using False js by (auto simp: g_def)
    have "hs_backend s1 = with_states b g" "\<forall>j \<in> set js'. j < n_pages b \<and> settled (g j)"
      using Cons.prems(4) js by (simp_all add: s1_def gj)
    from Cons.IH [OF this(1) js(2,4) this(2)] False acq js(1) show ?thesis
      by (simp add: flt mp st wj Let_def) (simp add: s1_def)
  qed
qed

lemma mark_loop:
  assumes "hs_backend s = with_states b f" and "map (\<lambda>k. unat (a + k)) ks = js" and "\<forall>j \<in> set js. j < n_pages b"
  shows "run_for (\<lambda>k _ s. state_store (a + k) v s) ks () s =
    Some (Inr (), s\<lparr>hs_backend := with_states b (\<lambda>j. if j \<in> set js then v else f j)\<rparr>)"
  using assms
proof (induction ks arbitrary: js s f)
  case Nil
  then show ?case by simp
next
  case (Cons k ks)
  let ?j = "unat (a + k)" and ?js = "map (\<lambda>k. unat (a + k)) ks"
  define g where "g = f(?j := v)"
  define s1 where "s1 = s\<lparr>hs_backend := with_states b g\<rparr>"
  have st: "state_store (a + k) v s = Some (Inr (), s1)" using Cons.prems by (auto simp: s1_def g_def)
  have s1: "hs_backend s1 = with_states b g" and js: "\<forall>j \<in> set ?js. j < n_pages b"
    using Cons.prems by (auto simp: s1_def)
  have "(\<lambda>j. if j \<in> set ?js then v else g j) = (\<lambda>j. if j \<in> set js then v else f j)"
    using Cons.prems(2) by (auto simp: g_def)
  with st Cons.IH [OF s1 refl js] show ?case by (simp add: s1_def)
qed

section \<open>Loading the missing pages of the chunk\<close>

lemma load_acquired_ends:
  assumes ok: "guest_ok K yield uffd ready present busy" and src: "source_ok K b file ready present"
    and wf: "backend_wf b" and b: "hs_backend s = with_states b g" and ch: "chunk_at b i ch c n"
    and j: "c \<le> j" "j < c + n" and old: "old = STATE_UNLOADED"
    and buf: "pg_size b j \<le> length (hs_buf s)" and rdy: "ready (hs_world s)"
    and np: "pg_addr b j \<notin> present (hs_world s)"
  shows "ends (load_acquired K yield uffd ch (word_of_nat j, old) s) (\<lambda>r t. r \<noteq> Inl Panic \<and> (r = Inr () \<longrightarrow>
    hs_backend t = hs_backend s \<and> length (hs_buf t) = length (hs_buf s) \<and> hs_logged t = hs_logged s \<and>
    hs_served t = hs_served s + 1 \<and> hs_dirtied t = hs_dirtied s \<and>
    populated K b file ready present {j} (hs_world s) (hs_world t)))"
proof -
  let ?b1 = "with_states b g"
  have jn: "j < n_pages b" using j chunk_atD(5) [OF ch] by simp
  obtain rr p where h: "home (rb_ranges b) j = Some (rr, p)" by (rule backend_page [OF wf jn])
  have j64: "unat (word_of_nat j :: u64) = j" using jn backend_home(6) [OF wf h] by (simp add: unat_of_nat)
  have i1: "j < n_pages ?b1" and f1: "fault_of ?b1 j = fault_of b j" using jn wf by simp_all
  have src1: "source_ok K ?b1 file ready present" using src wf by simp
  note F = chunk_fault [OF wf ch j]
  have eq: "load_acquired K yield uffd ch (word_of_nat j, old) s =
      run_bind (read_into_buf K (fault_of b j) s) (\<lambda>_ s.
      run_bind (on_h (copy_retry K yield uffd (pg_addr b j) (take (pg_size b j) (hs_buf s)) (tf_page_size (fault_of b j))) s)
        (\<lambda>_ s. run_ret () (s\<lparr>hs_served := hs_served s + 1\<rparr>)))"
    using old b jn j64 by (simp add: load_acquired_def Let_def F [symmetric])
  show ?thesis unfolding eq
  proof (rule ends_bind [OF read_into_buf_ends [OF src1 b i1, unfolded f1]], goal_cases)
    case (4 u t)
    then obtain w where t: "t = s\<lparr>hs_world := w, hs_buf := snap b file j @ drop (pg_size b j) (hs_buf s)\<rparr>"
      and und: "undisturbed K ready present (hs_world s) w" and len: "length (snap b file j) = pg_size b j"
      using wf jn by auto
    have np1: "pg_addr b j \<notin> present (hs_world t)" using np und t by (simp add: undisturbed_def)
    show ?case
    proof (rule ends_bind [OF copy_page_ends [OF ok wf jn np1 len, where rest = "drop (pg_size b j) (hs_buf s)"]], goal_cases)
      case 1
      show ?case using t by simp
    next
      case (3 copied t2)
      then obtain w2 where t2: "t2 = t\<lparr>hs_world := w2\<rparr>"
        and pop: "populated K b file ready present {j} (hs_world t) w2"
        by (cases copied) auto
      have "populated K b file ready present {j} (hs_world s) w2"
        using populated_undisturbed(1) [OF und] pop t by simp
      then show ?case using t2 t len buf by simp
    qed auto
  qed (use buf rdy in auto)
qed

lemma load_loop:
  assumes ok: "guest_ok K yield uffd ready present busy" and src: "source_ok K b file ready present"
    and wf: "backend_wf b" and ch: "chunk_at b i ch c n"
  shows "hs_backend s = with_states b g \<Longrightarrow> distinct js \<Longrightarrow> \<forall>j \<in> set js. c \<le> j \<and> j < c + n \<Longrightarrow>
    pg_size b i \<le> length (hs_buf s) \<Longrightarrow> ready (hs_world s) \<Longrightarrow>
    \<forall>j \<in> set js. f j = STATE_UNLOADED \<longrightarrow> pg_addr b j \<notin> present (hs_world s) \<Longrightarrow>
    ends (run_for (\<lambda>a _. load_acquired K yield uffd ch a) (map (\<lambda>j. (word_of_nat j, f j)) js) () s)
    (\<lambda>r t. r \<noteq> Inl Panic \<and> (r = Inr () \<longrightarrow>
      hs_backend t = hs_backend s \<and> length (hs_buf t) = length (hs_buf s) \<and> hs_logged t = hs_logged s \<and>
      hs_served t = hs_served s + word_of_nat (length (filter (\<lambda>j. f j = STATE_UNLOADED) js)) \<and>
      hs_dirtied t = hs_dirtied s \<and>
      populated K b file ready present {j \<in> set js. f j = STATE_UNLOADED} (hs_world s) (hs_world t)))"
proof (induction js arbitrary: s)
  case Nil
  then show ?case by simp
next
  case (Cons j js)
  have jc: "c \<le> j" "j < c + n" using Cons.prems by simp_all
  show ?case
  proof (cases "f j = STATE_UNLOADED")
    case False
    moreover have "{k \<in> set (j # js). f k = STATE_UNLOADED} = {k \<in> set js. f k = STATE_UNLOADED}"
      using False by auto
    ultimately show ?thesis using Cons.IH [of s] Cons.prems by (simp add: load_acquired_def)
  next
    case True
    have sz: "pg_size b j = pg_size b i" by (rule chunk_atD(10) [OF ch jc])
    have un: "{k \<in> set (j # js). f k = STATE_UNLOADED} = {j} \<union> {k \<in> set js. f k = STATE_UNLOADED}"
      using True by auto
    have first: "ends (load_acquired K yield uffd ch (word_of_nat j, f j) s) (\<lambda>r t. r \<noteq> Inl Panic \<and> (r = Inr () \<longrightarrow>
        hs_backend t = hs_backend s \<and> length (hs_buf t) = length (hs_buf s) \<and> hs_logged t = hs_logged s \<and>
        hs_served t = hs_served s + 1 \<and> hs_dirtied t = hs_dirtied s \<and>
        populated K b file ready present {j} (hs_world s) (hs_world t)))"
      using Cons.prems True sz by (intro load_acquired_ends [OF ok src wf _ ch jc]) auto
    have "ends (run_bind (load_acquired K yield uffd ch (word_of_nat j, f j) s)
        (run_for (\<lambda>a _. load_acquired K yield uffd ch a) (map (\<lambda>j. (word_of_nat j, f j)) js)))
      (\<lambda>r t. r \<noteq> Inl Panic \<and> (r = Inr () \<longrightarrow>
        hs_backend t = hs_backend s \<and> length (hs_buf t) = length (hs_buf s) \<and> hs_logged t = hs_logged s \<and>
        hs_served t = hs_served s + word_of_nat (length (filter (\<lambda>j. f j = STATE_UNLOADED) (j # js))) \<and>
        hs_dirtied t = hs_dirtied s \<and>
        populated K b file ready present {k \<in> set (j # js). f k = STATE_UNLOADED} (hs_world s) (hs_world t)))"
      unfolding un
    proof (rule ends_bind [OF first], goal_cases)
      case (2 u t)
      then have t: "hs_backend t = hs_backend s" "length (hs_buf t) = length (hs_buf s)" "hs_logged t = hs_logged s"
        "hs_served t = hs_served s + 1" "hs_dirtied t = hs_dirtied s"
        and pop: "populated K b file ready present {j} (hs_world s) (hs_world t)" by auto
      have "pg_addr b k \<noteq> pg_addr b j" if "k \<in> set js" for k
        using pg_addr_inj [OF wf, of k j] Cons.prems that jc chunk_atD(5) [OF ch] by force
      then have np: "\<forall>k \<in> set js. f k = STATE_UNLOADED \<longrightarrow> pg_addr b k \<notin> present (hs_world t)"
        using Cons.prems(6) pop by (auto simp: populated_def)
      have "ends (run_for (\<lambda>a _. load_acquired K yield uffd ch a) (map (\<lambda>j. (word_of_nat j, f j)) js) () t)
        (\<lambda>r t'. r \<noteq> Inl Panic \<and> (r = Inr () \<longrightarrow>
          hs_backend t' = hs_backend t \<and> length (hs_buf t') = length (hs_buf t) \<and> hs_logged t' = hs_logged t \<and>
          hs_served t' = hs_served t + word_of_nat (length (filter (\<lambda>j. f j = STATE_UNLOADED) js)) \<and>
          hs_dirtied t' = hs_dirtied t \<and>
          populated K b file ready present {k \<in> set js. f k = STATE_UNLOADED} (hs_world t) (hs_world t')))"
        using Cons.prems t pop np by (intro Cons.IH) (simp_all add: populated_def)
      moreover have "u = ()" by simp
      ultimately show ?case
        by (simp only:) (erule ends_mono, use t True populated_trans [OF pop] in auto)
    qed auto
    then show ?thesis by simp
  qed
qed

section \<open>The private copy\<close>

lemma unat_addr_plus: "unat a + off < 2 ^ 64 \<Longrightarrow> unat ((a :: u64) + word_of_nat off) = unat a + off"
  by (subst unat_add_nowrap) (simp_all add: unat_of_nat)

lemma load_slice:
  assumes "guest_ok K yield uffd ready present busy" and "unat a + n < 2 ^ 64" and "off + m \<le> n"
  shows "k_load K (a + word_of_nat off) m w = take m (drop off (k_load K a n w))"
proof -
  note L = guest_okD(2) [OF assms(1), unfolded load_split_def, rule_format]
    and len = store_okD(1) [OF guest_okD(1) [OF assms(1)]]
  define k where "k = n - (off + m)"
  have n: "n = off + (m + k)" using assms(3) by (simp add: k_def)
  have off: "unat (a + word_of_nat off) = unat a + off"
    using assms(2,3) by (intro unat_addr_plus) simp
  have 1: "k_load K a n w = k_load K a off w @ k_load K (a + word_of_nat off) (m + k) w"
    unfolding n by (rule L) (use assms(2) n in simp)
  have 2: "k_load K (a + word_of_nat off) (m + k) w =
      k_load K (a + word_of_nat off) m w @ k_load K (a + word_of_nat off + word_of_nat m) k w"
    by (rule L) (use assms(2) n off in simp)
  show ?thesis unfolding 1 2 using len by simp
qed

lemma privatise_ends:
  assumes ok: "guest_ok K yield uffd ready present busy" and wf: "backend_wf b" and ch: "chunk_at b i ch c n"
  shows "ends (privatise K uffd ch s) (\<lambda>r t. r \<noteq> Inl Panic \<and> (r = Inr () \<longrightarrow>
    (\<exists>w. t = s\<lparr>hs_world := w\<rparr> \<and> populated K b file ready present {} (hs_world s) w)))"
proof -
  let ?a = "cc_start_addr ch" and ?l = "unat (cc_len ch)" and ?snap = "k_load K (cc_start_addr ch) (unat (cc_len ch)) (hs_world s)"
  note D = chunk_atD [OF ch] and S = guest_okD(1) [OF ok]
  have "ends (run_bind (on_h (writeprotect_dontwake K uffd ?a (cc_len ch)) s) (\<lambda>_ s.
        case k_mmap K ?a (cc_len ch) (PROT_READ OR PROT_WRITE) (MAP_PRIVATE OR MAP_ANONYMOUS OR MAP_FIXED) (-1) 0 (hs_world s) of
          (private_page, w) \<Rightarrow>
          if is_map_failed private_page then run_err (Os (k_errno K w)) (s\<lparr>hs_world := w\<rparr>)
          else run_ret () (s\<lparr>hs_world := k_store K private_page ?snap w\<rparr>)))
      (\<lambda>r t. r \<noteq> Inl Panic \<and> (r = Inr () \<longrightarrow>
        (\<exists>w. t = s\<lparr>hs_world := w\<rparr> \<and> populated K b file ready present {} (hs_world s) w)))"
  proof (rule ends_bind [OF ends_on_h [OF writeprotect_ends [OF ok]]], goal_cases)
    case (2 u t)
    then obtain w1 where t: "t = s\<lparr>hs_world := w1\<rparr>" and und: "undisturbed K ready present (hs_world s) w1" by auto
    obtain q w2 where m: "k_mmap K ?a (cc_len ch) (PROT_READ OR PROT_WRITE) (MAP_PRIVATE OR MAP_ANONYMOUS OR MAP_FIXED) (-1) 0 w1 = (q, w2)"
      by fastforce
    have fixed: "(MAP_PRIVATE OR MAP_ANONYMOUS OR MAP_FIXED) AND MAP_FIXED \<noteq> 0"
      by (simp add: MAP_PRIVATE_def MAP_ANONYMOUS_def MAP_FIXED_def)
    show ?case
    proof (cases "is_map_failed q")
      case True
      with m t show ?thesis by simp
    next
      case False
      note M = guest_okD(5) [OF ok m fixed False]
      let ?w3 = "k_store K q ?snap w2"
      have len: "length ?snap = ?l" by (rule store_okD(1) [OF S])
      have whole: "k_load K ?a ?l ?w3 = k_load K ?a ?l (hs_world s)"
        using M store_okD(2) [OF S len] by simp
      have "pgb K b j ?w3 = pgb K b j (hs_world s)" if j: "j < n_pages b" for j
      proof (cases "c \<le> j \<and> j < c + n")
        case True
        have "(j - c + 1) * pg_size b i \<le> n * pg_size b i" using True by (intro mult_le_mono1) arith
        then have off: "(j - c) * pg_size b i + pg_size b i \<le> ?l" using D(8) by simp
        have "unat (?a + word_of_nat ((j - c) * pg_size b i)) = unat ?a + (j - c) * pg_size b i"
          using off D(9) by (intro unat_addr_plus) simp
        then have ad: "pg_addr b j = ?a + word_of_nat ((j - c) * pg_size b i)"
          using D(11) True by (simp only: word_unat_eq_iff)
        have sz: "pg_size b j = pg_size b i" using D(10) True by simp
        show ?thesis unfolding pgb_def ad sz load_slice [OF ok D(9) off] whole ..
      next
        case False
        from chunk_apart [OF wf ch j False] M store_okD(3) [OF S, of q ?snap] len und
        show ?thesis by (simp add: pgb_def undisturbed_def)
      qed
      moreover have "present ?w3 = present (hs_world s)" "ready ?w3 = ready (hs_world s)"
        using M und guest_okD(3,4) [OF ok] by (simp_all add: undisturbed_def)
      ultimately show ?thesis using m t False by simp (intro exI [of _ ?w3], simp)
    qed
  qed auto
  then show ?thesis by (simp add: privatise_def Let_def)
qed

end
