(* ===== verification/Restore_Correct.thy ===== *)
theory Restore_Correct
  imports Restore_Chunk
begin

unbundle bit_operations_syntax

text \<open>
  Correctness of the restore handler as a whole. \<open>hst\<close> relates a handler state to the page states
  and to the memory \<open>G\<close> the guest would have if it had been restored eagerly; every turn of the
  handler preserves it, and so does every write of the guest to a page it owns.
\<close>

section \<open>The handler invariant\<close>

definition view_ok ::
  "'w kernel \<Rightarrow> restore_backend \<Rightarrow> bytes \<Rightarrow> ('w \<Rightarrow> u64 set) \<Rightarrow> (nat \<Rightarrow> u8) \<Rightarrow> (nat \<Rightarrow> bytes) \<Rightarrow> 'w \<Rightarrow> bool" where
  "view_ok K b file present f G w \<longleftrightarrow>
     (\<forall>i < n_pages b. if f i = STATE_UNLOADED then pg_addr b i \<notin> present w \<and> G i = snap b file i
                      else pgb K b i w = G i)"

definition pages_in :: "restore_backend \<Rightarrow> (nat \<Rightarrow> u8) \<Rightarrow> (u8 \<Rightarrow> bool) \<Rightarrow> nat set" where
  "pages_in b f P = {i. i < n_pages b \<and> P (f i)}"

definition hst ::
  "'w kernel \<Rightarrow> restore_backend \<Rightarrow> bytes \<Rightarrow> ('w \<Rightarrow> bool) \<Rightarrow> ('w \<Rightarrow> u64 set) \<Rightarrow> (nat \<Rightarrow> u8) \<Rightarrow> (nat \<Rightarrow> bytes) \<Rightarrow>
     'w hstate \<Rightarrow> bool" where
  "hst K b file ready present f G s \<longleftrightarrow>
     hs_backend s = with_states b f \<and> (\<forall>i < n_pages b. settled (f i)) \<and>
     (\<forall>i < n_pages b. pg_size b i \<le> length (hs_buf s)) \<and> ready (hs_world s) \<and>
     view_ok K b file present f G (hs_world s) \<and>
     hs_served s = word_of_nat (card (pages_in b f (\<lambda>x. x \<noteq> STATE_UNLOADED))) \<and>
     hs_dirtied s = word_of_nat (card (pages_in b f (\<lambda>x. x = STATE_PRIVATE_DIRTY)))"

lemma hstD:
  assumes "hst K b file ready present f G s"
  shows "hs_backend s = with_states b f" "i < n_pages b \<Longrightarrow> settled (f i)"
    "i < n_pages b \<Longrightarrow> pg_size b i \<le> length (hs_buf s)" "ready (hs_world s)"
    "view_ok K b file present f G (hs_world s)"
    "hs_served s = word_of_nat (card (pages_in b f (\<lambda>x. x \<noteq> STATE_UNLOADED)))"
    "hs_dirtied s = word_of_nat (card (pages_in b f (\<lambda>x. x = STATE_PRIVATE_DIRTY)))"
  using assms by (simp_all add: hst_def)

lemma pages_in_cong:
  "(\<And>i. i < n_pages b \<Longrightarrow> P (f i) = P (g i)) \<Longrightarrow> pages_in b f P = pages_in b g P"
  by (auto simp: pages_in_def)

lemma hst_cong:
  assumes "\<And>i. i < n_pages b \<Longrightarrow> f i = g i"
  shows "hst K b file ready present f G s = hst K b file ready present g G s"
proof -
  have "with_states b f = with_states b g" by (rule with_states_cong) (rule assms)
  with assms show ?thesis by (simp add: hst_def view_ok_def pages_in_def cong: conj_cong)
qed

lemma hst_world:
  assumes "hst K b file ready present f G s" and "undisturbed K ready present (hs_world s) w"
  shows "hst K b file ready present f G (s\<lparr>hs_world := w\<rparr>)"
proof -
  have "pgb K b i w = pgb K b i (hs_world s)" for i using assms(2) by (simp add: undisturbed_def pgb_def)
  with assms show ?thesis by (simp add: hst_def view_ok_def undisturbed_def)
qed

lemma card_pages_split:
  assumes "\<And>i. i < n_pages b \<Longrightarrow> P (g i) \<longleftrightarrow> P (f i) \<or> i \<in> X" and "X \<subseteq> {..<n_pages b}" and "\<And>i. i \<in> X \<Longrightarrow> \<not> P (f i)"
  shows "card (pages_in b g P) = card (pages_in b f P) + card X"
proof -
  have "pages_in b g P = pages_in b f P \<union> X" using assms(1,2) by (auto simp: pages_in_def)
  moreover have "pages_in b f P \<inter> X = {}" using assms(3) by (auto simp: pages_in_def)
  moreover have "finite X" using assms(2) finite_subset by blast
  ultimately show ?thesis by (simp add: card_Un_disjoint pages_in_def)
qed

section \<open>Missing faults\<close>

definition load_state :: "(nat \<Rightarrow> u8) \<Rightarrow> nat \<Rightarrow> nat \<Rightarrow> u8" where
  "load_state f i = (if f i = STATE_UNLOADED then f(i := STATE_SHARED_READY) else f)"

lemma missing_fault_ends:
  assumes ok: "guest_ok K yield uffd ready present busy" and src: "source_ok K b file ready present"
    and wf: "backend_wf b" and inv: "hst K b file ready present f G s" and i: "i < n_pages b"
  shows "ends (missing_fault K yield uffd (fault_of b i) s) (\<lambda>r t. r \<noteq> Inl Panic \<and>
    (r = Inr () \<longrightarrow> hst K b file ready present (load_state f i) G t))"
proof -
  note H = hstD [OF inv] and idx = fault_index(1) [OF wf i]
  have load: "state_load (tf_page_index (fault_of b i)) s = Some (Inr (f i), s)" using H(1) idx i by simp
  show ?thesis
  proof (cases "f i = STATE_UNLOADED")
    case False
    then have "missing_fault K yield uffd (fault_of b i) s = wake_warn K uffd (fault_of b i) s"
      using load H(2) [OF i] by (auto simp: missing_fault_def)
    moreover have "ends (wake_warn K uffd (fault_of b i) s) (\<lambda>r t. r \<noteq> Inl Panic \<and>
        (r = Inr () \<longrightarrow> hst K b file ready present (load_state f i) G t))"
      by (rule ends_mono [OF wake_warn_ends [OF ok]]) (use False hst_world [OF inv] in \<open>auto simp: load_state_def\<close>)
    ultimately show ?thesis by simp
  next
    case True
    let ?b = "with_states b f" and ?g = "f(i := STATE_SHARED_READY)"
    have np: "pg_addr b i \<notin> present (hs_world s)" and Gi: "G i = snap b file i"
      using H(5) i True by (auto simp: view_ok_def)
    have ws: "with_states ?b ((st ?b)(i := STATE_SHARED_READY)) = with_states b ?g"
      by (rule trans [OF with_states_with_states with_states_upd])
    have pw: "populated K ?b file ready present {i} = populated K b file ready present {i}"
      using wf i by (intro ext) (auto simp: populated_def)
    have "ends (load_missing K yield uffd (fault_of ?b i) s) (\<lambda>r t. r \<noteq> Inl Panic \<and> (r = Inr () \<longrightarrow>
      hs_backend t = with_states ?b ((st ?b)(i := STATE_SHARED_READY)) \<and> length (hs_buf t) = length (hs_buf s) \<and>
      hs_served t = hs_served s + 1 \<and> hs_dirtied t = hs_dirtied s \<and>
      populated K ?b file ready present {i} (hs_world s) (hs_world t)))"
      by (rule load_missing_ends [OF ok]) (use src wf H i np in simp_all)
    then have "ends (load_missing K yield uffd (fault_of b i) s) (\<lambda>r t. r \<noteq> Inl Panic \<and>
        (r = Inr () \<longrightarrow> hst K b file ready present ?g G t))"
    proof (simp only: fault_of_with_states [OF wf], elim ends_mono, intro conjI impI)
      fix r :: "(io_error, unit) outcome" and t :: "'a hstate"
      assume "r \<noteq> Inl Panic \<and> (r = Inr () \<longrightarrow>
        hs_backend t = with_states ?b ((st ?b)(i := STATE_SHARED_READY)) \<and> length (hs_buf t) = length (hs_buf s) \<and>
        hs_served t = hs_served s + 1 \<and> hs_dirtied t = hs_dirtied s \<and>
        populated K ?b file ready present {i} (hs_world s) (hs_world t))" and "r = Inr ()"
      then have t: "hs_backend t = with_states b ?g" "length (hs_buf t) = length (hs_buf s)"
        "hs_served t = hs_served s + 1" "hs_dirtied t = hs_dirtied s"
        and pop: "populated K b file ready present {i} (hs_world s) (hs_world t)" unfolding ws pw by simp_all
      have "card (pages_in b ?g (\<lambda>x. x \<noteq> STATE_UNLOADED)) = card (pages_in b f (\<lambda>x. x \<noteq> STATE_UNLOADED)) + card {i}"
        by (rule card_pages_split) (use i True in auto)
      moreover have "pages_in b ?g (\<lambda>x. x = STATE_PRIVATE_DIRTY) = pages_in b f (\<lambda>x. x = STATE_PRIVATE_DIRTY)"
        by (rule pages_in_cong) (use True in auto)
      moreover have "pg_addr b j \<noteq> pg_addr b i" if "j < n_pages b" "j \<noteq> i" for j
        using pg_addr_inj [OF wf that(1) i] that(2) by blast
      then have "view_ok K b file present ?g G (hs_world t)"
        using H(5) pop Gi unfolding view_ok_def populated_def by auto
      ultimately show "hst K b file ready present ?g G t"
        using t H pop by (simp add: hst_def populated_def)
    qed simp
    with True load show ?thesis by (simp add: missing_fault_def load_state_def)
  qed
qed

section \<open>Write-protect faults\<close>

definition dirty_chunk :: "(nat \<Rightarrow> u8) \<Rightarrow> nat \<Rightarrow> nat \<Rightarrow> nat \<Rightarrow> u8" where
  "dirty_chunk f c n = (\<lambda>j. if c \<le> j \<and> j < c + n then STATE_PRIVATE_DIRTY else f j)"

lemma length_filter_upt: "length (filter P [c..<d]) = card {j. c \<le> j \<and> j < d \<and> P j}"
proof -
  have "length (filter P [c..<d]) = card (set (filter P [c..<d]))"
    by (rule distinct_card [symmetric]) simp
  also have "set (filter P [c..<d]) = {j. c \<le> j \<and> j < d \<and> P j}" by auto
  finally show ?thesis .
qed

text \<open>The page states, the view and the counters after a chunk has been made private.\<close>

lemma hst_dirty_chunk:
  assumes wf: "backend_wf b" and inv: "hst K b file ready present f G s" and ch: "chunk_at b i ch c n"
    and t: "hs_backend t = with_states b (dirty_chunk f c n)" "length (hs_buf t) = length (hs_buf s)"
    and served: "hs_served t = hs_served s + word_of_nat (length (filter (\<lambda>j. f j = STATE_UNLOADED) [c..<c + n]))"
    and dirtied: "hs_dirtied t = hs_dirtied s + word_of_nat (length (filter (\<lambda>j. f j \<noteq> STATE_PRIVATE_DIRTY) [c..<c + n]))"
    and pop: "populated K b file ready present {j. c \<le> j \<and> j < c + n \<and> f j = STATE_UNLOADED} (hs_world s) (hs_world t)"
  shows "hst K b file ready present (dirty_chunk f c n) G t"
proof -
  note H = hstD [OF inv]
  have cn: "c + n \<le> n_pages b" by (rule chunk_atD(5) [OF ch])
  let ?g = "dirty_chunk f c n"
  have "card (pages_in b ?g (\<lambda>x. x \<noteq> STATE_UNLOADED)) =
      card (pages_in b f (\<lambda>x. x \<noteq> STATE_UNLOADED)) + card {j. c \<le> j \<and> j < c + n \<and> f j = STATE_UNLOADED}"
    by (rule card_pages_split) (use cn in \<open>auto simp: dirty_chunk_def\<close>)
  then have sv: "hs_served t = word_of_nat (card (pages_in b ?g (\<lambda>x. x \<noteq> STATE_UNLOADED)))"
    using served H(6) by (simp add: length_filter_upt)
  have "card (pages_in b ?g (\<lambda>x. x = STATE_PRIVATE_DIRTY)) =
      card (pages_in b f (\<lambda>x. x = STATE_PRIVATE_DIRTY)) + card {j. c \<le> j \<and> j < c + n \<and> f j \<noteq> STATE_PRIVATE_DIRTY}"
    by (rule card_pages_split) (use cn in \<open>auto simp: dirty_chunk_def\<close>)
  then have dt: "hs_dirtied t = word_of_nat (card (pages_in b ?g (\<lambda>x. x = STATE_PRIVATE_DIRTY)))"
    using dirtied H(7) by (simp add: length_filter_upt)
  have "view_ok K b file present ?g G (hs_world t)"
    unfolding view_ok_def
  proof (intro allI impI)
    fix j assume j: "j < n_pages b"
    have vj: "if f j = STATE_UNLOADED then pg_addr b j \<notin> present (hs_world s) \<and> G j = snap b file j
        else pgb K b j (hs_world s) = G j" using H(5) j by (simp add: view_ok_def)
    have pj: "pgb K b j (hs_world t) = (if c \<le> j \<and> j < c + n \<and> f j = STATE_UNLOADED then snap b file j
        else pgb K b j (hs_world s))" using pop j by (simp add: populated_def)
    show "if ?g j = STATE_UNLOADED then pg_addr b j \<notin> present (hs_world t) \<and> G j = snap b file j
        else pgb K b j (hs_world t) = G j"
    proof (cases "?g j = STATE_UNLOADED")
      case True
      then have out: "\<not> (c \<le> j \<and> j < c + n)" "f j = STATE_UNLOADED" by (auto simp: dirty_chunk_def split: if_splits)
      have "pg_addr b j \<noteq> pg_addr b k" if "c \<le> k" "k < c + n" for k
        using pg_addr_inj [OF wf j, of k] that cn out by force
      with pop vj out have "pg_addr b j \<notin> present (hs_world t)" by (auto simp: populated_def)
      with True out vj show ?thesis by simp
    next
      case False
      with vj pj show ?thesis by (auto simp: dirty_chunk_def split: if_splits)
    qed
  qed
  moreover have "\<forall>j < n_pages b. settled (?g j)" using H(2) by (simp add: dirty_chunk_def)
  ultimately show ?thesis using t H(3,4) sv dt pop by (simp add: hst_def populated_def)
qed

lemma wp_fault_ends:
  assumes ok: "guest_ok K yield uffd ready present busy" and src: "source_ok K b file ready present"
    and wf: "backend_wf b" and inv: "hst K b file ready present f G s" and i: "i < n_pages b"
    and chunk: "cow_chunk_for_fault b (fault_of b i) = Inr (Some ch)" and ch: "chunk_at b i ch c n"
  shows "ends (wp_fault K yield uffd (fault_of b i) s) (\<lambda>r t. r \<noteq> Inl Panic \<and>
    (r = Inr () \<longrightarrow> hst K b file ready present (dirty_chunk f c n) G t))"
proof -
  note H = hstD [OF inv] and D = chunk_atD [OF ch]
  obtain rr p where h: "home (rb_ranges b) i = Some (rr, p)" by (rule backend_page [OF wf i])
  note n64 = backend_home(6) [OF wf h]
  let ?js = "filter (\<lambda>j. f j \<noteq> STATE_PRIVATE_DIRTY) [c..<c + n]"
  define acquired where "acquired = map (\<lambda>j. (word_of_nat j :: u64, f j)) ?js"
  define g where "g = (\<lambda>j. if j \<in> set [c..<c + n] \<and> f j \<noteq> STATE_PRIVATE_DIRTY then STATE_LOADING else f j)"
  define s1 where "s1 = s\<lparr>hs_backend := with_states b g\<rparr>"
  have acq: "acquire_chunk yield ch s = Some (Inr acquired, s1)"
  proof -
    have "\<forall>j \<in> set [c..<c + n]. j < n_pages b \<and> settled (f j)" using H(2) D(5) by simp
    from acquire_loop [OF H(1) chunk_range [OF ch n64] distinct_upt this, of yield "[]"]
    show ?thesis by (simp add: acquire_chunk_def acquired_def s1_def g_def)
  qed
  have szb: "\<not> unat (cc_page_size ch) > length (hs_buf s)" using H(3) [OF i] D(7) by simp
  let ?Q = "\<lambda>r t. r \<noteq> Inl Panic \<and> (r = Inr () \<longrightarrow> hst K b file ready present (dirty_chunk f c n) G t)"
  have eq: "wp_fault K yield uffd (fault_of b i) s =
      (if acquired = [] then wake_warn K uffd (fault_of b i) s1
       else run_bind (run_for (\<lambda>a _. load_acquired K yield uffd ch a) acquired () s1) (\<lambda>_ s.
         run_bind (privatise K uffd ch s) (\<lambda>_ s.
         run_bind (mark_chunk ch s) (\<lambda>_ s.
           on_h (uffd_wake K uffd (cc_start_addr ch) (cc_len ch))
             (s\<lparr>hs_dirtied := hs_dirtied s + word_of_nat (length acquired)\<rparr>)))))"
    using chunk H(1) szb acq by (simp add: wp_fault_def)
  show ?thesis
  proof (cases "acquired = []")
    case True
    then have all: "f j = STATE_PRIVATE_DIRTY" if "c \<le> j" "j < c + n" for j
      using that by (auto simp: acquired_def filter_empty_conv)
    have "with_states b g = with_states b f" by (rule with_states_cong) (simp add: g_def all)
    then have s1: "s1 = s" using H(1) by (simp add: s1_def)
    have same: "dirty_chunk f c n = f" using all by (auto simp: dirty_chunk_def)
    have "ends (wake_warn K uffd (fault_of b i) s) ?Q"
      by (rule ends_mono [OF wake_warn_ends [OF ok]]) (use hst_world [OF inv] same in auto)
    with True eq s1 show ?thesis by simp
  next
    case False
    have np: "\<forall>j \<in> set ?js. f j = STATE_UNLOADED \<longrightarrow> pg_addr b j \<notin> present (hs_world s1)"
      using H(5) D(5) by (auto simp: view_ok_def s1_def)
    have "ends (run_bind (run_for (\<lambda>a _. load_acquired K yield uffd ch a) acquired () s1) (\<lambda>_ s.
         run_bind (privatise K uffd ch s) (\<lambda>_ s.
         run_bind (mark_chunk ch s) (\<lambda>_ s.
           on_h (uffd_wake K uffd (cc_start_addr ch) (cc_len ch))
             (s\<lparr>hs_dirtied := hs_dirtied s + word_of_nat (length acquired)\<rparr>))))) ?Q"
      unfolding acquired_def
    proof (rule ends_bind [OF load_loop [OF ok src wf ch, of s1 g ?js f]], goal_cases)
      case (8 u s2)
      have flt: "f j \<noteq> STATE_PRIVATE_DIRTY \<and> f j = STATE_UNLOADED \<longleftrightarrow> f j = STATE_UNLOADED" for j by auto
      have "{j \<in> set ?js. f j = STATE_UNLOADED} = {j. c \<le> j \<and> j < c + n \<and> f j = STATE_UNLOADED}" by auto
      with 8 have s2: "hs_backend s2 = with_states b g" "length (hs_buf s2) = length (hs_buf s)"
        "hs_served s2 = hs_served s + word_of_nat (length (filter (\<lambda>j. f j = STATE_UNLOADED) [c..<c + n]))"
        "hs_dirtied s2 = hs_dirtied s"
        and pop: "populated K b file ready present {j. c \<le> j \<and> j < c + n \<and> f j = STATE_UNLOADED} (hs_world s) (hs_world s2)"
        by (simp_all add: flt s1_def)
      have priv: "ends (privatise K uffd ch s2) (\<lambda>r t. r \<noteq> Inl Panic \<and> (r = Inr () \<longrightarrow>
          (\<exists>w. t = s2\<lparr>hs_world := w\<rparr> \<and> populated K b file ready present {} (hs_world s2) w)))"
        by (rule privatise_ends [OF ok wf ch])
      show ?case
      proof (rule ends_bind [OF priv], goal_cases)
        case (2 u s3)
        then obtain w where s3: "s3 = s2\<lparr>hs_world := w\<rparr>"
          and p3: "populated K b file ready present {} (hs_world s2) w" by auto
        have pop3: "populated K b file ready present {j. c \<le> j \<and> j < c + n \<and> f j = STATE_UNLOADED} (hs_world s) w"
          using populated_trans [OF pop p3] by simp
        have b3: "hs_backend s3 = with_states b g" using s3 s2(1) by simp
        have g': "(\<lambda>j. if j \<in> set [c..<c + n] then STATE_PRIVATE_DIRTY else g j) = dirty_chunk f c n"
          by (auto simp: g_def dirty_chunk_def)
        have mark: "mark_chunk ch s3 = Some (Inr (), s3\<lparr>hs_backend := with_states b (dirty_chunk f c n)\<rparr>)"
          using mark_loop [OF b3 chunk_range [OF ch n64], of STATE_PRIVATE_DIRTY] D(5) g' by (simp add: mark_chunk_def)
        let ?s4 = "s3\<lparr>hs_backend := with_states b (dirty_chunk f c n),
          hs_dirtied := hs_dirtied s3 + word_of_nat (length ?js)\<rparr>"
        have inv4: "hst K b file ready present (dirty_chunk f c n) G ?s4"
          by (rule hst_dirty_chunk [OF wf inv ch]) (use s2 s3 pop3 in simp_all)
        have "ends (on_h (uffd_wake K uffd (cc_start_addr ch) (cc_len ch)) ?s4) ?Q"
          by (rule ends_mono [OF ends_on_h [OF wake_ends [OF ok]]]) (use hst_world [OF inv4] in auto)
        with mark show ?case by simp
      qed auto
    qed (use H(3) [OF i] H(4) np in \<open>auto simp: s1_def\<close>)
    with False eq show ?thesis by simp
  qed
qed

section \<open>Serving one fault\<close>

definition page_has :: "restore_backend \<Rightarrow> nat \<Rightarrow> u64 \<Rightarrow> bool" where
  "page_has b i a \<longleftrightarrow> i < n_pages b \<and> unat (pg_addr b i) \<le> unat a \<and> unat a < unat (pg_addr b i) + pg_size b i"

lemma locate_page:
  assumes wf: "backend_wf b" and a: "page_has b i a"
  shows "locate_fault b a = Inr (Some (fault_of b i))"
  using wf
proof (cases rule: locate_fault_cases [where a = a])
  case none
  have i: "i < n_pages b" using a by (simp add: page_has_def)
  obtain r p where h: "home (rb_ranges b) i = Some (r, p)" by (rule backend_page [OF wf i])
  note H = backend_home [OF wf h]
  have "in_range r a"
    using a page_in_range [OF H(1,3)] h by (simp add: page_has_def fault_of_def in_range_def range_within_def)
  with none H(2) show ?thesis by blast
next
  case (page j)
  have "j = i"
  proof (rule ccontr)
    assume "j \<noteq> i"
    from pages_apart [OF wf page(2) _ this] a page(3,4) show False
      by (auto simp: page_has_def disjoint_ranges_def)
  qed
  with page show ?thesis by simp
qed

lemma serve_missing_ends:
  assumes "guest_ok K yield uffd ready present busy" and "source_ok K b file ready present"
    and wf: "backend_wf b" and inv: "hst K b file ready present f G s"
    and a: "page_has b i (msg_pf_address msg)" and wp: "msg_pf_flags msg AND UFFD_PAGEFAULT_FLAG_WP = 0"
  shows "ends (serve_fault K yield uffd msg s) (\<lambda>r t. r \<noteq> Inl Panic \<and>
    (r = Inr () \<longrightarrow> hst K b file ready present (load_state f i) G t))"
proof -
  have i: "i < n_pages b" using a by (simp add: page_has_def)
  have eq: "serve_fault K yield uffd msg s = run_bind (missing_fault K yield uffd (fault_of b i) s) (\<lambda>_ s.
      run_ret () (if hs_served s = total_pages (hs_backend s) \<and> \<not> hs_logged s then s\<lparr>hs_logged := True\<rparr> else s))"
    using locate_page [OF wf a] hstD(1) [OF inv] wp by (simp add: serve_fault_def)
  show ?thesis unfolding eq
    by (rule ends_bind [OF missing_fault_ends [OF assms(1,2) wf inv i]]) (auto simp: hst_def)
qed

lemma serve_wp_ends:
  assumes "guest_ok K yield uffd ready present busy" and "source_ok K b file ready present"
    and wf: "backend_wf b" and inv: "hst K b file ready present f G s"
    and a: "page_has b i (msg_pf_address msg)" and wp: "msg_pf_flags msg AND UFFD_PAGEFAULT_FLAG_WP \<noteq> 0"
    and chunk: "cow_chunk_for_fault b (fault_of b i) = Inr (Some ch)" and ch: "chunk_at b i ch c n"
  shows "ends (serve_fault K yield uffd msg s) (\<lambda>r t. r \<noteq> Inl Panic \<and>
    (r = Inr () \<longrightarrow> hst K b file ready present (dirty_chunk f c n) G t))"
proof -
  have i: "i < n_pages b" using a by (simp add: page_has_def)
  have "serve_fault K yield uffd msg s = wp_fault K yield uffd (fault_of b i) s"
    using locate_page [OF wf a] hstD(1) [OF inv] wp by (simp add: serve_fault_def)
  with wp_fault_ends [OF assms(1,2) wf inv i chunk ch] show ?thesis by simp
qed

text \<open>A page never goes back: loaded pages stay loaded and private pages private.\<close>

definition later :: "restore_backend \<Rightarrow> (nat \<Rightarrow> u8) \<Rightarrow> (nat \<Rightarrow> u8) \<Rightarrow> bool" where
  "later b f g \<longleftrightarrow> (\<forall>i < n_pages b. (f i \<noteq> STATE_UNLOADED \<longrightarrow> g i \<noteq> STATE_UNLOADED) \<and>
     (f i = STATE_PRIVATE_DIRTY \<longrightarrow> g i = STATE_PRIVATE_DIRTY))"

lemma later_refl [simp]: "later b f f"
  by (simp add: later_def)

lemma later_trans: "later b f g \<Longrightarrow> later b g h \<Longrightarrow> later b f h"
  by (simp add: later_def)

lemma later_load [simp]: "later b f (load_state f i)"
  by (simp add: later_def load_state_def)

lemma later_dirty [simp]: "later b f (dirty_chunk f c n)"
  by (simp add: later_def dirty_chunk_def)

lemma serve_fault_ends:
  assumes ok: "guest_ok K yield uffd ready present busy" and src: "source_ok K b file ready present"
    and wf: "backend_wf b" and inv: "hst K b file ready present f G s"
  shows "ends (serve_fault K yield uffd msg s) (\<lambda>r t. r \<noteq> Inl Panic \<and>
    (r = Inr () \<longrightarrow> (\<exists>g. later b f g \<and> hst K b file ready present g G t)))"
  using wf
proof (cases rule: locate_fault_cases [where a = "msg_pf_address msg"])
  case none
  then show ?thesis using hstD(1) [OF inv] by (simp add: serve_fault_def)
next
  case (page i)
  then have a: "page_has b i (msg_pf_address msg)" by (simp add: page_has_def)
  show ?thesis
  proof (cases "msg_pf_flags msg AND UFFD_PAGEFAULT_FLAG_WP = 0")
    case True
    show ?thesis
      by (rule ends_mono [OF serve_missing_ends [OF ok src wf inv a True]]) (auto intro: later_load)
  next
    case False
    obtain ch c n where "cow_chunk_for_fault b (fault_of b i) = Inr (Some ch)" "chunk_at b i ch c n"
      by (rule chunk_at_ex [OF wf page(2)])
    from serve_wp_ends [OF ok src wf inv a False this] show ?thesis
      by (rule ends_mono) (auto intro: later_dirty)
  qed
qed

section \<open>Turns of the handler\<close>

lemma scan_events_undisturbed:
  assumes "\<And>n w. undisturbed K ready present w (snd (snd (k_read K stop n w)))"
  shows "undisturbed K ready present w (snd (scan_events K stop evs got w))"
  using assms by (induction evs arbitrary: got) auto

lemma handler_turn_ends:
  assumes ok: "guest_ok K yield uffd ready present busy" and src: "source_ok K b file ready present"
    and stop: "\<And>n w. undisturbed K ready present w (snd (snd (k_read K stop n w)))"
    and wf: "backend_wf b" and inv: "hst K b file ready present f G s"
  shows "ends (handler_turn K yield ep uffd stop s) (\<lambda>r t. r \<noteq> Inl Panic \<and>
    (\<forall>go. r = Inr go \<longrightarrow> (\<exists>g. later b f g \<and> hst K b file ready present g G t)))"
proof -
  obtain n evs w1 where e: "k_epoll_wait K ep (-1) 2 (hs_world s) = (n, evs, w1)" by (metis prod_cases3)
  have u1: "undisturbed K ready present (hs_world s) w1" using guest_okD(11) [OF ok, of "hs_world s" ep "-1" 2] by (simp add: e)
  note i1 = hst_world [OF inv u1]
  obtain sc w2 where sc: "scan_events K stop (take (nat n) evs) False w1 = (sc, w2)" by fastforce
  have u2: "undisturbed K ready present (hs_world s) w2"
    using scan_events_undisturbed [OF stop, of w1 "take (nat n) evs" False] u1 undisturbed_trans by (fastforce simp: sc)
  note i2 = hst_world [OF inv u2]
  obtain m buf w3 where rd: "k_read K uffd sizeof_uffd_msg w2 = (m, buf, w3)" by (metis prod_cases3)
  have u3: "undisturbed K ready present (hs_world s) w3"
    using guest_okD(12) [OF ok, of w2 sizeof_uffd_msg] u2 undisturbed_trans by (fastforce simp: rd)
  note i3 = hst_world [OF inv u3]
  let ?s3 = "s\<lparr>hs_world := w3\<rparr>" and ?msg = "uffd_msg_of_bytes buf"
  have sv: "ends (run_bind (serve_fault K yield uffd ?msg ?s3) (\<lambda>_. run_ret True)) (\<lambda>r t. r \<noteq> Inl Panic \<and>
    (\<forall>go. r = Inr go \<longrightarrow> (\<exists>g. later b f g \<and> hst K b file ready present g G t)))"
    by (rule ends_bind [OF serve_fault_ends [OF ok src wf i3]]) auto
  show ?thesis
    using i1 i2 i3 sv e sc rd unfolding handler_turn_def
    by (auto simp: Let_def split: option.split intro: later_refl)
qed

section \<open>The virtual machine on lazily restored memory\<close>

text \<open>
  A run of the machine: turns of the handler, and writes of the guest. The kernel lets a guest
  write through exactly on pages that are mapped private, so a write takes place on a page in the
  private state only; anywhere else it is a fault first. \<open>G\<close> is the memory of a machine restored
  eagerly, where a write changes just its bytes.
\<close>

definition splice :: "nat \<Rightarrow> bytes \<Rightarrow> bytes \<Rightarrow> bytes" where
  "splice off bs old = take off old @ bs @ drop (off + length bs) old"

inductive vm_step ::
  "'w kernel \<Rightarrow> ('w \<Rightarrow> 'w) \<Rightarrow> fd \<Rightarrow> fd \<Rightarrow> fd \<Rightarrow> restore_backend \<Rightarrow> 'w hstate \<times> (nat \<Rightarrow> bytes) \<Rightarrow>
     'w hstate \<times> (nat \<Rightarrow> bytes) \<Rightarrow> bool"
  for K yield ep uffd stop b where
  turn: "handler_turn K yield ep uffd stop s = Some (Inr go, t) \<Longrightarrow> vm_step K yield ep uffd stop b (s, G) (t, G)"
| guest_write: "i < n_pages b \<Longrightarrow> st (hs_backend s) i = STATE_PRIVATE_DIRTY \<Longrightarrow> off + length bs \<le> pg_size b i \<Longrightarrow>
    vm_step K yield ep uffd stop b (s, G)
      (s\<lparr>hs_world := k_store K (pg_addr b i + word_of_nat off) bs (hs_world s)\<rparr>, G(i := splice off bs (G i)))"

inductive_cases vm_stepE: "vm_step K yield ep uffd stop b x y"

lemma store_splice:
  fixes w :: 'w
  assumes ok: "guest_ok K yield uffd ready present busy" and wf: "backend_wf b" and i: "i < n_pages b"
    and len: "off + length bs \<le> pg_size b i"
  defines "w' \<equiv> k_store K (pg_addr b i + word_of_nat off) bs w"
  shows "pgb K b i w' = splice off bs (pgb K b i w)" and "j < n_pages b \<Longrightarrow> j \<noteq> i \<Longrightarrow> pgb K b j w' = pgb K b j w"
proof -
  let ?a = "pg_addr b i" and ?n = "pg_size b i" and ?m = "length bs"
  note L = guest_okD(2) [OF ok, unfolded load_split_def, rule_format] and S = guest_okD(1) [OF ok]
    and e = page_end [OF wf i]
  define k where "k = ?n - (off + ?m)"
  have n: "?n = off + (?m + k)" using len by (simp add: k_def)
  have a1: "unat (?a + word_of_nat off) = unat ?a + off" using e len by (intro unat_addr_plus) simp
  have a2: "unat (?a + word_of_nat off + word_of_nat ?m) = unat ?a + off + ?m"
    using e len a1 by (subst unat_addr_plus) simp_all
  have parts: "k_load K ?a ?n x = k_load K ?a off x @ k_load K (?a + word_of_nat off) ?m x @
      k_load K (?a + word_of_nat off + word_of_nat ?m) k x" for x
  proof -
    have "k_load K ?a (off + (?m + k)) x = k_load K ?a off x @ k_load K (?a + word_of_nat off) (?m + k) x"
      by (rule L) (use e n in simp)
    moreover have "k_load K (?a + word_of_nat off) (?m + k) x =
        k_load K (?a + word_of_nat off) ?m x @ k_load K (?a + word_of_nat off + word_of_nat ?m) k x"
      by (rule L) (use e n a1 in simp)
    ultimately show ?thesis by (simp add: n)
  qed
  have "k_load K ?a off w' = k_load K ?a off w"
    unfolding w'_def by (rule store_okD(3) [OF S]) (use a1 in \<open>simp add: disjoint_ranges_def\<close>)
  moreover have "k_load K (?a + word_of_nat off) ?m w' = bs" unfolding w'_def by (rule store_okD(2) [OF S refl])
  moreover have "k_load K (?a + word_of_nat off + word_of_nat ?m) k w' = k_load K (?a + word_of_nat off + word_of_nat ?m) k w"
    unfolding w'_def by (rule store_okD(3) [OF S]) (use a1 a2 in \<open>simp add: disjoint_ranges_def\<close>)
  ultimately show "pgb K b i w' = splice off bs (pgb K b i w)"
    using parts [of w] parts [of w'] store_okD(1) [OF S] by (simp add: pgb_def splice_def)
  show "pgb K b j w' = pgb K b j w" if j: "j < n_pages b" "j \<noteq> i"
    unfolding pgb_def w'_def
    by (rule store_okD(3) [OF S]) (use pages_apart [OF wf i j(1)] j(2) len a1 in \<open>auto simp: disjoint_ranges_def\<close>)
qed

definition vm_inv ::
  "'w kernel \<Rightarrow> restore_backend \<Rightarrow> bytes \<Rightarrow> ('w \<Rightarrow> bool) \<Rightarrow> ('w \<Rightarrow> u64 set) \<Rightarrow> 'w hstate \<times> (nat \<Rightarrow> bytes) \<Rightarrow> bool" where
  "vm_inv K b file ready present x \<longleftrightarrow> (\<exists>f. hst K b file ready present f (snd x) (fst x))"

lemma vm_step_inv:
  assumes ok: "guest_ok K yield uffd ready present busy" and src: "source_ok K b file ready present"
    and stop: "\<And>n w. undisturbed K ready present w (snd (snd (k_read K stop n w)))" and wf: "backend_wf b"
    and inv: "vm_inv K b file ready present x" and step: "vm_step K yield ep uffd stop b x y"
  shows "vm_inv K b file ready present y"
  using step
proof cases
  case (turn s go t G)
  from inv turn obtain f where "hst K b file ready present f G s" by (auto simp: vm_inv_def)
  from handler_turn_ends [OF ok src stop wf this, of ep] turn show ?thesis by (auto simp: vm_inv_def)
next
  case (guest_write i s off bs G)
  from inv guest_write obtain f where h: "hst K b file ready present f G s" by (auto simp: vm_inv_def)
  note H = hstD [OF h]
  let ?w = "k_store K (pg_addr b i + word_of_nat off) bs (hs_world s)"
  have fi: "f i = STATE_PRIVATE_DIRTY" using guest_write H(1) by simp
  note S = store_splice [OF ok wf guest_write(3,5), where w = "hs_world s"]
  have "view_ok K b file present f (G(i := splice off bs (G i))) ?w"
    unfolding view_ok_def
  proof (intro allI impI)
    fix j assume j: "j < n_pages b"
    have "if f j = STATE_UNLOADED then pg_addr b j \<notin> present (hs_world s) \<and> G j = snap b file j
        else pgb K b j (hs_world s) = G j" using H(5) j by (simp add: view_ok_def)
    then show "if f j = STATE_UNLOADED then pg_addr b j \<notin> present ?w \<and> (G(i := splice off bs (G i))) j = snap b file j
        else pgb K b j ?w = (G(i := splice off bs (G i))) j"
      using S(1) S(2) [OF j] fi guest_okD(3) [OF ok] by (cases "j = i") simp_all
  qed
  with h have "hst K b file ready present f (G(i := splice off bs (G i))) (s\<lparr>hs_world := ?w\<rparr>)"
    using guest_okD(4) [OF ok] by (simp add: hst_def)
  with guest_write show ?thesis by (auto simp: vm_inv_def)
qed

text \<open>The start of the handler on a fresh backend and empty guest memory.\<close>

definition fresh_start ::
  "restore_backend \<Rightarrow> u64 \<Rightarrow> ('w \<Rightarrow> bool) \<Rightarrow> ('w \<Rightarrow> u64 set) \<Rightarrow> 'w \<Rightarrow> bool" where
  "fresh_start b page_size ready present w \<longleftrightarrow>
     (\<forall>i < n_pages b. st b i = STATE_UNLOADED \<and> pg_size b i \<le> unat page_size \<and> pg_addr b i \<notin> present w) \<and> ready w"

lemma handler_start_inv:
  assumes "fresh_start b page_size ready present w"
  shows "hst K b file ready present (\<lambda>_. STATE_UNLOADED) (snap b file) (handler_start b page_size w)"
proof -
  have "with_states b (\<lambda>_. STATE_UNLOADED) = with_states b (st b)"
    by (rule with_states_cong) (use assms in \<open>simp add: fresh_start_def\<close>)
  then have "b = with_states b (\<lambda>_. STATE_UNLOADED)" by (simp add: with_states_id)
  then show ?thesis
    using assms by (simp add: hst_def handler_start_def fresh_start_def view_ok_def pages_in_def)
qed

lemma vm_reachable_inv:
  assumes "guest_ok K yield uffd ready present busy" and "snapshot_io_ok K b file ready present"
    and "\<And>n w. undisturbed K ready present w (snd (snd (k_read K stop n w)))" and wf: "backend_wf b"
    and "fresh_start b page_size ready present w"
    and run: "rtranclp (vm_step K yield ep uffd stop b) (handler_start b page_size w, snap b file) y"
  shows "vm_inv K b file ready present y"
proof -
  have "inductive_invariant (\<lambda>x. x = (handler_start b page_size w, snap b file)) (vm_step K yield ep uffd stop b)
      (vm_inv K b file ready present)"
  proof
    show "vm_inv K b file ready present x" if "x = (handler_start b page_size w, snap b file)" for x
      using that handler_start_inv [OF assms(5)] by (auto simp: vm_inv_def)
    show "vm_inv K b file ready present z"
      if "vm_inv K b file ready present x" and "vm_step K yield ep uffd stop b x z" for x z
      using vm_step_inv [OF assms(1) source_ok [OF wf assms(2)] assms(3) wf that] .
  qed
  from inductive_invariant.reachable_inv [OF this refl run] show ?thesis .
qed

section \<open>The properties\<close>


text \<open>
  \<open>C6\<close>: the handler never gets stuck. In every state reachable from a fresh start the next turn
  returns: it neither panics nor spins, whatever event or fault the kernel delivers; and unless it
  stops with an input/output error, loaded pages stay loaded and private pages private.
\<close>

theorem handler_turn_returns:
  assumes "guest_ok K yield uffd ready present busy" and "snapshot_io_ok K b file ready present"
    and "\<And>n w. undisturbed K ready present w (snd (snd (k_read K stop n w)))" and "backend_wf b"
    and "fresh_start b page_size ready present w"
    and "rtranclp (vm_step K yield ep uffd stop b) (handler_start b page_size w, snap b file) (s, G)"
  shows "\<exists>r t. handler_turn K yield ep uffd stop s = Some (r, t) \<and> r \<noteq> Inl Panic \<and>
    (\<forall>go. r = Inr go \<longrightarrow> later b (st (hs_backend s)) (st (hs_backend t)))"
proof -
  from vm_reachable_inv [OF assms(1-6)] obtain f where h: "hst K b file ready present f G s"
    by (auto simp: vm_inv_def)
  from handler_turn_ends [OF assms(1) source_ok [OF assms(4,2)] assms(3,4) h, of ep]
  obtain r t where t: "handler_turn K yield ep uffd stop s = Some (r, t)" "r \<noteq> Inl Panic"
    "\<And>go. r = Inr go \<Longrightarrow> \<exists>g. later b f g \<and> hst K b file ready present g G t" by (auto elim!: endsE)
  have "later b (st (hs_backend s)) (st (hs_backend t))" if "r = Inr go" for go
    using t(3) [OF that] hstD(1) [OF h] by (auto dest!: hstD(1) simp: later_def)
  with t show ?thesis by blast
qed

text \<open>
  \<open>C5\<close>: a missing fault is resolved. Serving a fault on a page of a reachable state returns, and
  when it succeeds the page is loaded with its snapshot bytes, every other page keeps its state,
  and the guest's access can go on.
\<close>

theorem missing_fault_resolved:
  assumes "guest_ok K yield uffd ready present busy" and "snapshot_io_ok K b file ready present"
    and "backend_wf b" and "hst K b file ready present f G s" and "page_has b i (msg_pf_address msg)"
    and "msg_pf_flags msg AND UFFD_PAGEFAULT_FLAG_WP = 0"
  shows "\<exists>r t. serve_fault K yield uffd msg s = Some (r, t) \<and> r \<noteq> Inl Panic \<and>
    (r = Inr () \<longrightarrow> hst K b file ready present (load_state f i) G t \<and> st (hs_backend t) i \<noteq> STATE_UNLOADED \<and>
       k_load K (pg_addr b i) (pg_size b i) (hs_world t) = G i)"
proof -
  have i: "i < n_pages b" using assms(5) by (simp add: page_has_def)
  from serve_missing_ends [OF assms(1) source_ok [OF assms(3,2)] assms(3-6)]
  obtain r t where t: "serve_fault K yield uffd msg s = Some (r, t)" "r \<noteq> Inl Panic"
    "r = Inr () \<Longrightarrow> hst K b file ready present (load_state f i) G t" by (auto elim!: endsE)
  have "st (hs_backend t) i \<noteq> STATE_UNLOADED \<and> k_load K (pg_addr b i) (pg_size b i) (hs_world t) = G i" if "r = Inr ()"
    using hstD(1,5) [OF t(3) [OF that]] i by (auto simp: view_ok_def load_state_def simp flip: pgb_def split: if_splits)
  with t show ?thesis by blast
qed

text \<open>
  \<open>C4\<close>: a write-protect fault is resolved. Serving it returns, and when it succeeds the whole
  copy-on-write chunk of the page, and no other page, has become private and dirty, no byte of
  guest memory has changed, and the counters of served and dirtied pages count exactly the pages
  loaded and dirtied so far.
\<close>

theorem wp_fault_resolved:
  assumes "guest_ok K yield uffd ready present busy" and "snapshot_io_ok K b file ready present"
    and "backend_wf b" and "hst K b file ready present f G s" and "page_has b i (msg_pf_address msg)"
    and "msg_pf_flags msg AND UFFD_PAGEFAULT_FLAG_WP \<noteq> 0"
  shows "\<exists>ch r t. cow_chunk_for_fault b (fault_of b i) = Inr (Some ch) \<and>
    serve_fault K yield uffd msg s = Some (r, t) \<and> r \<noteq> Inl Panic \<and>
    (r = Inr () \<longrightarrow> (\<exists>g. hst K b file ready present g G t \<and> g i = STATE_PRIVATE_DIRTY \<and>
       (\<forall>j < n_pages b. g j =
         (if unat (cc_first_page_index ch) \<le> j \<and> j < unat (cc_first_page_index ch) + unat (cc_page_count ch)
          then STATE_PRIVATE_DIRTY else f j))))"
proof -
  have i: "i < n_pages b" using assms(5) by (simp add: page_has_def)
  obtain ch c n where ch: "cow_chunk_for_fault b (fault_of b i) = Inr (Some ch)" "chunk_at b i ch c n"
    by (rule chunk_at_ex [OF assms(3) i])
  note D = chunk_atD(1-4) [OF ch(2)]
  from serve_wp_ends [OF assms(1) source_ok [OF assms(3,2)] assms(3-6) ch]
  obtain r t where t: "serve_fault K yield uffd msg s = Some (r, t)" "r \<noteq> Inl Panic"
    "r = Inr () \<Longrightarrow> hst K b file ready present (dirty_chunk f c n) G t" by (auto elim!: endsE)
  then show ?thesis
    using ch(1) D by (intro exI [of _ ch] exI [of _ r] exI [of _ t] conjI impI exI [of _ "dirty_chunk f c n"])
      (simp_all add: dirty_chunk_def)
qed

text \<open>
  \<open>C20\<close>: bounds of the counters. In every reachable state the number of pages served is the number
  of pages no longer unloaded and the number dirtied that of the private pages; the second never
  exceeds the first and neither exceeds the total, so the counters never wrap around.
\<close>

theorem restore_counters_bounded:
  assumes "guest_ok K yield uffd ready present busy" and "snapshot_io_ok K b file ready present"
    and "\<And>n w. undisturbed K ready present w (snd (snd (k_read K stop n w)))" and "backend_wf b"
    and "fresh_start b page_size ready present w"
    and "rtranclp (vm_step K yield ep uffd stop b) (handler_start b page_size w, snap b file) (s, G)"
  shows "unat (hs_served s) = card {i. i < n_pages b \<and> st (hs_backend s) i \<noteq> STATE_UNLOADED} \<and>
    unat (hs_dirtied s) = card {i. i < n_pages b \<and> st (hs_backend s) i = STATE_PRIVATE_DIRTY} \<and>
    hs_dirtied s \<le> hs_served s \<and> hs_served s \<le> total_pages b"
proof -
  from vm_reachable_inv [OF assms(1-6)] obtain f where h: "hst K b file ready present f G s"
    by (auto simp: vm_inv_def)
  note H = hstD [OF h]
  let ?P = "pages_in b f (\<lambda>x. x \<noteq> STATE_UNLOADED)" and ?D = "pages_in b f (\<lambda>x. x = STATE_PRIVATE_DIRTY)"
  have n: "n_pages b < 2 ^ 64" using assms(4) by (simp add: backend_wf_def ranges_ok_def)
  have fin: "finite ?P" and sub: "?D \<subseteq> ?P" "?P \<subseteq> {..<n_pages b}" by (auto simp: pages_in_def)
  have le: "card ?D \<le> card ?P" "card ?P \<le> n_pages b"
    using card_mono [OF fin sub(1)] card_mono [OF finite_lessThan sub(2)] by simp_all
  have e: "?P = {i. i < n_pages b \<and> st (hs_backend s) i \<noteq> STATE_UNLOADED}"
      "?D = {i. i < n_pages b \<and> st (hs_backend s) i = STATE_PRIVATE_DIRTY}"
    using H(1) by (auto simp: pages_in_def)
  have "unat (hs_served s) = card ?P" "unat (hs_dirtied s) = card ?D" "unat (total_pages b) = n_pages b"
    using H(6,7) le n by (simp_all add: total_pages_def unat_of_nat)
  with le e show ?thesis by (simp add: word_le_nat_alt)
qed

end
