(* ===== verification/Reference_Io.thy ===== *)
theory Reference_Io
  imports Reference_Kernel Restore_Correct
begin

unbundle bit_operations_syntax

text \<open>
  A small system with a template file, the two ends of a service connection, a log and a
  userfaultfd that remembers the pages present. It satisfies the contracts of the wire protocol
  and of the restore handler, whose properties are applied to it here.
\<close>

section \<open>The system\<close>

record io_world =
  io_ref :: ref_world
  io_pos :: nat
  io_in :: bytes
  io_sent :: bytes
  io_logged :: bytes
  io_asked :: bytes
  io_taken :: nat
  io_present :: "u64 list"

definition io_read :: "bytes \<Rightarrow> fd \<Rightarrow> nat \<Rightarrow> io_world \<Rightarrow> int \<times> bytes \<times> io_world" where
  "io_read file fd n w =
     (if fd = 10 then (let bs = take n (drop (io_pos w) file) in (int (length bs), bs, w\<lparr>io_pos := io_pos w + length bs\<rparr>))
      else if fd = 11 then (let bs = take n (io_in w) in (int (length bs), bs, w\<lparr>io_in := drop n (io_in w)\<rparr>))
      else if fd = 14
      then (let bs = take n (drop (io_taken w) (answers file (io_asked w)))
            in (int (length bs), bs, w\<lparr>io_taken := io_taken w + length bs\<rparr>))
      else if fd = 5
      then (case rw_msgs (io_ref w) of [] \<Rightarrow> (-1, [], w)
            | m # ms \<Rightarrow> (int (length m), m, w\<lparr>io_ref := (io_ref w)\<lparr>rw_msgs := ms\<rparr>\<rparr>))
      else (0, [], w))"

definition io_write :: "bytes \<Rightarrow> fd \<Rightarrow> bytes \<Rightarrow> io_world \<Rightarrow> int \<times> io_world" where
  "io_write file fd bs w =
     (if fd = 11 then (int (length bs), w\<lparr>io_sent := io_sent w @ bs\<rparr>)
      else if fd = 12 then (int (length bs), w\<lparr>io_logged := io_logged w @ bs\<rparr>)
      else if fd = 14 \<and> take (io_taken w) (answers file (io_asked w @ bs)) = take (io_taken w) (answers file (io_asked w))
      then (int (length bs), w\<lparr>io_asked := io_asked w @ bs\<rparr>)
      else (-1, w))"

definition io_ioctl :: "fd \<Rightarrow> u64 \<Rightarrow> ioctl_arg \<Rightarrow> io_world \<Rightarrow> int \<times> ioctl_arg \<times> io_world" where
  "io_ioctl fd req arg w =
     (case arg of
        ArgCopy cp \<Rightarrow>
          if req \<noteq> UFFDIO_COPY then (0, arg, w)
          else if cp_dst cp \<in> set (io_present w) then (-1, arg, w)
          else (0, arg, w\<lparr>io_ref := ref_store (cp_dst cp) (cp_src cp) (io_ref w), io_present := cp_dst cp # io_present w\<rparr>)
      | _ \<Rightarrow> (0, arg, w))"

definition io_kernel :: "bytes \<Rightarrow> io_world kernel" where
  "io_kernel file =
     \<lparr>k_syscall = (\<lambda>_ _ w. (5, w)),
      k_sysconf = (\<lambda>_ w. (8, w)),
      k_ftruncate = (\<lambda>_ _ w. (0, w)),
      k_mmap = (\<lambda>a len prot flags fd off w. case ref_mmap a len prot flags fd off (io_ref w) of (r, m) \<Rightarrow> (r, w\<lparr>io_ref := m\<rparr>)),
      k_munmap = (\<lambda>a len w. (0, w\<lparr>io_ref := ref_clear a len (io_ref w)\<rparr>)),
      k_ioctl = io_ioctl,
      k_poll = (\<lambda>_ _ _ w. (0, 0, w)),
      k_read = io_read file,
      k_pread = (\<lambda>_ _ _ w. (0, [], w)),
      k_errno = (\<lambda>_. EEXIST),
      k_strerror = (\<lambda>_. ''error''),
      k_load = (\<lambda>a n w. ref_load a n (io_ref w)),
      k_store = (\<lambda>a bs w. w\<lparr>io_ref := ref_store a bs (io_ref w)\<rparr>),
      k_write = io_write file,
      k_lseek = (\<lambda>fd off w. (0, if fd = 10 then w\<lparr>io_pos := unat off\<rparr> else w)),
      k_connect = (\<lambda>_ w. (14, w)),
      k_epoll_create = (\<lambda>_ w. (7, w)),
      k_epoll_add = (\<lambda>_ _ _ _ w. (0, w)),
      k_epoll_wait = (\<lambda>_ _ _ w. (1, [(EPOLLIN, if rw_msgs (io_ref w) = [] then EVENT_STOP else EVENT_UFFD)], w))\<rparr>"

lemma io_kernel_simps [simp]:
  "k_mmap (io_kernel file) a len prot flags fd off w =
     (case ref_mmap a len prot flags fd off (io_ref w) of (r, m) \<Rightarrow> (r, w\<lparr>io_ref := m\<rparr>))"
  "k_ioctl (io_kernel file) = io_ioctl" "k_read (io_kernel file) = io_read file" "k_errno (io_kernel file) w = EEXIST"
  "k_load (io_kernel file) a n w = ref_load a n (io_ref w)"
  "k_store (io_kernel file) a bs w = w\<lparr>io_ref := ref_store a bs (io_ref w)\<rparr>" "k_write (io_kernel file) = io_write file"
  "k_lseek (io_kernel file) fd to w = (0, if fd = 10 then w\<lparr>io_pos := unat to\<rparr> else w)"
  "k_epoll_wait (io_kernel file) ep t n w =
     (1, [(EPOLLIN, if rw_msgs (io_ref w) = [] then EVENT_STOP else EVENT_UFFD)], w)"
  by (simp_all add: io_kernel_def)

section \<open>It meets the contracts\<close>

lemma io_service_ok:
  "service_io_ok (io_kernel file) 12 11 10 io_in io_sent io_logged (\<lambda>w. drop (io_pos w) file) file (\<lambda>_. 0)"
  by (auto simp: service_io_ok_def read_ok_def write_ok_def io_read_def io_write_def Let_def EEXIST_def EINTR_def add.commute min_def)

lemma io_client_ok:
  "client_io_ok (io_kernel file) 14 io_asked (\<lambda>w. drop (io_taken w) (answers file (io_asked w)))
     (\<lambda>w. take (io_taken w) (answers file (io_asked w))) file (\<lambda>_. 0)"
  by (auto simp: client_io_ok_def read_ok_def write_ok_def io_read_def io_write_def Let_def EEXIST_def EINTR_def add.commute min_def)

lemma io_store_ok: "store_ok (io_kernel file)"
  by (simp add: store_ok_def ref_load_store_same ref_load_store_other) (simp add: ref_load_def)

lemma io_load_split: "load_split (io_kernel file)"
proof -
  have "ref_load a (n + m) w = ref_load a n w @ ref_load (a + word_of_nat n) m w"
    if "unat a + n + m < 2 ^ 64" for a n m w
  proof -
    have "unat (a + word_of_nat n) = unat a + n" using that by (intro unat_addr_plus) simp
    moreover have "[unat a..<unat a + (n + m)] = [unat a..<unat a + n] @ [unat a + n..<unat a + n + m]"
      by (metis add.assoc le_add1 upt_add_eq_append)
    ultimately show ?thesis by (simp add: ref_load_def add.assoc)
  qed
  then show ?thesis by (simp add: load_split_def)
qed

abbreviation io_pages :: "io_world \<Rightarrow> u64 set" where
  "io_pages w \<equiv> set (io_present w)"

lemma io_guest_ok: "guest_ok (io_kernel file) (\<lambda>w. w) 5 (\<lambda>_. True) io_pages (\<lambda>_. 0)"
proof -
  have "undisturbed (io_kernel file) (\<lambda>_. True) io_pages w (snd (snd (io_read file 5 n w)))" for n w
    by (auto simp: undisturbed_def io_read_def ref_load_def ref_byte_def split: list.split)
  then show ?thesis
    unfolding guest_ok_def
    by (auto simp: io_store_ok io_load_split io_ioctl_def ref_mmap_def ref_load_clear ref_load_store_same
        ref_load_store_other EEXIST_def EAGAIN_def Let_def UFFDIO_COPY_def UFFDIO_WAKE_def UFFDIO_WRITEPROTECT_def
        split: ioctl_arg.splits if_splits)
qed

lemma io_stop_undisturbed: "undisturbed (io_kernel file) (\<lambda>_. True) io_pages w (snd (snd (k_read (io_kernel file) 13 n w)))"
  by (simp add: io_read_def)

lemma io_snapshot_ok:
  assumes "rb_source b = SourceFile 10"
  shows "snapshot_io_ok (io_kernel file) b file (\<lambda>_. True) io_pages"
proof -
  have "read_ok (io_kernel file) (\<lambda>w. drop (io_pos w) file) (\<lambda>_. 0) 10"
    using io_service_ok [of "file"] by (simp add: service_io_ok_def)
  with assms show ?thesis
    unfolding snapshot_io_ok_def
    by (auto simp: Let_def io_read_def intro!: exI [of _ "\<lambda>w. drop (io_pos w) file"] exI [of _ "\<lambda>_. 0"])
qed

section \<open>A guest of three pages\<close>

definition ex_file :: bytes where
  "ex_file = replicate 8 65 @ replicate 8 66 @ replicate 8 67"

definition ex_range :: template_range where
  "ex_range = range_new 0x1000 24 0 8"

definition ex_rb :: restore_backend where
  "ex_rb = \<lparr>rb_source = SourceFile 10, rb_ranges = [ex_range],
     rb_pages = [page_meta_new 0, page_meta_new 8, page_meta_new 16]\<rparr>"

definition ex_msg :: "u64 \<Rightarrow> u64 \<Rightarrow> bytes" where
  "ex_msg flags addr = [UFFD_EVENT_PAGEFAULT] @ replicate 7 0 @ to_le_bytes flags @ to_le_bytes addr @ replicate 8 0"

definition ex_io :: "bytes list \<Rightarrow> io_world" where
  "ex_io msgs = \<lparr>io_ref = ex_world\<lparr>rw_msgs := msgs\<rparr>, io_pos = 0, io_in = [], io_sent = [], io_logged = [],
     io_asked = [], io_taken = 0, io_present = []\<rparr>"

abbreviation ex_K :: "io_world kernel" where
  "ex_K \<equiv> io_kernel ex_file"

lemma ex_npages: "npages ex_range = 3"
  by (simp add: npages_def ex_range_def range_new_def)

lemma ex_range_wf: "range_wf ex_range"
  unfolding range_wf_def ex_range_def range_new_def by (intro conjI exI [where x = 3]) simp_all

lemma less3: "i < (3::nat) \<longleftrightarrow> i = 0 \<or> i = 1 \<or> i = 2"
  by auto

lemma ex_rb_wf: "backend_wf ex_rb"
proof -
  have "unat (rp_backend_offset (rb_pages ex_rb ! i)) = unat (tr_file_offset ex_range) + i * unat (tr_page_size ex_range)"
    if "i < 3" for i
    using that by (auto simp: less3 ex_rb_def page_meta_new_def ex_range_def range_new_def)
  then show ?thesis
    by (auto simp: backend_wf_def ranges_ok_def ex_range_wf ex_npages ex_rb_def split: if_splits)
      (simp_all add: ex_range_def range_new_def)
qed

lemma ex_pages: "n_pages ex_rb = 3" "i < 3 \<Longrightarrow> fault_of ex_rb i = \<lparr>tf_page_addr = 0x1000 + word_of_nat i * 8,
    tf_page_size = 8, tf_page_index = word_of_nat i, tf_backend_offset = rp_backend_offset (rb_pages ex_rb ! i)\<rparr>"
  by (simp_all add: fault_of_def ex_rb_def ex_npages) (simp_all add: addr_of_def ex_range_def range_new_def)

lemma ex_fresh: "fresh_start ex_rb 8 (\<lambda>_. True) io_pages (ex_io msgs)"
  by (simp add: fresh_start_def ex_pages ex_io_def) (auto simp: less3 st_def ex_rb_def page_meta_new_def)

lemma ex_msg_fields:
  "length (ex_msg flags addr) = 32" "msg_event (uffd_msg_of_bytes (ex_msg flags addr)) = UFFD_EVENT_PAGEFAULT"
  "msg_pf_flags (uffd_msg_of_bytes (ex_msg flags addr)) = flags"
  "msg_pf_address (uffd_msg_of_bytes (ex_msg flags addr)) = addr"
  by (simp_all add: ex_msg_def uffd_msg_of_bytes_def from_to_le_bytes)

lemma io_read_exact:
  assumes "io_pos w + n \<le> length file" and "0 < n"
  shows "read_exact (io_kernel file) 10 n w = Some (Inr (take n (drop (io_pos w) file)), w\<lparr>io_pos := io_pos w + n\<rparr>)"
  using assms
  by (subst read_exact.simps) (simp add: retry_intr.simps io_read_def Let_def read_exact.simps [of _ _ 0])

text \<open>The first turn serves a missing fault on page 1.\<close>

lemma io_copy:
  "dst \<notin> io_pages w \<Longrightarrow> copy_retry (io_kernel file) yield 5 dst src len w =
     Some (Inr True, w\<lparr>io_ref := ref_store dst src (io_ref w), io_present := dst # io_present w\<rparr>)"
  by (subst copy_retry.simps) (simp add: copy_wp_def copy_with_mode_def ioctl_io_def io_ioctl_def)

lemma ex_turn:
  obtains t where "handler_turn ex_K (\<lambda>w. w) 7 5 13 (handler_start ex_rb 8 (ex_io [ex_msg 0 0x100B])) = Some (Inr True, t)"
    and "st (hs_backend t) 1 = STATE_SHARED_READY"
proof -
  let ?s = "handler_start ex_rb 8 (ex_io [])"
  have loc: "locate_fault ex_rb 0x100B = Inr (Some (fault_of ex_rb 1))"
    by (rule locate_page [OF ex_rb_wf]) (simp add: page_has_def ex_pages)
  have rd: "restore_read_page ex_K b (fault_of ex_rb 1) buf w =
      Some (Inr (replicate 8 66 @ drop 8 buf), w\<lparr>io_pos := 16\<rparr>)"
    if "rb_source b = SourceFile 10" "length buf = 8" "rp_backend_offset (rb_pages b ! 1) = 8" "length (rb_pages b) = 3" for b buf w
    using that by (simp add: restore_read_page_def ex_pages Let_def seek_start_def io_read_exact ex_file_def)
  have off: "rp_backend_offset (rb_pages ex_rb ! 1) = 8" "rb_source ex_rb = SourceFile 10"
    by (simp_all add: ex_rb_def page_meta_new_def)
  have st1: "st ex_rb 1 = STATE_UNLOADED" by (simp add: ex_rb_def page_meta_new_def st_def)
  have idx: "unat (tf_page_index (fault_of ex_rb 1)) = 1" by (simp add: ex_pages)
  obtain t where t: "missing_fault ex_K (\<lambda>w. w) 5 (fault_of ex_rb 1) ?s = Some (Inr (), t)"
    and s1: "st (hs_backend t) 1 = STATE_SHARED_READY"
    using st1 idx off
    by (simp add: missing_fault_def load_missing_def handler_start_def ex_pages(1) read_into_buf_def on_h_def rd io_copy ex_io_def
        del: One_nat_def)
  have w: "(ex_io [ex_msg 0 0x100B])\<lparr>io_ref := (io_ref (ex_io [ex_msg 0 0x100B]))\<lparr>rw_msgs := []\<rparr>\<rparr> = ex_io []"
    by (simp add: ex_io_def)
  have "handler_turn ex_K (\<lambda>w. w) 7 5 13 (handler_start ex_rb 8 (ex_io [ex_msg 0 0x100B])) =
      run_bind (serve_fault ex_K (\<lambda>w. w) 5 (uffd_msg_of_bytes (ex_msg 0 0x100B)) ?s) (\<lambda>_. run_ret True)"
    using w by (simp add: handler_turn_def handler_start_def ex_io_def io_read_def ex_msg_fields sizeof_uffd_msg_def
        EVENT_UFFD_def EVENT_STOP_def EPOLLIN_def EPOLLHUP_def Let_def)
  moreover define t' where "t' = (if hs_served t = total_pages (hs_backend t) \<and> \<not> hs_logged t then t\<lparr>hs_logged := True\<rparr> else t)"
  have "hs_backend ?s = ex_rb" by (simp add: handler_start_def)
  then have "serve_fault ex_K (\<lambda>w. w) 5 (uffd_msg_of_bytes (ex_msg 0 0x100B)) ?s = Some (Inr (), t')"
    using t loc by (simp add: serve_fault_def ex_msg_fields t'_def del: One_nat_def)
  moreover have "hs_backend t' = hs_backend t" by (simp add: t'_def)
  ultimately show thesis using s1 by (intro that [of t']) simp_all
qed

section \<open>Applications\<close>

lemma ex_reach:
  obtains t where "rtranclp (vm_step ex_K (\<lambda>w. w) 7 5 13 ex_rb)
      (handler_start ex_rb 8 (ex_io [ex_msg 0 0x100B]), snap ex_rb ex_file) (t, snap ex_rb ex_file)"
    and "st (hs_backend t) 1 = STATE_SHARED_READY"
proof -
  obtain t where t: "handler_turn ex_K (\<lambda>w. w) 7 5 13 (handler_start ex_rb 8 (ex_io [ex_msg 0 0x100B])) = Some (Inr True, t)"
    and s1: "st (hs_backend t) 1 = STATE_SHARED_READY" by (rule ex_turn)
  from r_into_rtranclp [of "vm_step ex_K (\<lambda>w. w) 7 5 13 ex_rb", OF vm_step.turn [OF t]] s1 show thesis by (rule that)
qed

lemma ex_snap1: "snap ex_rb ex_file 1 = replicate 8 66"
  by (simp add: snap_def ex_pages) (simp add: ex_rb_def page_meta_new_def ex_file_def)

lemma ex_snapshot_ok: "snapshot_io_ok ex_K ex_rb ex_file (\<lambda>_. True) io_pages"
  by (rule io_snapshot_ok) (simp add: ex_rb_def)

lemma ex_start_inv: "hst ex_K ex_rb ex_file (\<lambda>_. True) io_pages (\<lambda>_. STATE_UNLOADED) (snap ex_rb ex_file)
    (handler_start ex_rb 8 (ex_io []))"
  by (rule handler_start_inv [OF ex_fresh])


theorem handler_turn_returns_witness:
  "\<exists>r t. handler_turn ex_K (\<lambda>w. w) 7 5 13 (handler_start ex_rb 8 (ex_io [ex_msg 2 0x100B])) = Some (r, t) \<and> r \<noteq> Inl Panic"
  using handler_turn_returns [OF io_guest_ok ex_snapshot_ok io_stop_undisturbed ex_rb_wf
      ex_fresh [of "[ex_msg 2 0x100B]"] rtranclp.rtrancl_refl, of 7] by blast

theorem missing_fault_resolved_witness:
  "\<exists>r t. serve_fault ex_K (\<lambda>w. w) 5 (uffd_msg_of_bytes (ex_msg 0 0x100B)) (handler_start ex_rb 8 (ex_io [])) = Some (r, t) \<and>
    r \<noteq> Inl Panic \<and> (r = Inr () \<longrightarrow> k_load ex_K 0x1008 8 (hs_world t) = replicate 8 66)"
proof -
  have "page_has ex_rb 1 (msg_pf_address (uffd_msg_of_bytes (ex_msg 0 0x100B)))"
    by (simp add: page_has_def ex_pages ex_msg_fields)
  moreover have "msg_pf_flags (uffd_msg_of_bytes (ex_msg 0 0x100B)) AND UFFD_PAGEFAULT_FLAG_WP = 0"
    by (simp add: ex_msg_fields)
  ultimately show ?thesis
    using missing_fault_resolved [OF io_guest_ok ex_snapshot_ok ex_rb_wf ex_start_inv]
    by (fastforce simp: ex_pages ex_snap1 simp flip: One_nat_def)
qed

theorem wp_fault_resolved_witness:
  "\<exists>r t. serve_fault ex_K (\<lambda>w. w) 5 (uffd_msg_of_bytes (ex_msg 2 0x100B)) (handler_start ex_rb 8 (ex_io [])) = Some (r, t) \<and>
    r \<noteq> Inl Panic \<and> (r = Inr () \<longrightarrow> st (hs_backend t) 1 = STATE_PRIVATE_DIRTY)"
proof -
  have "page_has ex_rb 1 (msg_pf_address (uffd_msg_of_bytes (ex_msg 2 0x100B)))"
    by (simp add: page_has_def ex_pages ex_msg_fields)
  moreover have "msg_pf_flags (uffd_msg_of_bytes (ex_msg 2 0x100B)) AND UFFD_PAGEFAULT_FLAG_WP \<noteq> 0"
    by (simp add: ex_msg_fields UFFD_PAGEFAULT_FLAG_WP_def)
  ultimately obtain r t where t: "serve_fault ex_K (\<lambda>w. w) 5 (uffd_msg_of_bytes (ex_msg 2 0x100B)) (handler_start ex_rb 8 (ex_io [])) = Some (r, t)"
    "r \<noteq> Inl Panic" and g: "r = Inr () \<Longrightarrow> \<exists>g. hst ex_K ex_rb ex_file (\<lambda>_. True) io_pages g (snap ex_rb ex_file) t \<and> g 1 = STATE_PRIVATE_DIRTY"
    using wp_fault_resolved [OF io_guest_ok ex_snapshot_ok ex_rb_wf ex_start_inv] by blast
  have "st (hs_backend t) 1 = STATE_PRIVATE_DIRTY" if "r = Inr ()"
    using g [OF that] by (auto simp: ex_pages dest!: hstD(1))
  with t show ?thesis by blast
qed

theorem restore_counters_bounded_witness:
  "hs_served (handler_start ex_rb 8 (ex_io [])) \<le> total_pages ex_rb"
  using restore_counters_bounded [OF io_guest_ok ex_snapshot_ok io_stop_undisturbed ex_rb_wf
      ex_fresh [of "[]"] rtranclp.rtrancl_refl] by blast

theorem restore_new_wf_witness:
  "\<exists>b. restore_new (SourceFile 10) [ex_range] = Inr b \<and> backend_wf b"
proof -
  have "ranges_ok [ex_range]" by (simp add: ranges_ok_def ex_range_wf ex_npages)
  from restore_new_wf [OF this, of "SourceFile 10"] show ?thesis by blast
qed

theorem locate_fault_exact_witness:
  "\<exists>i < 3. locate_fault ex_rb 0x100B = Inr (Some (fault_of ex_rb i))"
proof -
  have "in_range ex_range 0x100B" by (simp add: in_range_def ex_range_def range_new_def)
  moreover have "rb_ranges ex_rb = [ex_range]" by (simp add: ex_rb_def)
  ultimately show ?thesis using locate_fault_exact [OF ex_rb_wf, of "0x100B"] by (auto simp: ex_pages)
qed

theorem cow_chunk_exact_witness:
  "\<exists>ch. cow_chunk_for_fault ex_rb (fault_of ex_rb 1) = Inr (Some ch) \<and> unat (cc_first_page_index ch) \<le> 1"
  using cow_chunk_exact [OF ex_rb_wf, of 1] by (auto simp: ex_pages Let_def)

theorem serve_connection_answers_witness:
  "\<exists>r s'. serve_template_connection ex_K 12 11 10
      \<lparr>sv_metrics = metrics_new 24 8 ''t'' ''s'', sv_world = (ex_io [])\<lparr>io_in := request 8 8\<rparr>\<rparr> = Some (r, s') \<and> r \<noteq> Inl Panic"
  using serve_connection_answers [OF io_service_ok] by blast

theorem service_read_page_correct_witness:
  "\<exists>r w'. service_read_page ex_K 14 8 8 (ex_io []) = Some (r, w') \<and> r \<noteq> Inl Panic \<and>
     (\<forall>dst. r = Inr dst \<longrightarrow> dst = replicate 8 66)"
proof -
  have "drop (io_taken (ex_io [])) (answers ex_file (io_asked (ex_io []))) = []"
    by (simp add: ex_io_def answers.simps)
  moreover have "io_asked (ex_io []) = requests []" by (simp add: ex_io_def)
  moreover have "in_file ex_file []" by (simp add: in_file_def)
  moreover have "take 8 (drop 8 ex_file) = replicate 8 66" by (simp add: ex_file_def)
  ultimately show ?thesis
    using service_read_page_correct [OF io_client_ok, of "ex_io []" ex_file "[]" 8 8] by fastforce
qed

theorem metrics_count_requests_witness:
  "mt_page_requests (fold (\<lambda>(offset, len). count_request offset len) [(0, 8), (8, 8), (0, 8)] (metrics_new 24 8 ''t'' ''s'')) = 3"
  by (subst metrics_count_requests) (simp_all add: metrics_new_def)

theorem duplicate_requests_exact_witness:
  "unat (duplicate_requests (fold (\<lambda>(offset, len). count_request offset len) [(0, 8), (8, 8), (0, 8)] (metrics_new 24 8 ''t'' ''s''))) = 1"
proof -
  have p: "pages_of 8 (0, 8) = {0}" "pages_of 8 (8, 8) = {1}"
    by (auto simp: pages_of_def word_unat_eq_iff)
  have c: "card {0, 1, 0 :: u64} = 2" by (simp add: card_insert_if)
  have "unat (duplicate_requests (fold (\<lambda>(offset, len). count_request offset len) [(0, 8), (8, 8), (0, 8)]
      (metrics_new 24 8 ''t'' ''s''))) = length [(0 :: u64, 8 :: u64), (8, 8), (0, 8)] -
      card ((\<lambda>(offset, len). offset div 8) ` set [(0 :: u64, 8 :: u64), (8, 8), (0, 8)])"
    by (rule conjunct1 [OF duplicate_requests_exact [OF _ _ _ refl]]) (use p in auto)
  with c show ?thesis by simp
qed

end
