(* ===== verification/Migration_Ranges.thy ===== *)
theory Migration_Ranges
  imports Prelude
begin

text \<open>
  The memory ranges of a live migration: the iterator over the set bits of a dirty bitmap
  (\<^verbatim>\<open>src/uffd-cow-gpt/cloud-hypervisor/vm-migration/src/bitpos_iterator.rs\<close>) and the range tables
  built from it and cut into chunks
  (\<^verbatim>\<open>src/uffd-cow-gpt/cloud-hypervisor/vm-migration/src/protocol.rs\<close>). The adaptor \<open>coalesce\<close> of the
  \<open>itertools\<close> crate is a parameter with its documented equations.
\<close>

section \<open>Bit positions\<close>

definition trailing_zeros :: "u64 \<Rightarrow> u32" where
  "trailing_zeros w = of_nat (length (takeWhile (\<lambda>i. \<not> bit w i) [0..<64]))"

record bitpos_iterator =
  underlying_it :: "u64 list"
  word_pos :: u32
  current_word :: "(u64 \<times> u32) option"

definition bitpos_fetch :: "bitpos_iterator \<Rightarrow> bitpos_iterator" where
  "bitpos_fetch it =
     (if current_word it = None
      then (case underlying_it it of
              [] \<Rightarrow> it
            | w # ws \<Rightarrow> it\<lparr>underlying_it := ws, current_word := Some (w, 0)\<rparr>)
      else it)"

function bitpos_next :: "bitpos_iterator \<Rightarrow> (unit, u64 option) outcome \<times> bitpos_iterator" where
  "bitpos_next it0 =
     (let it = bitpos_fetch it0 in
      case current_word it of
        None \<Rightarrow> (Inr None, it)
      | Some (word, word_bit) \<Rightarrow>
          let shifted_word = drop_bit (unat word_bit) word in
          if word \<noteq> 0 \<and> word_bit < 64 \<and> shifted_word \<noteq> 0
          then (let zeroes = trailing_zeros shifted_word;
                    it = it\<lparr>current_word := Some (word, zeroes + word_bit + 1)\<rparr>
                in case checked_add (ucast (word_pos it) * 64) (ucast word_bit + ucast zeroes) of
                     None \<Rightarrow> (Inl Panic, it)
                   | Some next_bitpos \<Rightarrow> (Inr (Some next_bitpos), it))
          else bitpos_next (it\<lparr>current_word := None, word_pos := word_pos it + 1\<rparr>))"
  by pat_completeness auto
termination
  by (relation "measure (\<lambda>it. 2 * length (underlying_it it) + (if current_word it = None then 0 else 1))")
    (auto simp: bitpos_fetch_def split: if_splits list.splits)

declare bitpos_next.simps [simp del]

text \<open>The bits of the current word from the current position on, and of the words to come.\<close>

definition bits_from :: "nat \<Rightarrow> u64 \<Rightarrow> nat list" where
  "bits_from k w = filter (bit w) [k..<64]"

primrec word_bits :: "nat \<Rightarrow> u64 list \<Rightarrow> nat list" where
  "word_bits p [] = []"
| "word_bits p (w # ws) = map (\<lambda>i. 64 * p + i) (bits_from 0 w) @ word_bits (Suc p) ws"

definition bits_left :: "bitpos_iterator \<Rightarrow> nat list" where
  "bits_left it = (case current_word it of
       None \<Rightarrow> word_bits (unat (word_pos it)) (underlying_it it)
     | Some (w, k) \<Rightarrow> map (\<lambda>i. 64 * unat (word_pos it) + i) (bits_from (unat k) w) @
         word_bits (Suc (unat (word_pos it))) (underlying_it it))"

definition it_ok :: "bitpos_iterator \<Rightarrow> bool" where
  "it_ok it \<longleftrightarrow> unat (word_pos it) + length (underlying_it it) + (if current_word it = None then 0 else 1) < 2 ^ 32 \<and>
     (case current_word it of None \<Rightarrow> True | Some (w, k) \<Rightarrow> unat k \<le> 64)"

lemma unat_widen: "unat (ucast (w :: u32) :: u64) = unat w"
  using unat_lt [of w] by (simp add: unsigned_ucast_eq take_bit_nat_eq_self_iff)

lemma bits_left_fetch [simp]: "bits_left (bitpos_fetch it) = bits_left it"
  by (auto simp: bits_left_def bitpos_fetch_def split: list.split option.split)

lemma it_ok_fetch [simp]: "it_ok it \<Longrightarrow> it_ok (bitpos_fetch it)"
  by (auto simp: it_ok_def bitpos_fetch_def split: list.split option.split)

lemma bits_from_Cons:
  assumes "drop_bit k w \<noteq> 0" and "k < 64"
  defines "z \<equiv> unat (trailing_zeros (drop_bit k w))"
  shows "bits_from k w = (k + z) # bits_from (k + z + 1) w" and "k + z < 64"
proof -
  define P where "P = (\<lambda>i. \<not> bit (drop_bit k w) i)"
  define m where "m = length (takeWhile P [0..<64])"
  obtain j where j: "bit (drop_bit k w) j" using assms(1) by (auto simp: bit_eq_iff)
  then have bk: "bit w (k + j)" and j64: "j < 64" by (auto simp: bit_drop_bit_eq dest: bit_imp_le_length)
  have kj: "k + j < 64" using bk by (auto dest: bit_imp_le_length)
  have least: "m \<le> j"
  proof (rule ccontr)
    assume "\<not> m \<le> j"
    then have "j < length (takeWhile P [0..<64])" by (simp add: m_def)
    then have "P ([0..<64] ! j)" using takeWhile_nth [of j P "[0..<64]"] set_takeWhileD nth_mem by metis
    with j j64 show False by (simp add: P_def)
  qed
  then have m64: "m < 64" using j64 by simp
  have "length (takeWhile P [0..<64]) < length [0..<64]" using m64 by (simp add: m_def)
  from nth_length_takeWhile [OF this] have "\<not> P ([0..<64] ! m)" unfolding m_def .
  then have bm: "bit w (k + m)" using m64 by (simp add: P_def bit_drop_bit_eq)
  have nb: "\<not> bit w i" if i: "k \<le> i" "i < k + m" for i
  proof -
    have "i - k < length (takeWhile P [0..<64])" using i by (simp add: m_def [symmetric])
    moreover from this have "takeWhile P [0..<64] ! (i - k) = i - k"
      using m64 by (simp add: takeWhile_nth m_def [symmetric])
    ultimately have "P (i - k)" using set_takeWhileD nth_mem by metis
    with i show ?thesis by (simp add: P_def bit_drop_bit_eq)
  qed
  have z: "z = m" using m64 by (simp add: z_def trailing_zeros_def m_def P_def take_bit_nat_eq_self unsigned_of_nat)
  show km: "k + z < 64" using least kj z by simp
  have "[k..<64] = [k..<k + m] @ (k + m) # [k + m + 1..<64]"
    using km z by (metis Suc_eq_plus1 le_add1 less_imp_le upt_add_eq_append upt_conv_Cons le_add_diff_inverse)
  moreover have "filter (bit w) [k..<k + m] = []" using nb by (simp add: filter_empty_conv)
  ultimately show "bits_from k w = (k + z) # bits_from (k + z + 1) w"
    using bm z by (simp add: bits_from_def)
qed

lemma bits_from_Nil: "drop_bit k w = 0 \<or> w = 0 \<or> 64 \<le> k \<Longrightarrow> bits_from k w = []"
proof -
  assume h: "drop_bit k w = 0 \<or> w = 0 \<or> 64 \<le> k"
  have "\<not> bit w i" if "k \<le> i" "i < 64" for i
    using h that bit_drop_bit_eq [of k w] by (auto simp: fun_eq_iff) (metis bit_0_eq bot_apply bot_bool_def le_add_diff_inverse)
  then show ?thesis by (auto simp: bits_from_def filter_empty_conv)
qed

lemma bitpos_next_spec:
  "it_ok it \<Longrightarrow> (case bits_left it of
     [] \<Rightarrow> \<exists>it'. bitpos_next it = (Inr None, it')
   | b # bs \<Rightarrow> \<exists>it'. bitpos_next it = (Inr (Some (of_nat b)), it') \<and> bits_left it' = bs \<and> it_ok it')"
proof (induction it rule: bitpos_next.induct)
  case (1 it0)
  define it where "it = bitpos_fetch it0"
  have ok: "it_ok it" and left: "bits_left it0 = bits_left it" using 1(2) by (simp_all add: it_def)
  show ?case
  proof (cases "current_word it")
    case None
    then have "underlying_it it = []" by (auto simp: it_def bitpos_fetch_def split: list.splits if_splits)
    with None have "bits_left it = []" "bitpos_next it0 = (Inr None, it)"
      by (simp_all add: bits_left_def bitpos_next.simps [of it0] it_def [symmetric])
    with left show ?thesis by simp
  next
    case (Some wk)
    obtain w k where wk: "wk = (w, k)" by (cases wk)
    note cur = Some [unfolded wk]
    have k64: "unat k \<le> 64" and pos: "unat (word_pos it) + length (underlying_it it) + 1 < 2 ^ 32"
      using ok cur by (simp_all add: it_ok_def)
    show ?thesis
    proof (cases "w \<noteq> 0 \<and> k < 64 \<and> drop_bit (unat k) w \<noteq> 0")
      case True
      then have k: "unat k < 64" and nz: "drop_bit (unat k) w \<noteq> 0" by (auto simp: word_less_nat_alt)
      define z where "z = trailing_zeros (drop_bit (unat k) w)"
      note B = bits_from_Cons [OF nz k, folded z_def]
      have s: "unat (ucast k + ucast z :: u64) = unat k + unat z"
        by (subst unat_add_nowrap) (use B(2) in \<open>simp_all add: unat_widen\<close>)
      have m: "unat (ucast (word_pos it) * 64 :: u64) = unat (word_pos it) * 64"
        by (subst unat_mult_nowrap) (use pos in \<open>simp_all add: unat_widen\<close>)
      define b where "b = 64 * unat (word_pos it) + (unat k + unat z)"
      have sum: "unat (ucast (word_pos it) * 64 :: u64) + unat (ucast k + ucast z :: u64) = b"
        unfolding s m b_def by simp
      have b64: "b < 2 ^ 64" using pos B(2) by (simp add: b_def)
      have "ucast (word_pos it) * 64 + (ucast k + ucast z) = (of_nat (unat (ucast (word_pos it) * 64 + (ucast k + ucast z) :: u64)) :: u64)"
        by simp
      also have "\<dots> = of_nat b" by (subst unat_add_nowrap) (use sum b64 in simp_all)
      finally have "checked_add (ucast (word_pos it) * 64) (ucast k + ucast z) = Some (of_nat b :: u64)"
        using sum b64 by (simp add: checked_add_Some)
      then have n: "bitpos_next it0 = (Inr (Some (of_nat b)), it\<lparr>current_word := Some (w, z + k + 1)\<rparr>)"
        using True by (simp add: bitpos_next.simps [of it0] it_def [symmetric] cur Let_def z_def [symmetric])
      have "unat (z + k) = unat k + unat z" by (subst unat_add_nowrap) (use B(2) in simp_all)
      then have zk: "unat (z + k + 1) = unat k + unat z + 1" by (subst unat_add_nowrap) (use B(2) in simp_all)
      have "bits_left it = b # bits_left (it\<lparr>current_word := Some (w, z + k + 1)\<rparr>)"
        using cur by (simp add: bits_left_def B(1) zk b_def)
      moreover have "it_ok (it\<lparr>current_word := Some (w, z + k + 1)\<rparr>)" using pos zk B(2) by (simp add: it_ok_def)
      ultimately show ?thesis using n left by simp
    next
      case False
      define it2 where "it2 = it\<lparr>current_word := None, word_pos := word_pos it + 1\<rparr>"
      have n: "bitpos_next it0 = bitpos_next it2"
        using False by (auto simp: bitpos_next.simps [of it0] it_def [symmetric] cur Let_def it2_def)
      have p: "unat (word_pos it + 1) = unat (word_pos it) + 1" using pos by (subst unat_add_nowrap) simp_all
      have "bits_from (unat k) w = []" using False by (intro bits_from_Nil) (auto simp: word_less_nat_alt)
      then have "bits_left it = bits_left it2" using cur p by (simp add: bits_left_def it2_def)
      moreover have "it_ok it2" using pos p by (simp add: it_ok_def it2_def)
      moreover have "it_ok it2 \<Longrightarrow> (case bits_left it2 of [] \<Rightarrow> \<exists>it'. bitpos_next it2 = (Inr None, it')
         | b # bs \<Rightarrow> \<exists>it'. bitpos_next it2 = (Inr (Some (of_nat b)), it') \<and> bits_left it' = bs \<and> it_ok it')"
        using 1(1) [OF it_def cur refl refl] False unfolding it2_def by blast
      ultimately show ?thesis unfolding n left by simp
    qed
  qed
qed

text \<open>Collecting the iterator; it yields at most 64 positions per word.\<close>

definition it_size :: "bitpos_iterator \<Rightarrow> nat" where
  "it_size it = 65 * length (underlying_it it) + (case current_word it of None \<Rightarrow> 0 | Some (w, k) \<Rightarrow> 65 - unat k)"

lemma bitpos_next_size: "bitpos_next it = (Inr (Some b), it') \<Longrightarrow> it_size it' < it_size it"
proof (induction it rule: bitpos_next.induct)
  case (1 it0)
  define it where "it = bitpos_fetch it0"
  have fetch: "it_size it \<le> it_size it0" by (auto simp: it_def bitpos_fetch_def it_size_def split: list.split)
  show ?case
  proof (cases "current_word it")
    case None
    with 1(2) show ?thesis by (simp add: bitpos_next.simps [of it0] it_def [symmetric])
  next
    case (Some wk)
    obtain w k where wk: "wk = (w, k)" by (cases wk)
    note cur = Some [unfolded wk]
    show ?thesis
    proof (cases "w \<noteq> 0 \<and> k < 64 \<and> drop_bit (unat k) w \<noteq> 0")
      case True
      then have k: "unat k < 64" and nz: "drop_bit (unat k) w \<noteq> 0" by (auto simp: word_less_nat_alt)
      define z where "z = trailing_zeros (drop_bit (unat k) w)"
      note B = bits_from_Cons [OF nz k, folded z_def]
      from 1(2) True have it': "it' = it\<lparr>current_word := Some (w, z + k + 1)\<rparr>"
        by (auto simp: bitpos_next.simps [of it0] it_def [symmetric] cur Let_def z_def split: option.splits)
      have "unat (z + k) = unat k + unat z" by (subst unat_add_nowrap) (use B(2) in simp_all)
      then have "unat (z + k + 1) = unat k + unat z + 1" by (subst unat_add_nowrap) (use B(2) in simp_all)
      then have "it_size it' < it_size it" using cur B(2) by (simp add: it_size_def it')
      with fetch show ?thesis by simp
    next
      case False
      define it2 where "it2 = it\<lparr>current_word := None, word_pos := word_pos it + 1\<rparr>"
      have n: "bitpos_next it0 = bitpos_next it2"
        using False by (auto simp: bitpos_next.simps [of it0] it_def [symmetric] cur Let_def it2_def)
      have "it_size it' < it_size it2"
        using 1(1) [OF it_def cur refl refl] False 1(2) n unfolding it2_def by simp
      also have "\<dots> \<le> it_size it" by (simp add: it_size_def it2_def)
      finally show ?thesis using fetch by simp
    qed
  qed
qed

function bitpos_collect :: "bitpos_iterator \<Rightarrow> (unit, u64 list) outcome" where
  "bitpos_collect it =
     (case bitpos_next it of
        (Inl e, _) \<Rightarrow> Inl e
      | (Inr None, _) \<Rightarrow> Inr []
      | (Inr (Some b), it') \<Rightarrow> bindE (bitpos_collect it') (\<lambda>bs. Inr (b # bs)))"
  by pat_completeness auto
termination
  by (relation "measure it_size") (auto intro: bitpos_next_size [OF sym])

declare bitpos_collect.simps [simp del]

definition bit_positions :: "u64 list \<Rightarrow> (unit, u64 list) outcome" where
  "bit_positions ws = bitpos_collect \<lparr>underlying_it = ws, word_pos = 0, current_word = None\<rparr>"

lemma bitpos_collect_spec: "it_ok it \<Longrightarrow> bitpos_collect it = Inr (map of_nat (bits_left it))"
proof (induction it rule: bitpos_collect.induct)
  case (1 it)
  show ?case
  proof (cases "bits_left it")
    case Nil
    with bitpos_next_spec [OF 1(2)] obtain it' where "bitpos_next it = (Inr None, it')" by auto
    with Nil show ?thesis by (simp add: bitpos_collect.simps [of it])
  next
    case (Cons b bs)
    with bitpos_next_spec [OF 1(2)] obtain it' where
      n: "bitpos_next it = (Inr (Some (of_nat b)), it')" "bits_left it' = bs" "it_ok it'" by auto
    from 1(1) [OF n(1) [symmetric] refl refl n(3)] n Cons show ?thesis by (simp add: bitpos_collect.simps [of it])
  qed
qed

definition set_bits :: "u64 list \<Rightarrow> nat list" where
  "set_bits ws = filter (\<lambda>i. bit (ws ! (i div 64)) (i mod 64)) [0..<64 * length ws]"

lemma word_bits_nth:
  "word_bits p ws = map ((+) (64 * p)) (set_bits ws)"
proof (induction ws arbitrary: p)
  case (Cons w ws)
  have "map ((+) 64) [0..<64 * length ws] = [64..<64 + 64 * length ws]" by (rule nth_equalityI) simp_all
  then have split: "[0..<64 * length (w # ws)] = [0..<64] @ map ((+) 64) [0..<64 * length ws]"
    using upt_add_eq_append [of 0 64 "64 * length ws"] by simp
  have "set_bits (w # ws) = bits_from 0 w @ map ((+) 64) (set_bits ws)"
  proof -
    have "filter (\<lambda>i. bit ((w # ws) ! (i div 64)) (i mod 64)) [0..<64] = bits_from 0 w"
      unfolding bits_from_def by (rule filter_cong) auto
    moreover have "filter (\<lambda>i. bit ((w # ws) ! (i div 64)) (i mod 64)) (map ((+) 64) [0..<64 * length ws]) =
        map ((+) 64) (set_bits ws)"
      unfolding set_bits_def filter_map by (rule arg_cong [where f = "map _"], rule filter_cong) (auto simp: div_add_self1)
    ultimately show ?thesis unfolding set_bits_def split filter_append by simp
  qed
  with Cons show ?case by (simp add: algebra_simps comp_def)
qed (simp add: set_bits_def)

lemma bit_positions_eq:
  assumes "length ws < 2 ^ 32"
  shows "bit_positions ws = Inr (map of_nat (set_bits ws))"
proof -
  have "it_ok \<lparr>underlying_it = ws, word_pos = 0, current_word = None\<rparr>" using assms by (simp add: it_ok_def)
  from bitpos_collect_spec [OF this] show ?thesis
    by (simp add: bit_positions_def bits_left_def word_bits_nth map_idI)
qed

section \<open>Range tables\<close>

record memory_range =
  mr_gpa :: u64
  mr_length :: u64

type_synonym memory_range_table = "memory_range list"

text \<open>
  What the documentation of \<open>itertools\<close> says of \<open>coalesce\<close>: the closure gets the previous and the
  current element and either merges them or gives back the element to emit and the new previous
  one; the value that remains at the end is emitted.
\<close>

type_synonym 'a coalesce = "('a \<Rightarrow> 'a \<Rightarrow> ('a \<times> 'a) + 'a) \<Rightarrow> 'a list \<Rightarrow> 'a list"

definition coalesce_ok :: "'a coalesce \<Rightarrow> bool" where
  "coalesce_ok coal \<longleftrightarrow> (\<forall>f. coal f [] = [] \<and> (\<forall>x. coal f [x] = [x]) \<and>
     (\<forall>x y zs. coal f (x # y # zs) =
        (case f x y of Inr c \<Rightarrow> coal f (c # zs) | Inl (p, c) \<Rightarrow> p # coal f (c # zs))))"

definition merge_adjacent :: "u64 \<times> u64 \<Rightarrow> u64 \<times> u64 \<Rightarrow> ((u64 \<times> u64) \<times> (u64 \<times> u64)) + (u64 \<times> u64)" where
  "merge_adjacent prev cur = (if snd prev = fst cur then Inr (fst prev, snd cur) else Inl (prev, cur))"

definition dirty_ranges_iter ::
  "(u64 \<times> u64) coalesce \<Rightarrow> u64 list \<Rightarrow> u64 \<Rightarrow> u64 \<Rightarrow> (unit, memory_range list) outcome" where
  "dirty_ranges_iter coal bitmap start_addr page_size =
     bindE (bit_positions bitmap) (\<lambda>bs.
       Inr (map (\<lambda>r. \<lparr>mr_gpa = start_addr + fst r * page_size, mr_length = (snd r - fst r) * page_size\<rparr>)
         (coal merge_adjacent (map (\<lambda>b. (b, b + 1)) bs))))"

definition from_dirty_bitmap ::
  "(u64 \<times> u64) coalesce \<Rightarrow> u64 list \<Rightarrow> u64 \<Rightarrow> u64 \<Rightarrow> (unit, memory_range_table) outcome" where
  "from_dirty_bitmap coal bitmap start_addr page_size = dirty_ranges_iter coal bitmap start_addr page_size"

definition range_bytes :: "memory_range \<Rightarrow> nat set" where
  "range_bytes r = {unat (mr_gpa r)..<unat (mr_gpa r) + unat (mr_length r)}"

lemma coalesce_okD:
  assumes "coalesce_ok coal"
  shows "coal f [] = []" "coal f [x] = [x]"
    "coal f (x # y # zs) = (case f x y of Inr c \<Rightarrow> coal f (c # zs) | Inl (p, c) \<Rightarrow> p # coal f (c # zs))"
  using assms unfolding coalesce_ok_def by blast+

lemma less_inc_iff:
  fixes b :: "'a::len word"
  assumes "b < b + 1"
  shows "x < b + 1 \<longleftrightarrow> x \<le> b" and "b + 1 \<le> x \<longleftrightarrow> b < x"
proof -
  have "unat (b + 1) = unat b + 1"
    using assms unat_lt [of b] by (auto simp: word_less_nat_alt unat_word_ariths mod_Suc split: if_splits)
  then show "x < b + 1 \<longleftrightarrow> x \<le> b" and "b + 1 \<le> x \<longleftrightarrow> b < x"
    by (auto simp: word_less_nat_alt word_le_nat_alt)
qed

lemma coalesce_adjacent:
  assumes co: "coalesce_ok coal" and "fst p < snd p" and "\<forall>b \<in> set bs. snd p \<le> b \<and> b < b + 1"
    and "sorted_wrt (<) bs"
  shows "\<exists>e rs. coal merge_adjacent (p # map (\<lambda>b. (b, b + 1)) bs) = (fst p, e) # rs \<and>
    (\<forall>r \<in> set ((fst p, e) # rs). fst r < snd r \<and> (snd r = snd p \<or> snd r \<in> (\<lambda>b. b + 1) ` set bs)) \<and>
    sorted_wrt (\<lambda>r t. snd r < fst t) ((fst p, e) # rs) \<and>
    (\<Union>r \<in> set ((fst p, e) # rs). {fst r..<snd r}) = {fst p..<snd p} \<union> set bs"
  using assms(2-)
proof (induction bs arbitrary: p)
  case Nil
  then show ?case by (intro exI [of _ "snd p"] exI [of _ "[]"]) (simp add: coalesce_okD [OF co])
next
  case (Cons b bs)
  have step: "coal merge_adjacent (p # map (\<lambda>b. (b, b + 1)) (b # bs)) =
    (if snd p = b then coal merge_adjacent ((fst p, b + 1) # map (\<lambda>b. (b, b + 1)) bs)
     else p # coal merge_adjacent ((b, b + 1) # map (\<lambda>b. (b, b + 1)) bs))"
    by (simp add: coalesce_okD [OF co] merge_adjacent_def)
  have b1: "b < b + 1" "snd p \<le> b" using Cons.prems by auto
  have up: "b + 1 \<le> c" if "c \<in> set bs" for c
    using Cons.prems(3) that less_inc_iff(2) [OF b1(1)] by auto
  have bs: "\<forall>c \<in> set bs. b + 1 \<le> c \<and> c < c + 1" "sorted_wrt (<) bs" using Cons.prems up by auto
  have one: "{b..<b + 1} = {b}" by (auto simp: less_inc_iff(1) [OF b1(1)])
  show ?case
  proof (cases "snd p = b")
    case True
    have "fst p \<le> b" using Cons.prems(1) True by simp
    then have "{fst p..<b + 1} = insert b {fst p..<b}" by (auto simp: less_inc_iff(1) [OF b1(1)])
    then have un: "{fst p..<b + 1} \<union> set bs = {fst p..<snd p} \<union> set (b # bs)" using True by simp
    have "fst p < b + 1" using Cons.prems(1) b1 by simp
    with Cons.IH [of "(fst p, b + 1)"] bs obtain e rs where
      r: "coal merge_adjacent ((fst p, b + 1) # map (\<lambda>b. (b, b + 1)) bs) = (fst p, e) # rs"
      "\<forall>r \<in> set ((fst p, e) # rs). fst r < snd r \<and> (snd r = b + 1 \<or> snd r \<in> (\<lambda>b. b + 1) ` set bs)"
      "sorted_wrt (\<lambda>r t. snd r < fst t) ((fst p, e) # rs)"
      "(\<Union>r \<in> set ((fst p, e) # rs). {fst r..<snd r}) = {fst p..<b + 1} \<union> set bs" by auto
    have "coal merge_adjacent (p # map (\<lambda>b. (b, b + 1)) (b # bs)) = (fst p, e) # rs"
      using True r(1) unfolding step by simp
    moreover have "\<forall>r \<in> set ((fst p, e) # rs). fst r < snd r \<and>
        (snd r = snd p \<or> snd r \<in> (\<lambda>b. b + 1) ` set (b # bs))"
      using r(2) by auto
    ultimately show ?thesis using r(3,4) unfolding un by blast
  next
    case False
    then have lt: "snd p < b" using b1 by simp
    from Cons.IH [of "(b, b + 1)"] bs b1 obtain e rs where
      r: "coal merge_adjacent ((b, b + 1) # map (\<lambda>b. (b, b + 1)) bs) = (b, e) # rs"
      "\<forall>r \<in> set ((b, e) # rs). fst r < snd r \<and> (snd r = b + 1 \<or> snd r \<in> (\<lambda>b. b + 1) ` set bs)"
      "sorted_wrt (\<lambda>r t. snd r < fst t) ((b, e) # rs)"
      "(\<Union>r \<in> set ((b, e) # rs). {fst r..<snd r}) = {b..<b + 1} \<union> set bs" by auto
    have "snd p < fst t" if "t \<in> set ((b, e) # rs)" for t
      using r(2,3) that lt by force
    with r(3) have "sorted_wrt (\<lambda>r t. snd r < fst t) ((fst p, snd p) # (b, e) # rs)" by simp
    moreover have "coal merge_adjacent (p # map (\<lambda>b. (b, b + 1)) (b # bs)) = (fst p, snd p) # (b, e) # rs"
      using False r(1) unfolding step by simp
    moreover have "\<forall>r \<in> set ((fst p, snd p) # (b, e) # rs). fst r < snd r \<and>
        (snd r = snd p \<or> snd r \<in> (\<lambda>b. b + 1) ` set (b # bs))"
      using r(2) Cons.prems(1) by auto
    moreover have "(\<Union>r \<in> set ((fst p, snd p) # (b, e) # rs). {fst r..<snd r}) = {fst p..<snd p} \<union> set (b # bs)"
      using r(4) one by simp
    ultimately show ?thesis by blast
  qed
qed

text \<open>The bytes of a run of pages.\<close>

definition page_bytes :: "nat \<Rightarrow> nat \<Rightarrow> nat \<Rightarrow> nat set" where
  "page_bytes start ps i = {start + i * ps..<start + (i + 1) * ps}"

lemma run_bytes:
  assumes "0 < ps" and "s \<le> e"
  shows "{start + s * ps..<start + e * ps} = (\<Union>i \<in> {s..<e}. page_bytes start ps i)"
proof (intro set_eqI iffI)
  fix a assume a: "a \<in> {start + s * ps..<start + e * ps}"
  define i where "i = (a - start) div ps"
  have "start \<le> a" using a by (auto intro: order_trans [OF le_add1])
  then have d: "a = start + (i * ps + (a - start) mod ps)" by (simp add: i_def)
  have "(a - start) mod ps < ps" using assms(1) by simp
  moreover have "s \<le> i" "i < e"
    using a assms(1) by (auto simp: i_def less_eq_div_iff_mult_less_eq div_less_iff_less_mult)
  ultimately show "a \<in> (\<Union>i \<in> {s..<e}. page_bytes start ps i)"
    using d by (intro UN_I [of i]) (auto simp: page_bytes_def)
next
  fix a assume "a \<in> (\<Union>i \<in> {s..<e}. page_bytes start ps i)"
  then obtain i where i: "s \<le> i" "i + 1 \<le> e" and a: "start + i * ps \<le> a" "a < start + (i + 1) * ps"
    by (auto simp: page_bytes_def)
  have "s * ps \<le> i * ps" "(i + 1) * ps \<le> e * ps" by (intro mult_le_mono1 i)+
  with a show "a \<in> {start + s * ps..<start + e * ps}" unfolding atLeastLessThan_iff by linarith
qed

lemma dirty_range_nat:
  fixes start ps s e :: u64
  assumes se: "s < e" "unat e \<le> N" and nowrap: "unat start + N * unat ps < 2 ^ 64"
  shows "unat (start + s * ps) = unat start + unat s * unat ps"
    and "unat ((e - s) * ps) = (unat e - unat s) * unat ps"
proof -
  have "unat s \<le> N" "unat e - unat s \<le> N" using se by (auto simp: word_less_nat_alt)
  then have b: "unat s * unat ps \<le> N * unat ps" "(unat e - unat s) * unat ps \<le> N * unat ps"
    by (auto intro: mult_le_mono1)
  have lt: "unat s * unat ps < 2 ^ 64" "unat start + unat s * unat ps < 2 ^ 64" "(unat e - unat s) * unat ps < 2 ^ 64"
    using b nowrap by linarith+
  have m: "unat (s * ps) = unat s * unat ps" using lt(1) by (intro unat_mult_nowrap) simp
  then show "unat (start + s * ps) = unat start + unat s * unat ps"
    using lt(2) by (subst unat_add_nowrap) simp_all
  have "unat (e - s) = unat e - unat s" using se by (simp add: unat_sub)
  then show "unat ((e - s) * ps) = (unat e - unat s) * unat ps"
    using lt(3) by (subst unat_mult_nowrap) simp_all
qed

lemma set_bits_bound: "i \<in> set (set_bits ws) \<Longrightarrow> i < 64 * length ws"
  by (simp add: set_bits_def)

lemma coalesce_bits:
  assumes co: "coalesce_ok coal" and len: "64 * length ws < 2 ^ 64"
  shows "\<exists>rs. coal merge_adjacent (map (\<lambda>b. (b, b + 1)) (map of_nat (set_bits ws))) = rs \<and>
    (\<forall>r \<in> set rs. fst r < snd r \<and> unat (snd r) \<le> 64 * length ws) \<and> sorted_wrt (\<lambda>r t. snd r < fst t) rs \<and>
    (\<Union>r \<in> set rs. {unat (fst r)..<unat (snd r)}) = set (set_bits ws)"
proof (cases "map (of_nat :: nat \<Rightarrow> u64) (set_bits ws)")
  case Nil
  then show ?thesis by (simp add: coalesce_okD [OF co])
next
  case (Cons b bs)
  have u: "unat (of_nat i :: u64) = i" if "i \<in> set (set_bits ws)" for i
    using set_bits_bound [OF that] len by (simp add: unsigned_of_nat take_bit_nat_eq_self)
  have el: "unat c \<in> set (set_bits ws)" if "c \<in> set (b # bs)" for c
    using that u unfolding Cons [symmetric] by auto
  have inc: "c < c + 1" "unat (c + 1) \<le> 64 * length ws" if "c \<in> set (b # bs)" for c
  proof -
    have "unat c < 64 * length ws" using set_bits_bound [OF el [OF that]] .
    then have "unat (c + 1) = unat c + 1" using len by (subst unat_add_nowrap) simp_all
    with \<open>unat c < 64 * length ws\<close> show "c < c + 1" "unat (c + 1) \<le> 64 * length ws"
      by (simp_all add: word_less_nat_alt)
  qed
  have "sorted_wrt (<) (map (of_nat :: nat \<Rightarrow> u64) (set_bits ws))"
    unfolding sorted_wrt_map
  proof (rule sorted_wrt_mono_rel)
    show "sorted_wrt (<) (set_bits ws)" by (simp add: set_bits_def sorted_wrt_filter)
  qed (simp add: word_less_nat_alt u)
  then have sorted: "sorted_wrt (<) (b # bs)" unfolding Cons .
  have ge: "b + 1 \<le> c" if "c \<in> set bs" for c
    using sorted that less_inc_iff(2) [OF inc(1) [of b]] by simp
  have "fst (b, b + 1) < snd (b, b + 1)" "\<forall>c \<in> set bs. snd (b, b + 1) \<le> c \<and> c < c + 1" "sorted_wrt (<) bs"
    using inc(1) ge sorted by simp_all
  from coalesce_adjacent [OF co this] obtain e rs where
    r: "coal merge_adjacent (map (\<lambda>b. (b, b + 1)) (b # bs)) = (b, e) # rs"
    "\<forall>r \<in> set ((b, e) # rs). fst r < snd r \<and> (snd r = b + 1 \<or> snd r \<in> (\<lambda>b. b + 1) ` set bs)"
    "sorted_wrt (\<lambda>r t. snd r < fst t) ((b, e) # rs)"
    "(\<Union>r \<in> set ((b, e) # rs). {fst r..<snd r}) = {b..<b + 1} \<union> set bs" by auto
  have "{b..<b + 1} = {b}" by (auto simp: less_inc_iff(1) [OF inc(1) [of b]])
  with r(4) have un: "(\<Union>r \<in> set ((b, e) # rs). {fst r..<snd r}) = set (b # bs)" by simp
  have nat_ivl: "unat ` {s..<t} = {unat s..<unat t}" for s t :: u64
  proof (intro set_eqI iffI)
    fix x assume "x \<in> {unat s..<unat t}"
    moreover from this have "unat (of_nat x :: u64) = x" using unat_lt [of t] by (simp add: unsigned_of_nat take_bit_nat_eq_self)
    ultimately show "x \<in> unat ` {s..<t}"
      by (intro image_eqI [of _ _ "of_nat x"]) (auto simp: word_le_nat_alt word_less_nat_alt)
  qed (auto simp: word_le_nat_alt word_less_nat_alt)
  have "(\<Union>r \<in> set ((b, e) # rs). {unat (fst r)..<unat (snd r)}) = unat ` set (b # bs)"
    unfolding un [symmetric] image_UN nat_ivl ..
  also have "\<dots> = set (set_bits ws)" unfolding Cons [symmetric] using u by (force simp: image_image)
  finally show ?thesis
    using r(1-3) inc(2) unfolding Cons by (intro exI [of _ "(b, e) # rs"]) auto
qed

text \<open>
  \<open>C27\<close>: the dirty ranges are exact. For a bitmap whose pages end below the top of the address
  space, building the table never panics; the ranges hold exactly the bytes of the pages whose
  bit is set, none is empty, and they are in ascending order with at least one clean page between
  two of them.
\<close>

theorem from_dirty_bitmap_exact:
  assumes "coalesce_ok coal" and "length ws < 2 ^ 32" and "0 < unat page_size"
    and "unat start_addr + 64 * length ws * unat page_size < 2 ^ 64"
  shows "\<exists>t. from_dirty_bitmap coal ws start_addr page_size = Inr t \<and>
    (\<Union>r \<in> set t. range_bytes r) = (\<Union>i \<in> set (set_bits ws). page_bytes (unat start_addr) (unat page_size) i) \<and>
    sorted_wrt (\<lambda>r r'. unat (mr_gpa r) + unat (mr_length r) < unat (mr_gpa r')) t \<and>
    (\<forall>r \<in> set t. 0 < unat (mr_length r))"
proof -
  have len: "64 * length ws < 2 ^ 64" using assms(2) by simp
  obtain rs where rs: "coal merge_adjacent (map (\<lambda>b. (b, b + 1)) (map of_nat (set_bits ws))) = rs"
    and se: "\<And>r. r \<in> set rs \<Longrightarrow> fst r < snd r \<and> unat (snd r) \<le> 64 * length ws"
    and srt: "sorted_wrt (\<lambda>r t. snd r < fst t) rs"
    and un: "(\<Union>r \<in> set rs. {unat (fst r)..<unat (snd r)}) = set (set_bits ws)"
    using coalesce_bits [OF assms(1) len] by blast
  define g where "g = (\<lambda>r. \<lparr>mr_gpa = start_addr + fst r * page_size, mr_length = (snd r - fst r) * page_size\<rparr>)"
  note N = dirty_range_nat [OF conjunct1 [OF se] conjunct2 [OF se] assms(4)]
  have g: "unat (mr_gpa (g r)) = unat start_addr + unat (fst r) * unat page_size"
    "unat (mr_gpa (g r)) + unat (mr_length (g r)) = unat start_addr + unat (snd r) * unat page_size"
    "0 < unat (mr_length (g r))"
    if r: "r \<in> set rs" for r
  proof -
    have lt: "unat (fst r) < unat (snd r)" using se [OF r] by (simp add: word_less_nat_alt)
    then have m: "unat (fst r) * unat page_size + (unat (snd r) - unat (fst r)) * unat page_size = unat (snd r) * unat page_size"
      by (simp add: add_mult_distrib [symmetric])
    show "unat (mr_gpa (g r)) = unat start_addr + unat (fst r) * unat page_size"
      and "unat (mr_gpa (g r)) + unat (mr_length (g r)) = unat start_addr + unat (snd r) * unat page_size"
      and "0 < unat (mr_length (g r))"
      using N [OF r r] m lt assms(3) by (simp_all add: g_def)
  qed
  have "range_bytes (g r) = (\<Union>i \<in> {unat (fst r)..<unat (snd r)}. page_bytes (unat start_addr) (unat page_size) i)"
    if r: "r \<in> set rs" for r
    unfolding range_bytes_def g(2) [OF r] unfolding g(1) [OF r]
    by (rule run_bytes [OF assms(3)]) (use se [OF r] in \<open>simp add: word_less_nat_alt\<close>)
  then have "(\<Union>r \<in> set (map g rs). range_bytes r) =
      (\<Union>i \<in> (\<Union>r \<in> set rs. {unat (fst r)..<unat (snd r)}). page_bytes (unat start_addr) (unat page_size) i)"
    by simp
  moreover have "sorted_wrt (\<lambda>r r'. unat (mr_gpa r) + unat (mr_length r) < unat (mr_gpa r')) (map g rs)"
    unfolding sorted_wrt_map
  proof (rule sorted_wrt_mono_rel [OF _ srt])
    fix r r' assume r: "r \<in> set rs" "r' \<in> set rs" "snd r < fst r'"
    then show "unat (mr_gpa (g r)) + unat (mr_length (g r)) < unat (mr_gpa (g r'))"
      using g [OF r(1)] g [OF r(2)] assms(3) by (simp add: word_less_nat_alt)
  qed
  moreover have "from_dirty_bitmap coal ws start_addr page_size = Inr (map g rs)"
    using bit_positions_eq [OF assms(2)] rs by (simp add: from_dirty_bitmap_def dirty_ranges_iter_def g_def)
  ultimately show ?thesis using g(3) unfolding un by (intro exI [of _ "map g rs"]) auto
qed

end
