(* ===== verification/Migration_Protocol.thy ===== *)
theory Migration_Protocol
  imports Migration_Ranges Std_Io "HOL-Library.Multiset"
begin

text \<open>
  The live-migration protocol of
  \<^verbatim>\<open>src/uffd-cow-gpt/cloud-hypervisor/vm-migration/src/protocol.rs\<close>: the partition of a range table into
  chunks and the requests, responses and tables on the wire.
\<close>

section \<open>Partition of a range table\<close>

text \<open>The vector is popped and pushed at its end.\<close>

function partition_loop ::
  "u64 \<Rightarrow> memory_range list \<Rightarrow> u64 \<Rightarrow> memory_range list \<Rightarrow> (unit, memory_range list \<times> memory_range list) outcome" where
  "partition_loop chunk_size data ranges_size ranges =
     (if \<not> ranges_size \<le> chunk_size then Inl Panic
      else if ranges_size = chunk_size \<or> data = [] then Inr (ranges, data)
      else let rng = last data; data = butlast data in
        if ranges_size + mr_length rng > chunk_size
        then (let leftover_bytes = ranges_size + mr_length rng - chunk_size in
              if \<not> leftover_bytes \<le> mr_length rng then Inl Panic
              else let returned_bytes = mr_length rng - leftover_bytes in
                if \<not> returned_bytes \<le> mr_length rng then Inl Panic
                else if leftover_bytes + returned_bytes \<noteq> mr_length rng then Inl Panic
                else partition_loop chunk_size (data @ [\<lparr>mr_gpa = mr_gpa rng, mr_length = leftover_bytes\<rparr>])
                  (ranges_size + returned_bytes)
                  (ranges @ [\<lparr>mr_gpa = mr_gpa rng + leftover_bytes, mr_length = returned_bytes\<rparr>]))
        else partition_loop chunk_size data (ranges_size + mr_length rng) (ranges @ [rng]))"
  by pat_completeness auto
termination
proof (relation "measure (\<lambda>(c, data, s, _). 2 * length data + (if s = c then 0 else 1))", goal_cases)
  case (2 c data s ranges rng rest l t)
  then have "s + t = c" "s \<noteq> c" "length (rest @ [\<lparr>mr_gpa = mr_gpa rng, mr_length = l\<rparr>]) = length data" by simp_all
  then show ?case unfolding in_measure by simp
next
  case (3 c data s ranges rng rest)
  then have "length data = Suc (length rest)" by (cases data) simp_all
  then show ?case unfolding in_measure by simp
qed simp

declare partition_loop.simps [simp del]

definition partition_next ::
  "u64 \<Rightarrow> memory_range list \<Rightarrow> (unit, memory_range_table option \<times> memory_range list) outcome" where
  "partition_next chunk_size data =
     bindE (partition_loop chunk_size data 0 []) (\<lambda>(ranges, data).
       Inr (if ranges = [] then None else Some ranges, data))"

definition weight :: "memory_range list \<Rightarrow> nat" where
  "weight data = (\<Sum>r\<leftarrow>data. unat (mr_length r) + 1)"

lemma weight_snoc: "data \<noteq> [] \<Longrightarrow> weight data = weight (butlast data) + unat (mr_length (last data)) + 1"
  by (cases data rule: rev_cases) (simp_all add: weight_def)

lemma partition_loop_weight:
  "partition_loop c data s ranges = Inr (ranges', data') \<Longrightarrow>
     weight data' \<le> weight data \<and> (ranges' = ranges \<or> weight data' < weight data)"
proof (induction c data s ranges rule: partition_loop.induct)
  case (1 c data s ranges)
  note run = 1(3)
  show ?case
  proof (cases "s \<le> c \<and> s \<noteq> c \<and> data \<noteq> []")
    case False
    with run show ?thesis by (auto simp: partition_loop.simps [of c data s] split: if_splits)
  next
    case True
    define r where "r = last data"
    define rest where "rest = butlast data"
    have w: "weight data = weight rest + unat (mr_length r) + 1" using True by (simp add: weight_snoc r_def rest_def)
    show ?thesis
    proof (cases "c < s + mr_length r")
      case split: True
      define l where "l = s + mr_length r - c"
      define t where "t = mr_length r - l"
      have ok: "l \<le> mr_length r" "t \<le> mr_length r" "l + t = mr_length r"
        and run': "partition_loop c (rest @ [\<lparr>mr_gpa = mr_gpa r, mr_length = l\<rparr>]) (s + t)
          (ranges @ [\<lparr>mr_gpa = mr_gpa r + l, mr_length = t\<rparr>]) = Inr (ranges', data')"
        using run True split
        by (auto simp: partition_loop.simps [of c data s] r_def [symmetric] rest_def [symmetric] Let_def
            l_def [symmetric] t_def [symmetric] split: if_splits)
      have "s + t = c" by (simp add: t_def l_def)
      then have eq: "data' = rest @ [\<lparr>mr_gpa = mr_gpa r, mr_length = l\<rparr>]"
        using run' by (simp add: partition_loop.simps)
      have "l \<noteq> mr_length r" using True by (auto simp: l_def algebra_simps)
      then have "unat l < unat (mr_length r)" using ok(1) by (simp add: word_less_nat_alt [symmetric])
      then have "weight data' < weight data" unfolding w eq by (simp add: weight_def)
      then show ?thesis by simp
    next
      case False
      then have "partition_loop c rest (s + mr_length r) (ranges @ [r]) = Inr (ranges', data')"
        using run True by (simp add: partition_loop.simps [of c data s] r_def rest_def Let_def)
      moreover have "partition_loop c rest (s + mr_length r) (ranges @ [r]) = Inr (ranges', data') \<Longrightarrow>
          weight data' \<le> weight rest \<and> (ranges' = ranges @ [r] \<or> weight data' < weight rest)"
        using 1(2) [OF _ _ r_def rest_def] True False by auto
      ultimately show ?thesis using w by auto
    qed
  qed
qed

lemma partition_next_weight: "partition_next c data = Inr (Some t, data') \<Longrightarrow> weight data' < weight data"
  using partition_loop_weight [of c data 0 "[]" t data']
  by (auto simp: partition_next_def bindE_def split: sum.splits if_splits)

function partition_collect :: "u64 \<Rightarrow> memory_range list \<Rightarrow> (unit, memory_range_table list) outcome" where
  "partition_collect chunk_size data =
     (case partition_next chunk_size data of
        Inl e \<Rightarrow> Inl e
      | Inr (None, _) \<Rightarrow> Inr []
      | Inr (Some t, data') \<Rightarrow> bindE (partition_collect chunk_size data') (\<lambda>ts. Inr (t # ts)))"
  by pat_completeness auto
termination
  by (relation "measure (\<lambda>(c, data). weight data)") (auto intro: partition_next_weight)

declare partition_collect.simps [simp del]

text \<open>The bytes of a table, with multiplicity, and their number.\<close>

definition table_bytes :: "memory_range_table \<Rightarrow> nat multiset" where
  "table_bytes t = (\<Sum>r\<leftarrow>t. mset [unat (mr_gpa r)..<unat (mr_gpa r) + unat (mr_length r)])"

definition table_size :: "memory_range_table \<Rightarrow> nat" where
  "table_size t = (\<Sum>r\<leftarrow>t. unat (mr_length r))"

definition table_ok :: "u64 \<Rightarrow> memory_range list \<Rightarrow> bool" where
  "table_ok c data \<longleftrightarrow> (\<forall>r \<in> set data. unat (mr_gpa r) + unat (mr_length r) \<le> 2 ^ 64 \<and>
     unat c + unat (mr_length r) < 2 ^ 64)"

lemma table_bytes_append [simp]: "table_bytes (t @ u) = table_bytes t + table_bytes u"
  by (simp add: table_bytes_def)

lemma table_size_append [simp]: "table_size (t @ u) = table_size t + table_size u"
  by (simp add: table_size_def)

lemma split_bytes:
  assumes "unat l + unat t = unat (mr_length r)" and "unat (mr_gpa r) + unat l < 2 ^ 64"
  shows "table_bytes [r] = table_bytes [\<lparr>mr_gpa = mr_gpa r, mr_length = l\<rparr>] +
    table_bytes [\<lparr>mr_gpa = mr_gpa r + l, mr_length = t\<rparr>]"
proof -
  have g: "unat (mr_gpa r + l) = unat (mr_gpa r) + unat l" using assms(2) by (simp add: unat_add_nowrap)
  have e: "unat (mr_gpa r) + unat (mr_length r) = unat (mr_gpa r) + unat l + unat t" using assms(1) by simp
  have "mset [unat (mr_gpa r)..<unat (mr_gpa r) + unat l + unat t] =
      mset [unat (mr_gpa r)..<unat (mr_gpa r) + unat l] +
      mset [unat (mr_gpa r) + unat l..<unat (mr_gpa r) + unat l + unat t]"
    unfolding mset_append [symmetric] by (subst upt_add_eq_append) simp_all
  then show ?thesis unfolding table_bytes_def by (simp add: g e)
qed

lemma partition_loop_spec:
  "s \<le> c \<Longrightarrow> table_size ranges = unat s \<Longrightarrow> table_ok c data \<Longrightarrow>
   \<exists>ranges' data'. partition_loop c data s ranges = Inr (ranges', data') \<and> table_size ranges' \<le> unat c \<and>
     (data' = [] \<or> table_size ranges' = unat c) \<and> table_ok c data' \<and>
     table_bytes ranges' + table_bytes data' = table_bytes ranges + table_bytes data"
proof (induction c data s ranges rule: partition_loop.induct)
  case (1 c data s ranges)
  note sc = 1(3) and size = 1(4) and ok = 1(5)
  show ?case
  proof (cases "s = c \<or> data = []")
    case True
    then have "partition_loop c data s ranges = Inr (ranges, data)" using sc by (simp add: partition_loop.simps)
    with True sc size ok show ?thesis by (auto simp: word_le_nat_alt)
  next
    case False
    define r where "r = last data"
    define rest where "rest = butlast data"
    have d: "data = rest @ [r]" using False by (simp add: r_def rest_def)
    have rok: "unat (mr_gpa r) + unat (mr_length r) \<le> 2 ^ 64" "unat c + unat (mr_length r) < 2 ^ 64"
      and restok: "table_ok c rest" using ok unfolding d by (simp_all add: table_ok_def)
    have "s < c" using False sc by (auto simp: order.strict_iff_order)
    then have lt: "unat s < unat c" by (simp add: word_less_nat_alt)
    have sl: "unat (s + mr_length r) = unat s + unat (mr_length r)"
      using lt rok(2) by (intro unat_add_nowrap) simp
    show ?thesis
    proof (cases "c < s + mr_length r")
      case split: True
      define l where "l = s + mr_length r - c"
      define t where "t = mr_length r - l"
      have ul: "unat l = unat s + unat (mr_length r) - unat c"
        using split sl by (simp add: l_def unat_sub)
      have cs: "unat c < unat s + unat (mr_length r)" using split sl by (simp add: word_less_nat_alt)
      have lle: "l \<le> mr_length r" using ul lt cs by (simp add: word_le_nat_alt)
      then have ut: "unat t = unat c - unat s" using ul lt cs by (simp add: t_def unat_sub)
      have tle: "t \<le> mr_length r" and lt_sum: "l + t = mr_length r" and st: "s + t = c"
        using ut cs by (simp_all add: word_le_nat_alt t_def l_def)
      have nat_sum: "unat l + unat t = unat (mr_length r)" using ul ut lt cs by simp
      define data' where "data' = rest @ [\<lparr>mr_gpa = mr_gpa r, mr_length = l\<rparr>]"
      define ranges' where "ranges' = ranges @ [\<lparr>mr_gpa = mr_gpa r + l, mr_length = t\<rparr>]"
      have "partition_loop c data s ranges = partition_loop c data' (s + t) ranges'"
        using False sc split lle tle lt_sum
        by (simp add: partition_loop.simps [of c data s] r_def [symmetric] rest_def [symmetric] Let_def
            l_def [symmetric] t_def [symmetric] data'_def ranges'_def)
      also have "\<dots> = Inr (ranges', data')" unfolding st by (simp add: partition_loop.simps)
      finally have run: "partition_loop c data s ranges = Inr (ranges', data')" .
      have "unat (mr_gpa r) + unat l < 2 ^ 64" using rok(1) nat_sum ut lt by linarith
      note bytes = split_bytes [OF nat_sum this]
      have "table_size ranges' = unat c" using size ut lt by (simp add: ranges'_def table_size_def)
      moreover have "table_ok c data'"
        using restok rok lle by (auto simp: data'_def table_ok_def word_le_nat_alt)
      moreover have "table_bytes ranges' + table_bytes data' = table_bytes ranges + table_bytes data"
        by (simp add: d bytes ranges'_def data'_def)
      ultimately show ?thesis using run by simp
    next
      case no: False
      then have run: "partition_loop c data s ranges = partition_loop c rest (s + mr_length r) (ranges @ [r])"
        using False sc by (simp add: partition_loop.simps [of c data s] r_def rest_def Let_def)
      have "s + mr_length r \<le> c" using no by simp
      moreover have "table_size (ranges @ [r]) = unat (s + mr_length r)" using size sl by (simp add: table_size_def)
      ultimately obtain ranges' data' where
        "partition_loop c rest (s + mr_length r) (ranges @ [r]) = Inr (ranges', data')" "table_size ranges' \<le> unat c"
        "data' = [] \<or> table_size ranges' = unat c" "table_ok c data'"
        "table_bytes ranges' + table_bytes data' = table_bytes (ranges @ [r]) + table_bytes rest"
        using 1(2) [OF _ _ r_def rest_def] False no sc restok by auto
      moreover have "table_bytes (ranges @ [r]) + table_bytes rest = table_bytes ranges + table_bytes data"
        by (simp add: d ac_simps)
      ultimately show ?thesis unfolding run by metis
    qed
  qed
qed

text \<open>
  \<open>C28\<close>: a table is partitioned exactly. For a positive chunk size no assertion fails and the
  iteration ends; no chunk is empty or larger than the chunk size, every chunk but the last is
  full, and the chunks together hold every byte of the table exactly as often as the table does.
\<close>

theorem partition_exact:
  assumes "0 < chunk_size" and "table_ok chunk_size data"
  shows "\<exists>ts. partition_collect chunk_size data = Inr ts \<and>
    (\<forall>t \<in> set ts. t \<noteq> [] \<and> table_size t \<le> unat chunk_size) \<and>
    (\<forall>t \<in> set (butlast ts). table_size t = unat chunk_size) \<and>
    (\<Sum>t\<leftarrow>ts. table_bytes t) = table_bytes data"
  using assms
proof (induction chunk_size data rule: partition_collect.induct)
  case (1 c data)
  have "table_size [] = unat (0 :: u64)" by (simp add: table_size_def)
  from partition_loop_spec [OF _ this 1(3)] obtain ranges data' where
    loop: "partition_loop c data 0 [] = Inr (ranges, data')" "table_size ranges \<le> unat c"
    "data' = [] \<or> table_size ranges = unat c" "table_ok c data'"
    "table_bytes ranges + table_bytes data' = table_bytes data"
    by (auto simp: table_bytes_def)
  show ?case
  proof (cases "ranges = []")
    case True
    then have "data' = []" using loop(3) 1(2) by (auto simp: table_size_def word_less_nat_alt)
    then have "table_bytes data = {#}" using loop(5) True by (simp add: table_bytes_def)
    with True loop(1) show ?thesis
      by (simp add: partition_collect.simps [of c data] partition_next_def)
  next
    case False
    then have n: "partition_next c data = Inr (Some ranges, data')" using loop(1) by (simp add: partition_next_def)
    from 1(1) [OF n refl refl 1(2) loop(4)] obtain ts where
      ts: "partition_collect c data' = Inr ts" "\<forall>t \<in> set ts. t \<noteq> [] \<and> table_size t \<le> unat c"
      "\<forall>t \<in> set (butlast ts). table_size t = unat c" "(\<Sum>t\<leftarrow>ts. table_bytes t) = table_bytes data'" by auto
    have "ts = []" if "data' = []"
    proof -
      have "partition_next c [] = Inr (None, [])" by (simp add: partition_next_def partition_loop.simps)
      then show ?thesis using ts(1) that by (simp add: partition_collect.simps)
    qed
    then have "\<forall>t \<in> set (butlast (ranges # ts)). table_size t = unat c" using ts(3) loop(3) by auto
    with n ts loop False show ?thesis by (simp add: partition_collect.simps [of c data])
  qed
qed

section \<open>Requests and responses\<close>

datatype command =
    Invalid | Start | Config | State | Memory | Complete | Abandon | MemoryFd

definition command_code :: "command \<Rightarrow> u16" where
  "command_code c = (case c of Invalid \<Rightarrow> 0 | Start \<Rightarrow> 1 | Config \<Rightarrow> 2 | State \<Rightarrow> 3 | Memory \<Rightarrow> 4
     | Complete \<Rightarrow> 5 | Abandon \<Rightarrow> 6 | MemoryFd \<Rightarrow> 7)"

record request =
  rq_command :: command
  rq_padding :: bytes
  rq_length :: u64

datatype status = StatusInvalid | StatusOk | StatusError

definition status_code :: "status \<Rightarrow> u16" where
  "status_code s = (case s of StatusInvalid \<Rightarrow> 0 | StatusOk \<Rightarrow> 1 | StatusError \<Rightarrow> 2)"

record response =
  rs_status :: status
  rs_padding :: bytes
  rs_length :: u64

datatype uffd_error =
    UnalignedRanges | UffdCreate io_error | GpaTranslation u64 | UffdRegister u64 u64 io_error
  | MissingIoctlSupport u64 u64 | SpawnThread io_error | HandlerStartup | HandlerFailed io_error

datatype migratable_error =
    Pause string | Resume string | Snapshot string | Restore string | MigrateSend string
  | MigrateReceive string | OnDemandRestore uffd_error | MigrateSocket io_error | StartDirtyLog string
  | StopDirtyLog string | DirtyLog string | StartMigration string | CompleteMigration string | UnlockError string

definition request_new :: "command \<Rightarrow> u64 \<Rightarrow> request" where
  "request_new cmd len = \<lparr>rq_command = cmd, rq_padding = replicate 6 0, rq_length = len\<rparr>"

definition request_abandon :: request where
  "request_abandon = request_new Abandon 0"

definition response_new :: "status \<Rightarrow> u64 \<Rightarrow> response" where
  "response_new st len = \<lparr>rs_status = st, rs_padding = replicate 6 0, rs_length = len\<rparr>"

text \<open>
  The byte image of the structures: the discriminant in two bytes, the padding and the length, all
  little-endian. The image of a request is read into the structure as it is, so a discriminant
  above the last constructor is not a value of the type; \<open>None\<close> stands for that case.
\<close>

definition request_bytes :: "request \<Rightarrow> bytes" where
  "request_bytes r = to_le_bytes (command_code (rq_command r)) @ rq_padding r @ to_le_bytes (rq_length r)"

definition command_of :: "u16 \<Rightarrow> command option" where
  "command_of c = (if c = 0 then Some Invalid else if c = 1 then Some Start else if c = 2 then Some Config
     else if c = 3 then Some State else if c = 4 then Some Memory else if c = 5 then Some Complete
     else if c = 6 then Some Abandon else if c = 7 then Some MemoryFd else None)"

definition request_of_bytes :: "bytes \<Rightarrow> request option" where
  "request_of_bytes bs = map_option (\<lambda>c. \<lparr>rq_command = c, rq_padding = take 6 (drop 2 bs),
      rq_length = from_le_bytes (take 8 (drop 8 bs))\<rparr>) (command_of (from_le_bytes (take 2 bs)))"

definition response_bytes :: "response \<Rightarrow> bytes" where
  "response_bytes r = to_le_bytes (status_code (rs_status r)) @ rs_padding r @ to_le_bytes (rs_length r)"

definition status_of :: "u16 \<Rightarrow> status option" where
  "status_of c = (if c = 0 then Some StatusInvalid else if c = 1 then Some StatusOk
     else if c = 2 then Some StatusError else None)"

definition response_of_bytes :: "bytes \<Rightarrow> response option" where
  "response_of_bytes bs = map_option (\<lambda>c. \<lparr>rs_status = c, rs_padding = take 6 (drop 2 bs),
      rs_length = from_le_bytes (take 8 (drop 8 bs))\<rparr>) (status_of (from_le_bytes (take 2 bs)))"

text \<open>An input or output failure becomes a socket error.\<close>

definition socket_err :: "(io_error, 'a, 'w) run \<Rightarrow> (migratable_error, 'a, 'w) run" where
  "socket_err m = (case m of None \<Rightarrow> None
     | Some (Inr a, w) \<Rightarrow> Some (Inr a, w)
     | Some (Inl Panic, w) \<Rightarrow> Some (Inl Panic, w)
     | Some (Inl (Err e), w) \<Rightarrow> Some (Inl (Err (MigrateSocket e)), w))"

definition request_read_from :: "'w kernel \<Rightarrow> fd \<Rightarrow> 'w \<Rightarrow> (migratable_error, request option, 'w) run" where
  "request_read_from K fd w = run_bind (socket_err (read_exact K fd 16 w)) (\<lambda>bs. run_ret (request_of_bytes bs))"

definition request_write_to :: "'w kernel \<Rightarrow> fd \<Rightarrow> request \<Rightarrow> 'w \<Rightarrow> (migratable_error, unit, 'w) run" where
  "request_write_to K fd r w = socket_err (write_all K fd (request_bytes r) w)"

definition response_read_from :: "'w kernel \<Rightarrow> fd \<Rightarrow> 'w \<Rightarrow> (migratable_error, response option, 'w) run" where
  "response_read_from K fd w = run_bind (socket_err (read_exact K fd 16 w)) (\<lambda>bs. run_ret (response_of_bytes bs))"

definition response_write_to :: "'w kernel \<Rightarrow> fd \<Rightarrow> response \<Rightarrow> 'w \<Rightarrow> (migratable_error, unit, 'w) run" where
  "response_write_to K fd r w = socket_err (write_all K fd (response_bytes r) w)"

definition ok_or_abandon ::
  "'w kernel \<Rightarrow> fd \<Rightarrow> response \<Rightarrow> migratable_error \<Rightarrow> 'w \<Rightarrow> (migratable_error, response, 'w) run" where
  "ok_or_abandon K fd r err w =
     (if rs_status r \<noteq> StatusOk
      then run_bind (request_write_to K fd request_abandon w) (\<lambda>_ w.
        run_bind (response_read_from K fd w) (\<lambda>_. run_err err))
      else run_ret r w)"

section \<open>Tables on the wire\<close>

definition range_bytes_le :: "memory_range \<Rightarrow> bytes" where
  "range_bytes_le r = to_le_bytes (mr_gpa r) @ to_le_bytes (mr_length r)"

fun ranges_of_bytes :: "nat \<Rightarrow> bytes \<Rightarrow> memory_range list" where
  "ranges_of_bytes 0 bs = []"
| "ranges_of_bytes (Suc n) bs =
     \<lparr>mr_gpa = from_le_bytes (take 8 bs), mr_length = from_le_bytes (take 8 (drop 8 bs))\<rparr> # ranges_of_bytes n (drop 16 bs)"

definition table_length :: "memory_range_table \<Rightarrow> u64" where
  "table_length t = of_nat (16 * length t)"

definition table_read_from :: "'w kernel \<Rightarrow> fd \<Rightarrow> u64 \<Rightarrow> 'w \<Rightarrow> (migratable_error, memory_range_table, 'w) run" where
  "table_read_from K fd len w =
     (if unat len mod 16 \<noteq> 0 then run_panic w
      else run_bind (socket_err (read_exact K fd (unat len) w)) (\<lambda>bs. run_ret (ranges_of_bytes (unat len div 16) bs)))"

definition table_write_to :: "'w kernel \<Rightarrow> fd \<Rightarrow> memory_range_table \<Rightarrow> 'w \<Rightarrow> (migratable_error, unit, 'w) run" where
  "table_write_to K fd t w = socket_err (write_all K fd (concat (map range_bytes_le t)) w)"

definition table_extend :: "memory_range_table \<Rightarrow> memory_range_table \<Rightarrow> memory_range_table" where
  "table_extend t u = t @ u"

definition new_from_tables :: "memory_range_table list \<Rightarrow> memory_range_table" where
  "new_from_tables tables = fold (\<lambda>table data. data @ table) tables []"

definition effective_size :: "memory_range_table \<Rightarrow> u64" where
  "effective_size t = sum_list (map mr_length t)"

lemma command_roundtrip: "command_of (command_code c) = Some c"
  by (cases c) (simp_all add: command_of_def command_code_def)

lemma status_roundtrip: "status_of (status_code c) = Some c"
  by (cases c) (simp_all add: status_of_def status_code_def)

lemma request_roundtrip: "length (rq_padding r) = 6 \<Longrightarrow> request_of_bytes (request_bytes r) = Some r"
  by (simp add: request_of_bytes_def request_bytes_def from_to_le_bytes command_roundtrip)

lemma response_roundtrip: "length (rs_padding r) = 6 \<Longrightarrow> response_of_bytes (response_bytes r) = Some r"
  by (simp add: response_of_bytes_def response_bytes_def from_to_le_bytes status_roundtrip)

lemma ranges_roundtrip: "ranges_of_bytes (length t) (concat (map range_bytes_le t)) = t"
  by (induction t) (simp_all add: range_bytes_le_def from_to_le_bytes)

lemma length_table_bytes: "length (concat (map range_bytes_le t)) = 16 * length t"
  by (induction t) (simp_all add: range_bytes_le_def)

text \<open>Reading as many bytes as were sent gives back what was sent.\<close>

lemma read_back:
  assumes "read_ok K avail pending fd" and "avail w = bs @ rest" and "f bs = a" and "length bs = n"
  shows "ends (run_bind (socket_err (read_exact K fd n w)) (\<lambda>bs. run_ret (f bs)))
    (\<lambda>res w'. res \<noteq> Inl Panic \<and> (\<forall>x. res = Inr x \<longrightarrow> x = a \<and> avail w' = rest))"
proof -
  from read_exact_spec [OF assms(1), of n w] obtain res w' where
    r: "read_exact K fd n w = Some (res, w')" "res \<noteq> Inl Panic"
    "\<forall>bs. res = Inr bs \<longrightarrow> bs = take n (avail w) \<and> length bs = n \<and> avail w' = drop n (avail w)" by blast
  show ?thesis
  proof (cases res)
    case (Inl e)
    with r show ?thesis by (cases e) (simp_all add: socket_err_def)
  next
    case (Inr x)
    with r assms(2-) show ?thesis by (simp add: socket_err_def run_ret_def)
  qed
qed


text \<open>
  Two things a peer controls: a length that is no multiple of the entry size makes the reader
  panic, and a discriminant above seven is not a command.
\<close>

lemma table_read_from_panics: "unat len mod 16 \<noteq> 0 \<Longrightarrow> table_read_from K fd len w = Some (Inl Panic, w)"
  by (simp add: table_read_from_def run_panic_def)

lemma unknown_command: "7 < (c :: u16) \<Longrightarrow> request_of_bytes (to_le_bytes c @ bs) = None"
  by (auto simp: request_of_bytes_def command_of_def from_to_le_bytes)

end
