(* ===== verification/Restore_Setup.thy ===== *)
theory Restore_Setup
  imports Restore_Correct Migration_Protocol
begin

unbundle bit_operations_syntax

text \<open>
  The set-up of an on-demand restore in
  \<^verbatim>\<open>src/uffd-cow-gpt/cloud-hypervisor/vmm/src/memory_manager.rs\<close>: from the saved ranges of the snapshot to
  the ranges the fault handler serves, and the body of the handler thread. The translation of guest
  addresses by the \<open>vm_memory\<close> crate and the opening of the snapshot file are parameters.
\<close>

section \<open>Memory zones\<close>

record guest_region =
  gr_start :: u64
  gr_len :: u64

record memory_zone =
  mz_regions :: "guest_region list"
  mz_virtio_mem :: "guest_region option"
  mz_shared :: bool
  mz_hugepages :: bool
  mz_backing_page_size :: u64

definition in_region :: "u64 \<Rightarrow> guest_region \<Rightarrow> bool" where
  "in_region gpa r \<longleftrightarrow> gpa \<ge> gr_start r \<and> gpa < gr_start r + gr_len r"

definition backing_page_size_for_gpa :: "memory_zone \<Rightarrow> u64 \<Rightarrow> u64 option" where
  "backing_page_size_for_gpa z gpa =
     (if list_ex (in_region gpa) (mz_regions z) then Some (mz_backing_page_size z)
      else case mz_virtio_mem z of
        None \<Rightarrow> None
      | Some r \<Rightarrow> if in_region gpa r then Some (mz_backing_page_size z) else None)"

definition required_uffd_features :: "memory_zone list \<Rightarrow> u64" where
  "required_uffd_features zones =
     (let features = UFFD_FEATURE_PAGEFAULT_FLAG_WP;
          features = (if list_ex (\<lambda>z. mz_shared z \<and> \<not> mz_hugepages z) zones
            then features OR UFFD_FEATURE_MISSING_SHMEM OR UFFD_FEATURE_WP_HUGETLBFS_SHMEM else features)
      in if list_ex mz_hugepages zones
         then features OR UFFD_FEATURE_MISSING_HUGETLBFS OR UFFD_FEATURE_WP_HUGETLBFS_SHMEM else features)"

text \<open>The zones in the order the hash map yields them; the first that knows the address counts.\<close>

fun zone_page_size :: "memory_zone list \<Rightarrow> u64 \<Rightarrow> u64 option" where
  "zone_page_size [] gpa = None"
| "zone_page_size (z # zs) gpa =
     (case backing_page_size_for_gpa z gpa of Some p \<Rightarrow> Some p | None \<Rightarrow> zone_page_size zs gpa)"

definition range_page_size :: "memory_zone list \<Rightarrow> u64 \<Rightarrow> memory_range \<Rightarrow> u64" where
  "range_page_size zones base_page_size r =
     (case zone_page_size zones (mr_gpa r) of Some p \<Rightarrow> p | None \<Rightarrow> base_page_size)"

section \<open>Registration\<close>

text \<open>Of the errors of the memory manager, those that the modelled part returns.\<close>

datatype memory_error =
    SnapshotOpen io_error | RestoreError migratable_error

definition uffd_failed :: "uffd_error \<Rightarrow> memory_error" where
  "uffd_failed e = RestoreError (OnDemandRestore e)"

definition register_range ::
  "'w kernel \<Rightarrow> (u64 \<Rightarrow> u64 option) \<Rightarrow> memory_zone list \<Rightarrow> u64 \<Rightarrow> fd \<Rightarrow> u64 \<Rightarrow> memory_range \<Rightarrow> 'w \<Rightarrow>
     (memory_error, template_range, 'w) run" where
  "register_range K host zones base_page_size uffd file_offset r w =
     (case host (mr_gpa r) of
        None \<Rightarrow> run_err (uffd_failed (GpaTranslation (mr_gpa r))) w
      | Some host_addr \<Rightarrow>
          run_bind (map_err (\<lambda>e. uffd_failed (UffdRegister host_addr (mr_length r) e))
              (uffd_register K uffd host_addr (mr_length r) w)) (\<lambda>ioctls w.
            if ioctls AND UFFD_API_RANGE_IOCTLS_BASIC \<noteq> UFFD_API_RANGE_IOCTLS_BASIC
            then run_err (uffd_failed (MissingIoctlSupport host_addr (mr_length r))) w
            else run_ret (range_new host_addr (mr_length r) file_offset (range_page_size zones base_page_size r)) w))"

fun register_ranges ::
  "'w kernel \<Rightarrow> (u64 \<Rightarrow> u64 option) \<Rightarrow> memory_zone list \<Rightarrow> u64 \<Rightarrow> fd \<Rightarrow> u64 \<Rightarrow> memory_range list \<Rightarrow> 'w \<Rightarrow>
     (memory_error, template_range list, 'w) run" where
  "register_ranges K host zones base_page_size uffd file_offset [] w = run_ret [] w"
| "register_ranges K host zones base_page_size uffd file_offset (r # rs) w =
     run_bind (register_range K host zones base_page_size uffd file_offset r w) (\<lambda>t w.
     run_bind (register_ranges K host zones base_page_size uffd (file_offset + mr_length r) rs w) (\<lambda>ts.
       run_ret (t # ts)))"

definition unaligned :: "u64 \<Rightarrow> memory_range \<Rightarrow> (memory_error, bool) outcome" where
  "unaligned base_page_size r =
     (if base_page_size = 0 then Inl Panic
      else Inr (mr_gpa r mod base_page_size \<noteq> 0 \<or> mr_length r mod base_page_size \<noteq> 0))"

fun any_unaligned :: "u64 \<Rightarrow> memory_range list \<Rightarrow> (memory_error, bool) outcome" where
  "any_unaligned base_page_size [] = Inr False"
| "any_unaligned base_page_size (r # rs) =
     bindE (unaligned base_page_size r) (\<lambda>u. if u then Inr True else any_unaligned base_page_size rs)"

record uffd_setup =
  us_uffd :: fd
  us_snapshot :: "fd option"
  us_ranges :: "template_range list"
  us_base_page_size :: u64

text \<open>
  The part of \<open>restore_by_uffd\<close> before the thread is started; an empty table ends it at once.
\<close>

definition uffd_prepare ::
  "'w kernel \<Rightarrow> (string \<Rightarrow> 'w \<Rightarrow> (io_error, fd, 'w) run) \<Rightarrow> (u64 \<Rightarrow> u64 option) \<Rightarrow> memory_zone list \<Rightarrow>
     string \<Rightarrow> string option \<Rightarrow> memory_range_table \<Rightarrow> 'w \<Rightarrow> (memory_error, uffd_setup option, 'w) run" where
  "uffd_prepare K open_file host zones file_path template_socket saved_regions w =
     (if saved_regions = [] then run_ret None w
      else case k_sysconf K 30 w of (v, w) \<Rightarrow>
        let base_page_size = word_of_int v in
        run_bind (run_lift (any_unaligned base_page_size saved_regions) w) (\<lambda>bad w.
          if bad then run_err (uffd_failed UnalignedRanges) w
          else run_bind (if template_socket \<noteq> None then run_ret None w
                else run_bind (map_err SnapshotOpen (open_file file_path w)) (\<lambda>fd. run_ret (Some fd)))
            (\<lambda>snapshot_file w.
              run_bind (map_err (\<lambda>e. uffd_failed (UffdCreate e)) (uffd_create K (required_uffd_features zones) w))
                (\<lambda>uffd w.
                  run_bind (register_ranges K host zones base_page_size uffd 0 saved_regions w) (\<lambda>ranges.
                    run_ret (Some \<lparr>us_uffd = uffd, us_snapshot = snapshot_file, us_ranges = ranges,
                      us_base_page_size = base_page_size\<rparr>))))))"

text \<open>The body of the handler thread: its result is what it sends on the result channel.\<close>

definition uffd_thread ::
  "'w kernel \<Rightarrow> ('w \<Rightarrow> 'w) \<Rightarrow> fd \<Rightarrow> string option \<Rightarrow> uffd_setup \<Rightarrow> 'w \<Rightarrow> (io_error, unit, 'w) run" where
  "uffd_thread K yield stop_event template_socket u w =
     run_bind (case template_socket of
         Some socket \<Rightarrow> from_service K socket (us_ranges u) w
       | None \<Rightarrow> (case us_snapshot u of
           None \<Rightarrow> run_panic w
         | Some file_fd \<Rightarrow> run_lift (from_file file_fd (us_ranges u)) w)) (\<lambda>backend w.
       case handler_loop K yield (us_uffd u) stop_event backend (max_page_size backend (us_base_page_size u)) w of
         None \<Rightarrow> None
       | Some (r, s) \<Rightarrow> Some (r, hs_world s))"

text \<open>
  What the starting thread does with the messages of the handler: whether the ready message came,
  and a result that is already there.
\<close>

definition handler_started :: "bool \<Rightarrow> (io_error + unit) option \<Rightarrow> (memory_error, unit) outcome" where
  "handler_started ready result =
     (if \<not> ready then Inl (Err (uffd_failed HandlerStartup))
      else case result of
        Some (Inl e) \<Rightarrow> Inl (Err (uffd_failed (HandlerFailed e)))
      | _ \<Rightarrow> Inr ())"

section \<open>The ranges it sets up\<close>

text \<open>
  The ranges as the saved table prescribes them: the host address of each, its length, the sum of
  the lengths before it as the file offset, and the page size of its zone.
\<close>

fun laid_out ::
  "(u64 \<Rightarrow> u64 option) \<Rightarrow> memory_zone list \<Rightarrow> u64 \<Rightarrow> u64 \<Rightarrow> memory_range list \<Rightarrow> template_range list \<Rightarrow> bool" where
  "laid_out host zones base off [] [] \<longleftrightarrow> True"
| "laid_out host zones base off (r # rs) (t # ts) \<longleftrightarrow>
     (\<exists>h. host (mr_gpa r) = Some h \<and> t = range_new h (mr_length r) off (range_page_size zones base r)) \<and>
     laid_out host zones base (off + mr_length r) rs ts"
| "laid_out host zones base off _ _ \<longleftrightarrow> False"

lemma register_ranges_laid_out:
  assumes "register_ranges K host zones base uffd off rs w = Some (Inr ts, w')"
  shows "laid_out host zones base off rs ts"
  using assms
proof (induction rs arbitrary: off ts w)
  case Nil
  then show ?case by (simp add: run_ret_def)
next
  case (Cons r rs)
  then obtain t w1 ts' where
    r: "register_range K host zones base uffd off r w = Some (Inr t, w1)"
    and rest: "register_ranges K host zones base uffd (off + mr_length r) rs w1 = Some (Inr ts', w')"
    and ts: "ts = t # ts'"
    by (auto simp: run_bind_eq_Inr run_ret_def)
  from r obtain h where "host (mr_gpa r) = Some h" "t = range_new h (mr_length r) off (range_page_size zones base r)"
    by (auto simp: register_range_def run_bind_eq_Inr run_ret_def run_err_def split: option.splits if_splits)
  with Cons.IH [OF rest] show ?case unfolding ts by simp
qed

lemma unaligned_False:
  assumes "unaligned base r = Inr False"
  shows "unat (mr_gpa r) mod unat base = 0 \<and> unat (mr_length r) mod unat base = 0"
proof -
  have "base \<noteq> 0" using assms by (auto simp: unaligned_def)
  then have "mr_gpa r mod base = 0 \<and> mr_length r mod base = 0"
    using assms unfolding unaligned_def by (simp only: if_False sum.inject de_Morgan_disj not_not simp_thms)
  then have "unat (mr_gpa r mod base) = 0 \<and> unat (mr_length r mod base) = 0" by (simp only: unsigned_0)
  then show ?thesis by (simp only: unat_mod_word)
qed

lemma any_unaligned_False:
  assumes "any_unaligned base rs = Inr False" and "r \<in> set rs"
  shows "unat (mr_gpa r) mod unat base = 0 \<and> unat (mr_length r) mod unat base = 0"
  using assms
proof (induction rs)
  case (Cons x xs)
  then have "unaligned base x = Inr False" "any_unaligned base xs = Inr False"
    by (auto simp: bindE_eq_Inr split: if_splits)
  with Cons unaligned_False [of base x] show ?case by auto
qed simp

lemma uffd_prepare_Some:
  assumes "uffd_prepare K open_file host zones path sock saved w = Some (Inr (Some u), w')"
  shows "laid_out host zones (us_base_page_size u) 0 saved (us_ranges u)"
    and "r \<in> set saved \<Longrightarrow> unat (mr_gpa r) mod unat (us_base_page_size u) = 0 \<and>
      unat (mr_length r) mod unat (us_base_page_size u) = 0"
    and "us_base_page_size u = word_of_int (fst (k_sysconf K 30 w))" and "saved \<noteq> []"
proof -
  from assms have ne: "saved \<noteq> []" by (auto simp: uffd_prepare_def run_ret_def)
  obtain v w1 where v: "k_sysconf K 30 w = (v, w1)" by (cases "k_sysconf K 30 w")
  from assms ne v obtain snap uffd ts w2 where
    al: "any_unaligned (word_of_int v) saved = Inr False"
    and reg: "register_ranges K host zones (word_of_int v) uffd 0 saved w2 = Some (Inr ts, w')"
    and u: "u = \<lparr>us_uffd = uffd, us_snapshot = snap, us_ranges = ts, us_base_page_size = word_of_int v\<rparr>"
    by (auto simp: uffd_prepare_def run_bind_eq_Inr run_ret_def run_err_def run_lift_def Let_def split: if_splits)
  show "laid_out host zones (us_base_page_size u) 0 saved (us_ranges u)"
    using register_ranges_laid_out [OF reg] by (simp add: u)
  show "us_base_page_size u = word_of_int (fst (k_sysconf K 30 w))" by (simp add: u v)
  show "r \<in> set saved \<Longrightarrow> unat (mr_gpa r) mod unat (us_base_page_size u) = 0 \<and>
      unat (mr_length r) mod unat (us_base_page_size u) = 0"
    using any_unaligned_False [OF al] by (simp add: u)
  show "saved \<noteq> []" by (fact ne)
qed

text \<open>
  What the guest memory guarantees: a region of the guest is contiguous on the host, aligned there
  as it is in the guest, inside the address space, and apart from the other regions.
\<close>

definition host_ok :: "(u64 \<Rightarrow> u64 option) \<Rightarrow> (memory_range \<Rightarrow> u64) \<Rightarrow> memory_range list \<Rightarrow> bool" where
  "host_ok host ps rs \<longleftrightarrow>
     (\<forall>r \<in> set rs. \<forall>h. host (mr_gpa r) = Some h \<longrightarrow>
        unat h + unat (mr_length r) < 2 ^ 64 \<and> unat h mod unat (ps r) = unat (mr_gpa r) mod unat (ps r)) \<and>
     sorted_wrt (\<lambda>r s. \<forall>h k. host (mr_gpa r) = Some h \<longrightarrow> host (mr_gpa s) = Some k \<longrightarrow>
        disjoint_ranges h (unat (mr_length r)) k (unat (mr_length s))) rs"

text \<open>The page size of a range is a power of two and divides its address and its length.\<close>

definition pages_ok :: "(memory_range \<Rightarrow> u64) \<Rightarrow> memory_range list \<Rightarrow> bool" where
  "pages_ok ps rs \<longleftrightarrow> (\<forall>r \<in> set rs. (\<exists>k < 64. ps r = 2 ^ k) \<and>
     unat (mr_gpa r) mod unat (ps r) = 0 \<and> unat (mr_length r) mod unat (ps r) = 0)"

lemma laid_out_member:
  "laid_out host zones base off rs ts \<Longrightarrow> t \<in> set ts \<Longrightarrow>
     \<exists>r \<in> set rs. host (mr_gpa r) = Some (tr_host_addr t) \<and> tr_length t = mr_length r"
  by (induction host zones base off rs ts rule: laid_out.induct) (auto simp: range_new_def)

lemma laid_out_ok:
  assumes "laid_out host zones base off rs ts" and "pages_ok (range_page_size zones base) rs"
    and "host_ok host (range_page_size zones base) rs" and "unat off + table_size rs < 2 ^ 64"
  shows "(\<forall>t \<in> set ts. range_wf t) \<and> ranges_disjoint ts \<and> total_npages ts \<le> table_size rs"
  using assms
proof (induction host zones base off rs ts rule: laid_out.induct)
  case (2 host zones base off r rs t ts)
  define ps where "ps = range_page_size zones base r"
  from 2(2) obtain h where h: "host (mr_gpa r) = Some h" and t: "t = range_new h (mr_length r) off ps"
    and rest: "laid_out host zones base (off + mr_length r) rs ts" by (auto simp: ps_def)
  have size: "unat off + unat (mr_length r) + table_size rs < 2 ^ 64" using 2(5) by (simp add: table_size_def)
  then have off: "unat (off + mr_length r) = unat off + unat (mr_length r)" by (intro unat_add_nowrap) simp
  have p: "\<exists>k < 64. ps = 2 ^ k" "unat (mr_gpa r) mod unat ps = 0" "unat (mr_length r) mod unat ps = 0"
    using 2(3) by (simp_all add: pages_ok_def ps_def)
  have hok: "unat h + unat (mr_length r) < 2 ^ 64" "unat h mod unat ps = unat (mr_gpa r) mod unat ps"
    and rel: "\<forall>s \<in> set rs. \<forall>k. host (mr_gpa s) = Some k \<longrightarrow>
      disjoint_ranges h (unat (mr_length r)) k (unat (mr_length s))"
    using 2(4) h by (simp_all add: host_ok_def ps_def)
  have "range_wf t" using p hok size by (simp add: range_wf_def t range_new_def)
  moreover have IH: "(\<forall>t \<in> set ts. range_wf t) \<and> ranges_disjoint ts \<and> total_npages ts \<le> table_size rs"
    by (rule 2(1) [OF rest]) (use 2(3,4) size off in \<open>simp_all add: pages_ok_def host_ok_def\<close>)
  moreover have "\<forall>s \<in> set ts. disjoint_ranges (tr_host_addr t) (unat (tr_length t)) (tr_host_addr s) (unat (tr_length s))"
  proof
    fix s assume "s \<in> set ts"
    from laid_out_member [OF rest this] rel
    show "disjoint_ranges (tr_host_addr t) (unat (tr_length t)) (tr_host_addr s) (unat (tr_length s))"
      by (auto simp: t range_new_def)
  qed
  moreover have "npages t \<le> unat (mr_length r)" by (simp add: npages_def t range_new_def)
  ultimately show ?case by (simp add: table_size_def)
qed (simp_all add: table_size_def)

lemma laid_out_offsets:
  "laid_out host zones base off rs ts \<Longrightarrow> unat off + table_size rs < 2 ^ 64 \<Longrightarrow>
     map tr_length ts = map mr_length rs \<and> map tr_page_size ts = map (range_page_size zones base) rs \<and>
     (\<forall>i < length rs. host (mr_gpa (rs ! i)) = Some (tr_host_addr (ts ! i)) \<and>
        unat (tr_file_offset (ts ! i)) = unat off + table_size (take i rs))"
proof (induction host zones base off rs ts rule: laid_out.induct)
  case (2 host zones base off r rs t ts)
  have size: "unat off + unat (mr_length r) + table_size rs < 2 ^ 64" using 2(3) by (simp add: table_size_def)
  then have off: "unat (off + mr_length r) = unat off + unat (mr_length r)" by (intro unat_add_nowrap) simp
  with 2 size have IH: "map tr_length ts = map mr_length rs" "map tr_page_size ts = map (range_page_size zones base) rs"
    "\<forall>i < length rs. host (mr_gpa (rs ! i)) = Some (tr_host_addr (ts ! i)) \<and>
        unat (tr_file_offset (ts ! i)) = unat off + unat (mr_length r) + table_size (take i rs)" by auto
  have "host (mr_gpa ((r # rs) ! i)) = Some (tr_host_addr ((t # ts) ! i)) \<and>
      unat (tr_file_offset ((t # ts) ! i)) = unat off + table_size (take i (r # rs))" if "i < length (r # rs)" for i
    using IH(3) 2(2) that by (cases i) (auto simp: range_new_def table_size_def)
  with IH(1,2) 2(2) show ?case by (auto simp: range_new_def)
qed (simp_all add: table_size_def)

text \<open>
  \<open>C31\<close>: the restore is set up well-formed. When the preparation succeeds, the ranges given to
  the handler are the saved ranges in order, each at its host address, with the sum of the lengths
  before it as its offset in the snapshot and the page size of its zone; if the zones divide the
  saved ranges into whole pages, the backend built from them satisfies the invariant the fault
  handler relies on, with every page unloaded. Zones with the base page size need no assumption of
  alignment: the preparation checks it.
\<close>

theorem uffd_prepare_wf:
  assumes run: "uffd_prepare K open_file host zones path sock saved w = Some (Inr (Some u), w')"
    and pages: "\<And>r. r \<in> set saved \<Longrightarrow> (\<exists>k < 64. range_page_size zones (us_base_page_size u) r = 2 ^ k) \<and>
      (range_page_size zones (us_base_page_size u) r = us_base_page_size u \<or>
       unat (mr_gpa r) mod unat (range_page_size zones (us_base_page_size u) r) = 0 \<and>
       unat (mr_length r) mod unat (range_page_size zones (us_base_page_size u) r) = 0)"
    and host: "host_ok host (range_page_size zones (us_base_page_size u)) saved"
    and size: "table_size saved < 2 ^ 64"
  shows "map tr_length (us_ranges u) = map mr_length saved \<and>
    (\<forall>i < length saved. host (mr_gpa (saved ! i)) = Some (tr_host_addr (us_ranges u ! i)) \<and>
       unat (tr_file_offset (us_ranges u ! i)) = table_size (take i saved)) \<and>
    (\<exists>b. restore_new source (us_ranges u) = Inr b \<and> backend_wf b \<and>
       (\<forall>pg \<in> set (rb_pages b). rp_state pg = STATE_UNLOADED))"
proof -
  note S = uffd_prepare_Some [OF run]
  have "pages_ok (range_page_size zones (us_base_page_size u)) saved"
    unfolding pages_ok_def using pages S(2) by metis
  from laid_out_ok [OF S(1) this host] size
  have "ranges_ok (us_ranges u)" by (simp add: ranges_ok_def)
  then obtain b where "restore_new source (us_ranges u) = Inr b" "backend_wf b"
    "\<forall>pg \<in> set (rb_pages b). rp_state pg = STATE_UNLOADED"
    using restore_new_spec by blast
  with laid_out_offsets [OF S(1)] size show ?thesis by auto
qed

end
