(* ===== verification/Reference_Vm.thy ===== *)
theory Reference_Vm
  imports Reference_Io Restore_Setup
begin

text \<open>Instances of the parameters of the migration and restore set-up theories, and the properties at them.\<close>

section \<open>Coalescing\<close>

function coalesce_ref :: "'a coalesce" where
  "coalesce_ref f [] = []"
| "coalesce_ref f [x] = [x]"
| "coalesce_ref f (x # y # zs) =
     (case f x y of Inr c \<Rightarrow> coalesce_ref f (c # zs) | Inl (p, c) \<Rightarrow> p # coalesce_ref f (c # zs))"
  by pat_completeness auto
termination
  by (relation "measure (\<lambda>(f, xs). length xs)") auto

lemma coalesce_ref_ok: "coalesce_ok coalesce_ref"
  by (simp add: coalesce_ok_def)

theorem from_dirty_bitmap_exact_witness:
  "\<exists>t. from_dirty_bitmap coalesce_ref [0b1011] 0x1000 0x1000 = Inr t \<and>
     (\<Union>r \<in> set t. range_bytes r) = (\<Union>i \<in> set (set_bits [0b1011]). page_bytes 0x1000 0x1000 i)"
  using from_dirty_bitmap_exact [OF coalesce_ref_ok, of "[0b1011]" "0x1000" "0x1000"] by auto

definition ex_table :: memory_range_table where
  "ex_table = [\<lparr>mr_gpa = 0x1000, mr_length = 0x3000\<rparr>, \<lparr>mr_gpa = 0x8000, mr_length = 0x1000\<rparr>]"

theorem partition_exact_witness:
  "\<exists>ts. partition_collect 0x2000 ex_table = Inr ts \<and> (\<forall>t \<in> set ts. t \<noteq> [] \<and> table_size t \<le> 0x2000) \<and>
     (\<Sum>t\<leftarrow>ts. table_bytes t) = table_bytes ex_table"
proof -
  have "0 < (0x2000 :: u64)" "table_ok 0x2000 ex_table" by (simp_all add: table_ok_def ex_table_def)
  from partition_exact [OF this] show ?thesis by auto
qed

section \<open>The wire\<close>

definition ex_wire :: bytes where
  "ex_wire = request_bytes (request_new Memory 32) @ [1, 2, 3]"


section \<open>Setting up a restore\<close>

definition ex_saved :: memory_range_table where
  "ex_saved = [\<lparr>mr_gpa = 0x1000, mr_length = 0x10\<rparr>, \<lparr>mr_gpa = 0x2000, mr_length = 8\<rparr>]"

definition ex_host :: "u64 \<Rightarrow> u64 option" where
  "ex_host gpa = Some (gpa + 0x10000)"

definition ex_setup :: uffd_setup where
  "ex_setup = \<lparr>us_uffd = 5, us_snapshot = Some 4,
     us_ranges = [range_new 0x11000 0x10 0 8, range_new 0x12000 8 0x10 8], us_base_page_size = 8\<rparr>"

lemma ex_register [simp]: "uffd_register ref_kernel fd addr len w = Some (Inr (-1), w)"
  by (simp add: uffd_register_def ioctl_io_def ref_ioctl_def run_ret_def)

lemma ex_prepare:
  "uffd_prepare ref_kernel (\<lambda>_. run_ret 4) ex_host [] ''snapshot'' None ex_saved w = Some (Inr (Some ex_setup), w)"
  by (simp add: uffd_prepare_def ex_saved_def unaligned_def run_lift_def run_ret_def map_err_def uffd_create_def
      ioctl_io_def ref_ioctl_def register_range_def ex_host_def range_page_size_def ex_setup_def)

theorem uffd_prepare_wf_witness:
  "map tr_length (us_ranges ex_setup) = map mr_length ex_saved \<and>
   unat (tr_file_offset (us_ranges ex_setup ! 1)) = 0x10 \<and>
   (\<exists>b. restore_new (SourceFile 4) (us_ranges ex_setup) = Inr b \<and> backend_wf b)"
proof -
  have e: "range_page_size [] 8 r = 2 ^ 3" for r by (simp add: range_page_size_def)
  have p: "(\<exists>k < 64. range_page_size [] (us_base_page_size ex_setup) r = 2 ^ k) \<and>
      (range_page_size [] (us_base_page_size ex_setup) r = us_base_page_size ex_setup \<or>
       unat (mr_gpa r) mod unat (range_page_size [] (us_base_page_size ex_setup) r) = 0 \<and>
       unat (mr_length r) mod unat (range_page_size [] (us_base_page_size ex_setup) r) = 0)" for r
    using e [of r] by (intro conjI exI [of _ "3 :: nat"]) (simp_all add: ex_setup_def)
  have "host_ok ex_host (range_page_size [] (us_base_page_size ex_setup)) ex_saved"
    by (simp add: host_ok_def ex_host_def ex_saved_def ex_setup_def range_page_size_def disjoint_ranges_def)
  moreover have "table_size ex_saved < 2 ^ 64" by (simp add: table_size_def ex_saved_def)
  ultimately show ?thesis
    using uffd_prepare_wf [OF ex_prepare [of "\<lparr>rw_mem = [], rw_files = [], rw_msgs = []\<rparr>"] p, of "SourceFile 4"]
    by (auto simp: ex_saved_def table_size_def)
qed

end
