(* ===== verification/Vsock_Txbuf.thy ===== *)
theory Vsock_Txbuf
  imports Std_Io
begin

text \<open>
  The transmit buffer of a vsock connection,
  \<^verbatim>\<open>src/uffd-cow-gpt/cloud-hypervisor/virtio-devices/src/vsock/csm/txbuf.rs\<close>: a ring of bytes with wrapping
  32-bit offsets, allocated with the first push. It is shown to be a bounded queue of bytes. The
  stream it is flushed to is a parameter.
\<close>

section \<open>Operations\<close>

datatype csm_error = TxBufFull | TxBufFlush io_error | StreamWrite io_error

text \<open>A host stream: its descriptor; a write returns how many bytes it took, a read the bytes it got.\<close>

record 's stream_ops =
  st_fd :: "'s \<Rightarrow> int"
  st_write :: "bytes \<Rightarrow> 's \<Rightarrow> (io_error + nat) \<times> 's"
  st_read :: "nat \<Rightarrow> 's \<Rightarrow> (io_error + bytes) \<times> 's"

definition CONN_TX_BUF_SIZE :: u32 where
  "CONN_TX_BUF_SIZE = 64 * 1024"

abbreviation TX_SIZE :: nat where
  "TX_SIZE \<equiv> 65536"

record tx_buf =
  tx_data :: "bytes option"
  tx_head :: u32
  tx_tail :: u32

definition txbuf_new :: tx_buf where
  "txbuf_new = \<lparr>tx_data = None, tx_head = 0, tx_tail = 0\<rparr>"

definition txbuf_len :: "tx_buf \<Rightarrow> nat" where
  "txbuf_len b = unat (tx_head b - tx_tail b)"

definition txbuf_is_empty :: "tx_buf \<Rightarrow> bool" where
  "txbuf_is_empty b \<longleftrightarrow> txbuf_len b = 0"

text \<open>Copying a slice over the bytes from an offset on.\<close>

definition copy_at :: "nat \<Rightarrow> bytes \<Rightarrow> bytes \<Rightarrow> bytes" where
  "copy_at ofs src data = take ofs data @ src @ drop (ofs + length src) data"

definition txbuf_push :: "bytes \<Rightarrow> tx_buf \<Rightarrow> (csm_error, tx_buf) outcome" where
  "txbuf_push src b =
     (if txbuf_len b + length src > TX_SIZE then Inl (Err TxBufFull)
      else let data = (case tx_data b of None \<Rightarrow> replicate TX_SIZE 0 | Some d \<Rightarrow> d);
               head_ofs = unat (tx_head b) mod TX_SIZE;
               len = min (TX_SIZE - head_ofs) (length src);
               data = copy_at head_ofs (take len src) data;
               data = (if len < length src then copy_at 0 (drop len src) data else data)
           in Inr (b\<lparr>tx_data := Some data, tx_head := tx_head b + of_nat (length src)\<rparr>))"

text \<open>What the flush reports when its second write is done: an error there counts as no bytes.\<close>

definition unwrap_or_0 :: "nat \<Rightarrow> (csm_error, nat) outcome \<Rightarrow> (csm_error, nat) outcome" where
  "unwrap_or_0 written r =
     (case r of Inr n \<Rightarrow> Inr (written + n) | Inl (Err _) \<Rightarrow> Inr written | Inl Panic \<Rightarrow> Inl Panic)"

partial_function (option) txbuf_flush ::
  "'s stream_ops \<Rightarrow> tx_buf \<times> 's \<Rightarrow> (csm_error, nat, tx_buf \<times> 's) run" where
  "txbuf_flush S bs =
     (let b = fst bs; s = snd bs in
      if txbuf_is_empty b then Some (Inr 0, b, s)
      else let tail_ofs = unat (tx_tail b) mod TX_SIZE;
               len_to_write = min (TX_SIZE - tail_ofs) (txbuf_len b) in
        case tx_data b of
          None \<Rightarrow> Some (Inl Panic, b, s)
        | Some data \<Rightarrow>
            (case st_write S (take len_to_write (drop tail_ofs data)) s of
               (Inl e, s) \<Rightarrow> Some (Inl (Err (TxBufFlush e)), b, s)
             | (Inr written, s) \<Rightarrow>
                 let b = b\<lparr>tx_tail := tx_tail b + of_nat written\<rparr> in
                 if written < len_to_write then Some (Inr written, b, s)
                 else Option.bind (txbuf_flush S (b, s)) (\<lambda>(r, bs). Some (unwrap_or_0 written r, bs))))"

section \<open>The queue it implements\<close>

definition txbuf_ok :: "tx_buf \<Rightarrow> bool" where
  "txbuf_ok b \<longleftrightarrow> txbuf_len b \<le> TX_SIZE \<and>
     (case tx_data b of None \<Rightarrow> txbuf_len b = 0 | Some d \<Rightarrow> length d = TX_SIZE)"

definition ring :: "bytes \<Rightarrow> nat \<Rightarrow> nat \<Rightarrow> bytes" where
  "ring d t n = map (\<lambda>i. d ! ((t + i) mod TX_SIZE)) [0..<n]"

definition txbuf_contents :: "tx_buf \<Rightarrow> bytes" where
  "txbuf_contents b = (case tx_data b of None \<Rightarrow> [] | Some d \<Rightarrow> ring d (unat (tx_tail b)) (txbuf_len b))"

lemma length_ring [simp]: "length (ring d t n) = n"
  by (simp add: ring_def)

lemma length_contents: "txbuf_ok b \<Longrightarrow> length (txbuf_contents b) = txbuf_len b"
  by (auto simp: txbuf_contents_def txbuf_ok_def split: option.splits)

lemma length_copy_at: "ofs + length src \<le> length d \<Longrightarrow> length (copy_at ofs src d) = length d"
  by (simp add: copy_at_def)

lemma nth_copy_at:
  assumes "ofs + length src \<le> length d" and "k < length d"
  shows "copy_at ofs src d ! k = (if ofs \<le> k \<and> k < ofs + length src then src ! (k - ofs) else d ! k)"
  using assms by (auto simp: copy_at_def nth_append min_def)

text \<open>The two copies of a push write the source along the ring.\<close>

definition ring_write :: "nat \<Rightarrow> bytes \<Rightarrow> bytes \<Rightarrow> bytes" where
  "ring_write h src d =
     (let len = min (TX_SIZE - h) (length src); d = copy_at h (take len src) d
      in if len < length src then copy_at 0 (drop len src) d else d)"

lemma ring_write_nth:
  assumes d: "length d = TX_SIZE" and h: "h < TX_SIZE" and m: "length src \<le> TX_SIZE" and j: "j < TX_SIZE"
  shows "length (ring_write h src d) = TX_SIZE"
    and "ring_write h src d ! ((h + j) mod TX_SIZE) = (if j < length src then src ! j else d ! ((h + j) mod TX_SIZE))"
proof -
  define len where "len = min (TX_SIZE - h) (length src)"
  define d1 where "d1 = copy_at h (take len src) d"
  have rw: "ring_write h src d = (if len < length src then copy_at 0 (drop len src) d1 else d1)"
    unfolding ring_write_def Let_def d1_def len_def by (rule refl)
  have fit: "h + length (take len src) \<le> length d" using h d by (auto simp: len_def)
  have l1: "length d1 = TX_SIZE" using d fit by (simp add: d1_def length_copy_at)
  have fit2: "0 + length (drop len src) \<le> length d1" using l1 m by simp
  show len2: "length (ring_write h src d) = TX_SIZE"
    using l1 fit2 by (simp add: rw length_copy_at)
  have lens: "length (take len src) = len" by (simp add: len_def)
  show "ring_write h src d ! ((h + j) mod TX_SIZE) = (if j < length src then src ! j else d ! ((h + j) mod TX_SIZE))"
  proof (cases "h + j < TX_SIZE")
    case True
    then have k: "(h + j) mod TX_SIZE = h + j" by simp
    have "d1 ! (h + j) = (if j < len then src ! j else d ! (h + j))"
      using nth_copy_at [OF fit, of "h + j"] True d unfolding lens d1_def by simp
    moreover have "copy_at 0 (drop len src) d1 ! (h + j) = d1 ! (h + j)" if "len < length src"
    proof -
      have "len = TX_SIZE - h" using that by (auto simp: len_def)
      then have "length src - len \<le> h" using m h by simp
      then show ?thesis using nth_copy_at [OF fit2, of "h + j"] True l1 by simp
    qed
    ultimately show ?thesis
      using True unfolding k by (auto simp: rw) (auto simp: len_def)
  next
    case False
    then have k: "(h + j) mod TX_SIZE = h + j - TX_SIZE" using h j by (simp add: mod_if)
    define i where "i = h + j - TX_SIZE"
    have ih: "i < h" using j False by (simp add: i_def)
    have d1i: "d1 ! i = d ! i" using nth_copy_at [OF fit, of i] ih h d by (simp add: d1_def)
    show ?thesis
    proof (cases "len < length src")
      case True
      then have L: "len = TX_SIZE - h" by (auto simp: len_def)
      then have ji: "j = len + i" using False h by (simp add: i_def)
      have "copy_at 0 (drop len src) d1 ! i = (if i < length src - len then drop len src ! i else d1 ! i)"
        using nth_copy_at [OF fit2, of i] ih h l1 by simp
      then show ?thesis
        using True d1i unfolding k i_def [symmetric] by (auto simp: rw ji)
    next
      case no: False
      then have "length src \<le> j" using False by (auto simp: len_def)
      with no d1i show ?thesis
        unfolding k i_def [symmetric] by (simp add: rw)
    qed
  qed
qed

lemma ring_append:
  assumes "length d = TX_SIZE" and "n + length src \<le> TX_SIZE" and "h = (t + n) mod TX_SIZE"
  shows "ring (ring_write h src d) t (n + length src) = ring d t n @ src"
proof (rule nth_equalityI)
  fix i assume i: "i < length (ring (ring_write h src d) t (n + length src))"
  have h: "h < TX_SIZE" using assms(3) by simp
  show "ring (ring_write h src d) t (n + length src) ! i = (ring d t n @ src) ! i"
  proof (cases "i < n")
    case True
    define j where "j = TX_SIZE - n + i"
    have j: "j < TX_SIZE" "\<not> j < length src" using True assms(2) by (simp_all add: j_def)
    have "(h + j) mod TX_SIZE = (t + n + j) mod TX_SIZE" by (simp add: assms(3) mod_add_left_eq)
    also have "t + n + j = t + i + TX_SIZE" using True assms(2) by (simp add: j_def)
    finally have "(h + j) mod TX_SIZE = (t + i) mod TX_SIZE" by simp
    with ring_write_nth(2) [OF assms(1) h _ j(1), of src] j(2) assms(2) True i show ?thesis
      by (simp add: ring_def nth_append)
  next
    case False
    define j where "j = i - n"
    have j: "j < TX_SIZE" "j < length src" using False i assms(2) by (simp_all add: j_def)
    have "(h + j) mod TX_SIZE = (t + n + j) mod TX_SIZE" by (simp add: assms(3) mod_add_left_eq)
    also have "t + n + j = t + i" using False by (simp add: j_def)
    finally have "(h + j) mod TX_SIZE = (t + i) mod TX_SIZE" .
    with ring_write_nth(2) [OF assms(1) h _ j(1), of src] j(2) assms(2) False i show ?thesis
      by (simp add: ring_def nth_append j_def)
  qed
qed simp


lemma mod_size_of_word:
  fixes w :: u32
  shows "unat (w + of_nat n) mod TX_SIZE = (unat w + n) mod TX_SIZE"
proof -
  have d: "(TX_SIZE :: nat) dvd 4294967296" by (simp add: dvd_def exI [of _ 65536])
  have "unat (w + of_nat n) = (unat w + n) mod 4294967296"
    by (simp add: unat_word_ariths unsigned_of_nat take_bit_eq_mod mod_add_right_eq)
  then show ?thesis by (simp add: mod_mod_cancel [OF d])
qed

lemma ring_mod: "ring d (t mod TX_SIZE) n = ring d t n"
  by (simp add: ring_def mod_add_left_eq)

lemma head_from_tail: "tx_head b = tx_tail b + of_nat (txbuf_len b)"
  by (simp add: txbuf_len_def)

lemma len_after:
  assumes "m < 2 ^ 32" and "tx_head b' - tx_tail b' = of_nat m"
  shows "txbuf_len b' = m"
  using assms by (simp add: txbuf_len_def unsigned_of_nat take_bit_nat_eq_self)

lemma txbuf_new_ok: "txbuf_ok txbuf_new" "txbuf_contents txbuf_new = []"
  by (simp_all add: txbuf_new_def txbuf_ok_def txbuf_len_def txbuf_contents_def)

lemma push_full:
  "txbuf_ok b \<Longrightarrow> TX_SIZE < length (txbuf_contents b) + length src \<Longrightarrow> txbuf_push src b = Inl (Err TxBufFull)"
  by (simp add: txbuf_push_def length_contents)

lemma push_appends:
  assumes ok: "txbuf_ok b" and room: "length (txbuf_contents b) + length src \<le> TX_SIZE"
  shows "\<exists>b'. txbuf_push src b = Inr b' \<and> txbuf_ok b' \<and> txbuf_contents b' = txbuf_contents b @ src"
proof -
  define n where "n = txbuf_len b"
  define d where "d = (case tx_data b of None \<Rightarrow> replicate TX_SIZE 0 | Some d \<Rightarrow> d)"
  define h where "h = unat (tx_head b) mod TX_SIZE"
  define b' where "b' = b\<lparr>tx_data := Some (ring_write h src d), tx_head := tx_head b + of_nat (length src)\<rparr>"
  have room': "n + length src \<le> TX_SIZE" using room length_contents [OF ok] by (simp add: n_def)
  have ld: "length d = TX_SIZE" using ok by (auto simp: d_def txbuf_ok_def split: option.splits)
  have hh: "h = (unat (tx_tail b) + n) mod TX_SIZE"
    unfolding h_def head_from_tail n_def by (rule mod_size_of_word)
  have res: "txbuf_push src b = Inr b'"
    using room' by (simp add: txbuf_push_def Let_def n_def b'_def ring_write_def h_def d_def)
  have len: "txbuf_len b' = n + length src"
    by (rule len_after) (use room' in \<open>simp_all add: b'_def n_def head_from_tail [of b] algebra_simps\<close>)
  have c: "txbuf_contents b = ring d (unat (tx_tail b)) n"
    using ok by (auto simp: txbuf_contents_def d_def n_def txbuf_ok_def ring_def split: option.splits)
  have "txbuf_contents b' = ring (ring_write h src d) (unat (tx_tail b)) (n + length src)"
    using len by (simp add: txbuf_contents_def b'_def)
  also have "\<dots> = txbuf_contents b @ src" unfolding c by (rule ring_append [OF ld room' hh])
  finally have cont: "txbuf_contents b' = txbuf_contents b @ src" .
  have "h < TX_SIZE" by (simp add: h_def)
  then have "txbuf_ok b'"
    using len room' ring_write_nth(1) [OF ld, of h src 0] by (simp add: txbuf_ok_def b'_def)
  with res cont show ?thesis by blast
qed

text \<open>What the stream is relied on for: a write takes a prefix of what it is given, and a read
  gives no more than it is asked for and writes nothing.\<close>

definition stream_ok :: "'s stream_ops \<Rightarrow> ('s \<Rightarrow> bytes) \<Rightarrow> bool" where
  "stream_ok S sent \<longleftrightarrow>
     (\<forall>bs s. case st_write S bs s of
        (Inl e, s') \<Rightarrow> sent s' = sent s
      | (Inr n, s') \<Rightarrow> n \<le> length bs \<and> sent s' = sent s @ take n bs) \<and>
     (\<forall>n s. case st_read S n s of
        (Inl e, s') \<Rightarrow> sent s' = sent s
      | (Inr bs, s') \<Rightarrow> length bs \<le> n \<and> sent s' = sent s)"

lemma host_write:
  assumes "stream_ok S sent" and "st_write S bs s = (r, s')"
  shows "r = Inl e \<Longrightarrow> sent s' = sent s" and "r = Inr n \<Longrightarrow> n \<le> length bs \<and> sent s' = sent s @ take n bs"
  using assms(1) [unfolded stream_ok_def, THEN conjunct1, THEN spec [of _ bs], THEN spec [of _ s]] assms(2) by simp_all

lemma stream_read:
  assumes "stream_ok S sent" and "st_read S n s = (r, s')"
  shows "sent s' = sent s" and "r = Inr bs \<Longrightarrow> length bs \<le> n"
  using assms(1) [unfolded stream_ok_def, THEN conjunct2, THEN spec [of _ n], THEN spec [of _ s]] assms(2) by (auto split: sum.splits)

text \<open>Moving the tail drops a prefix of the contents.\<close>

lemma tail_drops:
  assumes ok: "txbuf_ok b" and n: "n \<le> txbuf_len b"
  shows "txbuf_ok (b\<lparr>tx_tail := tx_tail b + of_nat n\<rparr>)"
    and "txbuf_contents (b\<lparr>tx_tail := tx_tail b + of_nat n\<rparr>) = drop n (txbuf_contents b)"
    and "txbuf_len (b\<lparr>tx_tail := tx_tail b + of_nat n\<rparr>) = txbuf_len b - n"
proof -
  let ?b = "b\<lparr>tx_tail := tx_tail b + of_nat n\<rparr>"
  have L: "txbuf_len b \<le> TX_SIZE" using ok by (simp add: txbuf_ok_def)
  show len: "txbuf_len ?b = txbuf_len b - n"
    by (rule len_after) (use n L in \<open>simp_all add: head_from_tail [of b] of_nat_diff\<close>)
  show "txbuf_ok ?b" using ok n by (auto simp: txbuf_ok_def len split: option.splits)
  show "txbuf_contents ?b = drop n (txbuf_contents b)"
  proof (cases "tx_data b")
    case (Some d)
    have "ring d (unat (tx_tail b + of_nat n)) m = ring d (unat (tx_tail b) + n) m" for m
      by (metis ring_mod mod_size_of_word)
    with Some show ?thesis
      by (simp add: txbuf_contents_def len) (auto simp: ring_def drop_map add_ac intro!: nth_equalityI)
  qed (simp add: txbuf_contents_def)
qed

text \<open>The slice a flush writes is a prefix of the contents.\<close>

lemma flush_slice:
  assumes ok: "txbuf_ok b" and d: "tx_data b = Some d" and o: "ofs = unat (tx_tail b) mod TX_SIZE"
    and n: "n = min (TX_SIZE - ofs) (txbuf_len b)"
  shows "take n (drop ofs d) = take n (txbuf_contents b)"
proof (rule nth_equalityI)
  have ld: "length d = TX_SIZE" using ok d by (simp add: txbuf_ok_def)
  have os: "ofs < TX_SIZE" using o by simp
  show "length (take n (drop ofs d)) = length (take n (txbuf_contents b))"
    using ld os n by (simp add: length_contents [OF ok])
  fix i assume "i < length (take n (drop ofs d))"
  then have i: "i < n" by simp
  then have "(unat (tx_tail b) + i) mod TX_SIZE = ofs + i"
    using n os by (simp add: o) (metis mod_add_left_eq mod_less less_diff_conv add.commute o)
  with i n ld os d show "take n (drop ofs d) ! i = take n (txbuf_contents b) ! i"
    by (simp add: txbuf_contents_def ring_def)
qed

lemma flush_prefix:
  assumes S: "stream_ok S sent" and ok: "txbuf_ok b"
  shows "\<exists>r b' s' n. txbuf_flush S (b, s) = Some (r, b', s') \<and> txbuf_ok b' \<and> n \<le> length (txbuf_contents b) \<and>
           txbuf_contents b' = drop n (txbuf_contents b) \<and> sent s' = sent s @ take n (txbuf_contents b) \<and>
           (r = Inr n \<or> n = 0 \<and> (\<exists>e. r = Inl (Err (TxBufFlush e))))"
  using ok
proof (induction "txbuf_len b" arbitrary: b s rule: less_induct)
  case less
  note ok = less.prems
  note L = length_contents [OF ok]
  show ?case
  proof (cases "txbuf_is_empty b")
    case True
    with ok show ?thesis by (subst txbuf_flush.simps) simp
  next
    case False
    define ofs where "ofs = unat (tx_tail b) mod TX_SIZE"
    define k where "k = min (TX_SIZE - ofs) (txbuf_len b)"
    obtain d where d: "tx_data b = Some d"
      using ok False by (cases "tx_data b") (auto simp: txbuf_ok_def txbuf_is_empty_def)
    have k0: "0 < k" and kl: "k \<le> txbuf_len b"
      using False by (auto simp: k_def ofs_def txbuf_is_empty_def)
    have sl: "take k (drop ofs d) = take k (txbuf_contents b)" by (rule flush_slice [OF ok d ofs_def k_def])
    obtain r s1 where w: "st_write S (take k (txbuf_contents b)) s = (r, s1)" by fastforce
    note step = txbuf_flush.simps [of S "(b, s)", simplified Let_def fst_conv snd_conv, folded ofs_def, folded k_def]
    show ?thesis
    proof (cases r)
      case (Inl e)
      with w False d sl ok host_write(1) [OF S w Inl] show ?thesis
        by (subst step) (auto intro!: exI [of _ b])
    next
      case (Inr n)
      have n: "n \<le> k" and s1: "sent s1 = sent s @ take n (txbuf_contents b)"
        using host_write(2) [OF S w Inr] kl L by (auto simp: min_absorb1)
      define b1 where "b1 = b\<lparr>tx_tail := tx_tail b + of_nat n\<rparr>"
      have b1: "txbuf_ok b1" "txbuf_contents b1 = drop n (txbuf_contents b)" "txbuf_len b1 = txbuf_len b - n"
        unfolding b1_def using tail_drops [OF ok, of n] n kl by simp_all
      show ?thesis
      proof (cases "n < k")
        case True
        then have "txbuf_flush S (b, s) = Some (Inr n, b1, s1)"
          using w Inr False d sl by (subst step) (simp add: b1_def)
        with b1 s1 n kl L show ?thesis by auto
      next
        case F: False
        then have nk: "n = k" using n by simp
        have "txbuf_len b1 < txbuf_len b" using b1(3) nk k0 kl by simp
        from less.hyps [OF this b1(1), of s1] obtain r' b' s' m where
          fl: "txbuf_flush S (b1, s1) = Some (r', b', s')" and b': "txbuf_ok b'"
          "txbuf_contents b' = drop m (txbuf_contents b1)" "m \<le> length (txbuf_contents b1)" and
          s': "sent s' = sent s1 @ take m (txbuf_contents b1)" and
          r': "r' = Inr m \<or> m = 0 \<and> (\<exists>e. r' = Inl (Err (TxBufFlush e)))" by blast
        have "txbuf_flush S (b, s) = Some (unwrap_or_0 n r', b', s')"
          using w Inr False d sl F fl by (subst step) (simp add: b1_def)
        moreover have "unwrap_or_0 n r' = Inr (n + m)" using r' by (auto simp: unwrap_or_0_def)
        moreover have "take n (txbuf_contents b) @ take m (drop n (txbuf_contents b)) = take (n + m) (txbuf_contents b)"
          by (simp add: take_add)
        ultimately show ?thesis
          using b' b1 s' s1 L n kl by (auto simp: add.commute intro!: exI [of _ "n + m"])
      qed
    qed
  qed
qed

lemma flush_drains:
  assumes ok: "txbuf_ok b" and all: "\<And>bs s. \<exists>s'. st_write S bs s = (Inr (length bs), s')"
  shows "\<exists>b' s'. txbuf_flush S (b, s) = Some (Inr (length (txbuf_contents b)), b', s') \<and> txbuf_contents b' = []"
  using ok
proof (induction "txbuf_len b" arbitrary: b s rule: less_induct)
  case less
  note ok = less.prems
  note L = length_contents [OF ok]
  show ?case
  proof (cases "txbuf_is_empty b")
    case True
    then show ?thesis
      using L by (subst txbuf_flush.simps) (auto simp: txbuf_is_empty_def)
  next
    case False
    define ofs where "ofs = unat (tx_tail b) mod TX_SIZE"
    define k where "k = min (TX_SIZE - ofs) (txbuf_len b)"
    obtain d where d: "tx_data b = Some d"
      using ok False by (cases "tx_data b") (auto simp: txbuf_ok_def txbuf_is_empty_def)
    have k0: "0 < k" and kl: "k \<le> txbuf_len b"
      using False by (auto simp: k_def ofs_def txbuf_is_empty_def)
    have sl: "take k (drop ofs d) = take k (txbuf_contents b)" by (rule flush_slice [OF ok d ofs_def k_def])
    obtain s1 where w: "st_write S (take k (txbuf_contents b)) s = (Inr k, s1)"
      using all [of "take k (txbuf_contents b)" s] kl L by auto
    note step = txbuf_flush.simps [of S "(b, s)", simplified Let_def fst_conv snd_conv, folded ofs_def, folded k_def]
    define b1 where "b1 = b\<lparr>tx_tail := tx_tail b + of_nat k\<rparr>"
    have b1: "txbuf_ok b1" "txbuf_contents b1 = drop k (txbuf_contents b)" "txbuf_len b1 = txbuf_len b - k"
      unfolding b1_def using tail_drops [OF ok kl] by simp_all
    have "txbuf_len b1 < txbuf_len b" using b1(3) k0 kl by simp
    from less.hyps [OF this b1(1), of s1] obtain b' s' where
      fl: "txbuf_flush S (b1, s1) = Some (Inr (length (txbuf_contents b1)), b', s')" "txbuf_contents b' = []"
      by blast
    have "txbuf_flush S (b, s) = Some (Inr (length (txbuf_contents b)), b', s')"
      using w False d sl fl b1(2) kl L by (subst step) (simp add: b1_def unwrap_or_0_def)
    with fl show ?thesis by simp
  qed
qed

section \<open>The contract of a bounded byte queue\<close>

text \<open>What a schedule of pushes and flushes does: the bytes of the pushes that were accepted, and the
  queue and the stream it leaves.\<close>

datatype fifo_op = Push bytes | Flush

fun fifo_run ::
  "(bytes \<Rightarrow> 'b \<Rightarrow> (csm_error, 'b) outcome) \<Rightarrow> ('b \<times> 's \<Rightarrow> (csm_error, nat, 'b \<times> 's) run) \<Rightarrow>
   fifo_op list \<Rightarrow> 'b \<times> 's \<Rightarrow> (bytes \<times> 'b \<times> 's) option" where
  "fifo_run push flush [] (b, s) = Some ([], b, s)"
| "fifo_run push flush (Push src # ops) (b, s) =
     (case push src b of
        Inr b' \<Rightarrow> map_option (\<lambda>(acc, bs). (src @ acc, bs)) (fifo_run push flush ops (b', s))
      | Inl (Err _) \<Rightarrow> fifo_run push flush ops (b, s)
      | Inl Panic \<Rightarrow> None)"
| "fifo_run push flush (Flush # ops) (b, s) =
     (case flush (b, s) of
        None \<Rightarrow> None
      | Some (Inl Panic, _) \<Rightarrow> None
      | Some (_, bs) \<Rightarrow> fifo_run push flush ops bs)"

locale byte_fifo =
  fixes invar :: "'b \<Rightarrow> bool" and contents :: "'b \<Rightarrow> bytes" and cap :: nat
    and push :: "bytes \<Rightarrow> 'b \<Rightarrow> (csm_error, 'b) outcome"
    and flush :: "'s stream_ops \<Rightarrow> 'b \<times> 's \<Rightarrow> (csm_error, nat, 'b \<times> 's) run"
  assumes push_rejects: "invar b \<Longrightarrow> cap < length (contents b) + length src \<Longrightarrow> push src b = Inl (Err TxBufFull)"
    and push_accepts: "invar b \<Longrightarrow> length (contents b) + length src \<le> cap \<Longrightarrow>
      \<exists>b'. push src b = Inr b' \<and> invar b' \<and> contents b' = contents b @ src"
    and flush_takes: "stream_ok S sent \<Longrightarrow> invar b \<Longrightarrow>
      \<exists>r b' s' n. flush S (b, s) = Some (r, b', s') \<and> invar b' \<and> n \<le> length (contents b) \<and>
        contents b' = drop n (contents b) \<and> sent s' = sent s @ take n (contents b) \<and>
        (r = Inr n \<or> n = 0 \<and> (\<exists>e. r = Inl (Err (TxBufFlush e))))"
begin

lemma delivers_in_order:
  assumes S: "stream_ok S sent" and inv: "invar b"
  shows "\<exists>acc b' s'. fifo_run push (flush S) ops (b, s) = Some (acc, b', s') \<and> invar b' \<and>
           sent s' @ contents b' = sent s @ contents b @ acc"
  using inv
proof (induction ops arbitrary: b s)
  case Nil
  then show ?case by simp
next
  case (Cons op ops)
  show ?case
  proof (cases op)
    case (Push src)
    show ?thesis
    proof (cases "length (contents b) + length src \<le> cap")
      case True
      from push_accepts [OF Cons.prems True] obtain b1 where
        b1: "push src b = Inr b1" "invar b1" "contents b1 = contents b @ src" by blast
      from Cons.IH [OF b1(2), of s] b1 Push show ?thesis by auto
    next
      case False
      then have "push src b = Inl (Err TxBufFull)" by (intro push_rejects Cons.prems) simp
      with Cons.IH [OF Cons.prems, of s] Push show ?thesis by simp
    qed
  next
    case Flush
    from flush_takes [OF S Cons.prems, of s] obtain r b1 s1 n where
      fl: "flush S (b, s) = Some (r, b1, s1)" "invar b1" "contents b1 = drop n (contents b)"
        "sent s1 = sent s @ take n (contents b)" "r = Inr n \<or> (\<exists>e. r = Inl (Err (TxBufFlush e)))" by blast
    have "take n (contents b) @ drop n (contents b) @ acc = contents b @ acc" for acc
      by (simp flip: append_assoc)
    with Cons.IH [OF fl(2), of s1] fl Flush show ?thesis by auto
  qed
qed

lemma bounded:
  assumes "invar b" and "length (contents b) \<le> cap" and "push src b = Inr b'"
  shows "length (contents b') \<le> cap"
  using push_rejects [OF assms(1), of src] push_accepts [OF assms(1), of src] assms(3) by fastforce

end

interpretation txb: byte_fifo txbuf_ok txbuf_contents TX_SIZE txbuf_push txbuf_flush
  by unfold_locales (fact push_full push_appends flush_prefix)+

end
