(* ===== verification/Vsock_Packet.thy ===== *)
theory Vsock_Packet
  imports Vsock_Txbuf
begin

text \<open>
  The packets of the vsock device,
  \<^verbatim>\<open>src/uffd-cow-gpt/cloud-hypervisor/virtio-devices/src/vsock/packet.rs\<close>: the 44-byte header with its
  little-endian fields, and the construction of a packet from the descriptors of a TX or an RX
  chain. The descriptor chain is the list of the descriptors its iterator yields; the guest memory
  and the address translation of the platform are parameters. A borrowed data buffer is
  represented by the bytes of the slice of guest memory it stands for.
\<close>

section \<open>The header\<close>

definition VSOCK_PKT_HDR_SIZE :: nat where "VSOCK_PKT_HDR_SIZE = 44"
definition MAX_PKT_BUF_SIZE :: nat where "MAX_PKT_BUF_SIZE = 64 * 1024"

definition VSOCK_OP_REQUEST :: u16 where "VSOCK_OP_REQUEST = 1"
definition VSOCK_OP_RESPONSE :: u16 where "VSOCK_OP_RESPONSE = 2"
definition VSOCK_OP_RST :: u16 where "VSOCK_OP_RST = 3"
definition VSOCK_OP_SHUTDOWN :: u16 where "VSOCK_OP_SHUTDOWN = 4"
definition VSOCK_OP_RW :: u16 where "VSOCK_OP_RW = 5"
definition VSOCK_OP_CREDIT_UPDATE :: u16 where "VSOCK_OP_CREDIT_UPDATE = 6"
definition VSOCK_OP_CREDIT_REQUEST :: u16 where "VSOCK_OP_CREDIT_REQUEST = 7"
definition VSOCK_FLAGS_SHUTDOWN_RCV :: u32 where "VSOCK_FLAGS_SHUTDOWN_RCV = 1"
definition VSOCK_FLAGS_SHUTDOWN_SEND :: u32 where "VSOCK_FLAGS_SHUTDOWN_SEND = 2"
definition VSOCK_TYPE_STREAM :: u16 where "VSOCK_TYPE_STREAM = 1"
definition VSOCK_HOST_CID :: u64 where "VSOCK_HOST_CID = 2"

lemmas vsock_ops =
  VSOCK_OP_REQUEST_def VSOCK_OP_RESPONSE_def VSOCK_OP_RST_def VSOCK_OP_SHUTDOWN_def VSOCK_OP_RW_def
  VSOCK_OP_CREDIT_UPDATE_def VSOCK_OP_CREDIT_REQUEST_def

datatype vsock_error =
    BufDescTooSmall | BufDescMissing | GuestMemory | GuestMemoryBounds | HdrDescTooSmall u32
  | HdrDescMissing | InvalidPktLen u32 | NoData | PktBufMissing | UnreadableDescriptor
  | UnwritableDescriptor

datatype packet_buffer = Borrowed bytes | Owned bytes

record vsock_packet =
  guest_hdr_addr :: u64
  pkt_hdr :: bytes
  pkt_buffer :: "packet_buffer option"

text \<open>A header field: a little-endian word at an offset.\<close>

definition hdr_read :: "nat \<Rightarrow> vsock_packet \<Rightarrow> 'a::len word" where
  "hdr_read ofs p = from_le_bytes (take (LENGTH('a) div 8) (drop ofs (pkt_hdr p)))"

definition hdr_write :: "nat \<Rightarrow> 'a::len word \<Rightarrow> vsock_packet \<Rightarrow> vsock_packet" where
  "hdr_write ofs v p = p\<lparr>pkt_hdr := copy_at ofs (to_le_bytes v) (pkt_hdr p)\<rparr>"

definition src_cid :: "vsock_packet \<Rightarrow> u64" where "src_cid = hdr_read 0"
definition set_src_cid :: "u64 \<Rightarrow> vsock_packet \<Rightarrow> vsock_packet" where "set_src_cid = hdr_write 0"
definition dst_cid :: "vsock_packet \<Rightarrow> u64" where "dst_cid = hdr_read 8"
definition set_dst_cid :: "u64 \<Rightarrow> vsock_packet \<Rightarrow> vsock_packet" where "set_dst_cid = hdr_write 8"
definition src_port :: "vsock_packet \<Rightarrow> u32" where "src_port = hdr_read 16"
definition set_src_port :: "u32 \<Rightarrow> vsock_packet \<Rightarrow> vsock_packet" where "set_src_port = hdr_write 16"
definition dst_port :: "vsock_packet \<Rightarrow> u32" where "dst_port = hdr_read 20"
definition set_dst_port :: "u32 \<Rightarrow> vsock_packet \<Rightarrow> vsock_packet" where "set_dst_port = hdr_write 20"
definition pkt_len :: "vsock_packet \<Rightarrow> u32" where "pkt_len = hdr_read 24"
definition set_len :: "u32 \<Rightarrow> vsock_packet \<Rightarrow> vsock_packet" where "set_len = hdr_write 24"
definition pkt_is_empty :: "vsock_packet \<Rightarrow> bool" where "pkt_is_empty p \<longleftrightarrow> pkt_len p = 0"
definition pkt_type :: "vsock_packet \<Rightarrow> u16" where "pkt_type = hdr_read 28"
definition set_type :: "u16 \<Rightarrow> vsock_packet \<Rightarrow> vsock_packet" where "set_type = hdr_write 28"
definition pkt_op :: "vsock_packet \<Rightarrow> u16" where "pkt_op = hdr_read 30"
definition set_op :: "u16 \<Rightarrow> vsock_packet \<Rightarrow> vsock_packet" where "set_op = hdr_write 30"
definition pkt_flags :: "vsock_packet \<Rightarrow> u32" where "pkt_flags = hdr_read 32"
definition set_flags :: "u32 \<Rightarrow> vsock_packet \<Rightarrow> vsock_packet" where "set_flags = hdr_write 32"
definition set_flag :: "u32 \<Rightarrow> vsock_packet \<Rightarrow> vsock_packet" where
  "set_flag flag p = set_flags (pkt_flags p OR flag) p"
definition pkt_buf_alloc :: "vsock_packet \<Rightarrow> u32" where "pkt_buf_alloc = hdr_read 36"
definition set_buf_alloc :: "u32 \<Rightarrow> vsock_packet \<Rightarrow> vsock_packet" where "set_buf_alloc = hdr_write 36"
definition pkt_fwd_cnt :: "vsock_packet \<Rightarrow> u32" where "pkt_fwd_cnt = hdr_read 40"
definition set_fwd_cnt :: "u32 \<Rightarrow> vsock_packet \<Rightarrow> vsock_packet" where "set_fwd_cnt = hdr_write 40"

definition pkt_buf :: "vsock_packet \<Rightarrow> bytes option" where
  "pkt_buf p =
     (case pkt_buffer p of None \<Rightarrow> None | Some (Owned bs) \<Rightarrow> Some bs | Some (Borrowed bs) \<Rightarrow> Some bs)"

text \<open>Storing bytes through the mutable slice of the data buffer, at its start.\<close>

definition pkt_buf_write :: "bytes \<Rightarrow> vsock_packet \<Rightarrow> vsock_packet" where
  "pkt_buf_write bs p =
     p\<lparr>pkt_buffer := map_option (\<lambda>b. case b of Owned d \<Rightarrow> Owned (copy_at 0 bs d) | Borrowed d \<Rightarrow> Borrowed (copy_at 0 bs d))
                     (pkt_buffer p)\<rparr>"

lemmas pkt_fields =
  src_cid_def set_src_cid_def dst_cid_def set_dst_cid_def src_port_def set_src_port_def
  dst_port_def set_dst_port_def pkt_len_def set_len_def pkt_type_def set_type_def pkt_op_def
  set_op_def pkt_flags_def set_flags_def set_flag_def pkt_buf_alloc_def set_buf_alloc_def
  pkt_fwd_cnt_def set_fwd_cnt_def

section \<open>Building a packet from a descriptor chain\<close>

record virtq_desc =
  d_addr :: u64
  d_len :: u32
  d_write_only :: bool
  d_has_next :: bool

text \<open>Guest memory as the packet code uses it: copying out of it, checking a range, the slice of a
  range, and the translation of a guest address by the platform.\<close>

record guest_mem =
  gm_read_slice :: "u64 \<Rightarrow> nat \<Rightarrow> bytes option"
  gm_check_range :: "u64 \<Rightarrow> nat \<Rightarrow> bool"
  gm_get_slice :: "u64 \<Rightarrow> nat \<Rightarrow> bytes option"
  gm_translate :: "u64 \<Rightarrow> nat \<Rightarrow> u64 option"

definition ok_or :: "'e \<Rightarrow> 'a option \<Rightarrow> ('e, 'a) outcome" where
  "ok_or e x = (case x of None \<Rightarrow> Inl (Err e) | Some a \<Rightarrow> Inr a)"

text \<open>A range that passes the check has a slice, or the code panics.\<close>

definition get_host_address_range :: "guest_mem \<Rightarrow> u64 \<Rightarrow> nat \<Rightarrow> (vsock_error, bytes option) outcome" where
  "get_host_address_range M addr len =
     (if gm_check_range M addr len
      then case gm_get_slice M addr len of
             None \<Rightarrow> Inl Panic
           | Some bs \<Rightarrow> if length bs \<ge> len then Inr (Some (take len bs)) else Inl Panic
      else Inr None)"

text \<open>The borrowed slice behind a guest address.\<close>

definition borrow :: "guest_mem \<Rightarrow> u64 \<Rightarrow> nat \<Rightarrow> (vsock_error, packet_buffer) outcome" where
  "borrow M addr len =
     bindE (ok_or GuestMemory (gm_translate M addr len)) (\<lambda>addr.
     bindE (get_host_address_range M addr len) (\<lambda>bs.
     bindE (ok_or GuestMemory bs) (\<lambda>bs. Inr (Borrowed bs))))"

text \<open>The data that follows the header in the same descriptor.\<close>

definition borrow_inline :: "guest_mem \<Rightarrow> virtq_desc \<Rightarrow> (vsock_error, packet_buffer) outcome" where
  "borrow_inline M head =
     bindE (ok_or GuestMemory (checked_add (d_addr head) 44)) (\<lambda>addr.
       borrow M addr (unat (d_len head) - VSOCK_PKT_HDR_SIZE))"

text \<open>Data in several descriptors is copied into a linear buffer.\<close>

definition copy_desc ::
  "guest_mem \<Rightarrow> nat \<Rightarrow> virtq_desc \<Rightarrow> bytes \<times> nat \<Rightarrow> (vsock_error, bytes \<times> nat) outcome" where
  "copy_desc M total_len desc acc =
     (let owned = fst acc; offset = snd acc; desc_len = unat (d_len desc) in
      if d_write_only desc then Inl (Err UnreadableDescriptor)
      else if desc_len > 0 \<and> offset < total_len
      then let to_copy = min desc_len (total_len - offset) in
           bindE (ok_or GuestMemory (gm_translate M (d_addr desc) desc_len)) (\<lambda>desc_addr.
           bindE (ok_or GuestMemory (gm_read_slice M desc_addr to_copy)) (\<lambda>bs.
             Inr (copy_at offset bs owned, offset + to_copy)))
      else Inr (owned, offset))"

fun copy_descs ::
  "guest_mem \<Rightarrow> nat \<Rightarrow> virtq_desc \<Rightarrow> virtq_desc list \<Rightarrow> bytes \<times> nat \<Rightarrow> (vsock_error, bytes \<times> nat) outcome" where
  "copy_descs M total_len desc chain acc =
     bindE (copy_desc M total_len desc acc) (\<lambda>acc.
       if d_has_next desc
       then case chain of [] \<Rightarrow> Inl (Err BufDescMissing) | d # ds \<Rightarrow> copy_descs M total_len d ds acc
       else Inr acc)"

definition tx_data_buffer ::
  "guest_mem \<Rightarrow> nat \<Rightarrow> virtq_desc list \<Rightarrow> (vsock_error, packet_buffer) outcome" where
  "tx_data_buffer M total_len chain =
     (case chain of
        [] \<Rightarrow> Inl (Err BufDescMissing)
      | buf_desc # chain \<Rightarrow>
          if d_write_only buf_desc then Inl (Err UnreadableDescriptor)
          else if d_has_next buf_desc
          then bindE (copy_descs M total_len buf_desc chain (replicate total_len 0, 0)) (\<lambda>(owned, offset).
                 if offset < total_len then Inl (Err BufDescTooSmall) else Inr (Owned owned))
          else if unat (d_len buf_desc) < total_len then Inl (Err BufDescTooSmall)
          else borrow M (d_addr buf_desc) (unat (d_len buf_desc)))"

text \<open>The header of either kind of packet, copied out of guest memory.\<close>

definition read_hdr :: "guest_mem \<Rightarrow> virtq_desc \<Rightarrow> (vsock_error, vsock_packet) outcome" where
  "read_hdr M head =
     (if unat (d_len head) < VSOCK_PKT_HDR_SIZE then Inl (Err (HdrDescTooSmall (d_len head)))
      else bindE (ok_or GuestMemory (gm_translate M (d_addr head) VSOCK_PKT_HDR_SIZE)) (\<lambda>addr.
           bindE (ok_or GuestMemory (gm_read_slice M addr VSOCK_PKT_HDR_SIZE)) (\<lambda>hdr.
             Inr \<lparr>guest_hdr_addr = addr, pkt_hdr = hdr, pkt_buffer = None\<rparr>)))"

definition from_tx_virtq_head :: "guest_mem \<Rightarrow> virtq_desc list \<Rightarrow> (vsock_error, vsock_packet) outcome" where
  "from_tx_virtq_head M chain =
     (case chain of
        [] \<Rightarrow> Inl (Err HdrDescMissing)
      | head # chain \<Rightarrow>
          if d_write_only head then Inl (Err UnreadableDescriptor)
          else bindE (read_hdr M head) (\<lambda>pkt.
            if pkt_is_empty pkt then Inr pkt
            else if unat (pkt_len pkt) > MAX_PKT_BUF_SIZE then Inl (Err (InvalidPktLen (pkt_len pkt)))
            else bindE (if \<not> d_has_next head then borrow_inline M head
                        else tx_data_buffer M (unat (pkt_len pkt)) chain) (\<lambda>b.
              Inr (pkt\<lparr>pkt_buffer := Some b\<rparr>))))"

definition from_rx_virtq_head :: "guest_mem \<Rightarrow> virtq_desc list \<Rightarrow> (vsock_error, vsock_packet) outcome" where
  "from_rx_virtq_head M chain =
     (case chain of
        [] \<Rightarrow> Inl (Err HdrDescMissing)
      | head # chain \<Rightarrow>
          if \<not> d_write_only head then Inl (Err UnwritableDescriptor)
          else bindE (read_hdr M head) (\<lambda>pkt.
            bindE (if d_has_next head
                   then case chain of
                          [] \<Rightarrow> Inl (Err BufDescMissing)
                        | buf_desc # _ \<Rightarrow>
                            if d_has_next buf_desc then Inl (Err BufDescTooSmall)
                            else borrow M (d_addr buf_desc) (unat (d_len buf_desc))
                   else borrow_inline M head) (\<lambda>b.
              Inr (pkt\<lparr>pkt_buffer := Some b\<rparr>))))"

text \<open>Writing the header back to guest memory.\<close>

definition commit_hdr ::
  "(bytes \<Rightarrow> u64 \<Rightarrow> 'm \<Rightarrow> 'm option) \<Rightarrow> vsock_packet \<Rightarrow> 'm \<Rightarrow> (vsock_error, 'm) outcome" where
  "commit_hdr write p m =
     (if unat (pkt_len p) > MAX_PKT_BUF_SIZE then Inl (Err (InvalidPktLen (pkt_len p)))
      else ok_or GuestMemory (write (pkt_hdr p) (guest_hdr_addr p) m))"

section \<open>Reading back what was written\<close>

abbreviation hdr_ok :: "vsock_packet \<Rightarrow> bool" where
  "hdr_ok p \<equiv> length (pkt_hdr p) = 44"

lemma hdr_ok_write [simp]:
  fixes v :: "'a::len word"
  shows "ofs + LENGTH('a) div 8 \<le> 44 \<Longrightarrow> hdr_ok p \<Longrightarrow> hdr_ok (hdr_write ofs v p)"
  by (simp add: hdr_write_def length_copy_at)

lemma hdr_read_write [simp]:
  fixes v :: "'a::len word"
  assumes "8 dvd LENGTH('a)" and "ofs + LENGTH('a) div 8 \<le> 44" and "hdr_ok p"
  shows "hdr_read ofs (hdr_write ofs v p) = v"
  using assms by (simp add: hdr_read_def hdr_write_def copy_at_def from_to_le_bytes)

lemma hdr_read_other [simp]:
  fixes v :: "'a::len word"
  assumes "k + LENGTH('b) div 8 \<le> ofs \<or> ofs + LENGTH('a) div 8 \<le> k" and "ofs + LENGTH('a) div 8 \<le> 44" and "hdr_ok p"
  shows "(hdr_read k (hdr_write ofs v p) :: 'b::len word) = hdr_read k p"
proof -
  have "take (LENGTH('b) div 8) (drop k (copy_at ofs (to_le_bytes v) (pkt_hdr p))) =
        take (LENGTH('b) div 8) (drop k (pkt_hdr p))"
  proof (rule nth_equalityI)
    show "length (take (LENGTH('b) div 8) (drop k (copy_at ofs (to_le_bytes v) (pkt_hdr p)))) =
          length (take (LENGTH('b) div 8) (drop k (pkt_hdr p)))"
      using assms by (simp add: length_copy_at)
    fix i assume "i < length (take (LENGTH('b) div 8) (drop k (copy_at ofs (to_le_bytes v) (pkt_hdr p))))"
    with assms show "take (LENGTH('b) div 8) (drop k (copy_at ofs (to_le_bytes v) (pkt_hdr p))) ! i =
        take (LENGTH('b) div 8) (drop k (pkt_hdr p)) ! i"
      by (auto simp: length_copy_at nth_copy_at)
  qed
  then show ?thesis by (simp add: hdr_read_def hdr_write_def)
qed

lemma pkt_buffer_hdr_write [simp]: "pkt_buffer (hdr_write ofs v p) = pkt_buffer p"
  by (simp add: hdr_write_def)

section \<open>The payload of a transmitted packet\<close>

text \<open>What is relied on of guest memory: reads and slices of it give the bytes it holds, and a range
  that passes the check has a slice.\<close>

definition mem_at :: "(u64 \<Rightarrow> u8) \<Rightarrow> u64 \<Rightarrow> nat \<Rightarrow> bytes" where
  "mem_at mem a n = map (\<lambda>i. mem (a + of_nat i)) [0..<n]"

definition mem_ok :: "guest_mem \<Rightarrow> (u64 \<Rightarrow> u8) \<Rightarrow> bool" where
  "mem_ok M mem \<longleftrightarrow>
     (\<forall>a n bs. gm_read_slice M a n = Some bs \<longrightarrow> bs = mem_at mem a n) \<and>
     (\<forall>a n. gm_check_range M a n \<longrightarrow> gm_get_slice M a n = Some (mem_at mem a n))"

lemma length_mem_at [simp]: "length (mem_at mem a n) = n"
  by (simp add: mem_at_def)

lemma take_mem_at: "k \<le> n \<Longrightarrow> take k (mem_at mem a n) = mem_at mem a k"
  by (simp add: mem_at_def take_map)

text \<open>The bytes a data descriptor stands for, and the descriptors of the data part of a chain.\<close>

definition desc_bytes :: "guest_mem \<Rightarrow> (u64 \<Rightarrow> u8) \<Rightarrow> virtq_desc \<Rightarrow> bytes" where
  "desc_bytes M mem d =
     (case gm_translate M (d_addr d) (unat (d_len d)) of None \<Rightarrow> [] | Some a \<Rightarrow> mem_at mem a (unat (d_len d)))"

fun tx_descs :: "virtq_desc list \<Rightarrow> virtq_desc list" where
  "tx_descs [] = []"
| "tx_descs (d # ds) = d # (if d_has_next d then tx_descs ds else [])"

lemma ok_or_eq [simp]: "ok_or e x = Inr a \<longleftrightarrow> x = Some a" "ok_or e x = Inl r \<longleftrightarrow> x = None \<and> r = Err e"
  by (auto simp: ok_or_def split: option.splits)

lemma mem_read: "mem_ok M mem \<Longrightarrow> gm_read_slice M a n = Some bs \<Longrightarrow> bs = mem_at mem a n"
  by (simp add: mem_ok_def)

lemma borrow_bytes:
  assumes "mem_ok M mem" and "borrow M addr n = Inr b"
  shows "\<exists>a. gm_translate M addr n = Some a \<and> b = Borrowed (mem_at mem a n)"
  using assms by (auto simp: borrow_def get_host_address_range_def mem_ok_def outcome_simps split: if_splits option.splits)

lemma borrow_no_panic: "mem_ok M mem \<Longrightarrow> borrow M addr n \<noteq> Inl Panic"
  by (auto simp: borrow_def get_host_address_range_def mem_ok_def outcome_simps)

text \<open>The copied part of the linear buffer grows by the bytes of each descriptor, up to the length of
  the packet.\<close>

lemma copy_desc_step:
  assumes M: "mem_ok M mem" and l: "length owned = n" "ofs \<le> n"
    and c: "copy_desc M n d (owned, ofs) = Inr (owned', ofs')"
  shows "length owned' = n \<and> ofs' \<le> n \<and> take ofs' owned' = take n (take ofs owned @ desc_bytes M mem d)"
proof (cases "0 < unat (d_len d) \<and> ofs < n")
  case True
  define k where "k = min (unat (d_len d)) (n - ofs)"
  from c True obtain a bs where a: "gm_translate M (d_addr d) (unat (d_len d)) = Some a"
    and bs: "gm_read_slice M a k = Some bs" and r: "owned' = copy_at ofs bs owned" "ofs' = ofs + k"
    by (auto simp: copy_desc_def Let_def k_def outcome_simps split: if_splits)
  have b: "bs = take (n - ofs) (desc_bytes M mem d)"
    using mem_read [OF M bs] by (simp add: desc_bytes_def a k_def) (metis length_mem_at min.cobounded1 min_def nle_le take_all_iff take_mem_at)
  have lb: "length bs = k" and ld: "length (desc_bytes M mem d) = unat (d_len d)"
    using mem_read [OF M bs] by (simp_all add: desc_bytes_def a)
  have "ofs + k \<le> n" using True unfolding k_def by linarith
  then have "length owned' = n" and "take ofs' owned' = take ofs owned @ bs"
    using lb l by (simp_all add: r copy_at_def)
  with \<open>ofs + k \<le> n\<close> l show ?thesis by (simp add: r b)
next
  case False
  then have "owned' = owned" "ofs' = ofs" using c by (auto simp: copy_desc_def Let_def split: if_splits)
  moreover have "desc_bytes M mem d = [] \<or> ofs = n"
    using False l by (auto simp: desc_bytes_def mem_at_def split: option.splits)
  ultimately show ?thesis using l by auto
qed

lemma take_take_append: "take n (take n xs @ ys) = take n (xs @ ys)"
  by (simp add: min_def)

lemma copy_descs_bytes:
  assumes "mem_ok M mem" and "length owned = n" and "ofs \<le> n"
    and "copy_descs M n d ds (owned, ofs) = Inr (owned', ofs')"
  shows "length owned' = n \<and> ofs' \<le> n \<and>
         take ofs' owned' = take n (take ofs owned @ concat (map (desc_bytes M mem) (tx_descs (d # ds))))"
  using assms(2-)
proof (induction ds arbitrary: d owned ofs)
  case Nil
  from Nil.prems(3) obtain o1 k1 where c: "copy_desc M n d (owned, ofs) = Inr (o1, k1)" and r: "o1 = owned'" "k1 = ofs'"
    by (auto simp: outcome_simps split: if_splits)
  then show ?case using copy_desc_step [OF assms(1) Nil.prems(1,2) c] by simp
next
  case (Cons e ds)
  from Cons.prems(3) obtain o1 k1 where c: "copy_desc M n d (owned, ofs) = Inr (o1, k1)"
    and r: "if d_has_next d then copy_descs M n e ds (o1, k1) = Inr (owned', ofs') else o1 = owned' \<and> k1 = ofs'"
    by (subst (asm) copy_descs.simps) (auto simp: outcome_simps simp del: copy_descs.simps split: if_splits)
  note s = copy_desc_step [OF assms(1) Cons.prems(1,2) c]
  show ?case
  proof (cases "d_has_next d")
    case True
    with r have r: "copy_descs M n e ds (o1, k1) = Inr (owned', ofs')" by simp
    have t: "tx_descs (d # e # ds) = d # tx_descs (e # ds)" using True by simp
    note h = Cons.IH [OF conjunct1 [OF s] conjunct1 [OF conjunct2 [OF s]] r]
    show ?thesis
      unfolding t list.map concat.simps append_assoc [symmetric] using h s by (metis take_take_append)
  next
    case False
    with r s show ?thesis by simp
  qed
qed

lemma tx_data_bytes:
  assumes M: "mem_ok M mem" and b: "tx_data_buffer M n chain = Inr b"
  shows "\<exists>bs. (b = Owned bs \<or> b = Borrowed bs) \<and> n \<le> length bs \<and>
           take n bs = take n (concat (map (desc_bytes M mem) (tx_descs chain)))"
proof (cases chain)
  case Nil
  with b show ?thesis by (simp add: tx_data_buffer_def)
next
  case (Cons d ds)
  show ?thesis
  proof (cases "d_has_next d")
    case True
    with b Cons obtain owned ofs where c: "copy_descs M n d ds (replicate n 0, 0) = Inr (owned, ofs)" "n \<le> ofs"
      "b = Owned owned"
      by (auto simp: tx_data_buffer_def outcome_simps simp del: copy_descs.simps split: if_splits)
    from copy_descs_bytes [OF M _ _ c(1)] c(2,3) Cons show ?thesis
      by (auto simp del: tx_descs.simps)
  next
    case False
    with b Cons have len: "n \<le> unat (d_len d)" and br: "borrow M (d_addr d) (unat (d_len d)) = Inr b"
      by (auto simp: tx_data_buffer_def split: if_splits)
    from borrow_bytes [OF M br] len False Cons show ?thesis by (auto simp: desc_bytes_def)
  qed
qed

lemma tx_data_no_panic:
  assumes "mem_ok M mem"
  shows "tx_data_buffer M n chain \<noteq> Inl Panic"
proof -
  have "copy_desc M n d acc \<noteq> Inl Panic" for d acc
    by (auto simp: copy_desc_def Let_def outcome_simps)
  then have "copy_descs M n d ds acc \<noteq> Inl Panic" for d ds acc
    by (induction ds arbitrary: d acc) (auto simp: outcome_simps split: prod.splits)
  then show ?thesis
    using borrow_no_panic [OF assms]
    by (auto simp: tx_data_buffer_def outcome_simps simp del: copy_descs.simps split: list.splits prod.splits if_splits)
qed

lemma tx_payload:
  assumes M: "mem_ok M mem"
  shows "from_tx_virtq_head M (head # chain) \<noteq> Inl Panic \<and>
    (case from_tx_virtq_head M (head # chain) of
       Inl _ \<Rightarrow> True
     | Inr p \<Rightarrow>
         (\<exists>a. gm_translate M (d_addr head) 44 = Some a \<and> pkt_hdr p = mem_at mem a 44) \<and>
         (if pkt_len p = 0 then pkt_buf p = None
          else unat (pkt_len p) \<le> 65536 \<and>
            (if d_has_next head
             then \<exists>bs. pkt_buf p = Some bs \<and> unat (pkt_len p) \<le> length bs \<and>
                    take (unat (pkt_len p)) bs =
                    take (unat (pkt_len p)) (concat (map (desc_bytes M mem) (tx_descs chain)))
             else \<exists>a. gm_translate M (d_addr head + 44) (unat (d_len head) - 44) = Some a \<and>
                    pkt_buf p = Some (mem_at mem a (unat (d_len head) - 44)))))"
proof -
  note defs = from_tx_virtq_head_def read_hdr_def borrow_inline_def VSOCK_PKT_HDR_SIZE_def MAX_PKT_BUF_SIZE_def
    pkt_is_empty_def outcome_simps
  let ?r = "from_tx_virtq_head M (head # chain)"
  have np: "?r \<noteq> Inl Panic"
    using tx_data_no_panic [OF M] borrow_no_panic [OF M] by (auto simp: defs Let_def split: if_splits)
  show ?thesis
  proof (cases ?r)
    case (Inl e)
    with np show ?thesis by simp
  next
    case (Inr p)
    then obtain a hdr where a: "gm_translate M (d_addr head) 44 = Some a" "gm_read_slice M a 44 = Some hdr"
      and hdr: "pkt_hdr p = hdr" "pkt_len p = pkt_len \<lparr>guest_hdr_addr = a, pkt_hdr = hdr, pkt_buffer = None\<rparr>"
      and data: "if pkt_len p = 0 then pkt_buffer p = None
                 else unat (pkt_len p) \<le> 65536 \<and>
                   (\<exists>b. (if \<not> d_has_next head then borrow_inline M head else tx_data_buffer M (unat (pkt_len p)) chain) = Inr b
                      \<and> pkt_buffer p = Some b)"
      by (auto simp: defs pkt_len_def hdr_read_def split: if_splits)
    have "hdr = mem_at mem a 44" by (rule mem_read [OF M a(2)])
    moreover have "checked_add (d_addr head) 44 = Some x \<Longrightarrow> x = d_addr head + 44" for x
      by (simp add: checked_add_def split: if_splits)
    ultimately show ?thesis
      using Inr a hdr data tx_data_bytes [OF M] borrow_bytes [OF M]
      by (fastforce simp: pkt_buf_def borrow_inline_def VSOCK_PKT_HDR_SIZE_def outcome_simps split: if_splits)
  qed
qed

lemma inline_payload:
  assumes M: "mem_ok M mem" and one: "\<not> d_has_next head" and acc: "from_tx_virtq_head M (head # chain) = Inr p"
    and len: "pkt_len p \<noteq> 0"
  shows "\<exists>bs. pkt_buf p = Some bs \<and> length bs = unat (d_len head) - 44"
  using tx_payload [OF M, of head chain] one acc len by auto


end
