(* ===== verification/Vsock_Connection.thy ===== *)
theory Vsock_Connection
  imports Vsock_Packet
begin

text \<open>
  A vsock connection, \<^verbatim>\<open>src/uffd-cow-gpt/cloud-hypervisor/virtio-devices/src/vsock/csm/connection.rs\<close> and
  \<^verbatim>\<open>csm/mod.rs\<close>: the connection state machine between a guest socket and a host stream, with its
  pending indications, its transmit buffer and its credit counters. The host stream is a value of
  the connection with the operations of a parameter; the instant a handler would read from the
  clock is an argument.
\<close>

section \<open>State\<close>

datatype conn_state = LocalInit | PeerInit | Established | LocalClosed | PeerClosed bool bool | Killed

datatype pending_rx = Request | Response | Rst | Rw | CreditUpdate

definition into_mask :: "pending_rx \<Rightarrow> u16" where
  "into_mask it =
     push_bit (case it of Request \<Rightarrow> 0 | Response \<Rightarrow> 1 | Rst \<Rightarrow> 2 | Rw \<Rightarrow> 3 | CreditUpdate \<Rightarrow> 4) 1"

definition rx_insert :: "pending_rx \<Rightarrow> u16 \<Rightarrow> u16" where
  "rx_insert it s = s OR into_mask it"

definition rx_contains :: "pending_rx \<Rightarrow> u16 \<Rightarrow> bool" where
  "rx_contains it s \<longleftrightarrow> s AND into_mask it \<noteq> 0"

definition rx_remove :: "pending_rx \<Rightarrow> u16 \<Rightarrow> bool \<times> u16" where
  "rx_remove it s = (rx_contains it s, s AND NOT (into_mask it))"

definition rx_is_empty :: "u16 \<Rightarrow> bool" where
  "rx_is_empty s \<longleftrightarrow> s = 0"

definition rx_from :: "pending_rx \<Rightarrow> u16" where
  "rx_from it = into_mask it"

definition CONN_CREDIT_UPDATE_THRESHOLD :: u32 where "CONN_CREDIT_UPDATE_THRESHOLD = 4 * 1024"
definition CONN_REQUEST_TIMEOUT_MS :: nat where "CONN_REQUEST_TIMEOUT_MS = 2000"
definition CONN_SHUTDOWN_TIMEOUT_MS :: nat where "CONN_SHUTDOWN_TIMEOUT_MS = 2000"

record 's vsock_connection =
  conn_state :: conn_state
  local_cid :: u64
  peer_cid :: u64
  local_port :: u32
  peer_port :: u32
  stream :: 's
  tx_buffer :: tx_buf
  fwd_cnt :: u32
  peer_buf_alloc :: u32
  peer_fwd_cnt :: u32
  rx_cnt :: u32
  last_fwd_cnt_to_peer :: u32
  pending_rx :: u16
  expiry :: "nat option"

definition new_peer_init :: "'s \<Rightarrow> u64 \<Rightarrow> u64 \<Rightarrow> u32 \<Rightarrow> u32 \<Rightarrow> u32 \<Rightarrow> 's vsock_connection" where
  "new_peer_init s lcid pcid lport pport buf_alloc =
     \<lparr>conn_state = PeerInit, local_cid = lcid, peer_cid = pcid, local_port = lport, peer_port = pport,
      stream = s, tx_buffer = txbuf_new, fwd_cnt = 0, peer_buf_alloc = buf_alloc, peer_fwd_cnt = 0,
      rx_cnt = 0, last_fwd_cnt_to_peer = 0, pending_rx = rx_from Response, expiry = None\<rparr>"

definition new_local_init :: "'s \<Rightarrow> u64 \<Rightarrow> u64 \<Rightarrow> u32 \<Rightarrow> u32 \<Rightarrow> 's vsock_connection" where
  "new_local_init s lcid pcid lport pport =
     \<lparr>conn_state = LocalInit, local_cid = lcid, peer_cid = pcid, local_port = lport, peer_port = pport,
      stream = s, tx_buffer = txbuf_new, fwd_cnt = 0, peer_buf_alloc = 0, peer_fwd_cnt = 0,
      rx_cnt = 0, last_fwd_cnt_to_peer = 0, pending_rx = rx_from Request, expiry = None\<rparr>"

section \<open>Operations\<close>

definition has_pending_rx :: "'s vsock_connection \<Rightarrow> bool" where
  "has_pending_rx c \<longleftrightarrow> \<not> rx_is_empty (pending_rx c)"

definition will_expire :: "nat \<Rightarrow> 's vsock_connection \<Rightarrow> bool" where
  "will_expire now c = (case expiry c of None \<Rightarrow> False | Some t \<Rightarrow> t > now)"

definition has_expired :: "nat \<Rightarrow> 's vsock_connection \<Rightarrow> bool" where
  "has_expired now c = (case expiry c of None \<Rightarrow> False | Some t \<Rightarrow> t \<le> now)"

definition pend :: "pending_rx \<Rightarrow> 's vsock_connection \<Rightarrow> 's vsock_connection" where
  "pend it c = c\<lparr>pending_rx := rx_insert it (pending_rx c)\<rparr>"

definition conn_kill :: "'s vsock_connection \<Rightarrow> 's vsock_connection" where
  "conn_kill c = pend Rst (c\<lparr>conn_state := Killed\<rparr>)"

definition send_bytes_raw ::
  "'s stream_ops \<Rightarrow> bytes \<Rightarrow> 's vsock_connection \<Rightarrow> (csm_error, nat) outcome \<times> 's vsock_connection" where
  "send_bytes_raw S buf c =
     (let (r, s) = st_write S buf (stream c)
      in (case r of Inl e \<Rightarrow> Inl (Err (StreamWrite e)) | Inr n \<Rightarrow> Inr n, c\<lparr>stream := s\<rparr>))"

text \<open>Pushing to the transmit buffer.\<close>

definition conn_push :: "bytes \<Rightarrow> 's vsock_connection \<Rightarrow> (csm_error, unit) outcome \<times> 's vsock_connection" where
  "conn_push buf c =
     (case txbuf_push buf (tx_buffer c) of
        Inl e \<Rightarrow> (Inl e, c)
      | Inr b \<Rightarrow> (Inr (), c\<lparr>tx_buffer := b\<rparr>))"

definition send_bytes ::
  "'s stream_ops \<Rightarrow> bytes \<Rightarrow> 's vsock_connection \<Rightarrow> (csm_error, unit) outcome \<times> 's vsock_connection" where
  "send_bytes S buf c =
     (if \<not> txbuf_is_empty (tx_buffer c) then conn_push buf c
      else let (r, s) = st_write S buf (stream c); c = c\<lparr>stream := s\<rparr> in
        case (case r of Inr cnt \<Rightarrow> Inr cnt | Inl e \<Rightarrow> if io_kind e = KWouldBlock then Inr 0 else Inl e) of
          Inl e \<Rightarrow> (Inl (Err (StreamWrite e)), c)
        | Inr written \<Rightarrow>
            let c = c\<lparr>fwd_cnt := fwd_cnt c + of_nat written\<rparr> in
            if written < length buf then conn_push (drop written buf) c else (Inr (), c))"

definition peer_needs_credit_update :: "'s vsock_connection \<Rightarrow> bool" where
  "peer_needs_credit_update c \<longleftrightarrow>
     CONN_TX_BUF_SIZE - (fwd_cnt c - last_fwd_cnt_to_peer c) < CONN_CREDIT_UPDATE_THRESHOLD"

definition peer_avail_credit :: "'s vsock_connection \<Rightarrow> nat" where
  "peer_avail_credit c = unat (peer_buf_alloc c - (rx_cnt c - peer_fwd_cnt c))"

definition need_credit_update_from_peer :: "'s vsock_connection \<Rightarrow> bool" where
  "need_credit_update_from_peer c \<longleftrightarrow> peer_avail_credit c = 0"

definition init_pkt :: "'s vsock_connection \<Rightarrow> vsock_packet \<Rightarrow> vsock_packet" where
  "init_pkt c p =
     set_fwd_cnt (fwd_cnt c) (set_buf_alloc CONN_TX_BUF_SIZE (set_type VSOCK_TYPE_STREAM
       (set_dst_port (peer_port c) (set_src_port (local_port c) (set_dst_cid (peer_cid c)
         (set_src_cid (local_cid c) (p\<lparr>pkt_hdr := replicate (length (pkt_hdr p)) 0\<rparr>)))))))"

text \<open>
  \<open>recv_pkt\<close>: the packet a connection has for its peer. A read of the host stream that would
  block falls through to the credit update.
\<close>

definition recv_credit ::
  "vsock_packet \<Rightarrow> 's vsock_connection \<Rightarrow> (vsock_error, unit) outcome \<times> vsock_packet \<times> 's vsock_connection" where
  "recv_credit pkt c =
     (let (had, s) = rx_remove CreditUpdate (pending_rx c); c = c\<lparr>pending_rx := s\<rparr> in
      if had \<and> \<not> has_pending_rx c
      then (Inr (), set_op VSOCK_OP_CREDIT_UPDATE pkt, c\<lparr>last_fwd_cnt_to_peer := fwd_cnt c\<rparr>)
      else (Inl (Err NoData), pkt, c))"

text \<open>States in which data may flow to the peer, and from it.\<close>

fun to_peer_ok :: "conn_state \<Rightarrow> bool" where
  "to_peer_ok Established = True"
| "to_peer_ok (PeerClosed recv_off _) = (\<not> recv_off)"
| "to_peer_ok _ = False"

fun from_peer_ok :: "conn_state \<Rightarrow> bool" where
  "from_peer_ok Established = True"
| "from_peer_ok (PeerClosed _ send_off) = (\<not> send_off)"
| "from_peer_ok _ = False"

definition recv_data ::
  "'s stream_ops \<Rightarrow> nat \<Rightarrow> vsock_packet \<Rightarrow> 's vsock_connection \<Rightarrow>
   (vsock_error, unit) outcome \<times> vsock_packet \<times> 's vsock_connection" where
  "recv_data S now pkt c =
     (if \<not> to_peer_ok (conn_state c)
      then (Inr (), set_op VSOCK_OP_RST pkt, c)
      else if need_credit_update_from_peer c
      then (Inr (), set_op VSOCK_OP_CREDIT_REQUEST pkt, c\<lparr>last_fwd_cnt_to_peer := fwd_cnt c\<rparr>)
      else case pkt_buf pkt of
        None \<Rightarrow> (Inl (Err PktBufMissing), pkt, c)
      | Some buf \<Rightarrow>
          let max_len = min (length buf) (peer_avail_credit c);
              (r, s) = st_read S max_len (stream c);
              c = c\<lparr>stream := s\<rparr> in
          case r of
            Inr bs \<Rightarrow>
              let pkt = pkt_buf_write bs pkt;
                  (pkt, c) =
                    (if bs = []
                     then (set_flag VSOCK_FLAGS_SHUTDOWN_SEND (set_flag VSOCK_FLAGS_SHUTDOWN_RCV (set_op VSOCK_OP_SHUTDOWN pkt)),
                           c\<lparr>conn_state := LocalClosed, expiry := Some (now + CONN_SHUTDOWN_TIMEOUT_MS)\<rparr>)
                     else (set_len (of_nat (length bs)) (set_op VSOCK_OP_RW pkt), c))
              in (Inr (), pkt, c\<lparr>rx_cnt := rx_cnt c + pkt_len pkt, last_fwd_cnt_to_peer := fwd_cnt c\<rparr>)
          | Inl e \<Rightarrow>
              if io_kind e = KWouldBlock then recv_credit pkt c
              else (Inr (), set_op VSOCK_OP_RST pkt, c\<lparr>last_fwd_cnt_to_peer := fwd_cnt c\<rparr>))"

definition recv_pkt ::
  "'s stream_ops \<Rightarrow> nat \<Rightarrow> vsock_packet \<Rightarrow> 's vsock_connection \<Rightarrow>
   (vsock_error, unit) outcome \<times> vsock_packet \<times> 's vsock_connection" where
  "recv_pkt S now pkt c =
     (let pkt = init_pkt c pkt; (rst, s) = rx_remove Rst (pending_rx c); c = c\<lparr>pending_rx := s\<rparr> in
      if rst then (Inr (), set_op VSOCK_OP_RST pkt, c)
      else let (resp, s) = rx_remove Response (pending_rx c); c = c\<lparr>pending_rx := s\<rparr> in
      if resp then (Inr (), set_op VSOCK_OP_RESPONSE pkt, c\<lparr>conn_state := Established\<rparr>)
      else let (req, s) = rx_remove Request (pending_rx c); c = c\<lparr>pending_rx := s\<rparr> in
      if req then (Inr (), set_op VSOCK_OP_REQUEST pkt, c\<lparr>expiry := Some (now + CONN_REQUEST_TIMEOUT_MS)\<rparr>)
      else let (rw, s) = rx_remove Rw (pending_rx c); c = c\<lparr>pending_rx := s\<rparr> in
      if rw then recv_data S now pkt c else recv_credit pkt c)"

text \<open>\<open>send_pkt\<close>: a packet of the guest.\<close>

definition send_data ::
  "'s stream_ops \<Rightarrow> vsock_packet \<Rightarrow> 's vsock_connection \<Rightarrow> (vsock_error, unit) outcome \<times> 's vsock_connection" where
  "send_data S pkt c =
     (case pkt_buf pkt of
        None \<Rightarrow> (Inr (), c)
      | Some buf \<Rightarrow>
          if unat (pkt_len pkt) > length buf then (Inl Panic, c)
          else (case send_bytes S (take (unat (pkt_len pkt)) buf) c of
                  (Inl Panic, c) \<Rightarrow> (Inl Panic, c)
                | (Inl (Err _), c) \<Rightarrow> (Inr (), conn_kill c)
                | (Inr _, c) \<Rightarrow> (Inr (), if peer_needs_credit_update c then pend CreditUpdate c else c)))"

definition shutdown_off :: "u32 \<Rightarrow> vsock_packet \<Rightarrow> bool" where
  "shutdown_off flag pkt \<longleftrightarrow> pkt_flags pkt AND flag \<noteq> 0"

definition peer_shutdown :: "nat \<Rightarrow> vsock_packet \<Rightarrow> 's vsock_connection \<Rightarrow> 's vsock_connection" where
  "peer_shutdown now pkt c =
     (let recv_off = shutdown_off VSOCK_FLAGS_SHUTDOWN_RCV pkt;
          send_off = shutdown_off VSOCK_FLAGS_SHUTDOWN_SEND pkt;
          c = c\<lparr>conn_state := PeerClosed recv_off send_off\<rparr> in
      if recv_off \<and> send_off
      then if txbuf_is_empty (tx_buffer c) then pend Rst c
           else c\<lparr>expiry := Some (now + CONN_SHUTDOWN_TIMEOUT_MS)\<rparr>
      else c)"

definition update_shutdown :: "bool \<Rightarrow> bool \<Rightarrow> vsock_packet \<Rightarrow> 's vsock_connection \<Rightarrow> 's vsock_connection" where
  "update_shutdown recv_off send_off pkt c =
     (let recv_off = (recv_off \<or> shutdown_off VSOCK_FLAGS_SHUTDOWN_RCV pkt);
          send_off = (send_off \<or> shutdown_off VSOCK_FLAGS_SHUTDOWN_SEND pkt);
          c = c\<lparr>conn_state := PeerClosed recv_off send_off\<rparr> in
      if recv_off \<and> send_off \<and> txbuf_is_empty (tx_buffer c) then pend Rst c else c)"

definition send_control :: "nat \<Rightarrow> vsock_packet \<Rightarrow> 's vsock_connection \<Rightarrow> 's vsock_connection" where
  "send_control now pkt c =
     (case conn_state c of
        LocalInit \<Rightarrow>
          if pkt_op pkt = VSOCK_OP_RESPONSE then c\<lparr>expiry := None, conn_state := Established\<rparr> else c
      | Established \<Rightarrow>
          if pkt_op pkt = VSOCK_OP_SHUTDOWN then peer_shutdown now pkt c
          else if pkt_op pkt = VSOCK_OP_CREDIT_REQUEST then pend CreditUpdate c
          else c
      | PeerClosed recv_off send_off \<Rightarrow>
          if pkt_op pkt = VSOCK_OP_SHUTDOWN then update_shutdown recv_off send_off pkt c
          else if \<not> send_off \<and> pkt_op pkt = VSOCK_OP_CREDIT_REQUEST then pend CreditUpdate c
          else c
      | PeerInit \<Rightarrow> if pkt_op pkt = VSOCK_OP_CREDIT_REQUEST then pend CreditUpdate c else c
      | _ \<Rightarrow> c)"

definition send_pkt ::
  "'s stream_ops \<Rightarrow> nat \<Rightarrow> vsock_packet \<Rightarrow> 's vsock_connection \<Rightarrow>
   (vsock_error, unit) outcome \<times> 's vsock_connection" where
  "send_pkt S now pkt c =
     (let c = c\<lparr>peer_buf_alloc := pkt_buf_alloc pkt, peer_fwd_cnt := pkt_fwd_cnt pkt\<rparr> in
      if from_peer_ok (conn_state c) \<and> pkt_op pkt = VSOCK_OP_RW then send_data S pkt c
      else (Inr (), send_control now pkt c))"

text \<open>The events of the host stream.\<close>

record events = ev_in :: bool ev_out :: bool

definition get_polled_evset :: "'s vsock_connection \<Rightarrow> events" where
  "get_polled_evset c =
     \<lparr>ev_in = (case conn_state c of
                 Killed \<Rightarrow> False | LocalClosed \<Rightarrow> False | PeerClosed True _ \<Rightarrow> False
               | _ \<Rightarrow> \<not> need_credit_update_from_peer c),
      ev_out = (\<not> txbuf_is_empty (tx_buffer c))\<rparr>"

definition after_flush :: "'s vsock_connection \<Rightarrow> 's vsock_connection" where
  "after_flush c =
     (if conn_state c = PeerClosed True True \<and> txbuf_is_empty (tx_buffer c) then pend Rst c
      else if peer_needs_credit_update c then pend CreditUpdate c else c)"

definition conn_notify ::
  "'s stream_ops \<Rightarrow> events \<Rightarrow> 's vsock_connection \<Rightarrow> (vsock_error, unit, 's vsock_connection) run" where
  "conn_notify S ev c =
     (let c = (if ev_in ev then pend Rw c else c) in
      if ev_out ev \<and> \<not> txbuf_is_empty (tx_buffer c)
      then (case txbuf_flush S (tx_buffer c, stream c) of
              None \<Rightarrow> None
            | Some (r, b, s) \<Rightarrow>
                let c = c\<lparr>tx_buffer := b, stream := s\<rparr> in
                (case r of
                   Inl Panic \<Rightarrow> Some (Inl Panic, c)
                 | Inl (Err e) \<Rightarrow>
                     Some (Inr (), after_flush
                       (case e of
                          TxBufFlush inner \<Rightarrow> if io_kind inner = KWouldBlock then c else conn_kill c
                        | _ \<Rightarrow> conn_kill c))
                 | Inr flushed \<Rightarrow> Some (Inr (), after_flush (c\<lparr>fwd_cnt := fwd_cnt c + of_nat flushed\<rparr>))))
      else Some (Inr (), c))"

section \<open>The set of pending indications\<close>

definition rx_index :: "pending_rx \<Rightarrow> nat" where
  "rx_index it = (case it of Request \<Rightarrow> 0 | Response \<Rightarrow> 1 | Rst \<Rightarrow> 2 | Rw \<Rightarrow> 3 | CreditUpdate \<Rightarrow> 4)"

lemma rx_index_inj [simp]: "rx_index a = rx_index b \<longleftrightarrow> a = b"
  by (cases a; cases b) (simp_all add: rx_index_def)

lemma rx_index_lt: "rx_index a < 16"
  by (cases a) (simp_all add: rx_index_def)

lemma into_mask_bit: "bit (into_mask it) n \<longleftrightarrow> n = rx_index it"
proof -
  have "into_mask it = push_bit (rx_index it) 1" by (simp add: into_mask_def rx_index_def)
  then show ?thesis using rx_index_lt [of it] by (auto simp: bit_exp_iff)
qed

lemma rx_contains_bit: "rx_contains it s \<longleftrightarrow> bit s (rx_index it)"
proof
  assume "rx_contains it s"
  then obtain n where "bit (s AND into_mask it) n"
    unfolding rx_contains_def by (metis bit_0_eq bit_eq_iff bot_fun_def bot_bool_def)
  then show "bit s (rx_index it)" by (auto simp: bit_and_iff into_mask_bit)
next
  assume "bit s (rx_index it)"
  then have "bit (s AND into_mask it) (rx_index it)" by (simp add: bit_and_iff into_mask_bit)
  then show "rx_contains it s" unfolding rx_contains_def by (metis bit_0_eq bot_apply bot_bool_def)
qed

text \<open>The words behave as sets: this is the whole interface of \<open>PendingRxSet\<close>.\<close>

lemma rx_contains_insert [simp]: "rx_contains a (rx_insert b s) \<longleftrightarrow> a = b \<or> rx_contains a s"
  by (auto simp: rx_contains_bit rx_insert_def bit_or_iff into_mask_bit)

lemma rx_remove_simps [simp]:
  "fst (rx_remove b s) = rx_contains b s"
  "rx_contains a (snd (rx_remove b s)) \<longleftrightarrow> a \<noteq> b \<and> rx_contains a s"
  using rx_index_lt [of a]
  by (auto simp: rx_remove_def rx_contains_bit bit_and_iff bit_not_iff into_mask_bit)

lemma rx_contains_from [simp]: "rx_contains a (rx_from b) \<longleftrightarrow> a = b"
  by (auto simp: rx_contains_bit rx_from_def into_mask_bit)

lemma rx_insert_nonempty [simp]: "\<not> rx_is_empty (rx_insert b s)"
  using rx_contains_insert [of b b s] by (auto simp: rx_is_empty_def rx_contains_def)

lemma rx_empty_contains: "rx_is_empty s \<Longrightarrow> \<not> rx_contains a s"
  by (simp add: rx_is_empty_def rx_contains_def)

lemma rx_remove_absent: "\<not> rx_contains b s \<Longrightarrow> snd (rx_remove b s) = s"
  by (intro bit_word_eqI) (auto simp: rx_remove_def rx_contains_bit bit_and_iff bit_not_iff into_mask_bit)

section \<open>Bytes from the guest reach the host stream in order\<close>

datatype conn_op = SendPkt nat vsock_packet | RecvPkt nat vsock_packet | Notify events | Kill

text \<open>The data a packet adds to the byte stream of the connection.\<close>

definition payload :: "vsock_packet \<Rightarrow> 's vsock_connection \<Rightarrow> bytes" where
  "payload p c =
     (if from_peer_ok (conn_state c) \<and> pkt_op p = VSOCK_OP_RW
      then case pkt_buf p of None \<Rightarrow> [] | Some buf \<Rightarrow> take (unat (pkt_len p)) buf else [])"

text \<open>A schedule of the operations of a connection: the data it was given, and the connection it
  leaves. A connection that yields a reset is dropped, which ends the schedule.\<close>

fun conn_run :: "'s stream_ops \<Rightarrow> conn_op list \<Rightarrow> 's vsock_connection \<Rightarrow> (bytes \<times> 's vsock_connection) option" where
  "conn_run S [] c = Some ([], c)"
| "conn_run S (SendPkt now p # ops) c =
     (case send_pkt S now p c of
        (Inl Panic, _) \<Rightarrow> None
      | (_, c') \<Rightarrow> map_option (\<lambda>(acc, c''). (payload p c @ acc, c'')) (conn_run S ops c'))"
| "conn_run S (RecvPkt now p # ops) c =
     (case recv_pkt S now p c of
        (Inl Panic, _) \<Rightarrow> None
      | (Inl _, _, c') \<Rightarrow> conn_run S ops c'
      | (Inr _, p', c') \<Rightarrow> if pkt_op p' = VSOCK_OP_RST then Some ([], c') else conn_run S ops c')"
| "conn_run S (Notify ev # ops) c =
     (case conn_notify S ev c of
        Some (Inr _, c') \<Rightarrow> conn_run S ops c'
      | _ \<Rightarrow> None)"
| "conn_run S (Kill # ops) c = conn_run S ops (conn_kill c)"

definition conn_ok :: "'s vsock_connection \<Rightarrow> bool" where
  "conn_ok c \<longleftrightarrow> txbuf_ok (tx_buffer c) \<and> (conn_state c = Killed \<longrightarrow> rx_contains Rst (pending_rx c))"

definition out :: "('s \<Rightarrow> bytes) \<Rightarrow> 's vsock_connection \<Rightarrow> bytes" where
  "out sent c = sent (stream c) @ txbuf_contents (tx_buffer c)"

text \<open>What a step does to the bytes: the stream grows by the bytes the forward counter counts, the
  bytes sent and buffered grow by those accepted, or by a part of them if the step kills the
  connection.\<close>

definition carries :: "('s \<Rightarrow> bytes) \<Rightarrow> 's vsock_connection \<Rightarrow> bytes \<Rightarrow> 's vsock_connection \<Rightarrow> bool" where
  "carries sent c acc c' \<longleftrightarrow>
     (\<exists>w. sent (stream c') = sent (stream c) @ w \<and> fwd_cnt c' = fwd_cnt c + of_nat (length w)) \<and>
     (\<exists>n. out sent c' = out sent c @ take n acc) \<and>
     (conn_state c' \<noteq> Killed \<longrightarrow> out sent c' = out sent c @ acc) \<and>
     (conn_state c = Killed \<longrightarrow> conn_state c' = Killed)"

lemma carries_trans:
  assumes "carries sent c a c1" and "carries sent c1 b c2" and "conn_state c1 = Killed \<Longrightarrow> b = []"
  shows "carries sent c (a @ b) c2"
proof -
  from assms(1,2) obtain w1 w2 where
    w: "sent (stream c1) = sent (stream c) @ w1" "fwd_cnt c1 = fwd_cnt c + of_nat (length w1)"
      "sent (stream c2) = sent (stream c1) @ w2" "fwd_cnt c2 = fwd_cnt c1 + of_nat (length w2)"
    unfolding carries_def by blast
  have W: "\<exists>w. sent (stream c2) = sent (stream c) @ w \<and> fwd_cnt c2 = fwd_cnt c + of_nat (length w)"
    by (rule exI [of _ "w1 @ w2"]) (simp add: w)
  from assms(1) obtain n where n: "out sent c1 = out sent c @ take n a" unfolding carries_def by blast
  from assms(2) obtain m where m: "out sent c2 = out sent c1 @ take m b" unfolding carries_def by blast
  have N: "\<exists>k. out sent c2 = out sent c @ take k (a @ b)"
  proof (cases "conn_state c1 = Killed")
    case True
    with assms(3) m n show ?thesis by simp (metis append_Nil2 append_take_drop_id take_all_iff nle_le)
  next
    case False
    with assms(1) have "out sent c1 = out sent c @ a" by (simp add: carries_def)
    with m show ?thesis by (intro exI [of _ "length a + m"]) simp
  qed
  show ?thesis
    unfolding carries_def using W N assms(1,2) by (auto simp: carries_def)
qed

lemma carries_quiet:
  assumes "stream c' = stream c" and "tx_buffer c' = tx_buffer c" and "fwd_cnt c' = fwd_cnt c"
    and "conn_state c = Killed \<Longrightarrow> conn_state c' = Killed"
  shows "carries sent c [] c'"
  using assms by (auto simp: carries_def out_def)

lemma conn_ok_pend: "conn_ok c \<Longrightarrow> conn_ok (pend it c)"
  by (auto simp: conn_ok_def pend_def)

lemma pend_fields [simp]:
  "stream (pend it c) = stream c" "tx_buffer (pend it c) = tx_buffer c" "fwd_cnt (pend it c) = fwd_cnt c"
  "conn_state (pend it c) = conn_state c" "expiry (pend it c) = expiry c"
  by (simp_all add: pend_def)

lemma conn_kill_fields [simp]:
  "stream (conn_kill c) = stream c" "tx_buffer (conn_kill c) = tx_buffer c" "fwd_cnt (conn_kill c) = fwd_cnt c"
  "conn_state (conn_kill c) = Killed"
  by (simp_all add: conn_kill_def)

lemma conn_ok_kill: "txbuf_ok (tx_buffer c) \<Longrightarrow> conn_ok (conn_kill c)"
  by (simp add: conn_ok_def conn_kill_def pend_def)

lemma push_spec:
  assumes ok: "txbuf_ok (tx_buffer c)" and r: "conn_push buf c = (r, c')"
  shows "r \<noteq> Inl Panic \<and> txbuf_ok (tx_buffer c') \<and> conn_state c' = conn_state c \<and> pending_rx c' = pending_rx c \<and>
    stream c' = stream c \<and> fwd_cnt c' = fwd_cnt c \<and>
    txbuf_contents (tx_buffer c') = txbuf_contents (tx_buffer c) @ (if r = Inr () then buf else [])"
proof (cases "length (txbuf_contents (tx_buffer c)) + length buf \<le> TX_SIZE")
  case True
  from push_appends [OF ok True] r show ?thesis by (auto simp: conn_push_def)
next
  case False
  then have "txbuf_push buf (tx_buffer c) = Inl (Err TxBufFull)" by (intro push_full ok) simp
  with ok r show ?thesis by (auto simp: conn_push_def)
qed

text \<open>Sending bytes: all of them are sent or buffered, or an error leaves a prefix of them.\<close>

lemma send_bytes_spec:
  assumes S: "stream_ok S sent" and ok: "txbuf_ok (tx_buffer c)" and r: "send_bytes S buf c = (r, c')"
  shows "r \<noteq> Inl Panic \<and> txbuf_ok (tx_buffer c') \<and> conn_state c' = conn_state c \<and> pending_rx c' = pending_rx c \<and>
    (\<exists>w. sent (stream c') = sent (stream c) @ w \<and> fwd_cnt c' = fwd_cnt c + of_nat (length w)) \<and>
    (\<exists>n. out sent c' = out sent c @ take n buf) \<and> (r = Inr () \<longrightarrow> out sent c' = out sent c @ buf)"
proof (cases "txbuf_is_empty (tx_buffer c)")
  case False
  with r have "conn_push buf c = (r, c')" by (simp add: send_bytes_def)
  from push_spec [OF ok this] show ?thesis by (auto simp: out_def intro: exI [of _ 0] exI [of _ "length buf"])
next
  case True
  then have e: "txbuf_contents (tx_buffer c) = []"
    using length_contents [OF ok] by (simp add: txbuf_is_empty_def)
  obtain wr s where w: "st_write S buf (stream c) = (wr, s)" by fastforce
  show ?thesis
  proof (cases "\<exists>err. wr = Inl err \<and> io_kind err \<noteq> KWouldBlock")
    case err: True
    with r w True ok host_write(1) [OF S w] show ?thesis
      by (auto simp: send_bytes_def out_def intro!: exI [of _ 0])
  next
    case False
    define n where "n = (case wr of Inr k \<Rightarrow> k | Inl _ \<Rightarrow> 0)"
    define c1 where "c1 = c\<lparr>stream := s, fwd_cnt := fwd_cnt c + of_nat n\<rparr>"
    have n: "n \<le> length buf" "sent s = sent (stream c) @ take n buf"
      using host_write [OF S w] by (auto simp: n_def split: sum.splits)
    have r1: "(if n < length buf then conn_push (drop n buf) c1 else (Inr (), c1)) = (r, c')"
      using r w True False by (auto simp: send_bytes_def Let_def n_def c1_def split: sum.splits)
    have ok1: "txbuf_ok (tx_buffer c1)" using ok by (simp add: c1_def)
    have W: "sent (stream c1) = sent (stream c) @ take n buf" "fwd_cnt c1 = fwd_cnt c + of_nat (length (take n buf))"
      using n by (simp_all add: c1_def)
    show ?thesis
    proof (cases "n < length buf")
      case True
      with r1 have p: "conn_push (drop n buf) c1 = (r, c')" by simp
      have o: "out sent c' = out sent c @ take (if r = Inr () then length buf else n) buf"
        using push_spec [OF ok1 p] e W by (simp add: out_def c1_def)
      then have "\<exists>n. out sent c' = out sent c @ take n buf" by blast
      with o push_spec [OF ok1 p] W show ?thesis by (simp add: c1_def)
    next
      case F: False
      moreover have "\<exists>n. buf = take n buf" by (rule exI [of _ "length buf"]) simp
      ultimately show ?thesis using r1 n ok W e by (auto simp: out_def c1_def)
    qed
  qed
qed

text \<open>A packet whose announced length its buffer covers.\<close>

definition pkt_fits :: "vsock_packet \<Rightarrow> bool" where
  "pkt_fits p \<longleftrightarrow> (case pkt_buf p of None \<Rightarrow> True | Some buf \<Rightarrow> unat (pkt_len p) \<le> length buf)"

lemma send_data_carries:
  assumes S: "stream_ok S sent" and ok: "conn_ok c" and fits: "pkt_fits p"
    and st: "from_peer_ok (conn_state c)" and oper: "pkt_op p = VSOCK_OP_RW"
  shows "\<exists>c'. send_data S p c = (Inr (), c') \<and> carries sent c (payload p c) c' \<and> conn_ok c'"
proof (cases "pkt_buf p")
  case None
  then have "payload p c = []" by (simp add: payload_def)
  moreover have "send_data S p c = (Inr (), c)" using None by (simp add: send_data_def)
  ultimately show ?thesis using ok by (simp add: carries_quiet)
next
  case (Some buf)
  define d where "d = take (unat (pkt_len p)) buf"
  have pd: "payload p c = d" using Some st oper by (simp add: payload_def d_def)
  have l: "\<not> unat (pkt_len p) > length buf" using fits Some by (simp add: pkt_fits_def)
  have nk: "conn_state c \<noteq> Killed" using st by auto
  obtain r c1 where sb: "send_bytes S d c = (r, c1)" by fastforce
  have okb: "txbuf_ok (tx_buffer c)" using ok by (simp add: conn_ok_def)
  note sp = send_bytes_spec [OF S okb sb]
  show ?thesis
  proof (cases r)
    case (Inl e)
    with sp obtain e' where e: "e = Err e'" by (cases e) auto
    have "send_data S p c = (Inr (), conn_kill c1)"
      using Some l sb Inl e by (simp add: send_data_def d_def)
    moreover have "carries sent c d (conn_kill c1) \<and> conn_ok (conn_kill c1)"
      using sp nk by (auto simp: carries_def out_def conn_ok_kill)
    ultimately show ?thesis by (simp add: pd)
  next
    case (Inr u)
    have "send_data S p c = (Inr (), if peer_needs_credit_update c1 then pend CreditUpdate c1 else c1)"
      using Some l sb Inr by (simp add: send_data_def d_def)
    moreover have "carries sent c d (if peer_needs_credit_update c1 then pend CreditUpdate c1 else c1) \<and>
        conn_ok (if peer_needs_credit_update c1 then pend CreditUpdate c1 else c1)"
      using sp nk Inr by (auto simp: carries_def out_def conn_ok_def pend_def)
    ultimately show ?thesis by (simp add: pd)
  qed
qed

text \<open>A control packet moves no data and drops no indication.\<close>

lemma send_control_quiet:
  "stream (send_control now p c) = stream c" "tx_buffer (send_control now p c) = tx_buffer c"
  "fwd_cnt (send_control now p c) = fwd_cnt c"
  "rx_contains it (pending_rx c) \<Longrightarrow> rx_contains it (pending_rx (send_control now p c))"
  "conn_state (send_control now p c) = Killed \<longleftrightarrow> conn_state c = Killed"
  by (cases "conn_state c"; simp add: send_control_def peer_shutdown_def update_shutdown_def Let_def pend_def)+

lemma send_pkt_carries:
  assumes S: "stream_ok S sent" and ok: "conn_ok c" and fits: "pkt_fits p"
  shows "\<exists>c'. send_pkt S now p c = (Inr (), c') \<and> carries sent c (payload p c) c' \<and> conn_ok c'"
proof (cases "from_peer_ok (conn_state c) \<and> pkt_op p = VSOCK_OP_RW")
  case True
  define c1 where "c1 = c\<lparr>peer_buf_alloc := pkt_buf_alloc p, peer_fwd_cnt := pkt_fwd_cnt p\<rparr>"
  have c1: "conn_ok c1" "from_peer_ok (conn_state c1)" "payload p c1 = payload p c"
    using True ok by (simp_all add: c1_def conn_ok_def payload_def)
  have "send_pkt S now p c = send_data S p c1" using True by (simp add: send_pkt_def c1_def Let_def)
  moreover have "carries sent c1 d c' \<longleftrightarrow> carries sent c d c'" for d c'
    by (simp add: c1_def carries_def out_def)
  ultimately show ?thesis using send_data_carries [OF S c1(1) fits c1(2)] True c1(3) by simp
next
  case False
  then have pl: "payload p c = []" by (auto simp: payload_def)
  define c1 where "c1 = c\<lparr>peer_buf_alloc := pkt_buf_alloc p, peer_fwd_cnt := pkt_fwd_cnt p\<rparr>"
  have "send_pkt S now p c = (Inr (), send_control now p c1)" using False by (auto simp: send_pkt_def c1_def Let_def)
  moreover have "carries sent c [] (send_control now p c1)"
    by (rule carries_quiet) (simp_all add: c1_def send_control_quiet)
  moreover have "conn_ok (send_control now p c1)"
    using ok by (auto simp: conn_ok_def c1_def send_control_quiet)
  ultimately show ?thesis by (simp add: pl)
qed

lemma recv_credit_carries:
  assumes "conn_ok c" and "conn_state c \<noteq> Killed"
  shows "\<exists>r p' c'. recv_credit p c = (r, p', c') \<and> r \<noteq> Inl Panic \<and> carries sent c [] c' \<and> conn_ok c' \<and> conn_state c' \<noteq> Killed"
  using assms by (auto simp: recv_credit_def rx_remove_def Let_def conn_ok_def intro!: carries_quiet)

lemma carries_stream:
  assumes "sent s = sent (stream c)"
  shows "carries sent (c\<lparr>stream := s\<rparr>) d c' \<longleftrightarrow> carries sent c d c'"
  using assms by (simp add: carries_def out_def)

lemma recv_data_carries:
  assumes S: "stream_ok S sent" and ok: "conn_ok c" and nk: "conn_state c \<noteq> Killed"
  shows "\<exists>r p' c'. recv_data S now p c = (r, p', c') \<and> r \<noteq> Inl Panic \<and> carries sent c [] c' \<and> conn_ok c' \<and> conn_state c' \<noteq> Killed"
proof (cases "pkt_buf p")
  case None
  with ok nk show ?thesis by (auto simp: recv_data_def conn_ok_def intro!: carries_quiet)
next
  case (Some buf)
  obtain r s where rd: "st_read S (min (length buf) (peer_avail_credit c)) (stream c) = (r, s)" by fastforce
  note sent = stream_read(1) [OF S rd]
  note cs = carries_stream [OF sent, symmetric]
  have ok': "conn_ok (c\<lparr>stream := s\<rparr>)" "conn_state (c\<lparr>stream := s\<rparr>) \<noteq> Killed" using ok nk by (simp_all add: conn_ok_def)
  have cr: "\<exists>r p' c'. recv_credit p (c\<lparr>stream := s\<rparr>) = (r, p', c') \<and> r \<noteq> Inl Panic \<and> carries sent c [] c' \<and> conn_ok c' \<and> conn_state c' \<noteq> Killed"
    using recv_credit_carries [OF ok'] unfolding cs by blast
  show ?thesis
  proof (cases "to_peer_ok (conn_state c) \<and> \<not> need_credit_update_from_peer c")
    case False
    with ok nk show ?thesis by (auto simp: recv_data_def conn_ok_def intro!: carries_quiet)
  next
    case True
    show ?thesis
    proof (cases r)
      case (Inl e)
      with True Some rd cr ok nk show ?thesis
        by (auto simp: recv_data_def Let_def conn_ok_def cs intro!: carries_quiet)
    next
      case (Inr bs)
      with True Some rd ok nk show ?thesis
        by (auto simp: recv_data_def Let_def conn_ok_def cs intro!: carries_quiet)
    qed
  qed
qed

lemma recv_pkt_carries:
  assumes S: "stream_ok S sent" and ok: "conn_ok c" and p: "hdr_ok p"
  shows "\<exists>r p' c'. recv_pkt S now p c = (r, p', c') \<and> r \<noteq> Inl Panic \<and> carries sent c [] c' \<and>
    (conn_ok c' \<or> r = Inr () \<and> pkt_op p' = VSOCK_OP_RST)"
proof (cases "rx_contains Rst (pending_rx c)")
  case True
  have "pkt_op (set_op VSOCK_OP_RST (init_pkt c p)) = VSOCK_OP_RST"
    using p by (simp add: init_pkt_def pkt_fields)
  with True show ?thesis by (auto simp: recv_pkt_def Let_def rx_remove_def intro!: carries_quiet)
next
  case False
  then have nk: "conn_state c \<noteq> Killed" using ok by (auto simp: conn_ok_def)
  have *: "\<exists>r p' c'. f = (r, p', c') \<and> r \<noteq> Inl Panic \<and> carries sent c [] c' \<and>
      (conn_ok c' \<or> r = Inr () \<and> pkt_op p' = VSOCK_OP_RST)"
    if "\<exists>r p' c'. f = (r, p', c') \<and> r \<noteq> Inl Panic \<and> carries sent (c\<lparr>pending_rx := s\<rparr>) [] c' \<and> conn_ok c' \<and> conn_state c' \<noteq> Killed"
    for f :: "(vsock_error, unit) outcome \<times> vsock_packet \<times> 'a vsock_connection" and s
    using that by (auto simp: carries_def out_def)
  have ok': "conn_ok (c\<lparr>pending_rx := s\<rparr>)" "conn_state (c\<lparr>pending_rx := s\<rparr>) \<noteq> Killed" for s
    using ok nk by (simp_all add: conn_ok_def)
  define s1 s2 s3 s4 where s: "s1 = snd (rx_remove Rst (pending_rx c))" "s2 = snd (rx_remove Response s1)"
    "s3 = snd (rx_remove Request s2)" "s4 = snd (rx_remove Rw s3)"
  have step: "recv_pkt S now p c =
    (if rx_contains Response s1 then (Inr (), set_op VSOCK_OP_RESPONSE (init_pkt c p), c\<lparr>pending_rx := s2, conn_state := Established\<rparr>)
     else if rx_contains Request s2
     then (Inr (), set_op VSOCK_OP_REQUEST (init_pkt c p), c\<lparr>pending_rx := s3, expiry := Some (now + CONN_REQUEST_TIMEOUT_MS)\<rparr>)
     else if rx_contains Rw s3 then recv_data S now (init_pkt c p) (c\<lparr>pending_rx := s4\<rparr>)
     else recv_credit (init_pkt c p) (c\<lparr>pending_rx := s4\<rparr>))"
    using False by (simp add: recv_pkt_def Let_def case_prod_beta s)
  have q: "carries sent c [] (c\<lparr>pending_rx := s2, conn_state := Established\<rparr>)"
    "carries sent c [] (c\<lparr>pending_rx := s3, expiry := x\<rparr>)" for x
    using nk by (auto intro!: carries_quiet)
  have o: "conn_ok (c\<lparr>pending_rx := s2, conn_state := Established\<rparr>)" "conn_ok (c\<lparr>pending_rx := s3, expiry := x\<rparr>)" for x
    using ok nk by (simp_all add: conn_ok_def)
  show ?thesis
    unfolding step
    using q o * [OF recv_data_carries [OF S ok', of now "init_pkt c p" s4]] * [OF recv_credit_carries [OF ok', of "init_pkt c p" s4 sent]]
    by simp
qed

lemma after_flush_quiet:
  "stream (after_flush c) = stream c" "tx_buffer (after_flush c) = tx_buffer c" "fwd_cnt (after_flush c) = fwd_cnt c"
  "conn_state (after_flush c) = conn_state c" "conn_ok c \<Longrightarrow> conn_ok (after_flush c)"
  by (simp_all add: after_flush_def conn_ok_pend)

lemma notify_carries:
  assumes S: "stream_ok S sent" and ok: "conn_ok c"
  shows "\<exists>c'. conn_notify S ev c = Some (Inr (), c') \<and> carries sent c [] c' \<and> conn_ok c'"
proof -
  define c1 where "c1 = (if ev_in ev then pend Rw c else c)"
  have ok1: "conn_ok c1" using ok by (simp add: c1_def conn_ok_pend)
  have cs: "carries sent c d c' \<longleftrightarrow> carries sent c1 d c'" for d c'
    by (simp add: c1_def carries_def out_def)
  show ?thesis
  proof (cases "ev_out ev \<and> \<not> txbuf_is_empty (tx_buffer c1)")
    case False
    then have "conn_notify S ev c = Some (Inr (), c1)" by (auto simp: conn_notify_def c1_def Let_def)
    then show ?thesis using ok1 by (auto simp: cs intro: carries_quiet)
  next
    case True
    from ok1 have "txbuf_ok (tx_buffer c1)" by (simp add: conn_ok_def)
    from flush_prefix [OF S this, of "stream c1"] obtain r b s n where
      fl: "txbuf_flush S (tx_buffer c1, stream c1) = Some (r, b, s)" and b: "txbuf_ok b"
        "n \<le> length (txbuf_contents (tx_buffer c1))" "txbuf_contents b = drop n (txbuf_contents (tx_buffer c1))"
        "sent s = sent (stream c1) @ take n (txbuf_contents (tx_buffer c1))" and
      r: "r = Inr n \<or> n = 0 \<and> (\<exists>e. r = Inl (Err (TxBufFlush e)))" by blast
    define c2 where "c2 = c1\<lparr>tx_buffer := b, stream := s\<rparr>"
    define c3 where "c3 = (case r of Inr k \<Rightarrow> c2\<lparr>fwd_cnt := fwd_cnt c2 + of_nat k\<rparr>
      | Inl (Err (TxBufFlush e)) \<Rightarrow> if io_kind e = KWouldBlock then c2 else conn_kill c2 | _ \<Rightarrow> c2)"
    have res: "conn_notify S ev c = Some (Inr (), after_flush c3)"
      using True fl r by (auto simp: conn_notify_def c1_def [symmetric] Let_def c3_def c2_def)
    have o: "out sent c3 = out sent c1"
      using b r by (auto simp: out_def c3_def c2_def)
    have f: "sent (stream c3) = sent (stream c1) @ take n (txbuf_contents (tx_buffer c1))" "fwd_cnt c3 = fwd_cnt c1 + of_nat n"
      using b r by (auto simp: c3_def c2_def)
    have st: "conn_state c1 = Killed \<Longrightarrow> conn_state c3 = Killed" using r by (auto simp: c3_def c2_def)
    have ok3: "conn_ok c3" using ok1 r b by (auto simp: c3_def c2_def conn_ok_def conn_kill_def pend_def)
    have "carries sent c1 [] (after_flush c3)"
      using o f st b(2)
      by (auto simp: carries_def after_flush_quiet out_def intro!: exI [of _ "take n (txbuf_contents (tx_buffer c1))"])
    with res ok3 show ?thesis by (simp add: cs after_flush_quiet)
  qed
qed

fun op_ok :: "conn_op \<Rightarrow> bool" where
  "op_ok (SendPkt now p) = pkt_fits p"
| "op_ok (RecvPkt now p) = hdr_ok p"
| "op_ok _ = True"

lemma conn_run_carries:
  assumes S: "stream_ok S sent" and ok: "conn_ok c" and ops: "list_all op_ok ops"
  shows "\<exists>acc c'. conn_run S ops c = Some (acc, c') \<and> carries sent c acc c' \<and> (conn_state c = Killed \<longrightarrow> acc = [])"
  using ok ops
proof (induction ops arbitrary: c)
  case Nil
  then show ?case by (auto intro: carries_quiet)
next
  case (Cons x ops)
  have continue: "\<exists>acc c'. conn_run S ops c1 = Some (acc, c') \<and> carries sent c acc c' \<and> (conn_state c = Killed \<longrightarrow> acc = [])"
    if "carries sent c [] c1" and "conn_ok c1" for c1
  proof -
    from Cons.IH [OF that(2)] Cons.prems(2) obtain acc c' where
      c': "conn_run S ops c1 = Some (acc, c')" "carries sent c1 acc c'" "conn_state c1 = Killed \<Longrightarrow> acc = []" by auto
    with carries_trans [OF that(1) c'(2,3)] that(1) show ?thesis by (auto simp: carries_def)
  qed
  show ?case
  proof (cases x)
    case (SendPkt now p)
    have fits: "pkt_fits p" using Cons.prems SendPkt by simp
    from send_pkt_carries [OF S Cons.prems(1) fits, of now] obtain c1 where
      c1: "send_pkt S now p c = (Inr (), c1)" "carries sent c (payload p c) c1" "conn_ok c1" by blast
    have k: "conn_state c = Killed \<Longrightarrow> payload p c = [] \<and> conn_state c1 = Killed"
      using c1(2) by (simp add: payload_def carries_def)
    from Cons.IH [OF c1(3)] Cons.prems(2) obtain acc c' where
      c': "conn_run S ops c1 = Some (acc, c')" "carries sent c1 acc c'" "conn_state c1 = Killed \<Longrightarrow> acc = []" by auto
    from carries_trans [OF c1(2) c'(2,3)] have "carries sent c (payload p c @ acc) c'" by simp
    with SendPkt c1(1) c' k show ?thesis by auto
  next
    case (RecvPkt now p)
    have h: "hdr_ok p" using Cons.prems RecvPkt by simp
    from recv_pkt_carries [OF S Cons.prems(1) h, of now] obtain r p' c1 where
      c1: "recv_pkt S now p c = (r, p', c1)" "r \<noteq> Inl Panic" "carries sent c [] c1"
        "conn_ok c1 \<or> r = Inr () \<and> pkt_op p' = VSOCK_OP_RST" by blast
    show ?thesis
    proof (cases "r = Inr () \<and> pkt_op p' = VSOCK_OP_RST")
      case True
      with RecvPkt c1 show ?thesis by auto
    next
      case False
      with c1 have ok1: "conn_ok c1" by blast
      have step: "conn_run S (x # ops) c = conn_run S ops c1"
        using RecvPkt c1 False by (cases r rule: sum.exhaust; simp split: abort.splits)
      from continue [OF c1(3) ok1] show ?thesis using step Cons.prems(2) by simp
    qed
  next
    case (Notify ev)
    from notify_carries [OF S Cons.prems(1), of ev] obtain c1 where
      c1: "conn_notify S ev c = Some (Inr (), c1)" "carries sent c [] c1" "conn_ok c1" by blast
    from continue [OF c1(2,3)] show ?thesis using Notify c1(1) Cons.prems(2) by simp
  next
    case Kill
    have "carries sent c [] (conn_kill c)" by (rule carries_quiet) simp_all
    moreover have "conn_ok (conn_kill c)" using Cons.prems(1) by (intro conn_ok_kill) (simp add: conn_ok_def)
    ultimately show ?thesis using continue Kill Cons.prems(2) by simp
  qed
qed


section \<open>Flow control towards the guest\<close>

text \<open>The bytes sent to the peer that it has not reported as forwarded.\<close>

definition in_flight :: "'s vsock_connection \<Rightarrow> nat" where
  "in_flight c = unat (rx_cnt c - peer_fwd_cnt c)"

lemma credit_exact: "in_flight c \<le> unat (peer_buf_alloc c) \<Longrightarrow> peer_avail_credit c = unat (peer_buf_alloc c) - in_flight c"
  by (simp add: in_flight_def peer_avail_credit_def unat_sub_le word_le_nat_alt)

text \<open>A peer that shrinks its buffer below what is in flight gets a credit of almost 4 GiB.\<close>

lemma credit_wraps:
  assumes "unat (peer_buf_alloc c) < in_flight c"
  shows "peer_avail_credit c = 2 ^ 32 + unat (peer_buf_alloc c) - in_flight c"
proof -
  define w where "w = rx_cnt c - peer_fwd_cnt c"
  have "unat w < 2 ^ 32" using unat_lt [of w] by simp
  with assms show ?thesis
    using unat_sub_if_size [of "peer_buf_alloc c" w]
    by (simp add: peer_avail_credit_def in_flight_def w_def [symmetric] word_size)
qed

lemma hdr_read_zero [simp]: "hdr_read k (p\<lparr>pkt_hdr := replicate n 0\<rparr>) = (0 :: 'a::len word)"
proof -
  have "from_le_bytes (replicate m 0) = (0 :: 'a word)" for m by (induction m) simp_all
  then show ?thesis by (simp add: hdr_read_def min_def)
qed

lemma init_pkt_ok [simp]:
  assumes "hdr_ok p"
  shows "hdr_ok (init_pkt c p)" and "pkt_len (init_pkt c p) = 0" and "pkt_buf (init_pkt c p) = pkt_buf p"
    and "src_port (init_pkt c p) = local_port c" and "dst_port (init_pkt c p) = peer_port c"
    and "src_cid (init_pkt c p) = local_cid c" and "dst_cid (init_pkt c p) = peer_cid c"
    and "pkt_fwd_cnt (init_pkt c p) = fwd_cnt c" and "pkt_buf_alloc (init_pkt c p) = CONN_TX_BUF_SIZE"
    and "pkt_type (init_pkt c p) = VSOCK_TYPE_STREAM"
  using assms by (simp_all add: init_pkt_def pkt_fields pkt_buf_def)

lemma set_op_fields [simp]:
  assumes "hdr_ok p"
  shows "hdr_ok (set_op v p)" and "pkt_op (set_op v p) = v" and "pkt_len (set_op v p) = pkt_len p"
    and "pkt_buf (set_op v p) = pkt_buf p" and "src_port (set_op v p) = src_port p" and "dst_port (set_op v p) = dst_port p"
  using assms by (simp_all add: pkt_fields pkt_buf_def)

lemma set_len_fields [simp]:
  assumes "hdr_ok p"
  shows "hdr_ok (set_len v p)" and "pkt_op (set_len v p) = pkt_op p" and "pkt_len (set_len v p) = v"
    and "pkt_buf (set_len v p) = pkt_buf p"
  using assms by (simp_all add: pkt_fields pkt_buf_def)

lemma set_flag_fields [simp]:
  assumes "hdr_ok p"
  shows "hdr_ok (set_flag v p)" and "pkt_op (set_flag v p) = pkt_op p" and "pkt_len (set_flag v p) = pkt_len p"
  using assms by (simp_all add: pkt_fields)

lemma pkt_buf_write_fields [simp]:
  "pkt_hdr (pkt_buf_write bs p) = pkt_hdr p" "pkt_len (pkt_buf_write bs p) = pkt_len p" "pkt_op (pkt_buf_write bs p) = pkt_op p"
  "pkt_buf (pkt_buf_write bs p) = map_option (copy_at 0 bs) (pkt_buf p)"
  by (simp_all add: pkt_buf_write_def pkt_fields hdr_read_def pkt_buf_def split: option.splits packet_buffer.splits)

text \<open>What a data packet carries, and what the counters are after it.\<close>

definition data_read :: "'s stream_ops \<Rightarrow> 's vsock_connection \<Rightarrow> vsock_packet \<Rightarrow> vsock_packet \<Rightarrow> 's vsock_connection \<Rightarrow> bool" where
  "data_read S c p p' c' \<longleftrightarrow>
     (\<exists>buf bs. pkt_buf p = Some buf \<and>
        st_read S (min (length buf) (peer_avail_credit c)) (stream c) = (Inr bs, stream c') \<and>
        bs \<noteq> [] \<and> unat (pkt_len p') = length bs \<and> length bs \<le> peer_avail_credit c \<and>
        (\<exists>buf'. pkt_buf p' = Some buf' \<and> take (length bs) buf' = bs) \<and>
        rx_cnt c' = rx_cnt c + pkt_len p')"

text \<open>The effect of a receive on the counters: none, or that of a data packet.\<close>

definition rx_effect ::
  "'s stream_ops \<Rightarrow> 's vsock_connection \<Rightarrow> vsock_packet \<Rightarrow>
   (vsock_error, unit) outcome \<times> vsock_packet \<times> 's vsock_connection \<Rightarrow> bool" where
  "rx_effect S c p res =
     (case res of (r, p', c') \<Rightarrow>
        peer_buf_alloc c' = peer_buf_alloc c \<and> peer_fwd_cnt c' = peer_fwd_cnt c \<and>
        (if r = Inr () \<and> pkt_op p' = VSOCK_OP_RW then data_read S c p p' c' else rx_cnt c' = rx_cnt c))"

lemma recv_credit_effect:
  assumes "hdr_ok p"
  shows "rx_effect S c q (recv_credit p (c\<lparr>pending_rx := x, stream := y\<rparr>))"
    and "rx_effect S c q (recv_credit p (c\<lparr>pending_rx := x\<rparr>))"
  using assms by (simp_all add: rx_effect_def recv_credit_def rx_remove_def Let_def vsock_ops)

lemma recv_data_effect:
  assumes S: "stream_ok S sent" and p: "hdr_ok p" "pkt_len p = 0" and q: "pkt_buf q = pkt_buf p"
  shows "rx_effect S c q (recv_data S now p (c\<lparr>pending_rx := x\<rparr>))"
proof (cases "pkt_buf p")
  case None
  with p show ?thesis by (simp add: rx_effect_def recv_data_def vsock_ops)
next
  case (Some buf)
  define c1 where "c1 = c\<lparr>pending_rx := x\<rparr>"
  have c1: "peer_avail_credit c1 = peer_avail_credit c" "stream c1 = stream c" "peer_buf_alloc c1 = peer_buf_alloc c"
    "peer_fwd_cnt c1 = peer_fwd_cnt c" "rx_cnt c1 = rx_cnt c"
    by (simp_all add: c1_def peer_avail_credit_def)
  obtain r s where rd: "st_read S (min (length buf) (peer_avail_credit c)) (stream c) = (r, s)" by fastforce
  show ?thesis
  proof (cases "to_peer_ok (conn_state c1) \<and> \<not> need_credit_update_from_peer c1")
    case False
    with p show ?thesis by (auto simp: rx_effect_def recv_data_def c1_def vsock_ops)
  next
    case True
    show ?thesis
    proof (cases r)
      case (Inl e)
      have "recv_data S now p c1 =
        (if io_kind e = KWouldBlock then recv_credit p (c\<lparr>pending_rx := x, stream := s\<rparr>)
         else (Inr (), set_op VSOCK_OP_RST p, c\<lparr>pending_rx := x, stream := s, last_fwd_cnt_to_peer := fwd_cnt c\<rparr>))"
        using True Some rd Inl c1 by (simp add: recv_data_def Let_def) (simp add: c1_def)
      then show ?thesis
        using p recv_credit_effect(1) [OF p(1), where S = S and c = c and q = q and x = x and y = s]
        unfolding c1_def [symmetric] by (simp add: rx_effect_def vsock_ops c1)
    next
      case (Inr bs)
      have l: "length bs \<le> min (length buf) (peer_avail_credit c)" by (rule stream_read(2) [OF S rd Inr])
      have "unat (of_nat (length bs) :: u32) = length bs"
        using l unat_lt [of "peer_buf_alloc c - (rx_cnt c - peer_fwd_cnt c)"]
        by (simp add: peer_avail_credit_def unsigned_of_nat take_bit_nat_eq_self)
      moreover have "recv_data S now p c1 =
        (if bs = []
         then (Inr (), set_flag VSOCK_FLAGS_SHUTDOWN_SEND (set_flag VSOCK_FLAGS_SHUTDOWN_RCV (set_op VSOCK_OP_SHUTDOWN (pkt_buf_write bs p))),
               c\<lparr>pending_rx := x, stream := s, conn_state := LocalClosed, expiry := Some (now + CONN_SHUTDOWN_TIMEOUT_MS),
                 last_fwd_cnt_to_peer := fwd_cnt c\<rparr>)
         else (Inr (), set_len (of_nat (length bs)) (set_op VSOCK_OP_RW (pkt_buf_write bs p)),
               c\<lparr>pending_rx := x, stream := s, rx_cnt := rx_cnt c + of_nat (length bs), last_fwd_cnt_to_peer := fwd_cnt c\<rparr>))"
        using True Some rd Inr c1 p by (simp add: recv_data_def Let_def) (simp add: c1_def)
      ultimately show ?thesis
        unfolding c1_def [symmetric] using p q Some rd Inr l
        by (auto simp: rx_effect_def data_read_def vsock_ops copy_at_def c1)
    qed
  qed
qed


section \<open>Error paths\<close>

text \<open>
  \<open>C34\<close>: a guest can panic the device. A data packet in a single descriptor is accepted whatever length its
  header announces, up to 64 KiB; if the rest of the descriptor is shorter than that, delivering
  the packet to an established connection slices the buffer out of range.
\<close>

theorem short_inline_data_panics:
  assumes M: "mem_ok M mem" and one: "\<not> d_has_next head" and acc: "from_tx_virtq_head M (head # chain) = Inr p"
    and oper: "pkt_op p = VSOCK_OP_RW" and len: "unat (pkt_len p) > unat (d_len head) - 44"
    and st: "from_peer_ok (conn_state c)"
  shows "fst (send_pkt S now p c) = Inl Panic"
proof -
  from len have "pkt_len p \<noteq> 0" by auto
  from inline_payload [OF M one acc this] len have "\<exists>bs. pkt_buf p = Some bs \<and> length bs < unat (pkt_len p)" by auto
  with oper st show ?thesis by (auto simp: send_pkt_def send_data_def Let_def)
qed

text \<open>Completing a shutdown while data is still buffered: the first request to do so arms the kill
  timer, an update of an earlier request does not.\<close>

lemma shutdown_arms_timer:
  assumes "conn_state c = Established" and "pkt_op p = VSOCK_OP_SHUTDOWN" and "\<not> txbuf_is_empty (tx_buffer c)"
    and "shutdown_off VSOCK_FLAGS_SHUTDOWN_RCV p" and "shutdown_off VSOCK_FLAGS_SHUTDOWN_SEND p"
  shows "expiry (snd (send_pkt S now p c)) = Some (now + 2000)"
  using assms by (simp add: send_pkt_def send_control_def peer_shutdown_def vsock_ops CONN_SHUTDOWN_TIMEOUT_MS_def)

lemma shutdown_update_not_armed:
  assumes "conn_state c = PeerClosed r s" and "pkt_op p = VSOCK_OP_SHUTDOWN" and "\<not> txbuf_is_empty (tx_buffer c)"
    and "shutdown_off VSOCK_FLAGS_SHUTDOWN_RCV p" and "shutdown_off VSOCK_FLAGS_SHUTDOWN_SEND p"
  shows "expiry (snd (send_pkt S now p c)) = expiry c \<and> conn_state (snd (send_pkt S now p c)) = PeerClosed True True \<and>
         pending_rx (snd (send_pkt S now p c)) = pending_rx c"
  using assms by (simp add: send_pkt_def send_control_def update_shutdown_def vsock_ops)

end
