(* ===== verification/Vsock_Queues.thy ===== *)
theory Vsock_Queues
  imports Vsock_Connection "HOL-Library.Multiset"
begin

text \<open>
  The two queues of the vsock multiplexer,
  \<^verbatim>\<open>src/uffd-cow-gpt/cloud-hypervisor/virtio-devices/src/vsock/unix/muxer_rxq.rs\<close> and
  \<^verbatim>\<open>unix/muxer_killq.rs\<close>: the bounded queue of packets to deliver, which gives resets precedence and
  notes when it no longer covers every connection, and the bounded queue of connections to
  terminate. The connection pool is the list of its entries, in the order the hash map iterates.
\<close>

section \<open>The queue of packets for the guest\<close>

record conn_key =
  key_local :: u32
  key_peer :: u32

datatype muxer_rx = ConnRx conn_key | RstPkt u32 u32

definition MUXER_RXQ_SIZE :: nat where "MUXER_RXQ_SIZE = 256"

record muxer_rxq =
  rxq_q :: "muxer_rx list"
  rxq_synced :: bool

type_synonym 's conn_pool = "(conn_key \<times> 's vsock_connection) list"

definition rxq_new :: muxer_rxq where
  "rxq_new = \<lparr>rxq_q = [], rxq_synced = True\<rparr>"

fun rxq_collect :: "'s conn_pool \<Rightarrow> muxer_rx list \<Rightarrow> muxer_rxq" where
  "rxq_collect [] q = \<lparr>rxq_q = q, rxq_synced = True\<rparr>"
| "rxq_collect ((key, conn) # conns) q =
     (if \<not> has_pending_rx conn then rxq_collect conns q
      else if length q \<ge> MUXER_RXQ_SIZE then \<lparr>rxq_q = q, rxq_synced = False\<rparr>
      else rxq_collect conns (q @ [ConnRx key]))"

definition rxq_from_conn_map :: "'s conn_pool \<Rightarrow> muxer_rxq" where
  "rxq_from_conn_map conns = rxq_collect conns []"

definition rxq_is_full :: "muxer_rxq \<Rightarrow> bool" where
  "rxq_is_full q \<longleftrightarrow> length (rxq_q q) = MUXER_RXQ_SIZE"

definition rxq_is_empty :: "muxer_rxq \<Rightarrow> bool" where
  "rxq_is_empty q \<longleftrightarrow> length (rxq_q q) = 0"

text \<open>Evicting the last connection of the queue for a reset; \<open>None\<close> if it holds no connection.\<close>

fun evict_first :: "muxer_rx \<Rightarrow> muxer_rx list \<Rightarrow> muxer_rx list option" where
  "evict_first rx [] = None"
| "evict_first rx (ConnRx _ # q) = Some (rx # q)"
| "evict_first rx (RstPkt lp pp # q) = map_option (Cons (RstPkt lp pp)) (evict_first rx q)"

definition evict_last :: "muxer_rx \<Rightarrow> muxer_rx list \<Rightarrow> muxer_rx list option" where
  "evict_last rx q = map_option rev (evict_first rx (rev q))"

definition rxq_push :: "muxer_rx \<Rightarrow> muxer_rxq \<Rightarrow> bool \<times> muxer_rxq" where
  "rxq_push rx q =
     (if rxq_synced q \<and> \<not> rxq_is_full q then (True, q\<lparr>rxq_q := rxq_q q @ [rx]\<rparr>)
      else case rx of
        RstPkt _ _ \<Rightarrow>
          (case evict_last rx (rxq_q q) of
             Some q' \<Rightarrow> (True, q\<lparr>rxq_q := q', rxq_synced := False\<rparr>)
           | None \<Rightarrow> (False, q))
      | ConnRx _ \<Rightarrow> (False, q\<lparr>rxq_synced := False\<rparr>))"

definition rxq_peek :: "muxer_rxq \<Rightarrow> muxer_rx option" where
  "rxq_peek q = (case rxq_q q of [] \<Rightarrow> None | rx # _ \<Rightarrow> Some rx)"

definition rxq_pop :: "muxer_rxq \<Rightarrow> muxer_rx option \<times> muxer_rxq" where
  "rxq_pop q = (rxq_peek q, q\<lparr>rxq_q := tl (rxq_q q)\<rparr>)"

section \<open>The queue of connections to terminate\<close>

definition MUXER_KILLQ_SIZE :: nat where "MUXER_KILLQ_SIZE = 128"

record killq_item =
  kill_key :: conn_key
  kill_time :: nat

record muxer_killq =
  killq_q :: "killq_item list"
  killq_synced :: bool

definition killq_new :: muxer_killq where
  "killq_new = \<lparr>killq_q = [], killq_synced = True\<rparr>"

text \<open>Each connection is asked whether it will expire with its own reading of the clock.\<close>

fun killq_collect ::
  "('w \<Rightarrow> nat \<times> 'w) \<Rightarrow> 's conn_pool \<Rightarrow> killq_item list \<Rightarrow> 'w \<Rightarrow> (killq_item list \<times> bool) \<times> 'w" where
  "killq_collect clock [] q w = ((q, True), w)"
| "killq_collect clock ((key, conn) # conns) q w =
     (let (now, w) = clock w in
      case expiry conn of
        None \<Rightarrow> killq_collect clock conns q w
      | Some t \<Rightarrow>
          if \<not> will_expire now conn then killq_collect clock conns q w
          else if length q \<ge> MUXER_KILLQ_SIZE then ((q, False), w)
          else killq_collect clock conns (q @ [\<lparr>kill_key = key, kill_time = t\<rparr>]) w)"

definition killq_from_conn_map :: "('w \<Rightarrow> nat \<times> 'w) \<Rightarrow> 's conn_pool \<Rightarrow> 'w \<Rightarrow> muxer_killq \<times> 'w" where
  "killq_from_conn_map clock conns w =
     (let ((q, synced), w) = killq_collect clock conns [] w
      in (\<lparr>killq_q = sort_key kill_time q, killq_synced = synced\<rparr>, w))"

definition killq_is_full :: "muxer_killq \<Rightarrow> bool" where
  "killq_is_full q \<longleftrightarrow> length (killq_q q) = MUXER_KILLQ_SIZE"

definition killq_is_empty :: "muxer_killq \<Rightarrow> bool" where
  "killq_is_empty q \<longleftrightarrow> length (killq_q q) = 0"

definition killq_push :: "conn_key \<Rightarrow> nat \<Rightarrow> muxer_killq \<Rightarrow> muxer_killq" where
  "killq_push key t q =
     (if \<not> killq_synced q \<or> killq_is_full q then q\<lparr>killq_synced := False\<rparr>
      else q\<lparr>killq_q := killq_q q @ [\<lparr>kill_key = key, kill_time = t\<rparr>]\<rparr>)"

definition killq_pop :: "nat \<Rightarrow> muxer_killq \<Rightarrow> conn_key option \<times> muxer_killq" where
  "killq_pop now q =
     (case killq_q q of
        [] \<Rightarrow> (None, q)
      | item # items \<Rightarrow>
          if now > kill_time item then (Some (kill_key item), q\<lparr>killq_q := items\<rparr>) else (None, q))"

section \<open>Laws of the packet queue\<close>

fun is_rst :: "muxer_rx \<Rightarrow> bool" where
  "is_rst (RstPkt _ _) = True"
| "is_rst (ConnRx _) = False"

abbreviation rsts :: "muxer_rxq \<Rightarrow> muxer_rx list" where
  "rsts q \<equiv> filter is_rst (rxq_q q)"

lemma evict_first_spec:
  "evict_first rx q = Some q' \<Longrightarrow>
     \<exists>a k b. q = a @ ConnRx k # b \<and> q' = a @ rx # b \<and> list_all is_rst a"
proof (induction rx q arbitrary: q' rule: evict_first.induct)
  case (2 rx k q)
  then show ?case by (intro exI [of _ "[]"]) auto
next
  case (3 rx lp pp q)
  then obtain q1 where q1: "evict_first rx q = Some q1" "q' = RstPkt lp pp # q1" by auto
  from 3(1) [OF q1(1)] obtain a k b where "q = a @ ConnRx k # b" "q1 = a @ rx # b" "list_all is_rst a" by blast
  with q1(2) show ?case by (intro exI [of _ "RstPkt lp pp # a"]) auto
qed simp

lemma evict_first_None: "evict_first rx q = None \<longleftrightarrow> list_all is_rst q"
  by (induction rx q rule: evict_first.induct) auto

lemma evict_last_spec:
  "evict_last rx q = Some q' \<Longrightarrow> \<exists>a k b. q = a @ ConnRx k # b \<and> q' = a @ rx # b \<and> list_all is_rst b"
proof -
  assume "evict_last rx q = Some q'"
  then obtain r where r: "evict_first rx (rev q) = Some r" "q' = rev r" by (auto simp: evict_last_def)
  from evict_first_spec [OF r(1)] obtain a k b where "rev q = a @ ConnRx k # b" "r = a @ rx # b" "list_all is_rst a"
    by blast
  then have "q = rev b @ ConnRx k # rev a" "q' = rev b @ rx # rev a" "list_all is_rst (rev a)"
    using r(2) by (simp_all add: rev_eq_append_conv list_all_iff)
  then show ?thesis by blast
qed

lemma evict_last_None: "evict_last rx q = None \<longleftrightarrow> list_all is_rst q"
  by (simp add: evict_last_def evict_first_None list_all_iff)

text \<open>
  The queue of packets never grows beyond 256 entries and never loses a reset: a push of a reset adds
  it to the resets already queued, evicting a connection if there is no room, and is refused
  only when the queue is out of sync or full and holds nothing but resets; a push of a connection
  keeps every entry; an entry is evicted or refused only at the price of the sync mark.
\<close>

theorem rxq_push_keeps_resets:
  assumes "length (rxq_q q) \<le> 256"
  shows "case rxq_push rx q of (ok, q') \<Rightarrow>
    length (rxq_q q') \<le> 256 \<and>
    mset (rsts q') = mset (rsts q) + (if ok \<and> is_rst rx then {#rx#} else {#}) \<and>
    (is_rst rx \<and> \<not> ok \<longrightarrow> rsts q = rxq_q q \<and> q' = q) \<and>
    (rxq_synced q' \<longrightarrow> rxq_synced q \<and> set (rxq_q q) \<subseteq> set (rxq_q q') \<and> (is_rst rx \<or> rx \<in> set (rxq_q q')))"
proof (cases "rxq_synced q \<and> \<not> rxq_is_full q")
  case True
  then show ?thesis using assms by (auto simp: rxq_push_def rxq_is_full_def MUXER_RXQ_SIZE_def)
next
  case False
  show ?thesis
  proof (cases rx)
    case (ConnRx k)
    with False assms show ?thesis by (auto simp: rxq_push_def)
  next
    case (RstPkt lp pp)
    show ?thesis
    proof (cases "evict_last rx (rxq_q q)")
      case None
      then have "filter is_rst (rxq_q q) = rxq_q q"
        by (simp add: evict_last_None list_all_iff filter_id_conv)
      with None RstPkt False assms show ?thesis by (auto simp: rxq_push_def simp del: mset_filter)
    next
      case (Some q')
      from evict_last_spec [OF this] obtain a k b where
        ab: "rxq_q q = a @ ConnRx k # b" "q' = a @ rx # b" "list_all is_rst b" by blast
      with Some RstPkt False assms show ?thesis
        by (auto simp: rxq_push_def list_all_iff simp del: mset_filter)
    qed
  qed
qed

text \<open>A reset is dropped although the queue has room: after a connection was refused, a drained queue
  stays out of sync until the next receive, and a reset finds nothing to evict.\<close>

lemma reset_dropped_by_empty_queue:
  "rxq_push (RstPkt lp pp) \<lparr>rxq_q = [], rxq_synced = False\<rparr> = (False, \<lparr>rxq_q = [], rxq_synced = False\<rparr>)"
  by (simp add: rxq_push_def evict_last_def)

end
