(* ===== verification/Vsock_Muxer.thy ===== *)
theory Vsock_Muxer
  imports Vsock_Queues "HOL-Library.AList"
begin

text \<open>
  The vsock multiplexer,
  \<^verbatim>\<open>src/uffd-cow-gpt/cloud-hypervisor/virtio-devices/src/vsock/unix/muxer.rs\<close>: the pool of connections, the
  routing of guest packets and of stream events to them, the queue of what they have for the
  guest, and the life of a connection from the request to the reset. Hash maps are association
  lists; epoll, the clock, and the Unix sockets are parameters that act on a state of the
  environment.
\<close>

section \<open>State\<close>

datatype mux_error =
    EpollAdd io_error | EpollFdCreate io_error | InvalidPortRequest | UnixAccept io_error
  | UnixBind io_error | UnixConnect io_error | UnixRead io_error | TooManyConnections

definition MAX_CONNECTIONS :: nat where "MAX_CONNECTIONS = 1023"
definition PARTIALLY_READ_COMMAND_BUF_SIZE :: nat where "PARTIALLY_READ_COMMAND_BUF_SIZE = 32"

record partial_command =
  cmd_buf :: bytes
  cmd_len :: nat

definition default_command :: partial_command where
  "default_command = \<lparr>cmd_buf = replicate PARTIALLY_READ_COMMAND_BUF_SIZE 0, cmd_len = 0\<rparr>"

datatype 's epoll_listener = LConnection conn_key events | HostSock | LocalStream 's

record 's muxer =
  mux_cid :: u64
  conn_map :: "'s conn_pool"
  listener_map :: "(int \<times> 's epoll_listener) list"
  partial_command_map :: "(int \<times> partial_command) list"
  mux_rxq :: muxer_rxq
  mux_killq :: muxer_killq
  host_sock_path :: string
  local_port_set :: "u32 set"
  local_port_last :: u32

datatype epoll_op = EPOLL_CTL_ADD | EPOLL_CTL_MOD | EPOLL_CTL_DEL

record ('s, 'w) mux_env =
  env_stream :: "'s stream_ops"
  env_clock :: "'w \<Rightarrow> nat \<times> 'w"
  env_epoll_create :: "'w \<Rightarrow> (io_error + unit) \<times> 'w"
  env_epoll_ctl :: "epoll_op \<Rightarrow> int \<Rightarrow> events \<Rightarrow> 'w \<Rightarrow> (io_error + unit) \<times> 'w"
  env_epoll_wait :: "'w \<Rightarrow> (io_error + (int \<times> events) list) \<times> 'w"
  env_bind :: "string \<Rightarrow> 'w \<Rightarrow> (io_error + int) \<times> 'w"
  env_accept :: "'w \<Rightarrow> (io_error + 's) \<times> 'w"
  env_connect :: "string \<Rightarrow> 'w \<Rightarrow> (io_error + 's) \<times> 'w"
  env_set_nonblocking :: "int \<Rightarrow> 'w \<Rightarrow> (io_error + unit) \<times> 'w"

definition no_events :: events where
  "no_events = \<lparr>ev_in = False, ev_out = False\<rparr>"

definition EPOLLIN :: events where
  "EPOLLIN = \<lparr>ev_in = True, ev_out = False\<rparr>"

section \<open>Connections and listeners\<close>

definition rxq_add :: "muxer_rx \<Rightarrow> 's muxer \<Rightarrow> 's muxer" where
  "rxq_add rx m = m\<lparr>mux_rxq := snd (rxq_push rx (mux_rxq m))\<rparr>"

definition put_conn :: "conn_key \<Rightarrow> 's vsock_connection \<Rightarrow> 's muxer \<Rightarrow> 's muxer" where
  "put_conn key c m = m\<lparr>conn_map := AList.update key c (conn_map m)\<rparr>"

definition kill_connection :: "conn_key \<Rightarrow> 's muxer \<Rightarrow> 's muxer" where
  "kill_connection key m =
     (case map_of (conn_map m) key of
        None \<Rightarrow> rxq_add (ConnRx key) m
      | Some c \<Rightarrow>
          let m = put_conn key (conn_kill c) m
          in if \<not> has_pending_rx c then rxq_add (ConnRx key) m else m)"

definition add_listener ::
  "('s, 'w) mux_env \<Rightarrow> int \<Rightarrow> 's epoll_listener \<Rightarrow> 's muxer \<times> 'w \<Rightarrow> (mux_error + unit) \<times> 's muxer \<times> 'w" where
  "add_listener E fd l mw =
     (let (m, w) = mw;
          evset = (case l of LConnection _ ev \<Rightarrow> ev | LocalStream _ \<Rightarrow> EPOLLIN | HostSock \<Rightarrow> EPOLLIN);
          (r, w) = env_epoll_ctl E EPOLL_CTL_ADD fd evset w
      in case r of
           Inl e \<Rightarrow> (Inl (EpollAdd e), m, w)
         | Inr _ \<Rightarrow> (Inr (), m\<lparr>listener_map := AList.update fd l (listener_map m)\<rparr>, w))"

definition remove_listener ::
  "('s, 'w) mux_env \<Rightarrow> int \<Rightarrow> 's muxer \<times> 'w \<Rightarrow> 's epoll_listener option \<times> 's muxer \<times> 'w" where
  "remove_listener E fd mw =
     (let (m, w) = mw in
      case map_of (listener_map m) fd of
        None \<Rightarrow> (None, m, w)
      | Some l \<Rightarrow>
          let (_, w) = env_epoll_ctl E EPOLL_CTL_DEL fd no_events w
          in (Some l, m\<lparr>listener_map := AList.delete fd (listener_map m)\<rparr>, w))"

text \<open>The epoll listener of a connection follows the events the connection is interested in.\<close>

definition update_listener ::
  "('s, 'w) mux_env \<Rightarrow> conn_key \<Rightarrow> int \<Rightarrow> events \<Rightarrow> 's muxer \<times> 'w \<Rightarrow> 's muxer \<times> 'w" where
  "update_listener E key fd new_evset mw =
     (let (m, w) = mw in
      if new_evset = no_events then snd (remove_listener E fd (m, w))
      else case map_of (listener_map m) fd of
        Some (LConnection k evset) \<Rightarrow>
          if evset \<noteq> new_evset
          then let m = m\<lparr>listener_map := AList.update fd (LConnection k new_evset) (listener_map m)\<rparr>;
                   (r, w) = env_epoll_ctl E EPOLL_CTL_MOD fd new_evset w
               in (case r of Inr _ \<Rightarrow> m | Inl _ \<Rightarrow> kill_connection key m, w)
          else (m, w)
      | _ \<Rightarrow>
          (case add_listener E fd (LConnection key new_evset) (m, w) of
             (Inr _, mw) \<Rightarrow> mw
           | (Inl _, m, w) \<Rightarrow> (kill_connection key m, w)))"

definition as_bytes :: "string \<Rightarrow> bytes" where
  "as_bytes s = map (\<lambda>c. of_nat (of_char c)) s"

text \<open>A host-initiated connection that has just become established is acknowledged to the host.\<close>

definition ack_local ::
  "'s stream_ops \<Rightarrow> conn_state \<Rightarrow> conn_key \<Rightarrow> 's vsock_connection \<Rightarrow> 's vsock_connection" where
  "ack_local S prev_state key c =
     (if prev_state = LocalInit \<and> conn_state c = Established
      then let msg = as_bytes (''OK '' @ show_dec (unat (key_local key)) @ ''\<newline>'') in
           case send_bytes_raw S msg c of
             (Inr written, c) \<Rightarrow> if written = length msg then c else conn_kill c
           | (Inl _, c) \<Rightarrow> conn_kill c
      else c)"

definition apply_conn_mutation ::
  "('s, 'w) mux_env \<Rightarrow> conn_key \<Rightarrow>
   (nat \<Rightarrow> 's vsock_connection \<Rightarrow> (vsock_error, 'r, 's vsock_connection) run) \<Rightarrow>
   's muxer \<times> 'w \<Rightarrow> (vsock_error, 'r option, 's muxer \<times> 'w) run" where
  "apply_conn_mutation E key mut_fn mw =
     (let (m, w) = mw in
      case map_of (conn_map m) key of
        None \<Rightarrow> Some (Inr None, m, w)
      | Some conn \<Rightarrow>
          let had_rx = has_pending_rx conn;
              (t, w) = env_clock E w;
              was_expiring = will_expire t conn;
              prev_state = conn_state conn;
              (t, w) = env_clock E w in
          case mut_fn t conn of
            None \<Rightarrow> None
          | Some (Inl e, conn) \<Rightarrow> Some (Inl e, put_conn key conn m, w)
          | Some (Inr r, conn) \<Rightarrow>
              let conn = ack_local (env_stream E) prev_state key conn;
                  m = put_conn key conn m;
                  m = (if \<not> had_rx \<and> has_pending_rx conn then rxq_add (ConnRx key) m else m);
                  (t, w) = env_clock E w;
                  m = (case expiry conn of
                         None \<Rightarrow> m
                       | Some k \<Rightarrow>
                           if \<not> was_expiring \<and> will_expire t conn
                           then m\<lparr>mux_killq := killq_push key k (mux_killq m)\<rparr> else m)
              in Some (Inr (Some r),
                   update_listener E key (st_fd (env_stream E) (stream conn)) (get_polled_evset conn) (m, w)))"

definition free_local_port :: "u32 \<Rightarrow> 's muxer \<Rightarrow> 's muxer" where
  "free_local_port port m = m\<lparr>local_port_set := local_port_set m - {port}\<rparr>"

definition remove_connection :: "('s, 'w) mux_env \<Rightarrow> conn_key \<Rightarrow> 's muxer \<times> 'w \<Rightarrow> 's muxer \<times> 'w" where
  "remove_connection E key mw =
     (let (m, w) = mw;
          (m, w) = (case map_of (conn_map m) key of
                      None \<Rightarrow> (m, w)
                    | Some conn \<Rightarrow>
                        snd (remove_listener E (st_fd (env_stream E) (stream conn))
                              (m\<lparr>conn_map := AList.delete key (conn_map m)\<rparr>, w)))
      in (free_local_port (key_local key) m, w))"

section \<open>Terminating connections that take too long\<close>

lemma kill_connection_killq [simp]: "mux_killq (kill_connection key m) = mux_killq m"
  by (simp add: kill_connection_def rxq_add_def put_conn_def Let_def split: option.splits)

function sweep_expired :: "('s, 'w) mux_env \<Rightarrow> 's muxer \<times> 'w \<Rightarrow> 's muxer \<times> 'w" where
  "sweep_expired E (m, w) =
     (let (now, w) = env_clock E w in
      case killq_pop now (mux_killq m) of
        (None, _) \<Rightarrow> (m, w)
      | (Some key, q) \<Rightarrow>
          let m = m\<lparr>mux_killq := q\<rparr>;
              (kill, w) = (case map_of (conn_map m) key of
                             None \<Rightarrow> (False, w)
                           | Some c \<Rightarrow> let (t, w) = env_clock E w in (has_expired t c, w))
          in sweep_expired E (if kill then kill_connection key m else m, w))"
  by pat_completeness auto

termination
  by (relation "measure (\<lambda>(E, m, w). length (killq_q (mux_killq m)))")
    (auto simp: killq_pop_def split: list.splits if_splits)

declare sweep_expired.simps [simp del]

partial_function (option) sweep_killq :: "('s, 'w) mux_env \<Rightarrow> 's muxer \<times> 'w \<Rightarrow> ('s muxer \<times> 'w) option" where
  "sweep_killq E mw =
     (let (m, w) = sweep_expired E mw in
      if killq_is_empty (mux_killq m) \<and> \<not> killq_synced (mux_killq m)
      then let (q, w) = killq_from_conn_map (env_clock E) (conn_map m) w
           in sweep_killq E (m\<lparr>mux_killq := q\<rparr>, w)
      else Some (m, w))"

section \<open>New connections\<close>

definition add_connection ::
  "('s, 'w) mux_env \<Rightarrow> conn_key \<Rightarrow> 's vsock_connection \<Rightarrow> 's muxer \<times> 'w \<Rightarrow> (mux_error, unit, 's muxer \<times> 'w) run" where
  "add_connection E key conn mw =
     (case sweep_killq E mw of
        None \<Rightarrow> None
      | Some (m, w) \<Rightarrow>
          if length (conn_map m) \<ge> MAX_CONNECTIONS then Some (Inl (Err TooManyConnections), m, w)
          else case add_listener E (st_fd (env_stream E) (stream conn)) (LConnection key (get_polled_evset conn)) (m, w) of
            (Inl e, mw) \<Rightarrow> Some (Inl (Err e), mw)
          | (Inr _, m, w) \<Rightarrow>
              let m = (if has_pending_rx conn then rxq_add (ConnRx key) m else m)
              in Some (Inr (), put_conn key conn m, w))"

definition next_local_port :: "u32 \<Rightarrow> u32" where
  "next_local_port p = ((p + 1) AND NOT (push_bit 31 1)) OR push_bit 30 1"

partial_function (option) allocate_local_port :: "'s muxer \<Rightarrow> (u32 \<times> 's muxer) option" where
  "allocate_local_port m =
     (let p = next_local_port (local_port_last m); m = m\<lparr>local_port_last := p\<rparr> in
      if p \<notin> local_port_set m then Some (p, m\<lparr>local_port_set := insert p (local_port_set m)\<rparr>)
      else allocate_local_port m)"

definition enq_rst :: "u32 \<Rightarrow> u32 \<Rightarrow> 's muxer \<Rightarrow> 's muxer" where
  "enq_rst lport pport m = rxq_add (RstPkt lport pport) m"

definition handle_peer_request_pkt ::
  "('s, 'w) mux_env \<Rightarrow> vsock_packet \<Rightarrow> 's muxer \<times> 'w \<Rightarrow> (vsock_error, unit, 's muxer \<times> 'w) run" where
  "handle_peer_request_pkt E pkt mw =
     (let (m, w) = mw;
          port_path = host_sock_path m @ ''_'' @ show_dec (unat (dst_port pkt));
          (r, w) = env_connect E port_path w in
      case r of
        Inl _ \<Rightarrow> Some (Inr (), enq_rst (dst_port pkt) (src_port pkt) m, w)
      | Inr s \<Rightarrow>
          let (r, w) = env_set_nonblocking E (st_fd (env_stream E) s) w in
          case r of
            Inl _ \<Rightarrow> Some (Inr (), enq_rst (dst_port pkt) (src_port pkt) m, w)
          | Inr _ \<Rightarrow>
              (case add_connection E \<lparr>key_local = dst_port pkt, key_peer = src_port pkt\<rparr>
                      (new_peer_init s VSOCK_HOST_CID (mux_cid m) (dst_port pkt) (src_port pkt) (pkt_buf_alloc pkt)) (m, w) of
                 None \<Rightarrow> None
               | Some (Inr _, mw) \<Rightarrow> Some (Inr (), mw)
               | Some (Inl (Err _), m, w) \<Rightarrow> Some (Inr (), enq_rst (dst_port pkt) (src_port pkt) m, w)
               | Some (Inl Panic, mw) \<Rightarrow> Some (Inl Panic, mw)))"

section \<open>Packets\<close>

definition rst_pkt :: "u64 \<Rightarrow> u32 \<Rightarrow> u32 \<Rightarrow> vsock_packet \<Rightarrow> vsock_packet" where
  "rst_pkt cid lport pport pkt =
     set_fwd_cnt 0 (set_buf_alloc 0 (set_flags 0 (set_type VSOCK_TYPE_STREAM (set_len 0
       (set_dst_port pport (set_src_port lport (set_dst_cid cid (set_src_cid VSOCK_HOST_CID
         (set_op VSOCK_OP_RST pkt)))))))))"

text \<open>The closure the multiplexer gives to a connection that is due to yield a packet.\<close>

definition recv_conn ::
  "'s stream_ops \<Rightarrow> vsock_packet \<Rightarrow> nat \<Rightarrow> 's vsock_connection \<Rightarrow>
   (vsock_error, (vsock_error, unit) outcome \<times> vsock_packet \<times> bool, 's vsock_connection) run" where
  "recv_conn S pkt now c =
     (case recv_pkt S now pkt c of
        (Inl Panic, _, c) \<Rightarrow> Some (Inl Panic, c)
      | (r, pkt, c) \<Rightarrow> Some (Inr (r, pkt, \<not> has_pending_rx c), c))"

definition rxq_drop :: "'s muxer \<Rightarrow> 's muxer" where
  "rxq_drop m = m\<lparr>mux_rxq := snd (rxq_pop (mux_rxq m))\<rparr>"

partial_function (option) mux_recv_loop ::
  "('s, 'w) mux_env \<Rightarrow> vsock_packet \<times> 's muxer \<times> 'w \<Rightarrow> (vsock_error, unit, vsock_packet \<times> 's muxer \<times> 'w) run" where
  "mux_recv_loop E s =
     (let (pkt, m, w) = s in
      case rxq_peek (mux_rxq m) of
        None \<Rightarrow> Some (Inl (Err NoData), pkt, m, w)
      | Some (RstPkt lport pport) \<Rightarrow> Some (Inr (), rst_pkt (mux_cid m) lport pport pkt, rxq_drop m, w)
      | Some (ConnRx key) \<Rightarrow>
          (case apply_conn_mutation E key (recv_conn (env_stream E) pkt) (m, w) of
             None \<Rightarrow> None
           | Some (Inl e, m, w) \<Rightarrow> Some (Inl e, pkt, m, w)
           | Some (Inr None, m, w) \<Rightarrow> mux_recv_loop E (pkt, rxq_drop m, w)
           | Some (Inr (Some (r, pkt, do_pop)), m, w) \<Rightarrow>
               let m = (if do_pop then rxq_drop m else m) in
               if r = Inr ()
               then Some (Inr (), pkt,
                      if pkt_op pkt = VSOCK_OP_RST
                      then remove_connection E \<lparr>key_local = src_port pkt, key_peer = dst_port pkt\<rparr> (m, w)
                      else (m, w))
               else mux_recv_loop E (pkt, m, w)))"

definition mux_recv_pkt ::
  "('s, 'w) mux_env \<Rightarrow> vsock_packet \<times> 's muxer \<times> 'w \<Rightarrow> (vsock_error, unit, vsock_packet \<times> 's muxer \<times> 'w) run" where
  "mux_recv_pkt E s =
     (let (pkt, m, w) = s in
      mux_recv_loop E
        (pkt, if rxq_is_empty (mux_rxq m) \<and> \<not> rxq_synced (mux_rxq m)
              then m\<lparr>mux_rxq := rxq_from_conn_map (conn_map m)\<rparr> else m, w))"

text \<open>The closure for a packet of the guest.\<close>

definition send_conn ::
  "'s stream_ops \<Rightarrow> vsock_packet \<Rightarrow> nat \<Rightarrow> 's vsock_connection \<Rightarrow> (vsock_error, unit, 's vsock_connection) run" where
  "send_conn S pkt now c = (case send_pkt S now pkt c of (r, c) \<Rightarrow> Some (r, c))"

definition mux_send_pkt ::
  "('s, 'w) mux_env \<Rightarrow> vsock_packet \<Rightarrow> 's muxer \<times> 'w \<Rightarrow> (vsock_error, unit, 's muxer \<times> 'w) run" where
  "mux_send_pkt E pkt mw =
     (let (m, w) = mw; conn_key = \<lparr>key_local = dst_port pkt, key_peer = src_port pkt\<rparr> in
      if pkt_type pkt \<noteq> VSOCK_TYPE_STREAM then Some (Inr (), enq_rst (dst_port pkt) (src_port pkt) m, w)
      else if dst_cid pkt \<noteq> VSOCK_HOST_CID then Some (Inr (), m, w)
      else if map_of (conn_map m) conn_key = None
      then if pkt_op pkt = VSOCK_OP_REQUEST then handle_peer_request_pkt E pkt (m, w)
           else Some (Inr (), enq_rst (dst_port pkt) (src_port pkt) m, w)
      else if pkt_op pkt = VSOCK_OP_RST then Some (Inr (), remove_connection E conn_key (m, w))
      else run_bind (apply_conn_mutation E conn_key (send_conn (env_stream E) pkt) (m, w)) (\<lambda>_. run_ret ()))"

definition mux_has_pending_rx :: "'s muxer \<Rightarrow> bool" where
  "mux_has_pending_rx m \<longleftrightarrow> \<not> rxq_is_empty (mux_rxq m) \<or> \<not> rxq_synced (mux_rxq m)"

definition mux_connections :: "'s muxer \<Rightarrow> (u32 \<times> u32) list" where
  "mux_connections m = map (\<lambda>(k, _). (key_local k, key_peer k)) (conn_map m)"

definition queue_rst_for_connections :: "(u32 \<times> u32) list \<Rightarrow> 's muxer \<Rightarrow> 's muxer" where
  "queue_rst_for_connections conns m = fold (\<lambda>(lport, pport). rxq_add (RstPkt lport pport)) conns m"

section \<open>What every handler of a connection keeps\<close>

definition rx_small :: "u16 \<Rightarrow> bool" where
  "rx_small s \<longleftrightarrow> (\<forall>n. bit s n \<longrightarrow> n < 5)"

definition rx_set :: "u16 \<Rightarrow> pending_rx set" where
  "rx_set s = {it. rx_contains it s}"

lemma rx_index_surj: "n < 5 \<Longrightarrow> \<exists>it. rx_index it = n"
proof -
  assume "n < 5"
  then have "n = 0 \<or> n = 1 \<or> n = 2 \<or> n = 3 \<or> n = 4" by linarith
  then show ?thesis
    by (auto simp: rx_index_def intro: exI [of _ Request] exI [of _ Response] exI [of _ Rst] exI [of _ Rw] exI [of _ CreditUpdate])
qed

lemma rx_empty_iff: "rx_small s \<Longrightarrow> rx_is_empty s \<longleftrightarrow> rx_set s = {}"
proof
  assume small: "rx_small s" and "rx_set s = {}"
  then have "\<not> bit s n" for n
    using rx_index_surj [of n] by (auto simp: rx_set_def rx_contains_bit rx_small_def)
  then show "rx_is_empty s" by (simp add: rx_is_empty_def bit_eq_iff)
qed (auto simp: rx_set_def rx_empty_contains)

lemma rx_set_insert [simp]: "rx_set (rx_insert it s) = insert it (rx_set s)"
  by (auto simp: rx_set_def)

lemma rx_set_remove [simp]: "rx_set (s AND NOT (into_mask it)) = rx_set s - {it}"
  using rx_remove_simps(2) [of _ it s] by (auto simp: rx_set_def rx_remove_def)

lemma rx_small_ops [simp]:
  "rx_small s \<Longrightarrow> rx_small (rx_insert it s)" "rx_small s \<Longrightarrow> rx_small (s AND NOT (into_mask it))"
  "rx_small (rx_from it)"
  by (auto simp: rx_small_def rx_insert_def rx_from_def bit_or_iff bit_and_iff into_mask_bit rx_index_def
      split: pending_rx.splits)

lemma rx_contains_set: "rx_contains it s \<longleftrightarrow> it \<in> rx_set s"
  by (simp add: rx_set_def)

lemma finite_rx_set [simp]: "finite (rx_set s)"
proof (rule finite_subset)
  show "rx_set s \<subseteq> {Request, Response, Rst, Rw, CreditUpdate}" using pending_rx.exhaust by blast
qed simp

definition ident :: "'s vsock_connection \<Rightarrow> u64 \<times> u64 \<times> u32 \<times> u32" where
  "ident c = (local_cid c, peer_cid c, local_port c, peer_port c)"

text \<open>A connection holds a sound buffer, known indications only, and a due response only before it is
  established.\<close>

definition conn_wf :: "'s vsock_connection \<Rightarrow> bool" where
  "conn_wf c \<longleftrightarrow> txbuf_ok (tx_buffer c) \<and> rx_small (pending_rx c) \<and>
     (Response \<in> rx_set (pending_rx c) \<longrightarrow> conn_state c = PeerInit \<or> conn_state c = Killed)"

lemma conn_wf_kill: "conn_wf c \<Longrightarrow> conn_wf (conn_kill c)"
  by (auto simp: conn_wf_def conn_kill_def pend_def)

lemma ident_simps [simp]: "ident (pend it c) = ident c" "ident (conn_kill c) = ident c"
  by (simp_all add: ident_def pend_def conn_kill_def)

lemma has_pending_kill [simp]: "has_pending_rx (conn_kill c)" "has_pending_rx (pend it c)"
  by (simp_all add: has_pending_rx_def conn_kill_def pend_def)

lemma push_ident: "conn_push buf c = (r, c') \<Longrightarrow> ident c' = ident c"
  by (auto simp: conn_push_def ident_def split: sum.splits)

lemma send_bytes_ident: "send_bytes S buf c = (r, c') \<Longrightarrow> ident c' = ident c"
  by (auto simp: send_bytes_def Let_def ident_def split: if_splits sum.splits prod.splits dest!: push_ident)

lemma send_control_wf:
  assumes "conn_wf c"
  shows "conn_wf (send_control now p c)" and "ident (send_control now p c) = ident c"
  using assms
  by (cases "conn_state c";
      auto simp: send_control_def peer_shutdown_def update_shutdown_def Let_def conn_wf_def pend_def ident_def)+

lemma send_data_wf:
  assumes S: "stream_ok S sent" and wf: "conn_wf c" and st: "from_peer_ok (conn_state c)"
    and r: "send_data S p c = (Inr (), c')"
  shows "conn_wf c' \<and> ident c' = ident c"
proof (cases "pkt_buf p")
  case None
  with r wf show ?thesis by (simp add: send_data_def)
next
  case (Some buf)
  obtain q c1 where sb: "send_bytes S (take (unat (pkt_len p)) buf) c = (q, c1)" by fastforce
  have ok: "txbuf_ok (tx_buffer c)" using wf by (simp add: conn_wf_def)
  have wf1: "conn_wf c1" using send_bytes_spec [OF S ok sb] wf by (simp add: conn_wf_def)
  have "c' = conn_kill c1 \<or> c' = pend CreditUpdate c1 \<or> c' = c1"
    using r Some sb by (auto simp: send_data_def split: if_splits sum.splits abort.splits)
  with wf1 send_bytes_ident [OF sb] show ?thesis
    by (auto simp: conn_wf_kill) (auto simp: conn_wf_def pend_def)
qed

lemma send_pkt_wf:
  assumes S: "stream_ok S sent" and wf: "conn_wf c" and r: "send_pkt S now p c = (Inr (), c')"
  shows "conn_wf c' \<and> ident c' = ident c"
proof -
  define c1 where "c1 = c\<lparr>peer_buf_alloc := pkt_buf_alloc p, peer_fwd_cnt := pkt_fwd_cnt p\<rparr>"
  have c1: "conn_wf c1" "ident c1 = ident c" using wf by (simp_all add: c1_def conn_wf_def ident_def)
  have "if from_peer_ok (conn_state c1) \<and> pkt_op p = VSOCK_OP_RW then send_data S p c1 = (Inr (), c')
        else c' = send_control now p c1"
    using r by (auto simp: send_pkt_def Let_def c1_def split: if_splits)
  then show ?thesis
    using send_data_wf [OF S c1(1)] send_control_wf [OF c1(1)] c1(2) by (auto split: if_splits)
qed

lemma after_flush_wf: "conn_wf c \<Longrightarrow> conn_wf (after_flush c)" "ident (after_flush c) = ident c"
  by (auto simp: after_flush_def conn_wf_def pend_def ident_def)

lemma send_pkt_no_panic:
  assumes S: "stream_ok S sent" and wf: "conn_wf c" and fits: "pkt_fits p"
  shows "\<exists>c'. send_pkt S now p c = (Inr (), c')"
proof -
  define c1 where "c1 = c\<lparr>peer_buf_alloc := pkt_buf_alloc p, peer_fwd_cnt := pkt_fwd_cnt p\<rparr>"
  have ok: "txbuf_ok (tx_buffer c1)" using wf by (simp add: c1_def conn_wf_def)
  have "\<exists>c'. send_data S p c1 = (Inr (), c')"
  proof (cases "pkt_buf p")
    case (Some buf)
    obtain q c2 where sb: "send_bytes S (take (unat (pkt_len p)) buf) c1 = (q, c2)" by fastforce
    from send_bytes_spec [OF S ok sb] Some sb fits show ?thesis
      by (auto simp: send_data_def pkt_fits_def split: sum.splits abort.splits)
  qed (simp add: send_data_def)
  then show ?thesis by (simp add: send_pkt_def Let_def c1_def)
qed

lemma notify_wf:
  assumes S: "stream_ok S sent" and wf: "conn_wf c"
  shows "\<exists>c'. conn_notify S ev c = Some (Inr (), c') \<and> conn_wf c' \<and> ident c' = ident c"
proof -
  define c1 where "c1 = (if ev_in ev then pend Rw c else c)"
  have wf1: "conn_wf c1" "ident c1 = ident c" using wf by (auto simp: c1_def conn_wf_def pend_def ident_def)
  show ?thesis
  proof (cases "ev_out ev \<and> \<not> txbuf_is_empty (tx_buffer c1)")
    case False
    then have "conn_notify S ev c = Some (Inr (), c1)" by (auto simp: conn_notify_def c1_def Let_def)
    with wf1 show ?thesis by simp
  next
    case True
    from wf1 have "txbuf_ok (tx_buffer c1)" by (simp add: conn_wf_def)
    from flush_prefix [OF S this, of "stream c1"] obtain r b s n where
      fl: "txbuf_flush S (tx_buffer c1, stream c1) = Some (r, b, s)" "txbuf_ok b" and
      r: "r = Inr n \<or> n = 0 \<and> (\<exists>e. r = Inl (Err (TxBufFlush e)))" by blast
    define c2 where "c2 = c1\<lparr>tx_buffer := b, stream := s\<rparr>"
    have wf2: "conn_wf c2" "ident c2 = ident c1" using wf1(1) fl(2) by (simp_all add: c2_def conn_wf_def ident_def)
    have "\<exists>c3. conn_notify S ev c = Some (Inr (), after_flush c3) \<and>
        (c3 = c2 \<or> c3 = conn_kill c2 \<or> c3 = c2\<lparr>fwd_cnt := fwd_cnt c2 + of_nat n\<rparr>)"
      using True fl r by (auto simp: conn_notify_def c1_def [symmetric] Let_def c2_def)
    moreover have "conn_wf (c2\<lparr>fwd_cnt := x\<rparr>)" "ident (c2\<lparr>fwd_cnt := x\<rparr>) = ident c2" for x
      using wf2(1) by (simp_all add: conn_wf_def ident_def)
    ultimately show ?thesis using wf1 wf2 by (auto simp: after_flush_wf conn_wf_kill)
  qed
qed

text \<open>What a connection gives back when it is asked for a packet: the invariant, fewer indications,
  and after an error at most a credit update that was due behind the data.\<close>

definition recv_wf ::
  "'s vsock_connection \<Rightarrow> vsock_packet \<Rightarrow>
   (vsock_error, unit) outcome \<times> vsock_packet \<times> 's vsock_connection \<Rightarrow> bool" where
  "recv_wf c p res =
     (case res of (r, p', c') \<Rightarrow>
        r \<noteq> Inl Panic \<and> conn_wf c' \<and> ident c' = ident c \<and> rx_set (pending_rx c') \<subseteq> rx_set (pending_rx c) \<and>
        (conn_state c' = Established \<longrightarrow> conn_state c = Established \<or> conn_state c = PeerInit \<or> conn_state c = Killed) \<and>
        (r \<noteq> Inr () \<longrightarrow> Rst \<notin> rx_set (pending_rx c) \<and>
           (has_pending_rx c' \<longrightarrow> Rw \<in> rx_set (pending_rx c) - rx_set (pending_rx c'))) \<and>
        (hdr_ok p \<longrightarrow> hdr_ok p' \<and> src_port p' = local_port c \<and> dst_port p' = peer_port c))"

lemma port_fields [simp]:
  assumes "hdr_ok p"
  shows "src_port (set_flag v p) = src_port p" "dst_port (set_flag v p) = dst_port p"
    "src_port (set_len n p) = src_port p" "dst_port (set_len n p) = dst_port p"
  using assms by (simp_all add: pkt_fields)

lemma port_buf_write [simp]: "src_port (pkt_buf_write bs p) = src_port p" "dst_port (pkt_buf_write bs p) = dst_port p"
  by (simp_all add: pkt_fields hdr_read_def)

lemma recv_credit_wf:
  assumes "conn_wf c" and "rx_set s \<subseteq> rx_set (pending_rx c)" and "rx_set s \<subseteq> {CreditUpdate}" and "rx_small s"
    and "Rst \<notin> rx_set (pending_rx c)" and "hdr_ok q \<longrightarrow> hdr_ok p \<and> src_port p = local_port c \<and> dst_port p = peer_port c"
  shows "recv_wf c q (recv_credit p (c\<lparr>pending_rx := s, stream := y\<rparr>))"
    and "recv_wf c q (recv_credit p (c\<lparr>pending_rx := s\<rparr>))"
  using assms rx_empty_iff [of "s AND NOT (into_mask CreditUpdate)"]
  by (auto simp: recv_wf_def recv_credit_def rx_remove_def Let_def conn_wf_def ident_def has_pending_rx_def)

lemma recv_data_wf:
  assumes wf: "conn_wf c" and s: "rx_set s \<subseteq> rx_set (pending_rx c)" "rx_set s \<subseteq> {CreditUpdate}" "rx_small s"
    and rw: "Rw \<in> rx_set (pending_rx c)" "Rst \<notin> rx_set (pending_rx c)"
    and p: "hdr_ok q \<longrightarrow> hdr_ok p \<and> src_port p = local_port c \<and> dst_port p = peer_port c"
  shows "recv_wf c q (recv_data S now p (c\<lparr>pending_rx := s\<rparr>))"
proof -
  have S: "Response \<notin> rx_set s" "Rw \<notin> rx_set s" using s(2) by auto
  have *: "recv_wf c q (Inr (), p', c')"
    if "tx_buffer c' = tx_buffer c" "pending_rx c' = s" "ident c' = ident c"
      "conn_state c' = conn_state c \<or> conn_state c' = LocalClosed"
      "hdr_ok q \<longrightarrow> hdr_ok p' \<and> src_port p' = local_port c \<and> dst_port p' = peer_port c" for p' c'
    using that wf S s by (auto simp: recv_wf_def conn_wf_def)
  have e: "recv_wf c q (Inl (Err e), p, c\<lparr>pending_rx := s\<rparr>)" for e
    using wf S s rw p by (auto simp: recv_wf_def conn_wf_def ident_def)
  note cr = recv_credit_wf(1) [OF wf s(1-3) rw(2) p]
  show ?thesis
    using p cr e
    by (simp add: recv_data_def Let_def split: option.splits prod.splits sum.splits)
      (auto intro!: * simp: ident_def)
qed

lemma recv_pkt_wf:
  assumes wf: "conn_wf c"
  shows "recv_wf c p (recv_pkt S now p c)"
proof (cases "rx_contains Rst (pending_rx c)")
  case True
  with wf show ?thesis
    by (auto simp: recv_wf_def recv_pkt_def Let_def rx_remove_def conn_wf_def ident_def)
next
  case rst: False
  define s1 s2 s3 s4 where s: "s1 = pending_rx c AND NOT (into_mask Rst)" "s2 = s1 AND NOT (into_mask Response)"
    "s3 = s2 AND NOT (into_mask Request)" "s4 = s3 AND NOT (into_mask Rw)"
  have small: "rx_small s1" "rx_small s2" "rx_small s3" "rx_small s4" using wf by (simp_all add: s conn_wf_def)
  have sets: "rx_set s1 = rx_set (pending_rx c) - {Rst}" "rx_set s2 = rx_set (pending_rx c) - {Rst, Response}"
    "rx_set s3 = rx_set (pending_rx c) - {Rst, Response, Request}" "rx_set s4 = rx_set (pending_rx c) - {Rst, Response, Request, Rw}"
    by (auto simp: s)
  have s4: "rx_set s4 \<subseteq> rx_set (pending_rx c)" "rx_set s4 \<subseteq> {CreditUpdate}"
    unfolding sets using pending_rx.exhaust by blast+
  have step: "recv_pkt S now p c =
    (if Response \<in> rx_set s1 then (Inr (), set_op VSOCK_OP_RESPONSE (init_pkt c p), c\<lparr>pending_rx := s2, conn_state := Established\<rparr>)
     else if Request \<in> rx_set s2
     then (Inr (), set_op VSOCK_OP_REQUEST (init_pkt c p), c\<lparr>pending_rx := s3, expiry := Some (now + CONN_REQUEST_TIMEOUT_MS)\<rparr>)
     else if Rw \<in> rx_set s3 then recv_data S now (init_pkt c p) (c\<lparr>pending_rx := s4\<rparr>)
     else recv_credit (init_pkt c p) (c\<lparr>pending_rx := s4\<rparr>))"
    using rst by (simp add: recv_pkt_def Let_def rx_remove_def s rx_contains_set)
  have r: "Rst \<notin> rx_set (pending_rx c)" using rst by (simp add: rx_contains_set)
  have i: "hdr_ok p \<longrightarrow> hdr_ok (init_pkt c p) \<and> src_port (init_pkt c p) = local_port c \<and> dst_port (init_pkt c p) = peer_port c"
    by simp
  have A: "recv_wf c p (Inr (), set_op VSOCK_OP_RESPONSE (init_pkt c p), c\<lparr>pending_rx := s2, conn_state := Established\<rparr>)"
    if "Response \<in> rx_set s1"
    using that wf sets small by (auto simp: recv_wf_def conn_wf_def ident_def)
  have B: "recv_wf c p (Inr (), set_op VSOCK_OP_REQUEST (init_pkt c p), c\<lparr>pending_rx := s3, expiry := x\<rparr>)" for x
    using wf sets small by (auto simp: recv_wf_def conn_wf_def ident_def)
  show ?thesis
    unfolding step using A B recv_data_wf [OF wf s4 small(4) _ r i] recv_credit_wf(2) [OF wf s4 small(4) r i] sets(3)
    by auto
qed

section \<open>What every operation of the multiplexer keeps\<close>

definition synced_ok :: "'s muxer \<Rightarrow> bool" where
  "synced_ok m \<longleftrightarrow>
     (rxq_synced (mux_rxq m) \<longrightarrow>
       (\<forall>k c. map_of (conn_map m) k = Some c \<longrightarrow> has_pending_rx c \<longrightarrow> ConnRx k \<in> set (rxq_q (mux_rxq m))))"

definition pool_ok :: "'s conn_pool \<Rightarrow> bool" where
  "pool_ok conns \<longleftrightarrow>
     length conns \<le> MAX_CONNECTIONS \<and> distinct (map fst conns) \<and>
     (\<forall>k c. map_of conns k = Some c \<longrightarrow> conn_wf c \<and> local_port c = key_local k \<and> peer_port c = key_peer k)"

text \<open>A partly read command leaves room in its buffer.\<close>

definition cmd_ok :: "partial_command \<Rightarrow> bool" where
  "cmd_ok c \<longleftrightarrow> length (cmd_buf c) = PARTIALLY_READ_COMMAND_BUF_SIZE \<and> cmd_len c < PARTIALLY_READ_COMMAND_BUF_SIZE"

definition cmds_ok :: "(int \<times> partial_command) list \<Rightarrow> bool" where
  "cmds_ok cmds \<longleftrightarrow> (\<forall>fd c. map_of cmds fd = Some c \<longrightarrow> cmd_ok c)"

definition mux_ok :: "'s muxer \<Rightarrow> bool" where
  "mux_ok m \<longleftrightarrow> synced_ok m \<and> pool_ok (conn_map m) \<and> length (rxq_q (mux_rxq m)) \<le> MUXER_RXQ_SIZE \<and>
     cmds_ok (partial_command_map m)"

lemma rxq_add_fields [simp]:
  "conn_map (rxq_add rx m) = conn_map m" "mux_killq (rxq_add rx m) = mux_killq m" "mux_cid (rxq_add rx m) = mux_cid m"
  "local_port_set (rxq_add rx m) = local_port_set m" "local_port_last (rxq_add rx m) = local_port_last m"
  "listener_map (rxq_add rx m) = listener_map m" "partial_command_map (rxq_add rx m) = partial_command_map m"
  by (simp_all add: rxq_add_def)

lemma put_conn_fields [simp]:
  "mux_rxq (put_conn k c m) = mux_rxq m" "mux_killq (put_conn k c m) = mux_killq m" "mux_cid (put_conn k c m) = mux_cid m"
  "local_port_set (put_conn k c m) = local_port_set m" "partial_command_map (put_conn k c m) = partial_command_map m"
  "conn_map (put_conn k c m) = AList.update k c (conn_map m)"
  by (simp_all add: put_conn_def)

text \<open>A connection is queued, or the queue is out of sync.\<close>

lemma rxq_add_conn:
  assumes "q' = mux_rxq (rxq_add (ConnRx k) m)"
  shows "rxq_synced q' \<Longrightarrow> rxq_synced (mux_rxq m) \<and> rxq_q q' = rxq_q (mux_rxq m) @ [ConnRx k]"
    and "rxq_q q' = rxq_q (mux_rxq m) \<or> rxq_q q' = rxq_q (mux_rxq m) @ [ConnRx k]"
    and "length (rxq_q (mux_rxq m)) \<le> MUXER_RXQ_SIZE \<Longrightarrow> length (rxq_q q') \<le> MUXER_RXQ_SIZE"
  using assms by (auto simp: rxq_add_def rxq_push_def rxq_is_full_def split: if_splits)

lemma rxq_push_len:
  assumes "length (rxq_q q) \<le> MUXER_RXQ_SIZE"
  shows "length (rxq_q (snd (rxq_push rx q))) \<le> MUXER_RXQ_SIZE"
  using assms by (auto simp: rxq_push_def rxq_is_full_def split: muxer_rx.splits option.splits dest!: evict_last_spec)

lemma rxq_push_synced:
  "rxq_synced (snd (rxq_push rx q)) \<Longrightarrow> rxq_synced q \<and> set (rxq_q q) \<subseteq> set (rxq_q (snd (rxq_push rx q)))"
  by (auto simp: rxq_push_def split: if_splits muxer_rx.splits option.splits)

lemma mux_ok_rxq_add: "mux_ok m \<Longrightarrow> mux_ok (rxq_add rx m)"
  using rxq_push_len [of "mux_rxq m" rx] rxq_push_synced [of rx "mux_rxq m"]
  unfolding mux_ok_def synced_ok_def by (auto simp: rxq_add_def)

lemma map_of_update: "map_of (AList.update k v al) k' = (if k' = k then Some v else map_of al k')"
  by (simp add: update_conv')

lemma pool_ok_update:
  assumes "pool_ok conns" and "map_of conns key \<noteq> None" and "conn_wf c" and "local_port c = key_local key" "peer_port c = key_peer key"
  shows "pool_ok (AList.update key c conns)"
proof -
  have "map fst (AList.update key c conns) = map fst conns"
    using assms(2) by (simp add: update_keys map_of_eq_None_iff)
  then have "length (AList.update key c conns) = length conns" by (metis length_map)
  with assms show ?thesis
    unfolding pool_ok_def by (auto simp: map_of_update distinct_update split: if_splits)
qed

lemma kill_connection_ok:
  assumes ok: "mux_ok m"
  shows "mux_ok (kill_connection key m)"
proof (cases "map_of (conn_map m) key")
  case None
  then show ?thesis using ok by (simp add: kill_connection_def mux_ok_rxq_add)
next
  case (Some c)
  have wf: "conn_wf c" "local_port c = key_local key" "peer_port c = key_peer key"
    using ok Some by (auto simp: mux_ok_def pool_ok_def)
  define m1 where "m1 = put_conn key (conn_kill c) m"
  have p: "pool_ok (conn_map m1)"
    using ok Some wf ident_simps(2) [of c] by (auto simp: m1_def mux_ok_def conn_wf_kill ident_def intro!: pool_ok_update)
  have q: "rxq_q (mux_rxq m1) = rxq_q (mux_rxq m)" "rxq_synced (mux_rxq m1) = rxq_synced (mux_rxq m)"
    "partial_command_map m1 = partial_command_map m"
    by (simp_all add: m1_def)
  have others: "rxq_synced (mux_rxq m) \<Longrightarrow> map_of (conn_map m1) k = Some d \<Longrightarrow> k \<noteq> key \<Longrightarrow> has_pending_rx d \<Longrightarrow>
      ConnRx k \<in> set (rxq_q (mux_rxq m))" for k d
    using ok by (auto simp: m1_def mux_ok_def synced_ok_def map_of_update)
  show ?thesis
  proof (cases "has_pending_rx c")
    case True
    then have e: "kill_connection key m = m1" using Some by (simp add: kill_connection_def m1_def)
    moreover have "rxq_synced (mux_rxq m) \<Longrightarrow> ConnRx key \<in> set (rxq_q (mux_rxq m))"
      using ok Some True by (auto simp: mux_ok_def synced_ok_def)
    ultimately show ?thesis unfolding e using ok p q others by (auto simp: mux_ok_def synced_ok_def)
  next
    case False
    then have e: "kill_connection key m = rxq_add (ConnRx key) m1" using Some by (simp add: kill_connection_def m1_def)
    note a = rxq_add_conn [of _ key m1, OF refl]
    show ?thesis
      unfolding e using ok p q others a by (auto simp: mux_ok_def synced_ok_def)
  qed
qed

lemma mux_ok_listeners [simp]:
  "mux_ok (m\<lparr>listener_map := l\<rparr>) = mux_ok m" "mux_ok (m\<lparr>mux_killq := q\<rparr>) = mux_ok m"
  "mux_ok (m\<lparr>local_port_set := ps\<rparr>) = mux_ok m" "mux_ok (m\<lparr>local_port_last := p\<rparr>) = mux_ok m"
  by (simp_all add: mux_ok_def synced_ok_def)

lemma add_listener_cases:
  assumes "add_listener E fd l (m, w) = (r, m', w')"
  shows "m' = m \<or> m' = m\<lparr>listener_map := AList.update fd l (listener_map m)\<rparr>"
  using assms by (auto simp: add_listener_def Let_def split: prod.splits sum.splits)

lemma remove_listener_cases:
  assumes "remove_listener E fd (m, w) = (r, m', w')"
  shows "\<exists>l. m' = m\<lparr>listener_map := l\<rparr>"
  using assms by (auto simp: remove_listener_def Let_def split: prod.splits option.splits intro: exI [of _ "listener_map m"])

text \<open>Updating a listener changes only the listeners, or fails and kills the connection.\<close>

lemma update_listener_cases:
  assumes "update_listener E key fd ev (m, w) = (m', w')"
  shows "\<exists>l. m' = m\<lparr>listener_map := l\<rparr> \<or> m' = kill_connection key (m\<lparr>listener_map := l\<rparr>)"
proof -
  have self: "m = m\<lparr>listener_map := listener_map m\<rparr>" by simp
  obtain r1 m1 w1 where rl: "remove_listener E fd (m, w) = (r1, m1, w1)" by (cases "remove_listener E fd (m, w)")
  obtain r2 m2 w2 where al: "add_listener E fd (LConnection key ev) (m, w) = (r2, m2, w2)"
    by (cases "add_listener E fd (LConnection key ev) (m, w)")
  have "m' = m1 \<or> m' = m \<or> m' = m2 \<or> m' = kill_connection key m2 \<or>
      (\<exists>l. m' = m\<lparr>listener_map := l\<rparr> \<or> m' = kill_connection key (m\<lparr>listener_map := l\<rparr>))"
    using assms rl al
    by (auto simp: update_listener_def Let_def split: if_splits option.splits epoll_listener.splits prod.splits sum.splits)
  with remove_listener_cases [OF rl] add_listener_cases [OF al] self show ?thesis by metis
qed

text \<open>The whole effect of a mutation: the connection is replaced by what the closure and the
  acknowledgement leave of it, or by that, killed; it is queued when it became due for a packet.\<close>

definition queued :: "conn_key \<Rightarrow> bool \<Rightarrow> 's muxer \<Rightarrow> muxer_rxq" where
  "queued key add m = (if add then mux_rxq (rxq_add (ConnRx key) m) else mux_rxq m)"

lemma apply_summary:
  assumes "apply_conn_mutation E key f (m, w) = Some (Inr r, m', w')"
  shows "(r = None \<and> map_of (conn_map m) key = None \<and> m' = m) \<or>
    (\<exists>c t r0 c0 c1 c2. r = Some r0 \<and> map_of (conn_map m) key = Some c \<and> f t c = Some (Inr r0, c0) \<and>
       c1 = ack_local (env_stream E) (conn_state c) key c0 \<and>
       conn_map m' = AList.update key c2 (conn_map m) \<and> mux_cid m' = mux_cid m \<and>
       local_port_set m' = local_port_set m \<and> partial_command_map m' = partial_command_map m \<and>
       (c2 = c1 \<and> mux_rxq m' = queued key (\<not> has_pending_rx c \<and> has_pending_rx c1) m \<or>
        c2 = conn_kill c1 \<and> mux_rxq m' = queued key (\<not> has_pending_rx c \<or> \<not> has_pending_rx c1) m))"
proof (cases "map_of (conn_map m) key")
  case None
  with assms show ?thesis by (simp add: apply_conn_mutation_def)
next
  case (Some c)
  obtain t0 w0 t1 w1 where cl: "env_clock E w = (t0, w0)" "env_clock E w0 = (t1, w1)" by fastforce
  obtain r0 c0 where f: "f t1 c = Some (Inr r0, c0)" and r: "r = Some r0"
    using assms Some cl by (auto simp: apply_conn_mutation_def Let_def split: option.splits prod.splits sum.splits)
  define c1 where "c1 = ack_local (env_stream E) (conn_state c) key c0"
  obtain t2 w2 where cl2: "env_clock E w1 = (t2, w2)" by fastforce
  define m1 where "m1 = (if \<not> has_pending_rx c \<and> has_pending_rx c1 then rxq_add (ConnRx key) (put_conn key c1 m) else put_conn key c1 m)"
  define m2 where "m2 = (case expiry c1 of None \<Rightarrow> m1
    | Some k \<Rightarrow> if \<not> will_expire t0 c \<and> will_expire t2 c1 then m1\<lparr>mux_killq := killq_push key k (mux_killq m1)\<rparr> else m1)"
  have u: "update_listener E key (st_fd (env_stream E) (stream c1)) (get_polled_evset c1) (m2, w2) = (m', w')"
    using assms Some cl f cl2 unfolding apply_conn_mutation_def Let_def m2_def m1_def c1_def by simp
  have m2: "conn_map m2 = AList.update key c1 (conn_map m)" "mux_cid m2 = mux_cid m" "local_port_set m2 = local_port_set m"
    "partial_command_map m2 = partial_command_map m"
    "mux_rxq m2 = queued key (\<not> has_pending_rx c \<and> has_pending_rx c1) m"
    by (simp_all add: m2_def m1_def queued_def rxq_add_def put_conn_def split: option.splits)
  have mo: "map_of (conn_map m2) key = Some c1" by (simp add: m2 map_of_update)
  have k: "conn_map (kill_connection key (m2\<lparr>listener_map := l\<rparr>)) = AList.update key (conn_kill c1) (conn_map m)"
    "mux_cid (kill_connection key (m2\<lparr>listener_map := l\<rparr>)) = mux_cid m"
    "local_port_set (kill_connection key (m2\<lparr>listener_map := l\<rparr>)) = local_port_set m"
    "partial_command_map (kill_connection key (m2\<lparr>listener_map := l\<rparr>)) = partial_command_map m"
    "mux_rxq (kill_connection key (m2\<lparr>listener_map := l\<rparr>)) = queued key (\<not> has_pending_rx c \<or> \<not> has_pending_rx c1) m" for l
    using mo m2 by (auto simp: kill_connection_def Let_def queued_def rxq_add_def)
  from update_listener_cases [OF u] obtain l where
    "m' = m2\<lparr>listener_map := l\<rparr> \<or> m' = kill_connection key (m2\<lparr>listener_map := l\<rparr>)" by blast
  then have "\<exists>c2. conn_map m' = AList.update key c2 (conn_map m) \<and> mux_cid m' = mux_cid m \<and> local_port_set m' = local_port_set m \<and>
       partial_command_map m' = partial_command_map m \<and>
       (c2 = c1 \<and> mux_rxq m' = queued key (\<not> has_pending_rx c \<and> has_pending_rx c1) m \<or>
        c2 = conn_kill c1 \<and> mux_rxq m' = queued key (\<not> has_pending_rx c \<or> \<not> has_pending_rx c1) m)"
    using m2 k by auto
  with r Some f show ?thesis by (auto simp: c1_def)
qed

lemma apply_ports:
  "apply_conn_mutation E key f (m, w) = Some (Inr r, m', w') \<Longrightarrow> local_port_set m' = local_port_set m"
  by (drule apply_summary) auto

lemma ack_local_wf:
  assumes "conn_wf c"
  shows "conn_wf (ack_local S prev key c)" and "ident (ack_local S prev key c) = ident c"
    and "has_pending_rx c \<Longrightarrow> has_pending_rx (ack_local S prev key c)"
proof -
  have raw: "conn_wf c' \<and> ident c' = ident c \<and> has_pending_rx c' = has_pending_rx c" if "send_bytes_raw S msg c = (r, c')" for msg r c'
    using that assms by (auto simp: send_bytes_raw_def conn_wf_def ident_def has_pending_rx_def split: prod.splits)
  show "conn_wf (ack_local S prev key c)" "ident (ack_local S prev key c) = ident c"
    "has_pending_rx c \<Longrightarrow> has_pending_rx (ack_local S prev key c)"
    using assms by (auto simp: ack_local_def Let_def conn_wf_kill dest: raw split: sum.splits prod.splits)
qed

lemma queued_cases:
  assumes "q = queued key add m"
  shows "rxq_synced q \<Longrightarrow> rxq_synced (mux_rxq m) \<and> rxq_q q = rxq_q (mux_rxq m) @ (if add then [ConnRx key] else [])"
    and "rxq_q q = rxq_q (mux_rxq m) \<or> rxq_q q = rxq_q (mux_rxq m) @ [ConnRx key] \<and> add"
    and "length (rxq_q (mux_rxq m)) \<le> MUXER_RXQ_SIZE \<Longrightarrow> length (rxq_q q) \<le> MUXER_RXQ_SIZE"
  using assms rxq_add_conn [of _ key m, OF refl] by (auto simp: queued_def)

text \<open>A closure that keeps the invariant of its connection.\<close>

definition closure_ok :: "(nat \<Rightarrow> 's vsock_connection \<Rightarrow> (vsock_error, 'r, 's vsock_connection) run) \<Rightarrow> bool" where
  "closure_ok f \<longleftrightarrow> (\<forall>t c r c'. conn_wf c \<longrightarrow> f t c = Some (Inr r, c') \<longrightarrow> conn_wf c' \<and> ident c' = ident c)"

lemma apply_ok:
  assumes ok: "mux_ok m" and f: "closure_ok f" and a: "apply_conn_mutation E key f (m, w) = Some (Inr r, m', w')"
  shows "mux_ok m'"
proof (cases r)
  case None
  with apply_summary [OF a] ok show ?thesis by auto
next
  case (Some r0)
  with apply_summary [OF a] obtain c t c0 c1 c2 where
    c: "map_of (conn_map m) key = Some c" and fc: "f t c = Some (Inr r0, c0)"
    and c1: "c1 = ack_local (env_stream E) (conn_state c) key c0"
    and m': "conn_map m' = AList.update key c2 (conn_map m)" "partial_command_map m' = partial_command_map m"
    and q: "c2 = c1 \<and> mux_rxq m' = queued key (\<not> has_pending_rx c \<and> has_pending_rx c1) m \<or>
            c2 = conn_kill c1 \<and> mux_rxq m' = queued key (\<not> has_pending_rx c \<or> \<not> has_pending_rx c1) m"
    by auto
  have wf: "conn_wf c" "local_port c = key_local key" "peer_port c = key_peer key"
    using ok c by (auto simp: mux_ok_def pool_ok_def)
  have wf0: "conn_wf c0" "ident c0 = ident c" using f wf(1) fc unfolding closure_ok_def by blast+
  have wf2: "conn_wf c2" "ident c2 = ident c"
    using q ack_local_wf(1,2) [OF wf0(1)] wf0(2) c1 by (auto simp: conn_wf_kill)
  have pool: "pool_ok (conn_map m')"
    unfolding m'(1) by (rule pool_ok_update) (use ok c wf wf2 in \<open>auto simp: mux_ok_def ident_def\<close>)
  define add where "add \<longleftrightarrow> (if c2 = c1 \<and> mux_rxq m' = queued key (\<not> has_pending_rx c \<and> has_pending_rx c1) m
    then \<not> has_pending_rx c \<and> has_pending_rx c1 else \<not> has_pending_rx c \<or> \<not> has_pending_rx c1)"
  have qd: "mux_rxq m' = queued key add m" and add: "has_pending_rx c2 \<Longrightarrow> \<not> has_pending_rx c \<Longrightarrow> add"
    using q by (auto simp: add_def)
  note qc = queued_cases [OF qd]
  have "synced_ok m'"
    unfolding synced_ok_def
  proof (intro impI allI)
    fix k d
    assume s: "rxq_synced (mux_rxq m')" and d: "map_of (conn_map m') k = Some d" "has_pending_rx d"
    from qc(1) [OF s] have s0: "rxq_synced (mux_rxq m)" and qq: "rxq_q (mux_rxq m') = rxq_q (mux_rxq m) @ (if add then [ConnRx key] else [])"
      by simp_all
    show "ConnRx k \<in> set (rxq_q (mux_rxq m'))"
    proof (cases "k = key")
      case True
      then have "d = c2" using d m' by (simp add: map_of_update)
      then show ?thesis
        using True add d(2) ok c s0 qq by (cases "has_pending_rx c") (auto simp: mux_ok_def synced_ok_def)
    next
      case False
      with d m' ok s0 qq show ?thesis by (auto simp: mux_ok_def synced_ok_def map_of_update)
    qed
  qed
  with pool qc(3) ok m'(2) show ?thesis by (simp add: mux_ok_def)
qed

lemma send_conn_ok: "stream_ok S sent \<Longrightarrow> closure_ok (send_conn S p)"
  unfolding closure_ok_def send_conn_def by (auto dest: send_pkt_wf)

lemma notify_conn_ok: "stream_ok S sent \<Longrightarrow> closure_ok (\<lambda>_. conn_notify S ev)"
  unfolding closure_ok_def by (metis notify_wf option.inject prod.inject)

lemma recv_conn_wf:
  assumes "conn_wf c" and "recv_conn S p t c = Some (Inr (r, p', pop), c')"
  shows "recv_wf c p (r, p', c')" and "pop \<longleftrightarrow> \<not> has_pending_rx c'"
  using assms recv_pkt_wf [OF assms(1), of p S t]
  by (auto simp: recv_conn_def split: prod.splits sum.splits abort.splits)

lemma recv_conn_ok: "closure_ok (recv_conn S p)"
  unfolding closure_ok_def using recv_conn_wf(1) by (fastforce simp: recv_wf_def)

section \<open>Receiving a packet ends\<close>

text \<open>How much work the queue still holds: an entry whose connection owes a reset, like a queued
  reset, ends the loop; any other entry is worth one more than the indications of its connection.\<close>

fun rx_weight :: "'s muxer \<Rightarrow> muxer_rx \<Rightarrow> nat" where
  "rx_weight m (RstPkt _ _) = 0"
| "rx_weight m (ConnRx k) =
     (case map_of (conn_map m) k of
        None \<Rightarrow> 1
      | Some c \<Rightarrow> if Rst \<in> rx_set (pending_rx c) then 0 else Suc (card (rx_set (pending_rx c))))"

definition rx_work :: "'s muxer \<Rightarrow> nat" where
  "rx_work m = sum_list (map (rx_weight m) (rxq_q (mux_rxq m)))"

lemma rxq_drop_fields [simp]:
  "conn_map (rxq_drop m) = conn_map m" "mux_cid (rxq_drop m) = mux_cid m" "rxq_q (mux_rxq (rxq_drop m)) = tl (rxq_q (mux_rxq m))"
  "rxq_synced (mux_rxq (rxq_drop m)) = rxq_synced (mux_rxq m)" "local_port_set (rxq_drop m) = local_port_set m"
  "partial_command_map (rxq_drop m) = partial_command_map m"
  by (simp_all add: rxq_drop_def rxq_pop_def)

lemma rx_weight_drop [simp]: "rx_weight (rxq_drop m) = rx_weight m"
proof
  fix rx show "rx_weight (rxq_drop m) rx = rx_weight m rx" by (cases rx) simp_all
qed

lemma mux_ok_drop:
  assumes ok: "mux_ok m" and q: "rxq_q (mux_rxq m) = ConnRx key # qs"
    and k: "\<And>c. rxq_synced (mux_rxq m) \<Longrightarrow> map_of (conn_map m) key = Some c \<Longrightarrow> has_pending_rx c \<Longrightarrow> ConnRx key \<in> set qs"
  shows "mux_ok (rxq_drop m)"
proof -
  have "ConnRx k \<in> set qs" if "rxq_synced (mux_rxq m)" "map_of (conn_map m) k = Some c" "has_pending_rx c" for k c
    using ok q k that by (cases "k = key") (auto simp: mux_ok_def synced_ok_def)
  then show ?thesis using ok q by (auto simp: mux_ok_def synced_ok_def)
qed

lemma recv_step:
  assumes ok: "mux_ok m" and q: "rxq_q (mux_rxq m) = ConnRx key # qs"
    and a: "apply_conn_mutation E key (recv_conn S p) (m, w) = Some (Inr (Some (r, p', pop)), m', w')"
  defines "m2 \<equiv> if pop then rxq_drop m' else m'"
  shows "mux_ok m2" and "r \<noteq> Inl Panic" and "r \<noteq> Inr () \<Longrightarrow> rx_work m2 < rx_work m"
    and "hdr_ok p \<Longrightarrow> hdr_ok p' \<and> src_port p' = key_local key \<and> dst_port p' = key_peer key"
proof -
  from apply_summary [OF a] obtain c t c0 c1 c2 where
    c: "map_of (conn_map m) key = Some c" and fc: "recv_conn S p t c = Some (Inr (r, p', pop), c0)"
    and c1: "c1 = ack_local (env_stream E) (conn_state c) key c0"
    and m': "conn_map m' = AList.update key c2 (conn_map m)"
    and qd: "c2 = c1 \<and> mux_rxq m' = queued key (\<not> has_pending_rx c \<and> has_pending_rx c1) m \<or>
            c2 = conn_kill c1 \<and> mux_rxq m' = queued key (\<not> has_pending_rx c \<or> \<not> has_pending_rx c1) m"
    by auto
  have wf: "conn_wf c" "local_port c = key_local key" "peer_port c = key_peer key"
    using ok c by (auto simp: mux_ok_def pool_ok_def)
  note rw = recv_conn_wf [OF wf(1) fc]
  have sub: "rx_set (pending_rx c0) \<subseteq> rx_set (pending_rx c)" and wf0: "conn_wf c0"
    using rw(1) by (simp_all add: recv_wf_def)
  have c10: "c1 = c0" using rw(1) c1 by (auto simp: recv_wf_def ack_local_def)
  have had: "has_pending_rx c" if "has_pending_rx c0"
    using that sub wf(1) wf0 rx_empty_iff by (auto simp: has_pending_rx_def conn_wf_def)
  have cases: "c2 = c0 \<and> mux_rxq m' = queued key False m \<or>
      c2 = conn_kill c0 \<and> mux_rxq m' = queued key (\<not> has_pending_rx c0) m"
    using qd had unfolding c10 by (cases "has_pending_rx c0") auto
  have ok': "mux_ok m'" by (rule apply_ok [OF ok recv_conn_ok a])
  have q': "\<exists>xs. rxq_q (mux_rxq m') = ConnRx key # qs @ xs \<and> (xs = [] \<or> xs = [ConnRx key] \<and> c2 = conn_kill c0 \<and> pop)"
    using cases queued_cases(2) [of "mux_rxq m'" key _ m] q rw(2) by fastforce
  then obtain xs where xs: "rxq_q (mux_rxq m') = ConnRx key # qs @ xs" "xs = [] \<or> xs = [ConnRx key] \<and> c2 = conn_kill c0 \<and> pop" by blast
  have mo: "map_of (conn_map m') key = Some c2" by (simp add: m' map_of_update)
  show "mux_ok m2"
  proof (cases pop)
    case True
    have "ConnRx key \<in> set (qs @ xs)" if "rxq_synced (mux_rxq m')" "has_pending_rx c2"
    proof -
      have np: "\<not> has_pending_rx c0" using True rw(2) by simp
      then have "c2 = conn_kill c0" "mux_rxq m' = queued key True m" using cases that(2) by auto
      from queued_cases(1) [OF this(2) that(1)] xs(1) q show ?thesis by auto
    qed
    with mux_ok_drop [OF ok' xs(1)] mo True show ?thesis by (auto simp: m2_def)
  next
    case False
    with ok' show ?thesis by (simp add: m2_def)
  qed
  show "r \<noteq> Inl Panic" using rw(1) by (simp add: recv_wf_def)
  show "hdr_ok p \<Longrightarrow> hdr_ok p' \<and> src_port p' = key_local key \<and> dst_port p' = key_peer key"
    using rw(1) wf by (simp add: recv_wf_def)
  assume err: "r \<noteq> Inr ()"
  have rst: "Rst \<notin> rx_set (pending_rx c)" and strict: "has_pending_rx c0 \<Longrightarrow> Rw \<in> rx_set (pending_rx c) - rx_set (pending_rx c0)"
    using rw(1) err by (simp_all add: recv_wf_def)
  have wk: "rx_weight m (ConnRx key) = Suc (card (rx_set (pending_rx c)))" using c rst by simp
  have wk': "rx_weight m' (ConnRx key) \<le> Suc (card (rx_set (pending_rx c0)))" by (simp add: mo) (use cases in \<open>auto simp: conn_kill_def pend_def\<close>)
  have card_le: "card (rx_set (pending_rx c0)) \<le> card (rx_set (pending_rx c))" by (rule card_mono [OF finite_rx_set sub])
  have others: "rx_weight m' rx \<le> rx_weight m rx" for rx
  proof (cases rx)
    case (ConnRx k)
    with wk wk' card_le show ?thesis
      by (cases "k = key") (simp_all add: m' map_of_update)
  qed simp
  have sums: "sum_list (map (rx_weight m') qs) \<le> sum_list (map (rx_weight m) qs)"
    by (rule sum_list_mono) (rule others)
  have zero: "sum_list (map (rx_weight m') xs) = 0"
    using xs(2) mo by (auto simp: conn_kill_def pend_def)
  have work: "rx_work m = rx_weight m (ConnRx key) + sum_list (map (rx_weight m) qs)"
    "rx_work m2 = (if pop then 0 else rx_weight m' (ConnRx key)) + sum_list (map (rx_weight m') qs) + sum_list (map (rx_weight m') xs)"
    by (simp_all add: m2_def rx_work_def xs(1) q del: rx_weight.simps)
  show "rx_work m2 < rx_work m"
  proof (cases pop)
    case True
    then show ?thesis unfolding work zero wk using sums by simp
  next
    case False
    with rw(2) strict sub have "card (rx_set (pending_rx c0)) < card (rx_set (pending_rx c))"
      by (intro psubset_card_mono) auto
    with wk wk' have "rx_weight m' (ConnRx key) < rx_weight m (ConnRx key)" by linarith
    with False sums show ?thesis unfolding work zero by (simp del: rx_weight.simps)
  qed
qed

lemma apply_total:
  assumes ok: "mux_ok m" and f: "\<And>t c. conn_wf c \<Longrightarrow> \<exists>r c'. f t c = Some (Inr r, c')"
  shows "\<exists>r m' w'. apply_conn_mutation E key f (m, w) = Some (Inr r, m', w')"
proof (cases "map_of (conn_map m) key")
  case (Some c)
  then have "conn_wf c" using ok by (auto simp: mux_ok_def pool_ok_def)
  obtain t0 w0 t1 w1 where cl: "env_clock E w = (t0, w0)" "env_clock E w0 = (t1, w1)" by fastforce
  obtain t2 w2 where cl2: "env_clock E w1 = (t2, w2)" by fastforce
  from f [OF \<open>conn_wf c\<close>] obtain r c' where "f t1 c = Some (Inr r, c')" by blast
  with Some cl cl2 have "\<exists>x. apply_conn_mutation E key f (m, w) = Some (Inr (Some r), x)"
    unfolding apply_conn_mutation_def Let_def by simp
  then show ?thesis by auto
qed (simp add: apply_conn_mutation_def)

lemma recv_conn_total: "conn_wf c \<Longrightarrow> \<exists>r c'. recv_conn S p t c = Some (Inr r, c')"
  using recv_pkt_wf [of c p S t]
  by (auto simp: recv_conn_def recv_wf_def split: prod.splits sum.splits abort.splits)

lemma remove_connection_ok:
  assumes ok: "mux_ok m" and r: "remove_connection E key (m, w) = (m', w')"
  shows "mux_ok m' \<and> map_of (conn_map m') key = None \<and> local_port_set m' \<subseteq> local_port_set m"
proof -
  have del: "mux_ok (m\<lparr>conn_map := AList.delete key (conn_map m)\<rparr>)"
    using ok length_delete_le [of key "conn_map m"]
    by (auto simp: mux_ok_def synced_ok_def pool_ok_def delete_conv' distinct_delete split: if_splits)
  show ?thesis
  proof (cases "map_of (conn_map m) key")
    case None
    with r ok show ?thesis by (auto simp: remove_connection_def free_local_port_def)
  next
    case (Some c)
    obtain x m1 w1 where rl: "remove_listener E (st_fd (env_stream E) (stream c)) (m\<lparr>conn_map := AList.delete key (conn_map m)\<rparr>, w) = (x, m1, w1)"
      by (cases "remove_listener E (st_fd (env_stream E) (stream c)) (m\<lparr>conn_map := AList.delete key (conn_map m)\<rparr>, w)")
    from remove_listener_cases [OF rl] obtain l where "m1 = m\<lparr>conn_map := AList.delete key (conn_map m)\<rparr>\<lparr>listener_map := l\<rparr>" by blast
    with r Some rl del show ?thesis by (auto simp: remove_connection_def free_local_port_def delete_conv')
  qed
qed

text \<open>The loop returns: with a packet, or with no data once the queue is empty.\<close>

lemma mux_recv_loop_ends:
  assumes "mux_ok m" and "hdr_ok p"
  shows "\<exists>r p' m' w'. mux_recv_loop E (p, m, w) = Some (r, p', m', w') \<and> mux_ok m' \<and> hdr_ok p' \<and>
    (r = Inr () \<or> r = Inl (Err NoData) \<and> rxq_is_empty (mux_rxq m')) \<and> local_port_set m' \<subseteq> local_port_set m"
  using assms
proof (induction "rx_work m" arbitrary: m p w rule: less_induct)
  case less
  note ok = less.prems(1)
  show ?case
  proof (cases "rxq_q (mux_rxq m)")
    case Nil
    then show ?thesis
      using less.prems by (subst mux_recv_loop.simps) (simp add: rxq_peek_def rxq_is_empty_def)
  next
    case (Cons rx qs)
    show ?thesis
    proof (cases rx)
      case (RstPkt lport pport)
      have "mux_ok (rxq_drop m)"
      proof -
        have "ConnRx k \<in> set qs" if "rxq_synced (mux_rxq m)" "map_of (conn_map m) k = Some c" "has_pending_rx c" for k c
          using ok Cons RstPkt that by (auto simp: mux_ok_def synced_ok_def)
        then show ?thesis using ok Cons by (auto simp: mux_ok_def synced_ok_def)
      qed
      moreover have "hdr_ok (rst_pkt (mux_cid m) lport pport p)" using less.prems(2) by (simp add: rst_pkt_def pkt_fields)
      ultimately show ?thesis
        using Cons RstPkt by (subst mux_recv_loop.simps) (simp add: rxq_peek_def)
    next
      case (ConnRx key)
      note q = Cons [unfolded ConnRx]
      have peek: "rxq_peek (mux_rxq m) = Some (ConnRx key)" using q by (simp add: rxq_peek_def)
      from apply_total [OF ok, of "recv_conn (env_stream E) p" E key w] recv_conn_total obtain r m1 w1 where
        a: "apply_conn_mutation E key (recv_conn (env_stream E) p) (m, w) = Some (Inr r, m1, w1)" by blast
      show ?thesis
      proof (cases r)
        case None
        with apply_summary [OF a] have none: "map_of (conn_map m) key = None" "m1 = m" by auto
        have "mux_ok (rxq_drop m)" by (rule mux_ok_drop [OF ok q]) (simp add: none)
        moreover have "rx_work (rxq_drop m) < rx_work m" by (simp add: rx_work_def q none)
        ultimately show ?thesis
          using less.hyps [of "rxq_drop m" p w1] less.prems(2) None none a
          by (subst mux_recv_loop.simps) (simp add: peek)
      next
        case (Some res)
        obtain r0 p1 pop where res: "res = (r0, p1, pop)" by (cases res)
        define m2 where "m2 = (if pop then rxq_drop m1 else m1)"
        note st = recv_step [OF ok q a [unfolded Some res], folded m2_def]
        have ps: "local_port_set m2 = local_port_set m" using apply_ports [OF a] by (simp add: m2_def)
        show ?thesis
        proof (cases "r0 = Inr ()")
          case True
          obtain m3 w3 where rc: "remove_connection E \<lparr>key_local = src_port p1, key_peer = dst_port p1\<rparr> (m2, w1) = (m3, w3)"
            by fastforce
          with True a Some res peek remove_connection_ok [OF st(1) rc] st(1,4) less.prems(2) ps show ?thesis
            by (subst mux_recv_loop.simps) (simp add: m2_def [symmetric])
        next
          case False
          from less.hyps [OF st(3) [OF False] st(1), of p1 w1] False a Some res peek st(4) less.prems(2) ps show ?thesis
            by (subst mux_recv_loop.simps) (simp add: m2_def [symmetric])
        qed
      qed
    qed
  qed
qed

section \<open>Sweeping the kill queue ends\<close>

text \<open>What is relied on of the clock: it does not run backwards.\<close>

definition clock_ok :: "('s, 'w) mux_env \<Rightarrow> ('w \<Rightarrow> nat) \<Rightarrow> bool" where
  "clock_ok E clk \<longleftrightarrow> (\<forall>w t w'. env_clock E w = (t, w') \<longrightarrow> clk w \<le> t \<and> t \<le> clk w')"

definition expiries :: "'s muxer \<Rightarrow> nat option list" where
  "expiries m = map (expiry \<circ> snd) (conn_map m)"

definition live :: "nat \<Rightarrow> nat option list \<Rightarrow> nat" where
  "live now es = length (filter (\<lambda>e. \<exists>t. e = Some t \<and> now < t) es)"

lemma map_snd_update:
  assumes "map_of al k = Some v" and "g v' = g v"
  shows "map (g \<circ> snd) (AList.update k v' al) = map (g \<circ> snd) al"
  using assms by (induction al) auto

lemma kill_connection_ports [simp]: "local_port_set (kill_connection key m) = local_port_set m"
  by (auto simp: kill_connection_def Let_def split: option.splits)

lemma kill_connection_expiries [simp]: "expiries (kill_connection key m) = expiries m"
proof -
  have "expiry (conn_kill c) = expiry c" for c :: "'a vsock_connection" by (simp add: conn_kill_def pend_def)
  then show ?thesis
    by (auto simp: kill_connection_def Let_def expiries_def map_snd_update split: option.splits)
qed

lemma sweep_expired_spec:
  assumes clk: "clock_ok E clk" and "sweep_expired E (m, w) = (m', w')"
  shows "clk w \<le> clk w' \<and> expiries m' = expiries m \<and> killq_synced (mux_killq m') = killq_synced (mux_killq m) \<and>
    (mux_ok m \<longrightarrow> mux_ok m') \<and> local_port_set m' = local_port_set m \<and>
    (killq_is_empty (mux_killq m') \<longrightarrow> (\<forall>item \<in> set (killq_q (mux_killq m)). kill_time item < clk w'))"
  using assms(2)
proof (induction "length (killq_q (mux_killq m))" arbitrary: m w rule: less_induct)
  case less
  obtain now w1 where cl: "env_clock E w = (now, w1)" by fastforce
  have t: "clk w \<le> now" "now \<le> clk w1" using clk cl by (auto simp: clock_ok_def)
  show ?case
  proof (cases "fst (killq_pop now (mux_killq m))")
    case None
    then have e: "(m', w') = (m, w1)"
      using less.prems cl by (subst (asm) sweep_expired.simps) (auto split: prod.splits)
    from e t show ?thesis by (auto simp: killq_is_empty_def)
  next
    case (Some key)
    then obtain item items where q: "killq_q (mux_killq m) = item # items" "kill_time item < now" "kill_key item = key"
      and pop: "killq_pop now (mux_killq m) = (Some key, mux_killq m\<lparr>killq_q := items\<rparr>)"
      by (auto simp: killq_pop_def split: list.splits if_splits)
    define m1 where "m1 = m\<lparr>mux_killq := mux_killq m\<lparr>killq_q := items\<rparr>\<rparr>"
    define kw where "kw = (case map_of (conn_map m) key of None \<Rightarrow> (False, w1)
      | Some c \<Rightarrow> let (t, w) = env_clock E w1 in (has_expired t c, w))"
    define m2 where "m2 = (if fst kw then kill_connection key m1 else m1)"
    have clk2: "clk w1 \<le> clk (snd kw)"
      using clk unfolding kw_def clock_ok_def by (auto split: option.splits prod.splits) (meson order_trans)
    have step: "sweep_expired E (m2, snd kw) = (m', w')"
      using less.prems cl pop
      by (subst (asm) sweep_expired.simps, cases "map_of (conn_map m) key")
        (auto simp: m1_def m2_def kw_def Let_def case_prod_beta split: if_splits)
    have m2: "killq_q (mux_killq m2) = items" "killq_synced (mux_killq m2) = killq_synced (mux_killq m)" "expiries m2 = expiries m"
      "mux_ok m \<Longrightarrow> mux_ok m2" "local_port_set m2 = local_port_set m"
      by (simp_all add: m2_def m1_def kill_connection_ok) (simp_all add: expiries_def)
    have l: "length (killq_q (mux_killq m2)) < length (killq_q (mux_killq m))" by (simp add: m2 q)
    from less.hyps [OF l step] m2 q t clk2 show ?thesis by auto
  qed
qed

lemma killq_collect_spec:
  assumes clk: "clock_ok E clk" and "killq_collect (env_clock E) conns q w = ((q', synced), w')"
  shows "clk w \<le> clk w' \<and>
    (\<forall>item \<in> set q'. item \<in> set q \<or> Some (kill_time item) \<in> set (map (expiry \<circ> snd) conns) \<and> clk w < kill_time item) \<and>
    (\<not> synced \<longrightarrow> MUXER_KILLQ_SIZE \<le> length q')"
  using assms(2)
proof (induction conns arbitrary: q w)
  case Nil
  then show ?case by auto
next
  case (Cons kc conns)
  obtain key c where kc: "kc = (key, c)" by fastforce
  obtain now w1 where cl: "env_clock E w = (now, w1)" by fastforce
  have t: "clk w \<le> now" "now \<le> clk w1" using clk cl by (auto simp: clock_ok_def)
  show ?case
  proof (cases "expiry c")
    case None
    with Cons.prems kc cl have "killq_collect (env_clock E) conns q w1 = ((q', synced), w')" by simp
    from Cons.IH [OF this] t kc show ?thesis by auto
  next
    case (Some k)
    consider "\<not> will_expire now c" | "will_expire now c" "MUXER_KILLQ_SIZE \<le> length q"
      | "will_expire now c" "\<not> MUXER_KILLQ_SIZE \<le> length q" by blast
    then show ?thesis
    proof cases
      case 1
      with Cons.prems kc cl Some have "killq_collect (env_clock E) conns q w1 = ((q', synced), w')" by simp
      from Cons.IH [OF this] t kc show ?thesis by auto
    next
      case 2
      with Cons.prems kc cl Some t show ?thesis by auto
    next
      case 3
      with Cons.prems kc cl Some have
        "killq_collect (env_clock E) conns (q @ [\<lparr>kill_key = key, kill_time = k\<rparr>]) w1 = ((q', synced), w')" by simp
      from Cons.IH [OF this] 3 t kc Some show ?thesis by (auto simp: will_expire_def)
    qed
  qed
qed

lemma live_mono: "a \<le> b \<Longrightarrow> live b es \<le> live a es"
  unfolding live_def by (induction es) auto

lemma live_strict: "Some t \<in> set es \<Longrightarrow> a < t \<Longrightarrow> t < b \<Longrightarrow> live b es < live a es"
proof (induction es)
  case (Cons e es)
  have le: "live b es \<le> live a es" by (rule live_mono) (use Cons.prems in simp)
  show ?case
  proof (cases "e = Some t")
    case True
    with Cons.prems le show ?thesis by (auto simp: live_def)
  next
    case False
    with Cons have "live b es < live a es" by auto
    then show ?thesis using Cons.prems by (auto simp: live_def)
  qed
qed simp

text \<open>A rebuilt queue is either complete, or full of connections whose time was still ahead: by the
  time they have all been swept, fewer connections are left to expire.\<close>

lemma collect_fresh:
  assumes clk: "clock_ok E clk" and co: "killq_collect (env_clock E) (conn_map m1) [] w1 = ((q2, sy), w2)"
    and m2: "m2 = m1\<lparr>mux_killq := \<lparr>killq_q = sort_key kill_time q2, killq_synced = sy\<rparr>\<rparr>"
  shows "killq_synced (mux_killq m2) \<or>
      (\<exists>item \<in> set (killq_q (mux_killq m2)). Some (kill_time item) \<in> set (expiries m2) \<and> clk w1 < kill_time item)"
proof (cases sy)
  case False
  note cs = killq_collect_spec [OF clk co]
  from False cs have "q2 \<noteq> []" by (auto simp: MUXER_KILLQ_SIZE_def)
  then obtain i where "i \<in> set q2" by (cases q2) auto
  with cs show ?thesis by (auto simp: m2 expiries_def)
qed (simp add: m2)

lemma sweep_killq_rebuilt:
  assumes clk: "clock_ok E clk" and ok: "mux_ok m" and "clk w0 \<le> clk w"
    and "killq_synced (mux_killq m) \<or>
      (\<exists>item \<in> set (killq_q (mux_killq m)). Some (kill_time item) \<in> set (expiries m) \<and> clk w0 < kill_time item)"
  shows "\<exists>m' w'. sweep_killq E (m, w) = Some (m', w') \<and> mux_ok m' \<and> local_port_set m' = local_port_set m"
  using assms(2-)
proof (induction "live (clk w0) (expiries m)" arbitrary: m w w0 rule: less_induct)
  case less
  obtain m1 w1 where sw: "sweep_expired E (m, w) = (m1, w1)" by fastforce
  note sp = sweep_expired_spec [OF clk sw]
  show ?case
  proof (cases "killq_is_empty (mux_killq m1) \<and> \<not> killq_synced (mux_killq m1)")
    case False
    then have "sweep_killq E (m, w) = Some (m1, w1)" by (subst sweep_killq.simps) (auto simp: sw)
    with sp less.prems(1) show ?thesis by simp
  next
    case True
    from True sp less.prems(3) obtain item where item: "item \<in> set (killq_q (mux_killq m))"
      "Some (kill_time item) \<in> set (expiries m)" "clk w0 < kill_time item" by auto
    have fewer: "live (clk w1) (expiries m1) < live (clk w0) (expiries m)"
      using live_strict [OF item(2,3), of "clk w1"] sp True item(1) by auto
    obtain q2 sy w2 where co: "killq_collect (env_clock E) (conn_map m1) [] w1 = ((q2, sy), w2)" by (metis prod.collapse)
    define m2 where "m2 = m1\<lparr>mux_killq := \<lparr>killq_q = sort_key kill_time q2, killq_synced = sy\<rparr>\<rparr>"
    have step: "sweep_killq E (m, w) = sweep_killq E (m2, w2)"
      using True by (subst sweep_killq.simps) (simp add: sw killq_from_conn_map_def co m2_def)
    note cs = killq_collect_spec [OF clk co]
    have e2: "expiries m2 = expiries m1" by (simp add: m2_def expiries_def)
    have c1: "live (clk w1) (expiries m2) < live (clk w0) (expiries m)" using fewer e2 by simp
    have c2: "mux_ok m2" using sp less.prems(1) by (simp add: m2_def)
    have c3: "clk w1 \<le> clk w2" using cs by simp
    note c4 = collect_fresh [OF clk co m2_def]
    from less.hyps [OF c1 c2 c3 c4] step sp show ?thesis by (simp add: m2_def)
  qed
qed

lemma sweep_killq_ends:
  assumes clk: "clock_ok E clk" and ok: "mux_ok m"
  shows "\<exists>m' w'. sweep_killq E (m, w) = Some (m', w') \<and> mux_ok m' \<and> local_port_set m' = local_port_set m"
proof -
  obtain m1 w1 where sw: "sweep_expired E (m, w) = (m1, w1)" by fastforce
  note sp = sweep_expired_spec [OF clk sw]
  obtain q2 sy w2 where co: "killq_collect (env_clock E) (conn_map m1) [] w1 = ((q2, sy), w2)" by (metis prod.collapse)
  define m2 where "m2 = m1\<lparr>mux_killq := \<lparr>killq_q = sort_key kill_time q2, killq_synced = sy\<rparr>\<rparr>"
  note cs = killq_collect_spec [OF clk co]
  from sweep_killq_rebuilt [OF clk _ _ collect_fresh [OF clk co m2_def]] sp cs ok have "\<exists>m' w'. sweep_killq E (m2, w2) = Some (m', w') \<and> mux_ok m' \<and> local_port_set m' = local_port_set m"
    by (simp add: m2_def)
  with sp ok show ?thesis
    by (subst sweep_killq.simps) (simp add: sw killq_from_conn_map_def co m2_def)
qed

section \<open>Every operation returns and keeps the invariant\<close>

text \<open>A connection is added: the pool has room for it, and it is queued if it is due a packet.\<close>

lemma pool_ok_add:
  assumes "pool_ok conns" and "length conns < MAX_CONNECTIONS" and "conn_wf c" and "local_port c = key_local key" "peer_port c = key_peer key"
  shows "pool_ok (AList.update key c conns)"
proof -
  have "length (AList.update key c conns) \<le> Suc (length conns)" by (induction conns) auto
  with assms show ?thesis
    unfolding pool_ok_def by (auto simp: map_of_update distinct_update split: if_splits)
qed

lemma add_connection_ok:
  assumes clk: "clock_ok E clk" and ok: "mux_ok m" and c: "conn_wf c" "local_port c = key_local key" "peer_port c = key_peer key"
  shows "\<exists>r m' w'. add_connection E key c (m, w) = Some (r, m', w') \<and> r \<noteq> Inl Panic \<and> mux_ok m' \<and> local_port_set m' = local_port_set m"
proof -
  from sweep_killq_ends [OF clk ok] obtain m1 w1 where sw: "sweep_killq E (m, w) = Some (m1, w1)" and ok1: "mux_ok m1" and ps1: "local_port_set m1 = local_port_set m" by blast
  obtain r m2 w2 where al: "add_listener E (st_fd (env_stream E) (stream c)) (LConnection key (get_polled_evset c)) (m1, w1) = (r, m2, w2)"
    by (metis prod.collapse)
  have m2: "mux_ok m2" "conn_map m2 = conn_map m1" "local_port_set m2 = local_port_set m1"
    using add_listener_cases [OF al] ok1 by auto
  define m3 where "m3 = (if has_pending_rx c then rxq_add (ConnRx key) m2 else m2)"
  have m3: "mux_ok m3" "conn_map m3 = conn_map m1" using m2 by (simp_all add: m3_def mux_ok_rxq_add)
  have "mux_ok (put_conn key c m3)" if "length (conn_map m1) < MAX_CONNECTIONS"
  proof -
    have "pool_ok (conn_map (put_conn key c m3))"
      using m3 that c by (auto simp: mux_ok_def intro: pool_ok_add)
    moreover have "rxq_synced (mux_rxq m3) \<Longrightarrow> has_pending_rx c \<Longrightarrow> ConnRx key \<in> set (rxq_q (mux_rxq m3))"
      using rxq_add_conn(1) [of "mux_rxq m3" key m2] by (simp add: m3_def)
    ultimately show ?thesis
      using m3(1) by (auto simp: mux_ok_def synced_ok_def map_of_update)
  qed
  then show ?thesis
    using sw al ok1 m2 ps1 by (auto simp: add_connection_def m3_def Let_def split: sum.splits)
qed

lemma new_conn_wf: "conn_wf (new_peer_init s lc pc lp pp ba)" "conn_wf (new_local_init s lc pc lp pp)"
proof -
  have "rx_set (rx_from Response) = {Response}" "rx_set (rx_from Request) = {Request}" by (auto simp: rx_set_def)
  then show "conn_wf (new_peer_init s lc pc lp pp ba)" "conn_wf (new_local_init s lc pc lp pp)"
    by (simp_all add: conn_wf_def new_peer_init_def new_local_init_def txbuf_new_ok)
qed

lemma enq_rst_ports [simp]: "local_port_set (enq_rst lp pp m) = local_port_set m"
  by (simp add: enq_rst_def)

lemma enq_rst_ok: "mux_ok m \<Longrightarrow> mux_ok (enq_rst lp pp m)"
  by (simp add: enq_rst_def mux_ok_rxq_add)

lemma handle_peer_request_ok:
  assumes clk: "clock_ok E clk" and ok: "mux_ok m"
  shows "\<exists>m' w'. handle_peer_request_pkt E p (m, w) = Some (Inr (), m', w') \<and> mux_ok m' \<and> local_port_set m' \<subseteq> local_port_set m"
proof -
  define key where "key = \<lparr>key_local = dst_port p, key_peer = src_port p\<rparr>"
  have ac: "\<exists>r m' w'. add_connection E key (new_peer_init s VSOCK_HOST_CID (mux_cid m) (dst_port p) (src_port p) (pkt_buf_alloc p)) (m, w1)
      = Some (r, m', w') \<and> r \<noteq> Inl Panic \<and> mux_ok m' \<and> local_port_set m' = local_port_set m" for s w1
    by (rule add_connection_ok [OF clk ok new_conn_wf(1)]) (simp_all add: new_peer_init_def key_def)
  obtain r w1 where co: "env_connect E (host_sock_path m @ ''_'' @ show_dec (unat (dst_port p))) w = (r, w1)" by fastforce
  show ?thesis
  proof (cases r)
    case (Inl e)
    with co ok show ?thesis by (simp add: handle_peer_request_pkt_def enq_rst_ok)
  next
    case (Inr s)
    obtain r2 w2 where nb: "env_set_nonblocking E (st_fd (env_stream E) s) w1 = (r2, w2)" by fastforce
    from ac [of s w2] obtain r3 m3 w3 where a: "add_connection E key
        (new_peer_init s VSOCK_HOST_CID (mux_cid m) (dst_port p) (src_port p) (pkt_buf_alloc p)) (m, w2) = Some (r3, m3, w3)"
      "r3 \<noteq> Inl Panic" "mux_ok m3" "local_port_set m3 = local_port_set m" by blast
    with co Inr nb ok show ?thesis
      by (auto simp: handle_peer_request_pkt_def key_def enq_rst_ok split: sum.splits abort.splits)
  qed
qed

lemma mux_send_ok:
  assumes S: "stream_ok (env_stream E) sent" and clk: "clock_ok E clk" and ok: "mux_ok m" and fits: "pkt_fits p"
  shows "\<exists>m' w'. mux_send_pkt E p (m, w) = Some (Inr (), m', w') \<and> mux_ok m' \<and> local_port_set m' \<subseteq> local_port_set m"
proof -
  define key where "key = \<lparr>key_local = dst_port p, key_peer = src_port p\<rparr>"
  obtain m1 w1 where rc: "remove_connection E key (m, w) = (m1, w1)" by fastforce
  have tot: "\<exists>r c'. send_conn (env_stream E) p t c = Some (Inr r, c')" if "conn_wf c" for t c
    using send_pkt_no_panic [OF S that fits] by (auto simp: send_conn_def)
  from apply_total [OF ok, of "send_conn (env_stream E) p" E key w] tot obtain r m2 w2 where
    a: "apply_conn_mutation E key (send_conn (env_stream E) p) (m, w) = Some (Inr r, m2, w2)" by blast
  show ?thesis
    using handle_peer_request_ok [OF clk ok, of p w] remove_connection_ok [OF ok rc] apply_ok [OF ok send_conn_ok [OF S] a] ok
      apply_ports [OF a]
      rc a by (auto simp: mux_send_pkt_def key_def [symmetric] enq_rst_ok)
qed

lemma rxq_collect_spec:
  assumes "rxq_collect conns q = q'" and "length q \<le> MUXER_RXQ_SIZE"
  shows "length (rxq_q q') \<le> MUXER_RXQ_SIZE \<and> set q \<subseteq> set (rxq_q q') \<and>
    (rxq_synced q' \<longrightarrow> (\<forall>k c. (k, c) \<in> set conns \<longrightarrow> has_pending_rx c \<longrightarrow> ConnRx k \<in> set (rxq_q q')))"
  using assms
proof (induction conns q arbitrary: q' rule: rxq_collect.induct)
  case (2 key conn conns q)
  show ?case
  proof (cases "has_pending_rx conn")
    case False
    with 2 show ?thesis by auto
  next
    case T: True
    show ?thesis
    proof (cases "length q \<ge> MUXER_RXQ_SIZE")
      case True
      with T 2 show ?thesis by auto
    next
      case False
      with T 2(2) [of q'] 2(3,4) show ?thesis by auto
    qed
  qed
qed auto

lemma rxq_rebuild_ok:
  assumes "mux_ok m"
  shows "mux_ok (m\<lparr>mux_rxq := rxq_from_conn_map (conn_map m)\<rparr>)"
  using assms rxq_collect_spec [of "conn_map m" "[]", OF refl]
  by (auto simp: mux_ok_def synced_ok_def rxq_from_conn_map_def dest: map_of_SomeD)

lemma mux_recv_ok:
  assumes ok: "mux_ok m" and p: "hdr_ok p"
  shows "\<exists>r p' m' w'. mux_recv_pkt E (p, m, w) = Some (r, p', m', w') \<and> mux_ok m' \<and> hdr_ok p' \<and>
    (r = Inr () \<or> r = Inl (Err NoData) \<and> rxq_is_empty (mux_rxq m')) \<and> local_port_set m' \<subseteq> local_port_set m"
  using mux_recv_loop_ends [OF ok p, of E w] mux_recv_loop_ends [OF rxq_rebuild_ok [OF ok] p, of E w]
  by (simp add: mux_recv_pkt_def)

lemma queue_rst_ok: "mux_ok m \<Longrightarrow> mux_ok (queue_rst_for_connections conns m)"
  unfolding queue_rst_for_connections_def by (induction conns arbitrary: m) (auto simp: mux_ok_rxq_add)

lemma pending_seen:
  assumes "mux_ok m" and "map_of (conn_map m) k = Some c" and "has_pending_rx c"
  shows "mux_has_pending_rx m"
  using assms by (auto simp: mux_ok_def synced_ok_def mux_has_pending_rx_def rxq_is_empty_def)

end
