(* ===== verification/Vsock_Events.thy ===== *)
theory Vsock_Events
  imports Vsock_Muxer
begin

text \<open>
  The events of the vsock multiplexer,
  \<^verbatim>\<open>src/uffd-cow-gpt/cloud-hypervisor/virtio-devices/src/vsock/unix/muxer.rs\<close>: dispatching an epoll event to
  its listener, accepting a host connection and reading the command that names its port, and the
  construction of the multiplexer. The properties of the multiplexer as a whole are at the end.
\<close>

section \<open>The command of a host connection\<close>

text \<open>Decoding UTF-8 to code points, with the sequences the Rust library accepts.\<close>

definition cont :: "nat \<Rightarrow> bool" where
  "cont b \<longleftrightarrow> 128 \<le> b \<and> b \<le> 191"

fun utf8_decode :: "nat list \<Rightarrow> nat list option" where
  "utf8_decode [] = Some []"
| "utf8_decode (a # bs) =
     (if a < 128 then map_option (Cons a) (utf8_decode bs)
      else case bs of
        b # bs2 \<Rightarrow>
          if 194 \<le> a \<and> a \<le> 223
          then if cont b then map_option (Cons ((a - 192) * 64 + (b - 128))) (utf8_decode bs2) else None
          else (case bs2 of
            c # bs3 \<Rightarrow>
              if 224 \<le> a \<and> a \<le> 239
              then if cont b \<and> cont c \<and> (a = 224 \<longrightarrow> 160 \<le> b) \<and> (a = 237 \<longrightarrow> b \<le> 159)
                   then map_option (Cons ((a - 224) * 4096 + (b - 128) * 64 + (c - 128))) (utf8_decode bs3)
                   else None
              else (case bs3 of
                d # bs4 \<Rightarrow>
                  if 240 \<le> a \<and> a \<le> 244 \<and> cont b \<and> cont c \<and> cont d \<and> (a = 240 \<longrightarrow> 144 \<le> b) \<and> (a = 244 \<longrightarrow> b \<le> 143)
                  then map_option (Cons ((a - 240) * 262144 + (b - 128) * 4096 + (c - 128) * 64 + (d - 128))) (utf8_decode bs4)
                  else None
              | [] \<Rightarrow> None)
          | [] \<Rightarrow> None)
      | [] \<Rightarrow> None)"

definition is_whitespace :: "nat \<Rightarrow> bool" where
  "is_whitespace c \<longleftrightarrow>
     9 \<le> c \<and> c \<le> 13 \<or> c = 32 \<or> c = 133 \<or> c = 160 \<or> c = 5760 \<or> 8192 \<le> c \<and> c \<le> 8202 \<or> c = 8232 \<or>
     c = 8233 \<or> c = 8239 \<or> c = 8287 \<or> c = 12288"

definition trim :: "nat list \<Rightarrow> nat list" where
  "trim cs = rev (dropWhile is_whitespace (rev (dropWhile is_whitespace cs)))"

definition parse_u32 :: "nat list \<Rightarrow> u32 option" where
  "parse_u32 cs = (if list_all (\<lambda>c. c < 128) cs then from_str_radix 10 (map char_of cs) else None)"

fun position :: "'a \<Rightarrow> 'a list \<Rightarrow> nat option" where
  "position x [] = None"
| "position x (y # ys) = (if y = x then Some 0 else map_option Suc (position x ys))"

definition to_ascii_lowercase :: "u8 \<Rightarrow> u8" where
  "to_ascii_lowercase b = (if 65 \<le> b \<and> b \<le> 90 then b + 32 else b)"

definition would_block :: io_error where
  "would_block = Custom KWouldBlock ''''"

definition parse_port_from_read_command :: "partial_command \<Rightarrow> (mux_error, u32) outcome" where
  "parse_port_from_read_command command =
     (let connect_prefix = as_bytes ''connect '';
          opt_new_line_position = position 10 (take (cmd_len command) (cmd_buf command)) in
      if cmd_len command < length connect_prefix
      then (case opt_new_line_position of
              Some _ \<Rightarrow> Inl (Err InvalidPortRequest)
            | None \<Rightarrow> Inl (Err (UnixRead would_block)))
      else if map to_ascii_lowercase (take (length connect_prefix) (cmd_buf command)) \<noteq> map to_ascii_lowercase connect_prefix
      then Inl (Err InvalidPortRequest)
      else if length (cmd_buf command) = cmd_len command \<and> opt_new_line_position = None
      then Inl (Err InvalidPortRequest)
      else case opt_new_line_position of
        None \<Rightarrow> Inl (Err (UnixRead would_block))
      | Some new_line_position \<Rightarrow>
          if new_line_position < length connect_prefix then Inl Panic
          else ok_or InvalidPortRequest
            (Option.bind
              (utf8_decode (map unat (drop (length connect_prefix) (take new_line_position (cmd_buf command)))))
              (\<lambda>cs. parse_u32 (trim cs))))"

definition read_local_stream_port ::
  "'s stream_ops \<Rightarrow> partial_command \<Rightarrow> 's \<Rightarrow> (mux_error, u32) outcome \<times> partial_command \<times> 's" where
  "read_local_stream_port S command s =
     (let upto = max 10 (cmd_len command + 1) in
      if upto > length (cmd_buf command) then (Inl Panic, command, s)
      else case st_read S (upto - cmd_len command) s of
        (Inl e, s) \<Rightarrow> (Inl (Err (UnixRead e)), command, s)
      | (Inr bs, s) \<Rightarrow>
          if bs = [] then (Inl (Err InvalidPortRequest), command, s)
          else let command = command\<lparr>cmd_buf := copy_at (cmd_len command) bs (cmd_buf command),
                                     cmd_len := cmd_len command + length bs\<rparr>
               in (parse_port_from_read_command command, command, s))"

section \<open>Dispatching an event\<close>

definition is_would_block :: "(mux_error, u32) outcome \<Rightarrow> bool" where
  "is_would_block r = (case r of Inl (Err (UnixRead e)) \<Rightarrow> io_kind e = KWouldBlock | _ \<Rightarrow> False)"

definition handle_local_stream ::
  "('s, 'w) mux_env \<Rightarrow> int \<Rightarrow> 's \<Rightarrow> 's muxer \<times> 'w \<Rightarrow> (vsock_error, unit, 's muxer \<times> 'w) run" where
  "handle_local_stream E fd s mw =
     (let (m, w) = mw; S = env_stream E; key_fd = st_fd S s;
          command = (case map_of (partial_command_map m) key_fd of None \<Rightarrow> default_command | Some c \<Rightarrow> c);
          (port, command, s) = read_local_stream_port S command s;
          m = m\<lparr>partial_command_map := AList.update key_fd command (partial_command_map m),
                listener_map := AList.update fd (LocalStream s) (listener_map m)\<rparr> in
      if port = Inl Panic then Some (Inl Panic, m, w)
      else if is_would_block port then Some (Inr (), m, w)
      else let m = m\<lparr>partial_command_map := AList.delete (st_fd S s) (partial_command_map m)\<rparr>;
               (l, m, w) = remove_listener E fd (m, w) in
        case l of
          Some (LocalStream s) \<Rightarrow>
            (case port of
               Inl _ \<Rightarrow> Some (Inr (), m, w)
             | Inr pport \<Rightarrow>
                 (case allocate_local_port m of
                    None \<Rightarrow> None
                  | Some (lport, m) \<Rightarrow>
                      (case add_connection E \<lparr>key_local = lport, key_peer = pport\<rparr>
                              (new_local_init s VSOCK_HOST_CID (mux_cid m) lport pport) (m, w) of
                         None \<Rightarrow> None
                       | Some (Inl Panic, mw) \<Rightarrow> Some (Inl Panic, mw)
                       | Some (_, mw) \<Rightarrow> Some (Inr (), mw))))
        | _ \<Rightarrow> Some (Inl Panic, m, w))"

definition handle_host_sock :: "('s, 'w) mux_env \<Rightarrow> 's muxer \<times> 'w \<Rightarrow> 's muxer \<times> 'w" where
  "handle_host_sock E mw =
     (let (m, w) = mw; (r, w) = env_accept E w in
      if length (conn_map m) = MAX_CONNECTIONS then (m, w)
      else case r of
        Inl _ \<Rightarrow> (m, w)
      | Inr s \<Rightarrow>
          let (r, w) = env_set_nonblocking E (st_fd (env_stream E) s) w in
          case r of
            Inl _ \<Rightarrow> (m, w)
          | Inr _ \<Rightarrow> snd (add_listener E (st_fd (env_stream E) s) (LocalStream s) (m, w)))"

definition handle_event ::
  "('s, 'w) mux_env \<Rightarrow> int \<Rightarrow> events \<Rightarrow> 's muxer \<times> 'w \<Rightarrow> (vsock_error, unit, 's muxer \<times> 'w) run" where
  "handle_event E fd event_set mw =
     (case map_of (listener_map (fst mw)) fd of
        Some (LConnection key _) \<Rightarrow>
          run_bind (apply_conn_mutation E key (\<lambda>_. conn_notify (env_stream E) event_set) mw) (\<lambda>_. run_ret ())
      | Some HostSock \<Rightarrow> Some (Inr (), handle_host_sock E mw)
      | Some (LocalStream s) \<Rightarrow> handle_local_stream E fd s mw
      | None \<Rightarrow> Some (Inr (), mw))"

text \<open>One kick of the multiplexer: at most 32 events, and again if the wait was interrupted.\<close>

partial_function (option) mux_notify ::
  "('s, 'w) mux_env \<Rightarrow> 's muxer \<times> 'w \<Rightarrow> (vsock_error, unit, 's muxer \<times> 'w) run" where
  "mux_notify E mw =
     (let (m, w) = mw; (r, w) = env_epoll_wait E w in
      case r of
        Inr evts \<Rightarrow> run_for (\<lambda>(fd, ev) _. handle_event E fd ev) evts () (m, w)
      | Inl e \<Rightarrow> if io_kind e = KInterrupted then mux_notify E (m, w) else Some (Inr (), m, w))"

definition mux_new :: "('s, 'w) mux_env \<Rightarrow> u32 \<Rightarrow> string \<Rightarrow> 'w \<Rightarrow> (mux_error + 's muxer) \<times> 'w" where
  "mux_new E cid path w =
     (let (r, w) = env_epoll_create E w in
      case r of
        Inl e \<Rightarrow> (Inl (EpollFdCreate e), w)
      | Inr _ \<Rightarrow>
          let (r, w) = env_bind E path w in
          case r of
            Inl e \<Rightarrow> (Inl (UnixBind e), w)
          | Inr sock \<Rightarrow>
              let (r, w) = env_set_nonblocking E sock w in
              case r of
                Inl e \<Rightarrow> (Inl (UnixBind e), w)
              | Inr _ \<Rightarrow>
                  let m = \<lparr>mux_cid = ucast cid, conn_map = [], listener_map = [], partial_command_map = [],
                           mux_rxq = rxq_new, mux_killq = killq_new, host_sock_path = path,
                           local_port_set = {}, local_port_last = push_bit 30 1 - 1\<rparr>;
                      (r, m, w) = add_listener E sock HostSock (m, w)
                  in (case r of Inl e \<Rightarrow> Inl e | Inr _ \<Rightarrow> Inr m, w))"

section \<open>Reading a command\<close>

lemma position_Some: "position x ys = Some n \<Longrightarrow> n < length ys \<and> ys ! n = x \<and> x \<notin> set (take n ys)"
  by (induction ys arbitrary: n) (auto split: if_splits)

lemma position_append: "x \<notin> set xs \<Longrightarrow> position x (xs @ x # ys) = Some (length xs)"
  by (induction xs) auto

lemma lowercase_newline: "to_ascii_lowercase b \<in> set (map to_ascii_lowercase (as_bytes ''connect '')) \<Longrightarrow> b \<noteq> 10"
  by (auto simp: as_bytes_def to_ascii_lowercase_def)

text \<open>The newline that ends a command is behind its prefix: parsing never slices out of range.\<close>

lemma parse_no_panic: "length (cmd_buf c) \<ge> cmd_len c \<Longrightarrow> parse_port_from_read_command c \<noteq> Inl Panic"
proof
  assume len: "length (cmd_buf c) \<ge> cmd_len c" and p: "parse_port_from_read_command c = Inl Panic"
  have l8: "length (as_bytes ''connect '') = 8" by (simp add: as_bytes_def)
  from p obtain n where n: "position 10 (take (cmd_len c) (cmd_buf c)) = Some n" "n < 8" "8 \<le> cmd_len c"
    and pre: "map to_ascii_lowercase (take 8 (cmd_buf c)) = map to_ascii_lowercase (as_bytes ''connect '')"
    by (auto simp: parse_port_from_read_command_def Let_def l8 split: if_splits option.splits)
  from position_Some [OF n(1)] n have "cmd_buf c ! n = 10" by simp
  moreover have "to_ascii_lowercase (cmd_buf c ! n) \<in> set (map to_ascii_lowercase (as_bytes ''connect ''))"
    unfolding pre [symmetric] using n len by (force simp: in_set_conv_nth)
  ultimately show False using lowercase_newline by blast
qed

lemma parse_would_block:
  assumes "is_would_block (parse_port_from_read_command c)" and "cmd_len c \<le> length (cmd_buf c)" and "8 < length (cmd_buf c)"
  shows "cmd_len c < length (cmd_buf c)"
proof (rule ccontr)
  assume "\<not> cmd_len c < length (cmd_buf c)"
  then have "cmd_len c = length (cmd_buf c)" using assms(2) by simp
  with assms(1,3) show False
    by (auto simp: parse_port_from_read_command_def Let_def is_would_block_def as_bytes_def ok_or_def
        split: if_splits option.splits sum.splits abort.splits)
qed

lemma read_port_ok:
  assumes S: "stream_ok S sent" and c: "cmd_ok c" and r: "read_local_stream_port S c s = (r, c', s')"
  shows "r \<noteq> Inl Panic \<and> (is_would_block r \<longrightarrow> cmd_ok c')"
proof -
  define upto where "upto = max 10 (cmd_len c + 1)"
  have len: "length (cmd_buf c) = 32" "cmd_len c < 32" using c by (simp_all add: cmd_ok_def PARTIALLY_READ_COMMAND_BUF_SIZE_def)
  have up: "upto \<le> 32" "cmd_len c \<le> upto" using len by (simp_all add: upto_def)
  obtain x s1 where rd: "st_read S (upto - cmd_len c) s = (x, s1)" by fastforce
  note r = r [unfolded read_local_stream_port_def Let_def, folded upto_def]
  show ?thesis
  proof (cases x)
    case (Inl e)
    with r rd len up c show ?thesis by auto
  next
    case (Inr bs)
    have lb: "length bs \<le> upto - cmd_len c" by (rule stream_read(2) [OF S rd Inr])
    define c1 where "c1 = c\<lparr>cmd_buf := copy_at (cmd_len c) bs (cmd_buf c), cmd_len := cmd_len c + length bs\<rparr>"
    have c1: "length (cmd_buf c1) = 32" "cmd_len c1 \<le> 32"
      using lb up len by (simp_all add: c1_def length_copy_at)
    have res: "(if bs = [] then (Inl (Err InvalidPortRequest), c, s1) else (parse_port_from_read_command c1, c1, s1)) = (r, c', s')"
      using r rd Inr len up by (auto simp: c1_def)
    show ?thesis
    proof (cases "bs = []")
      case True
      with res show ?thesis by (auto simp: is_would_block_def)
    next
      case False
      with res parse_no_panic [of c1] parse_would_block [of c1] c1 show ?thesis
        by (auto simp: cmd_ok_def PARTIALLY_READ_COMMAND_BUF_SIZE_def)
    qed
  qed
qed

lemma utf8_ascii: "list_all (\<lambda>c. c < 128) cs \<Longrightarrow> utf8_decode cs = Some cs"
  by (induction cs) auto

lemma trim_digits: "list_all (\<lambda>c. \<not> is_whitespace c) cs \<Longrightarrow> trim cs = cs"
proof -
  have *: "list_all (\<lambda>c. \<not> is_whitespace c) xs \<Longrightarrow> dropWhile is_whitespace xs = xs" for xs by (cases xs) auto
  assume a: "list_all (\<lambda>c. \<not> is_whitespace c) cs"
  then have "list_all (\<lambda>c. \<not> is_whitespace c) (rev cs)" by (simp add: list_all_iff)
  from * [OF a] * [OF this] show ?thesis by (simp add: trim_def)
qed

lemma unat_of_char: "unat (of_nat (of_char c) :: u8) = of_char c"
proof -
  have "(of_char c :: nat) < 256" by simp
  then show ?thesis by (simp add: unsigned_of_nat take_bit_nat_eq_self)
qed

lemma show_dec_chars: "list_all (\<lambda>c. 48 \<le> (of_char c :: nat) \<and> (of_char c :: nat) \<le> 57) (show_dec n)"
proof -
  have "48 \<le> (of_char (digit_char d) :: nat) \<and> (of_char (digit_char d) :: nat) \<le> 57" if "d < 10" for d
  proof -
    have "d \<in> {0, 1, 2, 3, 4, 5, 6, 7, 8, 9}" using that by (simp, arith)
    then show ?thesis by (auto simp: digit_char_def)
  qed
  with digits_bound [of 10] show ?thesis by (auto simp: show_radix_def list_all_iff)
qed

text \<open>
  The command that names a port is read back: whatever the case of the word before it, a complete
  line with the decimal number of a port yields that port, and a line that is still incomplete is
  waited for.
\<close>

theorem connect_command_roundtrip:
  assumes "take (cmd_len c) (cmd_buf c) = pre @ as_bytes (show_dec (unat port) @ ''\<newline>'')"
    and "map to_ascii_lowercase pre = as_bytes ''connect ''"
  shows "parse_port_from_read_command c = Inr port"
proof -
  define d where "d = as_bytes (show_dec (unat port))"
  have nl: "as_bytes (show_dec (unat port) @ ''\<newline>'') = d @ [10]" by (simp add: d_def as_bytes_def)
  have l8: "length (as_bytes ''connect '') = 8" "length pre = 8"
    using arg_cong [OF assms(2), of length] by (simp_all add: as_bytes_def)
  have low: "map to_ascii_lowercase (as_bytes ''connect '') = as_bytes ''connect ''"
    by (simp add: as_bytes_def to_ascii_lowercase_def)
  have pre10: "10 \<notin> set pre"
  proof
    assume "10 \<in> set pre"
    then have "to_ascii_lowercase 10 \<in> set (as_bytes ''connect '')"
      unfolding assms(2) [symmetric] by simp
    then have "to_ascii_lowercase 10 \<in> set (map to_ascii_lowercase (as_bytes ''connect ''))" by (simp only: low)
    then show False using lowercase_newline by blast
  qed
  have un: "map unat d = map of_char (show_dec (unat port))"
    by (simp add: d_def as_bytes_def unat_of_char)
  have dig: "list_all (\<lambda>k. 48 \<le> k \<and> k \<le> 57) (map unat d)"
    using show_dec_chars [of "unat port"] unfolding un by (simp add: list_all_iff)
  have d10: "10 \<notin> set d" using dig by (force simp: list_all_iff)
  define T where "T = take (cmd_len c) (cmd_buf c)"
  have T: "T = (pre @ d) @ 10 # []" using assms(1) nl by (simp add: T_def)
  have pos: "position 10 T = Some (8 + length d)"
    unfolding T using position_append [of 10 "pre @ d" "[]"] pre10 d10 l8 by simp
  have lenT: "length T \<le> cmd_len c" by (simp add: T_def)
  have tk: "take n (cmd_buf c) = take n T" if "n \<le> length T" for n
    using that lenT by (simp add: T_def min_def)
  have t8: "take 8 (cmd_buf c) = pre" using tk [of 8] l8 T by simp
  have sl: "drop 8 (take (8 + length d) (cmd_buf c)) = d" using tk [of "8 + length d"] l8 T by simp
  have "utf8_decode (map unat d) = Some (map unat d)" by (rule utf8_ascii) (use dig in \<open>auto simp: list_all_iff\<close>)
  moreover have "trim (map unat d) = map unat d"
    by (rule trim_digits) (use dig in \<open>auto simp: list_all_iff is_whitespace_def\<close>)
  moreover have "parse_u32 (map unat d) = Some port"
  proof -
    have "list_all (\<lambda>k. k < 128) (map unat d)" using dig by (auto simp: list_all_iff)
    moreover have "map char_of (map unat d) = show_dec (unat port)" unfolding un by (simp add: comp_def)
    ultimately show ?thesis by (simp add: parse_u32_def from_str_radix_show)
  qed
  ultimately show ?thesis
    using pos t8 sl lenT T l8 low assms(2)
    by (simp add: parse_port_from_read_command_def Let_def T_def [symmetric] ok_or_def)
qed

section \<open>Allocating a port\<close>

abbreviation PORTS :: nat where "PORTS \<equiv> 2 ^ 30"

lemma unat_next_port: "unat (next_local_port p) = PORTS + (unat p + 1) mod PORTS"
proof -
  define q where "q = p + 1"
  define A B :: u32 where "A = push_bit 31 1" and "B = push_bit 30 1"
  have one: "bit (push_bit k 1 :: u32) n \<longleftrightarrow> n = k" if "k < 32" for k n
    using that by (auto simp: push_bit_of_1 bit_exp_iff)
  have bits: "bit A n \<longleftrightarrow> n = 31" "bit B n \<longleftrightarrow> n = 30" for n
    unfolding A_def B_def by (rule one, simp)+
  have eq: "next_local_port p = take_bit 30 q + B"
  proof -
    have "next_local_port p = (q AND NOT A) OR B" unfolding next_local_port_def q_def A_def B_def by (rule refl)
    also have "\<dots> = take_bit 30 q OR B"
    proof (rule bit_word_eqI)
      fix n assume "n < LENGTH(32)"
      then have "n < 30 \<or> n = 30 \<or> n = 31" by auto
      then show "bit ((q AND NOT A) OR B) n = bit (take_bit 30 q OR B) n"
        by (auto simp: bits bit_or_iff bit_and_iff bit_not_iff bit_take_bit_iff)
    qed
    also have "\<dots> = take_bit 30 q + B"
      by (rule disjunctive_add [symmetric]) (auto simp: bits bit_take_bit_iff)
    finally show ?thesis .
  qed
  have unatB: "unat B = PORTS" by (simp add: B_def)
  have "unat (take_bit 30 q) = unat q mod PORTS" by (simp add: take_bit_eq_mod unat_mod_word)
  also have "unat q = (unat p + 1) mod 2 ^ 32" by (simp add: q_def unat_word_ariths)
  also have "(unat p + 1) mod 2 ^ 32 mod PORTS = (unat p + 1) mod PORTS" by (rule mod_mod_cancel) (simp add: dvd_def exI [of _ 4])
  finally have t: "unat (take_bit 30 q) = (unat p + 1) mod PORTS" .
  have "(unat p + 1) mod PORTS < PORTS" by simp
  then have "unat (take_bit 30 q + B) = unat (take_bit 30 q) + unat B"
    using t unatB by (intro unat_add_nowrap) simp
  with eq t unatB show ?thesis by simp
qed

lemma allocate_walk:
  assumes "word_of_nat (PORTS + i) \<notin> local_port_set m" and "i < PORTS"
  shows "\<exists>p. allocate_local_port m = Some (p, m\<lparr>local_port_last := p, local_port_set := insert p (local_port_set m)\<rparr>) \<and>
    p \<notin> local_port_set m \<and> PORTS \<le> unat p \<and> unat p < 2 * PORTS"
  using assms(1)
proof (induction "let a = (unat (local_port_last m) + 1) mod PORTS in if a \<le> i then i - a else i + PORTS - a" arbitrary: m rule: less_induct)
  case less
  define a where "a = (unat (local_port_last m) + 1) mod PORTS"
  define p where "p = next_local_port (local_port_last m)"
  have p: "unat p = PORTS + a" unfolding p_def a_def by (rule unat_next_port)
  have a: "a < PORTS" by (simp add: a_def)
  show ?case
  proof (cases "p \<in> local_port_set m")
    case False
    then have "allocate_local_port m = Some (p, m\<lparr>local_port_last := p, local_port_set := insert p (local_port_set m)\<rparr>)"
      by (subst allocate_local_port.simps) (simp add: Let_def p_def)
    with False p a show ?thesis by simp
  next
    case True
    define m1 where "m1 = m\<lparr>local_port_last := p\<rparr>"
    have step: "allocate_local_port m = allocate_local_port m1"
      using True by (subst allocate_local_port.simps) (simp add: Let_def p_def m1_def)
    have "a \<noteq> i"
    proof
      assume "a = i"
      have "word_of_nat (unat p) = p" by simp
      then have "p = word_of_nat (PORTS + i)" unfolding p \<open>a = i\<close> by (rule sym)
      with True less.prems show False by simp
    qed
    define b where "b = (unat (local_port_last m1) + 1) mod PORTS"
    have b: "b = (if a + 1 = PORTS then 0 else a + 1)" using p a by (simp add: b_def m1_def mod_if)
    have "(if b \<le> i then i - b else i + PORTS - b) < (if a \<le> i then i - a else i + PORTS - a)"
      using b a assms(2) \<open>a \<noteq> i\<close> by (auto split: if_splits)
    then have dec: "(let a = (unat (local_port_last m1) + 1) mod PORTS in if a \<le> i then i - a else i + PORTS - a) <
      (let a = (unat (local_port_last m) + 1) mod PORTS in if a \<le> i then i - a else i + PORTS - a)"
      by (simp only: Let_def a_def b_def)
    from less.hyps [OF dec] less.prems show ?thesis unfolding step by (simp add: m1_def)
  qed
qed

lemma free_port:
  assumes "finite (P :: u32 set)" and "card P < PORTS"
  shows "\<exists>i < PORTS. word_of_nat (PORTS + i) \<notin> P"
proof (rule ccontr)
  assume "\<not> ?thesis"
  then have sub: "(\<lambda>i. word_of_nat (PORTS + i)) ` {..<PORTS} \<subseteq> P" by auto
  have small: "unat (word_of_nat n :: u32) = n" if "n < 2 ^ 32" for n
    using that by (simp add: unsigned_of_nat take_bit_nat_eq_self)
  have "inj_on (\<lambda>i. word_of_nat (PORTS + i) :: u32) {..<PORTS}"
  proof (rule inj_on_inverseI [where g = "\<lambda>w. unat w - PORTS"])
    fix i :: nat assume "i \<in> {..<PORTS}"
    then have "PORTS + i < 2 ^ 32" by simp
    then have "unat (word_of_nat (PORTS + i) :: u32) = PORTS + i" by (rule small)
    then show "unat (word_of_nat (PORTS + i) :: u32) - PORTS = i" by simp
  qed
  then have "card ((\<lambda>i. word_of_nat (PORTS + i) :: u32) ` {..<PORTS}) = PORTS" by (simp add: card_image)
  with card_mono [OF assms(1) sub] assms(2) show False by simp
qed

section \<open>Every event is handled\<close>

lemma mux_ok_commands:
  "mux_ok m \<Longrightarrow> cmds_ok pc \<Longrightarrow> mux_ok (m\<lparr>partial_command_map := pc, listener_map := l\<rparr>)"
  "mux_ok m \<Longrightarrow> cmds_ok pc \<Longrightarrow> mux_ok (m\<lparr>partial_command_map := pc\<rparr>)"
  by (simp_all add: mux_ok_def synced_ok_def)

text \<open>What is relied on of the descriptor of a stream: reading does not change it.\<close>

definition fd_ok :: "'s stream_ops \<Rightarrow> bool" where
  "fd_ok S \<longleftrightarrow> (\<forall>n s. st_fd S (snd (st_read S n s)) = st_fd S s)"

lemma read_port_fd:
  assumes "fd_ok S" and "read_local_stream_port S c s = (r, c', s')"
  shows "st_fd S s' = st_fd S s"
proof -
  have "snd (st_read S (max 10 (cmd_len c + 1) - cmd_len c) s) = s' \<or> s' = s"
    using assms(2) by (auto simp: read_local_stream_port_def Let_def split: if_splits prod.splits sum.splits)
  with assms(1) show ?thesis unfolding fd_ok_def by metis
qed

lemma cmds_ok_update: "cmds_ok cs \<Longrightarrow> cmd_ok c \<Longrightarrow> cmds_ok (AList.update fd c cs)"
  by (auto simp: cmds_ok_def map_of_update split: if_splits)

lemma cmds_ok_forget: "cmds_ok cs \<Longrightarrow> cmds_ok (AList.delete fd (AList.update fd c cs))"
  by (auto simp: cmds_ok_def map_of_update delete_conv' split: if_splits)

lemma handle_local_stream_ok:
  assumes S: "stream_ok (env_stream E) sent" and F: "fd_ok (env_stream E)" and clk: "clock_ok E clk" and ok: "mux_ok m"
    and free: "finite (local_port_set m)" "card (local_port_set m) < PORTS"
  shows "\<exists>m' w' p. handle_local_stream E fd s (m, w) = Some (Inr (), m', w') \<and> mux_ok m' \<and>
    local_port_set m' \<subseteq> insert p (local_port_set m)"
proof -
  define S where "S = env_stream E"
  define c where "c = (case map_of (partial_command_map m) (st_fd S s) of None \<Rightarrow> default_command | Some c \<Rightarrow> c)"
  obtain port c1 s1 where rp: "read_local_stream_port S c s = (port, c1, s1)" by (metis prod.collapse)
  have cmds: "cmds_ok (partial_command_map m)" using ok by (simp add: mux_ok_def)
  have "cmd_ok c"
    using cmds by (auto simp: c_def cmds_ok_def cmd_ok_def default_command_def PARTIALLY_READ_COMMAND_BUF_SIZE_def split: option.splits)
  from read_port_ok [OF assms(1) [folded S_def] this rp] have np: "port \<noteq> Inl Panic" and wb: "is_would_block port \<Longrightarrow> cmd_ok c1" by simp_all
  have fd1: "st_fd S s1 = st_fd S s" by (rule read_port_fd [OF F [folded S_def] rp])
  define m1 where "m1 = m\<lparr>partial_command_map := AList.update (st_fd S s) c1 (partial_command_map m),
    listener_map := AList.update fd (LocalStream s1) (listener_map m)\<rparr>"
  define m2 where "m2 = m1\<lparr>partial_command_map := AList.delete (st_fd S s) (partial_command_map m1)\<rparr>"
  obtain x m3 w3 where rl: "remove_listener E fd (m2, w) = (x, m3, w3)" by (metis prod.collapse)
  have x: "x = Some (LocalStream s1)"
    using rl by (auto simp: remove_listener_def m2_def m1_def map_of_update Let_def split: prod.splits)
  from remove_listener_cases [OF rl] obtain l where m3: "m3 = m2\<lparr>listener_map := l\<rparr>" by blast
  have "m2 = m\<lparr>partial_command_map := AList.delete (st_fd S s) (AList.update (st_fd S s) c1 (partial_command_map m)),
      listener_map := AList.update fd (LocalStream s1) (listener_map m)\<rparr>" by (simp add: m2_def m1_def)
  then have ok3: "mux_ok m3" using mux_ok_commands(1) [OF ok cmds_ok_forget [OF cmds]] m3 by simp
  have ps3: "local_port_set m3 = local_port_set m" by (simp add: m3 m2_def m1_def)
  have step: "handle_local_stream E fd s (m, w) =
    (if is_would_block port then Some (Inr (), m1, w)
     else case port of Inl _ \<Rightarrow> Some (Inr (), m3, w3)
       | Inr pport \<Rightarrow>
           (case allocate_local_port m3 of None \<Rightarrow> None
            | Some (lport, m) \<Rightarrow>
                (case add_connection E \<lparr>key_local = lport, key_peer = pport\<rparr>
                        (new_local_init s1 VSOCK_HOST_CID (mux_cid m) lport pport) (m, w3) of
                   None \<Rightarrow> None
                 | Some (Inl Panic, mw) \<Rightarrow> Some (Inl Panic, mw)
                 | Some (_, mw) \<Rightarrow> Some (Inr (), mw))))"
    using np x rl unfolding handle_local_stream_def Let_def S_def [symmetric]
    by (simp add: c_def [symmetric] rp fd1 m1_def [symmetric] m2_def [symmetric])
  show ?thesis
  proof (cases "is_would_block port \<or> (\<exists>e. port = Inl e)")
    case True
    have "mux_ok m1" if "is_would_block port"
      unfolding m1_def by (rule mux_ok_commands(1) [OF ok cmds_ok_update [OF cmds wb [OF that]]])
    with True ok3 ps3 step show ?thesis by (auto simp: m1_def)
  next
    case False
    then obtain pport where port: "port = Inr pport" by (cases port) auto
    from free_port [OF free] obtain i where i: "word_of_nat (PORTS + i) \<notin> local_port_set m3" "i < PORTS" unfolding ps3 by blast
    from allocate_walk [OF i] obtain p where al: "allocate_local_port m3 =
        Some (p, m3\<lparr>local_port_last := p, local_port_set := insert p (local_port_set m3)\<rparr>)" by blast
    define m4 where "m4 = m3\<lparr>local_port_last := p, local_port_set := insert p (local_port_set m3)\<rparr>"
    have ok4: "mux_ok m4" using ok3 by (simp add: m4_def)
    define key where "key = \<lparr>key_local = p, key_peer = pport\<rparr>"
    define conn where "conn = new_local_init s1 VSOCK_HOST_CID (mux_cid m4) p pport"
    have "\<exists>r m' w'. add_connection E key conn (m4, w3) = Some (r, m', w') \<and> r \<noteq> Inl Panic \<and> mux_ok m' \<and>
        local_port_set m' = local_port_set m4"
      by (rule add_connection_ok [OF clk ok4]) (simp_all add: conn_def new_conn_wf, simp_all add: new_local_init_def key_def)
    then obtain r m5 w5 where ac: "add_connection E key conn (m4, w3) = Some (r, m5, w5)"
      "r \<noteq> Inl Panic" "mux_ok m5" "local_port_set m5 = insert p (local_port_set m)"
      by (auto simp: m4_def ps3)
    have "handle_local_stream E fd s (m, w) = Some (Inr (), m5, w5)"
      using step False port al ac(1,2)
      by (simp add: m4_def [symmetric] key_def [symmetric] conn_def [symmetric] split: sum.splits abort.splits)
    with ac show ?thesis by blast
  qed
qed

lemma handle_host_sock_ok:
  assumes "mux_ok m" and "handle_host_sock E (m, w) = (m', w')"
  shows "mux_ok m' \<and> local_port_set m' = local_port_set m"
proof -
  have "m' = m \<or> (\<exists>fd l w1. snd (add_listener E fd l (m, w1)) = (m', w'))"
    using assms(2) by (auto simp: handle_host_sock_def Let_def split: prod.splits if_splits sum.splits)
  then have "m' = m \<or> (\<exists>fd l w1 r. add_listener E fd l (m, w1) = (r, m', w'))" by (metis prod.collapse)
  with assms(1) show ?thesis by (auto dest!: add_listener_cases)
qed

lemma handle_event_ok:
  assumes S: "stream_ok (env_stream E) sent" and F: "fd_ok (env_stream E)" and clk: "clock_ok E clk" and ok: "mux_ok m"
    and free: "finite (local_port_set m)" "card (local_port_set m) < PORTS"
  shows "\<exists>m' w' p. handle_event E fd ev (m, w) = Some (Inr (), m', w') \<and> mux_ok m' \<and>
    local_port_set m' \<subseteq> insert p (local_port_set m)"
proof (cases "map_of (listener_map m) fd")
  case None
  with ok show ?thesis by (auto simp: handle_event_def)
next
  case (Some l)
  show ?thesis
  proof (cases l)
    case (LConnection key evset)
    have tot: "\<exists>r c'. conn_notify (env_stream E) ev c = Some (Inr r, c')" if "conn_wf c" for c
      using notify_wf [OF S that] by blast
    from apply_total [OF ok, of "\<lambda>_. conn_notify (env_stream E) ev" E key w] tot obtain r m1 w1 where
      a: "apply_conn_mutation E key (\<lambda>_. conn_notify (env_stream E) ev) (m, w) = Some (Inr r, m1, w1)" by blast
    from apply_ok [OF ok notify_conn_ok [OF S] a] apply_ports [OF a] a Some LConnection show ?thesis
      by (auto simp: handle_event_def)
  next
    case HostSock
    obtain m1 w1 where hs: "handle_host_sock E (m, w) = (m1, w1)" by fastforce
    from handle_host_sock_ok [OF ok hs] hs Some HostSock show ?thesis by (auto simp: handle_event_def)
  next
    case (LocalStream s)
    from handle_local_stream_ok [OF S F clk ok free, of fd s w] Some LocalStream show ?thesis
      by (simp add: handle_event_def)
  qed
qed

section \<open>The multiplexer\<close>

datatype mux_op = MuxSend vsock_packet | MuxRecv vsock_packet | MuxEvent int events | MuxQueueRst "(u32 \<times> u32) list"

text \<open>A schedule of the operations the device performs on its multiplexer; \<open>None\<close> if one of them panics
  or does not return.\<close>

fun mux_run :: "('s, 'w) mux_env \<Rightarrow> mux_op list \<Rightarrow> 's muxer \<times> 'w \<Rightarrow> ('s muxer \<times> 'w) option" where
  "mux_run E [] mw = Some mw"
| "mux_run E (MuxSend p # ops) mw =
     (case mux_send_pkt E p mw of Some (Inr _, mw) \<Rightarrow> mux_run E ops mw | _ \<Rightarrow> None)"
| "mux_run E (MuxRecv p # ops) mw =
     (case mux_recv_pkt E (p, mw) of
        Some (Inr _, _, mw) \<Rightarrow> mux_run E ops mw
      | Some (Inl (Err _), _, mw) \<Rightarrow> mux_run E ops mw
      | _ \<Rightarrow> None)"
| "mux_run E (MuxEvent fd ev # ops) mw =
     (case handle_event E fd ev mw of Some (Inr _, mw) \<Rightarrow> mux_run E ops mw | _ \<Rightarrow> None)"
| "mux_run E (MuxQueueRst conns # ops) mw = mux_run E ops (queue_rst_for_connections conns (fst mw), snd mw)"

fun mux_op_ok :: "mux_op \<Rightarrow> bool" where
  "mux_op_ok (MuxSend p) = pkt_fits p"
| "mux_op_ok (MuxRecv p) = hdr_ok p"
| "mux_op_ok _ = True"

lemma mux_run_ok:
  assumes S: "stream_ok (env_stream E) sent" and F: "fd_ok (env_stream E)" and clk: "clock_ok E clk"
    and "mux_ok m" and "list_all mux_op_ok ops" and "finite (local_port_set m)" and "card (local_port_set m) + length ops \<le> PORTS"
  shows "\<exists>m' w'. mux_run E ops (m, w) = Some (m', w') \<and> mux_ok m'"
  using assms(4-)
proof (induction ops arbitrary: m w)
  case (Cons x ops)
  have go: "\<exists>m' w'. mux_run E ops (m1, w1) = Some (m', w') \<and> mux_ok m'"
    if "mux_ok m1" "local_port_set m1 \<subseteq> insert p (local_port_set m)" for m1 w1 p
  proof (rule Cons.IH [OF that(1)])
    show "list_all mux_op_ok ops" using Cons.prems by simp
    show "finite (local_port_set m1)" using that(2) Cons.prems(3) by (meson finite.insertI finite_subset)
    have "card (local_port_set m1) \<le> card (insert p (local_port_set m))"
      by (rule card_mono) (use that(2) Cons.prems(3) in auto)
    also have "\<dots> \<le> Suc (card (local_port_set m))" by (rule card_insert_le_m1) simp_all
    finally show "card (local_port_set m1) + length ops \<le> PORTS" using Cons.prems(4) by simp
  qed
  note stay = go [OF _ subset_insertI2 [where b = 0]]
  show ?case
  proof (cases x)
    case (MuxSend p)
    with mux_send_ok [OF S clk Cons.prems(1), of p w] Cons.prems(2) obtain m1 w1 where
      "mux_send_pkt E p (m, w) = Some (Inr (), m1, w1)" "mux_ok m1" "local_port_set m1 \<subseteq> local_port_set m" by auto
    with stay [of m1 w1] MuxSend show ?thesis by auto
  next
    case (MuxRecv p)
    with mux_recv_ok [OF Cons.prems(1), of p E w] Cons.prems(2) obtain r p' m1 w1 where
      "mux_recv_pkt E (p, m, w) = Some (r, p', m1, w1)" "mux_ok m1" "local_port_set m1 \<subseteq> local_port_set m"
      "r = Inr () \<or> r = Inl (Err NoData)" by auto
    with stay [of m1 w1] MuxRecv show ?thesis by auto
  next
    case (MuxEvent fd ev)
    from handle_event_ok [OF S F clk Cons.prems(1,3), of fd ev w] Cons.prems(4) obtain m1 w1 p where
      "handle_event E fd ev (m, w) = Some (Inr (), m1, w1)" "mux_ok m1" "local_port_set m1 \<subseteq> insert p (local_port_set m)" by auto
    with go [of m1 p w1] MuxEvent show ?thesis by auto
  next
    case (MuxQueueRst conns)
    have "local_port_set (queue_rst_for_connections conns m) = local_port_set m"
      unfolding queue_rst_for_connections_def by (induction conns arbitrary: m) auto
    with stay [of "queue_rst_for_connections conns m" w] queue_rst_ok [OF Cons.prems(1)] MuxQueueRst show ?thesis by auto
  qed
qed simp

lemma mux_new_ok:
  assumes "mux_new E cid path w = (Inr m, w')"
  shows "mux_ok m \<and> local_port_set m = {}"
  using assms
  by (auto simp: mux_new_def Let_def mux_ok_def synced_ok_def pool_ok_def cmds_ok_def rxq_new_def
      split: prod.splits sum.splits dest!: add_listener_cases)


end
