(* ===== verification/Reference_Vsock.thy ===== *)
theory Reference_Vsock
  imports Vsock_Events
begin

text \<open>
  Concrete instances of what the vsock theories take as parameters: a host stream that takes two
  bytes at a time, an environment whose clock ticks with every reading, and a guest memory without
  translation. They show that the hypotheses of the properties can hold together.
\<close>

section \<open>Instances\<close>

type_synonym ref_stream = "int \<times> bytes \<times> bytes"

definition ref_stream_ops :: "ref_stream stream_ops" where
  "ref_stream_ops =
     \<lparr>st_fd = fst,
      st_write = (\<lambda>bs (fd, sent, input). (Inr (min 2 (length bs)), fd, sent @ take 2 bs, input)),
      st_read = (\<lambda>n (fd, sent, input). (Inr (take n input), fd, sent, drop n input))\<rparr>"

definition ref_sent :: "ref_stream \<Rightarrow> bytes" where
  "ref_sent s = fst (snd s)"

definition ref_env :: "(ref_stream, nat) mux_env" where
  "ref_env =
     \<lparr>env_stream = ref_stream_ops, env_clock = (\<lambda>w. (w, Suc w)), env_epoll_create = (\<lambda>w. (Inr (), w)),
      env_epoll_ctl = (\<lambda>_ _ _ w. (Inr (), w)), env_epoll_wait = (\<lambda>w. (Inr [], w)), env_bind = (\<lambda>_ w. (Inr 3, w)),
      env_accept = (\<lambda>w. (Inr (7, [], as_bytes (''connect 52'' @ ''\<newline>'')), w)),
      env_connect = (\<lambda>_ w. (Inr (8, [], [1, 2, 3]), w)), env_set_nonblocking = (\<lambda>_ w. (Inr (), w))\<rparr>"

definition ref_mem :: "(u64 \<Rightarrow> u8) \<Rightarrow> guest_mem" where
  "ref_mem mem =
     \<lparr>gm_read_slice = (\<lambda>a n. Some (mem_at mem a n)), gm_check_range = (\<lambda>_ _. True),
      gm_get_slice = (\<lambda>a n. Some (mem_at mem a n)), gm_translate = (\<lambda>a _. Some a)\<rparr>"

lemma ref_stream_ok: "stream_ok ref_stream_ops ref_sent"
  by (auto simp: stream_ok_def ref_stream_ops_def ref_sent_def min_def)

lemma ref_fd_ok: "fd_ok ref_stream_ops"
  by (auto simp: fd_ok_def ref_stream_ops_def)

lemma ref_clock_ok: "clock_ok ref_env id"
  by (auto simp: clock_ok_def ref_env_def)

lemma ref_mem_ok: "mem_ok (ref_mem mem) mem"
  by (simp add: mem_ok_def ref_mem_def)

definition empty_pkt :: vsock_packet where
  "empty_pkt = \<lparr>guest_hdr_addr = 0, pkt_hdr = replicate 44 0, pkt_buffer = Some (Owned (replicate 16 0))\<rparr>"

definition request_pkt :: vsock_packet where
  "request_pkt = set_type VSOCK_TYPE_STREAM (set_dst_cid VSOCK_HOST_CID (set_buf_alloc 4096
     (set_dst_port 52 (set_src_port 1024 (set_op VSOCK_OP_REQUEST empty_pkt)))))"

definition data_pkt :: vsock_packet where
  "data_pkt = set_len 3 (set_type VSOCK_TYPE_STREAM (set_dst_cid VSOCK_HOST_CID (set_buf_alloc 4096
     (set_dst_port 52 (set_src_port 1024 (set_op VSOCK_OP_RW empty_pkt))))))"

definition ref_conn :: "ref_stream vsock_connection" where
  "ref_conn = (new_peer_init (8, [], [1, 2, 3]) 2 3 52 1024 4096)\<lparr>conn_state := Established, pending_rx := rx_from Rw\<rparr>"

lemma empty_pkt_ok: "hdr_ok empty_pkt"
  by (simp add: empty_pkt_def)

lemma ref_pkts_fit: "pkt_fits data_pkt" "pkt_fits request_pkt"
proof -
  have b: "pkt_buf data_pkt = Some (replicate 16 0)"
  proof -
    have "pkt_buf data_pkt = pkt_buf empty_pkt" by (simp add: data_pkt_def pkt_fields pkt_buf_def)
    then show ?thesis by (simp add: pkt_buf_def empty_pkt_def)
  qed
  have "pkt_len data_pkt = 3" by (simp add: data_pkt_def pkt_fields empty_pkt_ok)
  with b show "pkt_fits data_pkt" by (simp add: pkt_fits_def)
  have "empty_pkt = empty_pkt\<lparr>pkt_hdr := replicate 44 0\<rparr>" by (simp add: empty_pkt_def)
  then have "hdr_read 24 empty_pkt = (0 :: u32)" by (metis hdr_read_zero)
  then have "pkt_len request_pkt = 0" by (simp add: request_pkt_def pkt_fields empty_pkt_ok)
  then show "pkt_fits request_pkt" by (simp add: pkt_fits_def split: option.splits)
qed

lemma ref_conn_ok: "conn_ok ref_conn" "in_flight ref_conn \<le> unat (peer_buf_alloc ref_conn)"
  by (simp_all add: ref_conn_def conn_ok_def new_peer_init_def txbuf_new_ok in_flight_def)

section \<open>Witnesses\<close>



theorem rxq_push_keeps_resets_witness:
  "case rxq_push (RstPkt 1 2) \<lparr>rxq_q = [ConnRx \<lparr>key_local = 3, key_peer = 4\<rparr>], rxq_synced = False\<rparr> of (ok, q') \<Rightarrow>
    length (rxq_q q') \<le> 256 \<and> ok \<and> rxq_q q' = [RstPkt 1 2] \<and> \<not> rxq_synced q'"
  using rxq_push_keeps_resets [of "\<lparr>rxq_q = [ConnRx \<lparr>key_local = 3, key_peer = 4\<rparr>], rxq_synced = False\<rparr>" "RstPkt 1 2"]
  by (simp add: rxq_push_def evict_last_def)


text \<open>A guest memory with the header of a ten-byte data packet at address zero.\<close>

definition hdr_mem :: "u64 \<Rightarrow> u8" where
  "hdr_mem a = (if a = 24 then 10 else if a = 30 then 5 else if a < 44 then 0 else ucast a)"

definition two_descs :: "virtq_desc list" where
  "two_descs = [\<lparr>d_addr = 0, d_len = 44, d_write_only = False, d_has_next = True\<rparr>,
                \<lparr>d_addr = 100, d_len = 4, d_write_only = False, d_has_next = True\<rparr>,
                \<lparr>d_addr = 200, d_len = 8, d_write_only = False, d_has_next = False\<rparr>]"

definition one_desc :: virtq_desc where
  "one_desc = \<lparr>d_addr = 0, d_len = 50, d_write_only = False, d_has_next = False\<rparr>"

lemma hdr_mem_fields:
  "pkt_len \<lparr>guest_hdr_addr = 0, pkt_hdr = mem_at hdr_mem 0 44, pkt_buffer = b\<rparr> = 10"
  "pkt_op \<lparr>guest_hdr_addr = 0, pkt_hdr = mem_at hdr_mem 0 44, pkt_buffer = b\<rparr> = VSOCK_OP_RW"
  by (simp_all add: pkt_len_def pkt_op_def hdr_read_def mem_at_def drop_map take_map VSOCK_OP_RW_def hdr_mem_def)

theorem short_inline_data_panics_witness:
  "\<exists>p. from_tx_virtq_head (ref_mem hdr_mem) [one_desc] = Inr p \<and> unat (pkt_len p) = 10 \<and>
     fst (send_pkt ref_stream_ops 0 p ref_conn) = Inl Panic"
proof -
  define p where "p = \<lparr>guest_hdr_addr = 0, pkt_hdr = mem_at hdr_mem 0 44, pkt_buffer = Some (Borrowed (mem_at hdr_mem 44 6))\<rparr>"
  have acc: "from_tx_virtq_head (ref_mem hdr_mem) [one_desc] = Inr p"
    by (simp add: from_tx_virtq_head_def one_desc_def read_hdr_def ref_mem_def ok_or_def VSOCK_PKT_HDR_SIZE_def
        pkt_is_empty_def hdr_mem_fields MAX_PKT_BUF_SIZE_def borrow_inline_def borrow_def get_host_address_range_def
        checked_add_def p_def)
  have "fst (send_pkt ref_stream_ops 0 p ref_conn) = Inl Panic"
    by (rule short_inline_data_panics [OF ref_mem_ok _ acc])
      (simp_all add: one_desc_def p_def hdr_mem_fields ref_conn_def)
  with acc show ?thesis by (auto simp: p_def hdr_mem_fields)
qed


end
