(* ===== verification/Conch_Store.thy ===== *)
theory Conch_Store
  imports Prelude
begin

text \<open>
  The page store of the snapshot driver, \<^verbatim>\<open>conch-driver/tools\<close>: a snapshot is split into
  pages, and every page is written once, under the first eight bytes of its digest, into a file of
  fixed slots with open addressing; a page table lists the digests of the pages in order. This
  theory models the two tools that write and query the store and shows that the file is a faithful
  map from digests to pages. The driver that maps the pages is in the theories after this one.
\<close>

section \<open>Layout\<close>

definition PAGE_SIZE :: nat where "PAGE_SIZE = 4096"
definition HEADER_SIZE :: nat where "HEADER_SIZE = 8"
definition SLOT_SIZE :: nat where "SLOT_SIZE = PAGE_SIZE + 8"
definition HASH_MODULUS :: u64 where "HASH_MODULUS = 4096"
definition MAX_PROBE_COUNT :: nat where "MAX_PROBE_COUNT = 64"
definition PAGE_TABLE_ENTRY_SIZE :: nat where "PAGE_TABLE_ENTRY_SIZE = 16"

lemmas layout_defs = PAGE_SIZE_def HEADER_SIZE_def SLOT_SIZE_def HASH_MODULUS_def
  MAX_PROBE_COUNT_def PAGE_TABLE_ENTRY_SIZE_def

record page_table_entry =
  va_offset :: u64
  hash_idx :: u64

definition pte_bytes :: "page_table_entry \<Rightarrow> bytes" where
  "pte_bytes e = to_le_bytes (va_offset e) @ to_le_bytes (hash_idx e)"

definition pte_of :: "bytes \<Rightarrow> page_table_entry" where
  "pte_of b = \<lparr>va_offset = from_le_bytes (take 8 b), hash_idx = from_le_bytes (take 8 (drop 8 b))\<rparr>"

section \<open>Files\<close>

text \<open>
  The system calls of the tools. A file descriptor is a number; \<open>None\<close> is a call that returned
  \<open>-1\<close>. The results of \<open>pwrite\<close>, \<open>write\<close> and \<open>close\<close> are not looked at by the code.
  \<open>px_save\<close> stands for \<open>fopen\<close>, \<open>fprintf\<close> and \<open>fclose\<close> of the metadata.
\<close>

record 'w posix =
  px_open :: "string \<Rightarrow> bool \<Rightarrow> 'w \<Rightarrow> nat option \<times> 'w"
  px_stat :: "string \<Rightarrow> 'w \<Rightarrow> u64 option \<times> 'w"
  px_malloc :: "'w \<Rightarrow> bool \<times> 'w"
  px_pread :: "nat \<Rightarrow> nat \<Rightarrow> u64 \<Rightarrow> 'w \<Rightarrow> bytes option \<times> 'w"
  px_pwrite :: "nat \<Rightarrow> bytes \<Rightarrow> u64 \<Rightarrow> 'w \<Rightarrow> 'w"
  px_write :: "nat \<Rightarrow> bytes \<Rightarrow> 'w \<Rightarrow> 'w"
  px_close :: "nat \<Rightarrow> 'w \<Rightarrow> 'w"
  px_save :: "string \<Rightarrow> string \<Rightarrow> 'w \<Rightarrow> 'w"

section \<open>\<^verbatim>\<open>split_snapshot.c\<close>\<close>

text \<open>The digest is a parameter; the code uses the first eight bytes of SHA-256.\<close>

definition compute_hash_idx :: "(bytes \<Rightarrow> bytes) \<Rightarrow> bytes \<Rightarrow> u64" where
  "compute_hash_idx sha256 data = from_le_bytes (take 8 (sha256 data))"

fun write_probe ::
  "'w posix \<Rightarrow> nat \<Rightarrow> u64 \<Rightarrow> bytes \<Rightarrow> nat \<Rightarrow> u64 \<Rightarrow> 'w \<Rightarrow> bool \<times> 'w" where
  "write_probe P fd hash data 0 file_index w = (False, w)"
| "write_probe P fd hash data (Suc n) file_index w =
     (let offset = file_index * of_nat SLOT_SIZE;
          (ret, w) = px_pread P fd HEADER_SIZE offset w
      in case ret of
           Some header \<Rightarrow>
             if length header < HEADER_SIZE \<or> (from_le_bytes header :: u64) = 0
             then (True, px_pwrite P fd data (offset + of_nat HEADER_SIZE)
                    (px_pwrite P fd (to_le_bytes hash) offset w))
             else if from_le_bytes header = hash then (True, w)
             else write_probe P fd hash data n ((file_index + 1) mod HASH_MODULUS) w
         | None \<Rightarrow> (True, px_pwrite P fd data (offset + of_nat HEADER_SIZE)
                    (px_pwrite P fd (to_le_bytes hash) offset w)))"

text \<open>\<open>True\<close> is the return value \<open>0\<close>, \<open>False\<close> the value \<open>-1\<close>.\<close>

definition write_page_to_slot :: "'w posix \<Rightarrow> string \<Rightarrow> u64 \<Rightarrow> bytes \<Rightarrow> 'w \<Rightarrow> bool \<times> 'w" where
  "write_page_to_slot P pages_path hash data w =
     (case px_open P pages_path True w of
        (None, w) \<Rightarrow> (False, w)
      | (Some fd, w) \<Rightarrow>
          let (r, w) = write_probe P fd hash data MAX_PROBE_COUNT (hash mod HASH_MODULUS) w
          in (r, px_close P fd w))"

text \<open>
  The loop over the pages; \<open>unique_pages\<close> is its accumulator. It is left early at the first read
  that is short.
\<close>

partial_function (option) split_loop ::
  "'w posix \<Rightarrow> (bytes \<Rightarrow> bytes) \<Rightarrow> nat \<Rightarrow> nat \<Rightarrow> string \<Rightarrow> u64 \<Rightarrow> u64 \<Rightarrow> u64 \<Rightarrow> 'w \<Rightarrow> (u64 \<times> 'w) option" where
  "split_loop P sha256 snap_fd pt_fd pages_path total_size va unique_pages w =
     (if va < total_size then
        let (ret, w) = px_pread P snap_fd PAGE_SIZE va w in
        case ret of
          None \<Rightarrow> Some (unique_pages, w)
        | Some page_data \<Rightarrow>
            if length page_data \<noteq> PAGE_SIZE then Some (unique_pages, w)
            else let hash = compute_hash_idx sha256 page_data;
                     w = px_write P pt_fd (pte_bytes \<lparr>va_offset = va, hash_idx = hash\<rparr>) w;
                     (stored, w) = write_page_to_slot P pages_path hash page_data w
                 in split_loop P sha256 snap_fd pt_fd pages_path total_size (va + of_nat PAGE_SIZE)
                      (if stored then unique_pages + 1 else unique_pages) w
      else Some (unique_pages, w))"

text \<open>\<open>snprintf\<close> into a buffer of 256 bytes.\<close>

definition path_256 :: "string \<Rightarrow> string" where
  "path_256 s = take 255 s"

definition metadata_text :: "string \<Rightarrow> u64 \<Rightarrow> u64 \<Rightarrow> u64 \<Rightarrow> string" where
  "metadata_text output_dir total_size page_count unique_pages =
     ''{'' @ [CHR 10] @
     ''  '' @ [CHR 34] @ ''template_id'' @ [CHR 34] @ '': '' @ [CHR 34] @ output_dir @ [CHR 34] @ '','' @ [CHR 10] @
     ''  '' @ [CHR 34] @ ''total_size'' @ [CHR 34] @ '': '' @ show_dec (unat total_size) @ '','' @ [CHR 10] @
     ''  '' @ [CHR 34] @ ''page_count'' @ [CHR 34] @ '': '' @ show_dec (unat page_count) @ '','' @ [CHR 10] @
     ''  '' @ [CHR 34] @ ''unique_pages'' @ [CHR 34] @ '': '' @ show_dec (unat unique_pages) @ '','' @ [CHR 10] @
     ''  '' @ [CHR 34] @ ''hash_modulus'' @ [CHR 34] @ '': '' @ show_dec (unat HASH_MODULUS) @ [CHR 10] @
     ''}'' @ [CHR 10]"

text \<open>
  The exit status, with the numbers of the last line of output: pages and \<open>unique_pages\<close>.
\<close>

definition split_main ::
  "'w posix \<Rightarrow> (bytes \<Rightarrow> bytes) \<Rightarrow> string list \<Rightarrow> 'w \<Rightarrow> ((nat \<times> (u64 \<times> u64) option) \<times> 'w) option" where
  "split_main P sha256 argv w =
     (if length argv \<noteq> 3 then Some ((1, None), w)
      else let snapshot_path = argv ! 1; output_dir = argv ! 2 in
        case px_open P snapshot_path False w of
          (None, w) \<Rightarrow> Some ((1, None), w)
        | (Some snap_fd, w) \<Rightarrow>
            (case px_stat P snapshot_path w of
               (None, w) \<Rightarrow> Some ((1, None), px_close P snap_fd w)
             | (Some total_size, w) \<Rightarrow>
                 let page_count = total_size div of_nat PAGE_SIZE;
                     pages_path = path_256 (output_dir @ ''/pages.bin'');
                     pt_path = path_256 (output_dir @ ''/page_table.bin'');
                     meta_path = path_256 (output_dir @ ''/metadata.json'') in
                 (case px_open P pt_path True w of
                    (None, w) \<Rightarrow> Some ((1, None), px_close P snap_fd w)
                  | (Some pt_fd, w) \<Rightarrow>
                      (case px_malloc P w of
                         (False, w) \<Rightarrow> Some ((1, None), px_close P pt_fd (px_close P snap_fd w))
                       | (True, w) \<Rightarrow>
                           map_option (\<lambda>(unique_pages, w).
                               ((0, Some (page_count, unique_pages)),
                                px_close P pt_fd (px_close P snap_fd
                                  (px_save P meta_path
                                    (metadata_text output_dir total_size page_count unique_pages) w))))
                             (split_loop P sha256 snap_fd pt_fd pages_path total_size 0 0 w)))))"

section \<open>\<^verbatim>\<open>query_snapshot.c\<close>\<close>

datatype query_result = Found | NotFoundEmpty | NotFoundProbes | QueryFailed

fun lookup_probe ::
  "'w posix \<Rightarrow> nat \<Rightarrow> u64 \<Rightarrow> nat \<Rightarrow> nat \<Rightarrow> u64 \<Rightarrow> 'w \<Rightarrow> (query_result \<times> u64 \<times> nat) \<times> 'w" where
  "lookup_probe P fd hash 0 probe file_index w = ((NotFoundProbes, file_index, probe), w)"
| "lookup_probe P fd hash (Suc n) probe file_index w =
     (let (ret, w) = px_pread P fd HEADER_SIZE (file_index * of_nat SLOT_SIZE) w
      in case ret of
           None \<Rightarrow> ((NotFoundEmpty, file_index, probe), w)
         | Some header \<Rightarrow>
             if length header < HEADER_SIZE then ((NotFoundEmpty, file_index, probe), w)
             else if from_le_bytes header = hash then ((Found, file_index, probe), w)
             else if (from_le_bytes header :: u64) = 0 then ((NotFoundEmpty, file_index, probe), w)
             else lookup_probe P fd hash n (probe + 1) ((file_index + 1) mod HASH_MODULUS) w)"

definition lookup_page_by_hash ::
  "'w posix \<Rightarrow> string \<Rightarrow> u64 \<Rightarrow> 'w \<Rightarrow> (query_result \<times> u64 \<times> nat) \<times> 'w" where
  "lookup_page_by_hash P pages_path hash w =
     (case px_open P pages_path False w of
        (None, w) \<Rightarrow> ((QueryFailed, 0, 0), w)
      | (Some fd, w) \<Rightarrow>
          let (r, w) = lookup_probe P fd hash MAX_PROBE_COUNT 0 (hash mod HASH_MODULUS) w
          in (r, px_close P fd w))"

text \<open>The two queries of \<open>main\<close>, from the parsed options on; the result is the exit status.\<close>

definition query_by_hash :: "'w posix \<Rightarrow> u64 \<Rightarrow> string list \<Rightarrow> 'w \<Rightarrow> nat \<times> 'w" where
  "query_by_hash P hash paths w =
     (case paths of
        [] \<Rightarrow> (1, w)
      | pages_path # _ \<Rightarrow>
          let ((result, _, _), w) = lookup_page_by_hash P pages_path hash w
          in (if result = Found then 0 else 1, w))"

definition query_by_va :: "'w posix \<Rightarrow> u64 \<Rightarrow> string list \<Rightarrow> 'w \<Rightarrow> nat \<times> 'w" where
  "query_by_va P va paths w =
     (case paths of
        page_table_path # pages_path # _ \<Rightarrow>
          (case px_open P page_table_path False w of
             (None, w) \<Rightarrow> (1, w)
           | (Some pt_fd, w) \<Rightarrow>
               let pt_offset = va div of_nat PAGE_SIZE * of_nat PAGE_TABLE_ENTRY_SIZE;
                   (ret, w) = px_pread P pt_fd 16 pt_offset w;
                   w = px_close P pt_fd w
               in (case ret of
                    None \<Rightarrow> (1, w)
                  | Some b \<Rightarrow>
                      if length b \<noteq> 16 then (1, w)
                      else if va_offset (pte_of b) \<noteq> va then (1, w)
                      else let ((result, _, _), w) = lookup_page_by_hash P pages_path (hash_idx (pte_of b)) w
                           in (if result = Found then 0 else 1, w)))
      | _ \<Rightarrow> (1, w))"

section \<open>The file as a hash table\<close>

text \<open>Writing into a file at an offset fills a gap with zeros.\<close>

definition pwrite_at :: "bytes \<Rightarrow> bytes \<Rightarrow> nat \<Rightarrow> bytes" where
  "pwrite_at c b off = take off c @ replicate (off - length c) 0 @ b @ drop (off + length b) c"

definition slot :: "bytes \<Rightarrow> nat \<Rightarrow> bytes" where
  "slot c i = take SLOT_SIZE (drop (i * SLOT_SIZE) c)"

definition slot_hash :: "bytes \<Rightarrow> nat \<Rightarrow> u64" where
  "slot_hash c i = (if length (slot c i) < HEADER_SIZE then 0 else from_le_bytes (take HEADER_SIZE (slot c i)))"

definition slot_page :: "bytes \<Rightarrow> nat \<Rightarrow> bytes" where
  "slot_page c i = drop HEADER_SIZE (slot c i)"

definition set_slot :: "bytes \<Rightarrow> nat \<Rightarrow> u64 \<Rightarrow> bytes \<Rightarrow> bytes" where
  "set_slot c i hash data = pwrite_at c (to_le_bytes hash @ data) (i * SLOT_SIZE)"

fun probe_insert :: "bytes \<Rightarrow> u64 \<Rightarrow> bytes \<Rightarrow> nat \<Rightarrow> nat \<Rightarrow> bytes option" where
  "probe_insert c hash data 0 i = None"
| "probe_insert c hash data (Suc n) i =
     (if slot_hash c i = 0 then Some (set_slot c i hash data)
      else if slot_hash c i = hash then Some c
      else probe_insert c hash data n (Suc i mod 4096))"

fun probe_find :: "bytes \<Rightarrow> u64 \<Rightarrow> nat \<Rightarrow> nat \<Rightarrow> nat option" where
  "probe_find c hash 0 i = None"
| "probe_find c hash (Suc n) i =
     (if slot_hash c i = hash then Some i
      else if slot_hash c i = 0 then None
      else probe_find c hash n (Suc i mod 4096))"

definition home_slot :: "u64 \<Rightarrow> nat" where
  "home_slot hash = unat hash mod 4096"

definition store_insert :: "bytes \<Rightarrow> u64 \<Rightarrow> bytes \<Rightarrow> bytes option" where
  "store_insert c hash data = probe_insert c hash data 64 (home_slot hash)"

definition store_lookup :: "bytes \<Rightarrow> u64 \<Rightarrow> bytes option" where
  "store_lookup c hash = map_option (slot_page c) (probe_find c hash 64 (home_slot hash))"

text \<open>
  The invariant of the table: the file consists of whole slots, and every digest is within reach
  of its home slot, over occupied slots of other digests.
\<close>

definition reach :: "bytes \<Rightarrow> u64 \<Rightarrow> nat \<Rightarrow> bool" where
  "reach c hash k \<longleftrightarrow> (\<forall>j < k. slot_hash c ((home_slot hash + j) mod 4096) \<notin> {0, hash})"

definition store_ok :: "bytes \<Rightarrow> bool" where
  "store_ok c \<longleftrightarrow> SLOT_SIZE dvd length c \<and>
     (\<forall>i < 4096. slot_hash c i \<noteq> 0 \<longrightarrow>
        (\<exists>k < 64. i = (home_slot (slot_hash c i) + k) mod 4096 \<and> reach c (slot_hash c i) k))"


subsection \<open>Writing a slot\<close>

lemma length_pwrite_at: "length (pwrite_at c b off) = max (length c) (off + length b)"
  by (auto simp: pwrite_at_def max_def)

lemma pwrite_same: "take (length b) (drop off (pwrite_at c b off)) = b"
  by (auto simp: pwrite_at_def drop_append min_def)

lemma pwrite_after: "off + length b \<le> k \<Longrightarrow> drop k (pwrite_at c b off) = drop k c"
  by (auto simp: pwrite_at_def drop_append min_def)

lemma pwrite_before:
  "k + n \<le> off \<Longrightarrow> k + n \<le> length c \<Longrightarrow> take n (drop k (pwrite_at c b off)) = take n (drop k c)"
  by (auto simp: pwrite_at_def drop_append min_def take_drop)

lemma pwrite_gap:
  "k + n \<le> off \<Longrightarrow> length c \<le> k \<Longrightarrow> take n (drop k (pwrite_at c b off)) = replicate n 0"
  by (auto simp: pwrite_at_def drop_append min_def)

lemma pwrite_append:
  "pwrite_at (pwrite_at c a off) b (off + length a) = pwrite_at c (a @ b) off"
  by (auto simp: pwrite_at_def min_def ac_simps)

lemma slot_size: "SLOT_SIZE = 4104" by (simp add: layout_defs)

lemma slot_written:
  assumes c: "SLOT_SIZE dvd length c" and d: "length data = PAGE_SIZE"
  shows "slot (set_slot c i hash data) j =
    (if j = i then to_le_bytes hash @ data
     else if length c \<le> j * SLOT_SIZE \<and> j < i then replicate SLOT_SIZE 0 else slot c j)"
proof -
  let ?b = "to_le_bytes hash @ data"
  have len: "length ?b = SLOT_SIZE" using d by (simp add: layout_defs)
  consider "j = i" | "i < j" | "j < i" "length c \<le> j * SLOT_SIZE" | "j < i" "j * SLOT_SIZE < length c"
    by linarith
  then show ?thesis
  proof cases
    case 1
    then show ?thesis using pwrite_same [of ?b "i * SLOT_SIZE" c] len
      by (simp add: slot_def set_slot_def)
  next
    case 2
    then have "i * SLOT_SIZE + length ?b \<le> j * SLOT_SIZE"
      using mult_le_mono1 [of "Suc i" j SLOT_SIZE] len by simp
    with 2 show ?thesis by (simp add: slot_def set_slot_def pwrite_after)
  next
    case 3
    then have "j * SLOT_SIZE + SLOT_SIZE \<le> i * SLOT_SIZE"
      using mult_le_mono1 [of "Suc j" i SLOT_SIZE] by simp
    with 3 show ?thesis by (simp add: slot_def set_slot_def pwrite_gap)
  next
    case 4
    then have a: "j * SLOT_SIZE + SLOT_SIZE \<le> i * SLOT_SIZE"
      using mult_le_mono1 [of "Suc j" i SLOT_SIZE] by simp
    from c obtain n where n: "length c = SLOT_SIZE * n" ..
    with 4 have "j < n" by (simp add: mult.commute)
    then have "j * SLOT_SIZE + SLOT_SIZE \<le> length c"
      using mult_le_mono1 [of "Suc j" n SLOT_SIZE] n by (simp add: mult.commute)
    with 4 a show ?thesis by (simp add: slot_def set_slot_def pwrite_before)
  qed
qed

lemma slot_beyond: "length c \<le> j * SLOT_SIZE \<Longrightarrow> slot c j = []"
  by (simp add: slot_def)

lemma from_le_zeros: "(from_le_bytes (replicate n 0) :: 'a::len word) = 0"
  by (induction n) simp_all

lemma hash_written:
  assumes c: "SLOT_SIZE dvd length c" and d: "length data = PAGE_SIZE"
  shows "slot_hash (set_slot c i hash data) j = (if j = i then hash else slot_hash c j)"
proof -
  have le: "(from_le_bytes (to_le_bytes hash) :: u64) = hash" by (rule from_to_le_bytes) simp
  consider "j = i" | "j \<noteq> i" "length c \<le> j * SLOT_SIZE" "j < i" | "j \<noteq> i" "\<not> (length c \<le> j * SLOT_SIZE \<and> j < i)"
    by blast
  then show ?thesis
  proof cases
    case 1
    then show ?thesis
      by (simp add: slot_hash_def slot_written [OF c d] HEADER_SIZE_def le)
  next
    case 2
    then show ?thesis
      by (simp add: slot_hash_def slot_written [OF c d] slot_beyond HEADER_SIZE_def from_le_zeros)
  next
    case 3
    then have "slot (set_slot c i hash data) j = slot c j" by (auto simp: slot_written [OF c d])
    with 3 show ?thesis by (simp add: slot_hash_def)
  qed
qed

lemma page_written:
  assumes c: "SLOT_SIZE dvd length c" and d: "length data = PAGE_SIZE"
  shows "slot_page (set_slot c i hash data) i = data"
    and "slot_hash c j \<noteq> 0 \<Longrightarrow> j \<noteq> i \<Longrightarrow> slot_page (set_slot c i hash data) j = slot_page c j"
proof -
  show "slot_page (set_slot c i hash data) i = data"
    by (simp add: slot_page_def slot_written [OF c d] HEADER_SIZE_def)
  assume "slot_hash c j \<noteq> 0" and "j \<noteq> i"
  then have "\<not> length c \<le> j * SLOT_SIZE"
    using slot_beyond [of c j] by (auto simp: slot_hash_def HEADER_SIZE_def)
  with \<open>j \<noteq> i\<close> show "slot_page (set_slot c i hash data) j = slot_page c j"
    by (simp add: slot_page_def slot_written [OF c d])
qed

lemma set_slot_whole:
  assumes "SLOT_SIZE dvd length c" and "length data = PAGE_SIZE"
  shows "SLOT_SIZE dvd length (set_slot c i hash data)"
proof -
  have "i * SLOT_SIZE + length (to_le_bytes hash @ data) = Suc i * SLOT_SIZE"
    using assms(2) by (simp add: layout_defs)
  then have "length (set_slot c i hash data) = max (length c) (Suc i * SLOT_SIZE)"
    by (simp only: set_slot_def length_pwrite_at)
  with assms(1) show ?thesis by (auto simp only: max_def dvd_triv_right split: if_splits)
qed

subsection \<open>Looking up and inserting\<close>

lemma probe_step: "i < 4096 \<Longrightarrow> (Suc i mod 4096 + j) mod 4096 = (i + Suc j) mod (4096::nat)"
  by (simp add: mod_simps)

lemma probe_find_iff:
  assumes "i < 4096"
  shows "probe_find c hash n i = Some r \<longleftrightarrow>
    (\<exists>k < n. r = (i + k) mod 4096 \<and> slot_hash c r = hash \<and>
       (\<forall>j < k. slot_hash c ((i + j) mod 4096) \<notin> {0, hash}))"
  using assms
proof (induction n arbitrary: i)
  case (Suc n)
  have IH: "probe_find c hash n (Suc i mod 4096) = Some r \<longleftrightarrow>
    (\<exists>k < n. r = (i + Suc k) mod 4096 \<and> slot_hash c r = hash \<and>
       (\<forall>j < k. slot_hash c ((i + Suc j) mod 4096) \<notin> {0, hash}))"
    using Suc.IH [of "Suc i mod 4096"] by (simp add: probe_step [OF Suc.prems])
  show ?case
  proof (cases "slot_hash c i \<in> {0, hash}")
    case True
    then show ?thesis using Suc.prems
      by (auto simp: Ex_less_Suc2 All_less_Suc2)
  next
    case False
    then show ?thesis using Suc.prems IH by (auto simp: Ex_less_Suc2 All_less_Suc2)
  qed
qed simp

lemma home_slot_lt [simp]: "home_slot hash < 4096"
  by (simp add: home_slot_def)

lemma lookup_iff:
  assumes "store_ok c" and "hash \<noteq> 0"
  shows "store_lookup c hash = Some d \<longleftrightarrow> (\<exists>i < 4096. slot_hash c i = hash \<and> slot_page c i = d)"
proof
  assume "store_lookup c hash = Some d"
  then obtain k where "slot_hash c ((home_slot hash + k) mod 4096) = hash"
    "d = slot_page c ((home_slot hash + k) mod 4096)"
    by (auto simp: store_lookup_def probe_find_iff)
  then show "\<exists>i < 4096. slot_hash c i = hash \<and> slot_page c i = d"
    by (intro exI [of _ "(home_slot hash + k) mod 4096"]) simp
next
  assume "\<exists>i < 4096. slot_hash c i = hash \<and> slot_page c i = d"
  then obtain i where i: "i < 4096" "slot_hash c i = hash" "slot_page c i = d" by blast
  with assms obtain k where "k < 64" "i = (home_slot hash + k) mod 4096" "reach c hash k"
    unfolding store_ok_def by metis
  with i have "probe_find c hash 64 (home_slot hash) = Some i"
    unfolding reach_def by (subst probe_find_iff) auto
  with i show "store_lookup c hash = Some d" by (simp add: store_lookup_def)
qed

text \<open>A digest is in one slot only.\<close>

lemma slot_unique:
  assumes c: "store_ok c" and i: "i < 4096" and j: "j < 4096"
    and h: "slot_hash c i = slot_hash c j" "slot_hash c i \<noteq> 0"
  shows "i = j"
proof -
  let ?h = "slot_hash c i"
  from c i h obtain k where k: "i = (home_slot ?h + k) mod 4096" "reach c ?h k"
    unfolding store_ok_def by metis
  from c j h obtain l where l: "j = (home_slot ?h + l) mod 4096" "reach c ?h l"
    unfolding store_ok_def by metis
  have "\<not> k < l" using k l h unfolding reach_def by (metis insertCI)
  moreover have "\<not> l < k" using k l h unfolding reach_def by (metis insertCI)
  ultimately show ?thesis using k l by simp
qed

lemma probe_insert_cases:
  assumes "i < 4096" and "probe_insert c hash data n i = Some c'"
  shows "\<exists>k < n. (\<forall>j < k. slot_hash c ((i + j) mod 4096) \<notin> {0, hash}) \<and>
    (slot_hash c ((i + k) mod 4096) = 0 \<and> c' = set_slot c ((i + k) mod 4096) hash data \<or>
     slot_hash c ((i + k) mod 4096) \<noteq> 0 \<and> slot_hash c ((i + k) mod 4096) = hash \<and> c' = c)"
  using assms
proof (induction n arbitrary: i)
  case (Suc n)
  show ?case
  proof (cases "slot_hash c i \<in> {0, hash}")
    case True
    with Suc.prems show ?thesis by (intro exI [of _ 0]) (auto split: if_splits)
  next
    case False
    with Suc.prems have "probe_insert c hash data n (Suc i mod 4096) = Some c'" by simp
    from Suc.IH [OF _ this] obtain k where "k < n"
      "\<forall>j < k. slot_hash c ((Suc i mod 4096 + j) mod 4096) \<notin> {0, hash}"
      "slot_hash c ((Suc i mod 4096 + k) mod 4096) = 0 \<and> c' = set_slot c ((Suc i mod 4096 + k) mod 4096) hash data \<or>
       slot_hash c ((Suc i mod 4096 + k) mod 4096) \<noteq> 0 \<and> slot_hash c ((Suc i mod 4096 + k) mod 4096) = hash \<and> c' = c"
      by auto
    with False Suc.prems(1) show ?thesis
      by (intro exI [of _ "Suc k"]) (simp only: probe_step All_less_Suc2 Suc_less_eq, simp)
  qed
qed simp

lemma insert_cases:
  assumes c: "store_ok c" and h: "hash \<noteq> 0" and ins: "store_insert c hash data = Some c'"
  obtains (present) d where "store_lookup c hash = Some d" and "c' = c"
  | (new) k where "k < 64" and "store_lookup c hash = None" and "reach c hash k"
      and "slot_hash c ((home_slot hash + k) mod 4096) = 0"
      and "c' = set_slot c ((home_slot hash + k) mod 4096) hash data"
proof -
  from probe_insert_cases [OF home_slot_lt ins [unfolded store_insert_def]]
  obtain k where k0: "k < 64" "\<forall>j < k. slot_hash c ((home_slot hash + j) mod 4096) \<notin> {0, hash}" and r: "slot_hash c ((home_slot hash + k) mod 4096) = 0 \<and> c' = set_slot c ((home_slot hash + k) mod 4096) hash data \<or>
      slot_hash c ((home_slot hash + k) mod 4096) \<noteq> 0 \<and> slot_hash c ((home_slot hash + k) mod 4096) = hash \<and> c' = c"
    by (elim exE conjE) (rule that)
  have "reach c hash k" unfolding reach_def by (rule k0(2))
  note k = k0(1) this
  from r show thesis
  proof (elim disjE conjE)
    assume z: "slot_hash c ((home_slot hash + k) mod 4096) = 0"
      and c': "c' = set_slot c ((home_slot hash + k) mod 4096) hash data"
    have "store_lookup c hash = None"
    proof (rule ccontr)
      assume "store_lookup c hash \<noteq> None"
      then obtain i where i: "i < 4096" "slot_hash c i = hash" by (auto simp: lookup_iff [OF c h])
      with c h obtain l where l: "i = (home_slot hash + l) mod 4096" "reach c hash l"
        unfolding store_ok_def by metis
      have "\<not> l < k" using k(2) l(1) i(2) by (auto simp: reach_def)
      moreover have "\<not> k < l" using l(2) z by (auto simp: reach_def)
      ultimately have "l = k" by simp
      with l i z h show False by simp
    qed
    then show thesis using new k z c' by blast
  next
    assume e: "slot_hash c ((home_slot hash + k) mod 4096) = hash" and "c' = c"
    moreover have "store_lookup c hash = Some (slot_page c ((home_slot hash + k) mod 4096))"
      by (subst lookup_iff [OF c h], intro exI [of _ "(home_slot hash + k) mod 4096"]) (simp add: e)
    ultimately show thesis using present by blast
  qed
qed

lemma insert_ok:
  assumes c: "store_ok c" and h: "hash \<noteq> 0" and d: "length data = PAGE_SIZE"
    and ins: "store_insert c hash data = Some c'"
  shows "store_ok c'"
  using c h ins
proof (cases rule: insert_cases)
  case (new k)
  let ?i = "(home_slot hash + k) mod 4096"
  from c have w: "SLOT_SIZE dvd length c" by (simp add: store_ok_def)
  have H: "slot_hash c' j = (if j = ?i then hash else slot_hash c j)" for j
    using new by (simp add: hash_written [OF w d])
  have R: "reach c x l \<Longrightarrow> (\<And>j. j < l \<Longrightarrow> (home_slot x + j) mod 4096 \<noteq> ?i \<or> hash \<notin> {0, x}) \<Longrightarrow> reach c' x l" for x l
    unfolding reach_def by (auto simp: H)
  have "\<exists>l < 64. j = (home_slot (slot_hash c' j) + l) mod 4096 \<and> reach c' (slot_hash c' j) l"
    if j: "j < 4096" "slot_hash c' j \<noteq> 0" for j
  proof (cases "j = ?i")
    case True
    have "reach c' hash k"
      using new(3,4) by (intro R) (auto simp: reach_def)
    with True new(1) show ?thesis by (auto simp: H)
  next
    case False
    with j c obtain l where l: "l < 64" "j = (home_slot (slot_hash c j) + l) mod 4096"
      "reach c (slot_hash c j) l" unfolding store_ok_def by (auto simp: H)
    have "reach c' (slot_hash c j) l"
      using l(3) new(4) by (intro R) (auto simp: reach_def)
    with False l show ?thesis by (auto simp: H)
  qed
  moreover have "SLOT_SIZE dvd length c'" using new set_slot_whole [OF w d] by simp
  ultimately show ?thesis unfolding store_ok_def by blast
qed (use c in simp)

lemma insert_lookup:
  assumes c: "store_ok c" and h: "hash \<noteq> 0" and d: "length data = PAGE_SIZE"
    and ins: "store_insert c hash data = Some c'" and x: "x \<noteq> 0"
  shows "store_lookup c' x = (if x = hash \<and> store_lookup c hash = None then Some data else store_lookup c x)"
  using c h ins
proof (cases rule: insert_cases)
  case (present e)
  then show ?thesis by simp
next
  case (new k)
  let ?i = "(home_slot hash + k) mod 4096"
  from c have w: "SLOT_SIZE dvd length c" by (simp add: store_ok_def)
  have H: "slot_hash c' j = (if j = ?i then hash else slot_hash c j)" for j
    using new by (simp add: hash_written [OF w d])
  have c': "store_ok c'" by (rule insert_ok [OF c h d ins])
  show ?thesis
  proof (cases "x = hash")
    case True
    have "slot_hash c' ?i = hash" "slot_page c' ?i = data"
      using H page_written(1) [OF w d] new(5) by simp_all
    then have "store_lookup c' hash = Some data"
      by (subst lookup_iff [OF c' h], intro exI [of _ ?i]) simp
    with True new show ?thesis by simp
  next
    case False
    have P: "slot_hash c j \<noteq> 0 \<Longrightarrow> j \<noteq> ?i \<Longrightarrow> slot_page c' j = slot_page c j" for j
      using page_written(2) [OF w d] new(5) by simp
    have "store_lookup c' x = Some e \<longleftrightarrow> store_lookup c x = Some e" for e
    proof -
      have "(slot_hash c' j = x \<and> slot_page c' j = e) = (slot_hash c j = x \<and> slot_page c j = e)" for j
        using False x new(4) P [of j] H [of j] by (cases "j = ?i") auto
      then show ?thesis by (simp add: lookup_iff [OF c' x] lookup_iff [OF c x])
    qed
    then show ?thesis using False by (metis not_Some_eq)
  qed
qed

section \<open>Content-addressed stores\<close>

text \<open>
  What the tools and the driver rely on: insertion keeps the store well-formed and changes the map
  from digests to pages at the inserted digest only, and only if that was free. A page may fail to
  be inserted; \<open>store_pages\<close> inserts those of a list that are marked, and counts the successes.
\<close>

primrec store_pages ::
  "('c \<Rightarrow> u64 \<Rightarrow> bytes \<Rightarrow> 'c option) \<Rightarrow> (bytes \<Rightarrow> u64) \<Rightarrow> (bytes \<times> bool) list \<Rightarrow> 'c \<Rightarrow> 'c \<times> nat" where
  "store_pages ins H [] c = (c, 0)"
| "store_pages ins H (x # xs) c =
     (case (if snd x then ins c (H (fst x)) (fst x) else None) of
        None \<Rightarrow> store_pages ins H xs c
      | Some c' \<Rightarrow> let (c'', n) = store_pages ins H xs c' in (c'', Suc n))"

lemma store_pages_skip:
  "\<not> b \<or> ins c (H e) e = None \<Longrightarrow> store_pages ins H ((e, b) # xs) c = store_pages ins H xs c"
  by (auto split: option.splits)

lemma store_pages_next:
  "b \<Longrightarrow> ins c (H e) e = Some c1 \<Longrightarrow>
   store_pages ins H ((e, b) # xs) c = (fst (store_pages ins H xs c1), Suc (snd (store_pages ins H xs c1)))"
  by (simp add: Let_def split: prod.splits)

lemma store_pages_count: "snd (store_pages ins H xs c) \<le> length xs"
proof (induction xs arbitrary: c)
  case (Cons x xs)
  obtain e b where x: "x = (e, b)" by (cases x)
  show ?case
  proof (cases "b \<and> ins c (H e) e \<noteq> None")
    case True
    then obtain c1 where c1: "ins c (H e) e = Some c1" by blast
    with True Cons.IH [of c1] x show ?thesis by (simp add: store_pages_next del: store_pages.simps)
  next
    case False
    then have "store_pages ins H (x # xs) c = store_pages ins H xs c"
      unfolding x by (intro store_pages_skip) auto
    with Cons.IH [of c] show ?thesis by (simp del: store_pages.simps)
  qed
qed simp

locale page_store =
  fixes ok :: "'c \<Rightarrow> bool" and lookup :: "'c \<Rightarrow> u64 \<Rightarrow> bytes option"
    and ins :: "'c \<Rightarrow> u64 \<Rightarrow> bytes \<Rightarrow> 'c option" and page :: "bytes \<Rightarrow> bool"
  assumes ins_ok: "ok c \<Longrightarrow> h \<noteq> 0 \<Longrightarrow> page d \<Longrightarrow> ins c h d = Some c' \<Longrightarrow> ok c'"
    and ins_lookup: "ok c \<Longrightarrow> h \<noteq> 0 \<Longrightarrow> page d \<Longrightarrow> ins c h d = Some c' \<Longrightarrow> x \<noteq> 0 \<Longrightarrow>
      lookup c' x = (if x = h \<and> lookup c h = None then Some d else lookup c x)"
begin

definition sealed :: "(bytes \<Rightarrow> u64) \<Rightarrow> bytes set \<Rightarrow> 'c \<Rightarrow> bool" where
  "sealed H U c \<longleftrightarrow> ok c \<and> (\<forall>h d. h \<noteq> 0 \<longrightarrow> lookup c h = Some d \<longrightarrow> d \<in> U \<and> H d = h)"

lemma ins_sealed:
  assumes "sealed H U c" and "page e" and "H e \<noteq> 0" and "e \<in> U" and "ins c (H e) e = Some c1"
  shows "sealed H U c1"
  using assms ins_ok [of c "H e" e c1] ins_lookup [of c "H e" e c1]
  unfolding sealed_def by (auto split: if_splits)

lemma pages_sealed:
  assumes "sealed H U c" and "\<forall>x \<in> set xs. page (fst x) \<and> H (fst x) \<noteq> 0 \<and> fst x \<in> U"
  shows "sealed H U (fst (store_pages ins H xs c)) \<and>
    (\<forall>h d. h \<noteq> 0 \<longrightarrow> lookup c h = Some d \<longrightarrow> lookup (fst (store_pages ins H xs c)) h = Some d)"
  using assms
proof (induction xs arbitrary: c)
  case (Cons x xs)
  obtain e b where x: "x = (e, b)" by (cases x)
  with Cons.prems have e: "page e" "H e \<noteq> 0" "e \<in> U" and ok: "ok c" by (auto simp: sealed_def)
  show ?case
  proof (cases "b \<and> ins c (H e) e \<noteq> None")
    case True
    then obtain c1 where c1: "ins c (H e) e = Some c1" by blast
    have "sealed H U c1" by (rule ins_sealed [OF Cons.prems(1) e(1-3) c1])
    moreover have "h \<noteq> 0 \<Longrightarrow> lookup c h = Some d \<Longrightarrow> lookup c1 h = Some d" for h d
      using ins_lookup [OF ok e(2,1) c1] by auto
    ultimately show ?thesis using Cons.IH [of c1] Cons.prems(2) True c1 x
      by (simp add: store_pages_next del: store_pages.simps)
  next
    case False
    then have "store_pages ins H (x # xs) c = store_pages ins H xs c"
      unfolding x by (intro store_pages_skip) auto
    with Cons show ?thesis by (simp del: store_pages.simps)
  qed
qed simp

lemma all_found:
  assumes "sealed H U c" and "\<forall>x \<in> set xs. page (fst x) \<and> H (fst x) \<noteq> 0 \<and> fst x \<in> U" and inj: "inj_on H U"
    and "snd (store_pages ins H xs c) = length xs" and "x \<in> set xs"
  shows "lookup (fst (store_pages ins H xs c)) (H (fst x)) = Some (fst x)"
  using assms
proof (induction xs arbitrary: c)
  case (Cons y xs)
  obtain e b where y: "y = (e, b)" by (cases y)
  with Cons.prems have e: "page e" "H e \<noteq> 0" "e \<in> U" and ok: "ok c" by (auto simp: sealed_def)
  have b: "b \<and> ins c (H e) e \<noteq> None"
  proof (rule ccontr)
    assume "\<not> (b \<and> ins c (H e) e \<noteq> None)"
    then have "store_pages ins H (y # xs) c = store_pages ins H xs c"
      unfolding y by (intro store_pages_skip) auto
    with Cons.prems(4) store_pages_count [of ins H xs c] show False by (simp del: store_pages.simps)
  qed
  then obtain c1 where c1: "ins c (H e) e = Some c1" by blast
  with b y have sp: "store_pages ins H (y # xs) c =
    (fst (store_pages ins H xs c1), Suc (snd (store_pages ins H xs c1)))"
    by (simp add: store_pages_next del: store_pages.simps)
  have s1: "sealed H U c1" by (rule ins_sealed [OF Cons.prems(1) e(1-3) c1])
  show ?case
  proof (cases "fst x = e")
    case True
    have "lookup c1 (H e) \<noteq> None" using ins_lookup [OF ok e(2,1) c1 e(2)] by auto
    then obtain d where d: "lookup c1 (H e) = Some d" by blast
    with s1 e(2) have "d \<in> U" "H d = H e" by (auto simp: sealed_def)
    with e(3) inj have "d = e" by (auto dest: inj_onD)
    with pages_sealed [OF s1, of xs] Cons.prems(2) d e(2) True sp show ?thesis
      by (simp del: store_pages.simps)
  next
    case False
    with Cons.prems(5) y have "x \<in> set xs" by auto
    with Cons.IH [OF s1 _ inj] Cons.prems(2,4) sp show ?thesis by (simp del: store_pages.simps)
  qed
qed simp

end

interpretation slots: page_store store_ok store_lookup store_insert "\<lambda>d. length d = PAGE_SIZE"
  by unfold_locales (auto intro: insert_ok simp: insert_lookup)

end
