(* ===== verification/Conch_Tools.thy ===== *)
theory Conch_Tools
  imports Conch_Store
begin

text \<open>
  The tools over a file system. A contract states what the system calls do to regular files when
  no read or write fails: opening may fail, and is the only call of the tools that does. Under it
  the splitting tool always comes to an end, writes the page table of the snapshot and inserts
  every page into the store, and the query tool answers what the store holds.
\<close>

section \<open>Regular files\<close>

text \<open>\<open>fds\<close> gives the file and the position of an open descriptor.\<close>

type_synonym disk = "string \<Rightarrow> bytes option"
type_synonym fd_table = "nat \<Rightarrow> (string \<times> nat) option"

definition posix_ok :: "'w posix \<Rightarrow> ('w \<Rightarrow> disk) \<Rightarrow> ('w \<Rightarrow> fd_table) \<Rightarrow> bool" where
  "posix_ok P disk fds \<longleftrightarrow>
     (\<forall>p cr w r w'. px_open P p cr w = (r, w') \<longrightarrow>
        (case r of
           None \<Rightarrow> disk w' = disk w \<and> fds w' = fds w
         | Some fd \<Rightarrow> fds w fd = None \<and> fds w' = (fds w)(fd \<mapsto> (p, 0)) \<and> (disk w p = None \<longrightarrow> cr) \<and>
             disk w' = (if disk w p = None then (disk w)(p \<mapsto> []) else disk w))) \<and>
     (\<forall>p w r w'. px_stat P p w = (r, w') \<longrightarrow> disk w' = disk w \<and> fds w' = fds w \<and>
        (\<forall>n c. r = Some n \<longrightarrow> disk w p = Some c \<longrightarrow> unat n = length c \<and> unat n < 2 ^ 63)) \<and>
     (\<forall>w r w'. px_malloc P w = (r, w') \<longrightarrow> disk w' = disk w \<and> fds w' = fds w) \<and>
     (\<forall>fd p k c n off w. fds w fd = Some (p, k) \<longrightarrow> disk w p = Some c \<longrightarrow>
        (\<exists>w'. px_pread P fd n off w = (Some (take n (drop (unat off) c)), w') \<and> disk w' = disk w \<and> fds w' = fds w)) \<and>
     (\<forall>fd p k c b off w. fds w fd = Some (p, k) \<longrightarrow> disk w p = Some c \<longrightarrow>
        disk (px_pwrite P fd b off w) = (disk w)(p \<mapsto> pwrite_at c b (unat off)) \<and>
        fds (px_pwrite P fd b off w) = fds w) \<and>
     (\<forall>fd p k c b w. fds w fd = Some (p, k) \<longrightarrow> disk w p = Some c \<longrightarrow>
        disk (px_write P fd b w) = (disk w)(p \<mapsto> pwrite_at c b k) \<and>
        fds (px_write P fd b w) = (fds w)(fd \<mapsto> (p, k + length b))) \<and>
     (\<forall>fd w. disk (px_close P fd w) = disk w \<and> fds (px_close P fd w) = (fds w)(fd := None)) \<and>
     (\<forall>p t w. fds (px_save P p t w) = fds w \<and>
        (disk (px_save P p t w) = disk w \<or> (\<exists>c. disk (px_save P p t w) = (disk w)(p \<mapsto> c))))"

lemma posix_okD:
  assumes "posix_ok P disk fds"
  shows posix_open_None: "px_open P p cr w = (None, w') \<Longrightarrow> disk w' = disk w \<and> fds w' = fds w"
    and posix_open_Some: "px_open P p cr w = (Some fd, w') \<Longrightarrow> fds w fd = None \<and> fds w' = (fds w)(fd \<mapsto> (p, 0)) \<and>
      (disk w p = None \<longrightarrow> cr) \<and> disk w' = (if disk w p = None then (disk w)(p \<mapsto> []) else disk w)"
    and posix_stat: "px_stat P p w = (r, w') \<Longrightarrow> disk w' = disk w \<and> fds w' = fds w \<and>
      (\<forall>n c. r = Some n \<longrightarrow> disk w p = Some c \<longrightarrow> unat n = length c \<and> unat n < 2 ^ 63)"
    and posix_malloc: "px_malloc P w = (m, w') \<Longrightarrow> disk w' = disk w \<and> fds w' = fds w"
    and posix_pread: "fds w fd = Some (p, k) \<Longrightarrow> disk w p = Some c \<Longrightarrow>
      \<exists>w'. px_pread P fd n off w = (Some (take n (drop (unat off) c)), w') \<and> disk w' = disk w \<and> fds w' = fds w"
    and posix_pwrite: "fds w fd = Some (p, k) \<Longrightarrow> disk w p = Some c \<Longrightarrow>
      disk (px_pwrite P fd b off w) = (disk w)(p \<mapsto> pwrite_at c b (unat off)) \<and> fds (px_pwrite P fd b off w) = fds w"
    and posix_write: "fds w fd = Some (p, k) \<Longrightarrow> disk w p = Some c \<Longrightarrow>
      disk (px_write P fd b w) = (disk w)(p \<mapsto> pwrite_at c b k) \<and>
      fds (px_write P fd b w) = (fds w)(fd \<mapsto> (p, k + length b))"
    and posix_close: "disk (px_close P fd w) = disk w \<and> fds (px_close P fd w) = (fds w)(fd := None)"
    and posix_save: "fds (px_save P p t w) = fds w \<and>
      (disk (px_save P p t w) = disk w \<or> (\<exists>c. disk (px_save P p t w) = (disk w)(p \<mapsto> c)))"
proof -
  note A = assms [unfolded posix_ok_def]
  note A1 = conjunct1 [OF A] and B1 = conjunct2 [OF A]
  note A2 = conjunct1 [OF B1] and B2 = conjunct2 [OF B1]
  note A3 = conjunct1 [OF B2] and B3 = conjunct2 [OF B2]
  note A4 = conjunct1 [OF B3] and B4 = conjunct2 [OF B3]
  note A5 = conjunct1 [OF B4] and B5 = conjunct2 [OF B4]
  note A6 = conjunct1 [OF B5] and B6 = conjunct2 [OF B5]
  note A7 = conjunct1 [OF B6] and A8 = conjunct2 [OF B6]
  show "px_open P p cr w = (None, w') \<Longrightarrow> disk w' = disk w \<and> fds w' = fds w"
    using A1 [rule_format, of p cr w None w'] by simp
  show "px_open P p cr w = (Some fd, w') \<Longrightarrow> fds w fd = None \<and> fds w' = (fds w)(fd \<mapsto> (p, 0)) \<and>
      (disk w p = None \<longrightarrow> cr) \<and> disk w' = (if disk w p = None then (disk w)(p \<mapsto> []) else disk w)"
    using A1 [rule_format, of p cr w "Some fd" w'] by simp
  show "px_stat P p w = (r, w') \<Longrightarrow> disk w' = disk w \<and> fds w' = fds w \<and>
      (\<forall>n c. r = Some n \<longrightarrow> disk w p = Some c \<longrightarrow> unat n = length c \<and> unat n < 2 ^ 63)"
    using A2 [rule_format, of p w r w'] by blast
  show "px_malloc P w = (m, w') \<Longrightarrow> disk w' = disk w \<and> fds w' = fds w"
    using A3 [rule_format, of w m w'] by blast
  show "fds w fd = Some (p, k) \<Longrightarrow> disk w p = Some c \<Longrightarrow>
      \<exists>w'. px_pread P fd n off w = (Some (take n (drop (unat off) c)), w') \<and> disk w' = disk w \<and> fds w' = fds w"
    by (rule A4 [rule_format])
  show "fds w fd = Some (p, k) \<Longrightarrow> disk w p = Some c \<Longrightarrow>
      disk (px_pwrite P fd b off w) = (disk w)(p \<mapsto> pwrite_at c b (unat off)) \<and> fds (px_pwrite P fd b off w) = fds w"
    by (rule A5 [rule_format])
  show "fds w fd = Some (p, k) \<Longrightarrow> disk w p = Some c \<Longrightarrow>
      disk (px_write P fd b w) = (disk w)(p \<mapsto> pwrite_at c b k) \<and>
      fds (px_write P fd b w) = (fds w)(fd \<mapsto> (p, k + length b))"
    by (rule A6 [rule_format])
  show "disk (px_close P fd w) = disk w \<and> fds (px_close P fd w) = (fds w)(fd := None)"
    by (rule A7 [rule_format])
  show "fds (px_save P p t w) = fds w \<and>
      (disk (px_save P p t w) = disk w \<or> (\<exists>c. disk (px_save P p t w) = (disk w)(p \<mapsto> c)))"
    by (rule A8 [rule_format])
qed

section \<open>Probing a file is probing the table\<close>

lemma slot_offset:
  assumes i: "i < 4096"
  shows "unat (of_nat i * of_nat SLOT_SIZE :: u64) = i * SLOT_SIZE"
    and "unat (of_nat i * of_nat SLOT_SIZE + of_nat HEADER_SIZE :: u64) = i * SLOT_SIZE + 8"
proof -
  have "i * SLOT_SIZE + 8 < 2 ^ 64" using i by (simp add: slot_size)
  then have "unat (of_nat (i * SLOT_SIZE) :: u64) = i * SLOT_SIZE"
    and "unat (of_nat (i * SLOT_SIZE + 8) :: u64) = i * SLOT_SIZE + 8"
    by (intro unat_of_nat_eq; simp)+
  then show "unat (of_nat i * of_nat SLOT_SIZE :: u64) = i * SLOT_SIZE"
    and "unat (of_nat i * of_nat SLOT_SIZE + of_nat HEADER_SIZE :: u64) = i * SLOT_SIZE + 8"
    by (simp_all add: HEADER_SIZE_def)
qed

lemma unat_modulus: "unat HASH_MODULUS = 4096"
  by (simp add: HASH_MODULUS_def)

lemma next_index:
  assumes "i < 4096"
  shows "(of_nat i + 1) mod HASH_MODULUS = of_nat (Suc i mod 4096)"
proof -
  have "unat (of_nat (Suc i) :: u64) = Suc i" using assms by (intro unat_of_nat_eq) simp
  moreover have "unat (of_nat (Suc i mod 4096) :: u64) = Suc i mod 4096"
    by (rule unat_of_nat_eq) (rule less_trans [of _ 4096]; simp)
  ultimately show ?thesis
    by (simp add: word_unat_eq_iff unat_modulus unat_mod_word add.commute)
qed

lemma home_slot_index: "hash mod HASH_MODULUS = of_nat (home_slot hash)"
proof -
  have "unat (of_nat (home_slot hash) :: u64) = home_slot hash"
    by (rule unat_of_nat_eq) (rule less_trans [OF home_slot_lt]; simp)
  then show ?thesis by (simp add: word_unat_eq_iff unat_modulus unat_mod_word home_slot_def)
qed

lemma header_read:
  "slot_hash c i =
     (if length (take HEADER_SIZE (drop (i * SLOT_SIZE) c)) < HEADER_SIZE then 0
      else from_le_bytes (take HEADER_SIZE (drop (i * SLOT_SIZE) c)))"
  by (auto simp: slot_hash_def slot_def HEADER_SIZE_def slot_size)

lemma write_two:
  assumes P: "posix_ok P disk fds" and fd: "fds w fd = Some (p, k)" "disk w p = Some c" and i: "i < 4096"
  shows "disk (px_pwrite P fd data (of_nat i * of_nat SLOT_SIZE + of_nat HEADER_SIZE)
      (px_pwrite P fd (to_le_bytes (hash :: u64)) (of_nat i * of_nat SLOT_SIZE) w)) = (disk w)(p \<mapsto> set_slot c i hash data) \<and>
    fds (px_pwrite P fd data (of_nat i * of_nat SLOT_SIZE + of_nat HEADER_SIZE)
      (px_pwrite P fd (to_le_bytes hash) (of_nat i * of_nat SLOT_SIZE) w)) = fds w"
proof -
  let ?w = "px_pwrite P fd (to_le_bytes hash) (of_nat i * of_nat SLOT_SIZE) w"
  have 1: "disk ?w = (disk w)(p \<mapsto> pwrite_at c (to_le_bytes hash) (i * SLOT_SIZE))" "fds ?w = fds w"
    using posix_pwrite [OF P fd, of "to_le_bytes hash" "of_nat i * of_nat SLOT_SIZE"] by (simp_all only: slot_offset [OF i])
  have "pwrite_at (pwrite_at c (to_le_bytes hash) (i * SLOT_SIZE)) data (i * SLOT_SIZE + 8) = set_slot c i hash data"
    using pwrite_append [of c "to_le_bytes hash" "i * SLOT_SIZE" data] by (simp add: set_slot_def)
  with posix_pwrite [OF P, of ?w fd p k "pwrite_at c (to_le_bytes hash) (i * SLOT_SIZE)" data
      "of_nat i * of_nat SLOT_SIZE + of_nat HEADER_SIZE"] 1 fd
  show ?thesis by (simp only: slot_offset [OF i] fun_upd_same fun_upd_upd refl simp_thms)
qed

lemma write_probe_step:
  assumes "px_pread P fd HEADER_SIZE (of_nat i * of_nat SLOT_SIZE) w =
      (Some (take HEADER_SIZE (drop (i * SLOT_SIZE) c)), w1)" and "i < 4096"
  shows "write_probe P fd hash data (Suc n) (of_nat i) w =
    (if slot_hash c i = 0
     then (True, px_pwrite P fd data (of_nat i * of_nat SLOT_SIZE + of_nat HEADER_SIZE)
            (px_pwrite P fd (to_le_bytes hash) (of_nat i * of_nat SLOT_SIZE) w1))
     else if slot_hash c i = hash then (True, w1)
     else write_probe P fd hash data n (of_nat (Suc i mod 4096)) w1)"
  using assms(1) next_index [OF assms(2)]
  by (cases "length (take HEADER_SIZE (drop (i * SLOT_SIZE) c)) < HEADER_SIZE")
    (simp_all add: header_read [of c i] Let_def del: length_take length_drop of_nat_Suc)

lemma write_probe_spec:
  assumes P: "posix_ok P disk fds" and fd: "fds w fd = Some (p, k)" "disk w p = Some c" and i: "i < 4096"
  shows "\<exists>w'. write_probe P fd hash data n (of_nat i) w = (probe_insert c hash data n i \<noteq> None, w') \<and>
    disk w' = (disk w)(p \<mapsto> (case probe_insert c hash data n i of None \<Rightarrow> c | Some c' \<Rightarrow> c')) \<and> fds w' = fds w"
  using fd i
proof (induction n arbitrary: i w)
  case 0
  then show ?case by (simp add: fun_upd_idem)
next
  case (Suc n)
  from posix_pread [OF P Suc.prems(1,2), of HEADER_SIZE "of_nat i * of_nat SLOT_SIZE"]
  obtain w1 where r: "px_pread P fd HEADER_SIZE (of_nat i * of_nat SLOT_SIZE) w =
      (Some (take HEADER_SIZE (drop (i * SLOT_SIZE) c)), w1)" and w1: "disk w1 = disk w" "fds w1 = fds w"
    unfolding slot_offset(1) [OF Suc.prems(3)] by blast
  note step = write_probe_step [OF r Suc.prems(3), of hash data n]
  show ?case
  proof (cases "slot_hash c i = 0")
    case True
    with step write_two [OF P, of w1 fd p k c i data hash] Suc.prems w1 show ?thesis
      by (simp add: fun_upd_def del: write_probe.simps)
  next
    case False
    show ?thesis
    proof (cases "slot_hash c i = hash")
      case True
      with False step w1 Suc.prems show ?thesis by (simp add: fun_upd_idem del: write_probe.simps)
    next
      case neq: False
      with False step Suc.IH [of w1 "Suc i mod 4096"] Suc.prems w1 show ?thesis
        by (simp del: write_probe.simps)
    qed
  qed
qed

text \<open>What a file holds; a file that does not exist is taken as empty.\<close>

definition file_of :: "disk \<Rightarrow> string \<Rightarrow> bytes" where
  "file_of d p = (case d p of None \<Rightarrow> [] | Some c \<Rightarrow> c)"

lemma write_page_spec:
  assumes P: "posix_ok P disk fds"
  shows "\<exists>b w'. write_page_to_slot P p hash data w = (b \<and> store_insert (file_of (disk w) p) hash data \<noteq> None, w') \<and>
    fds w' = fds w \<and> (\<forall>q. q \<noteq> p \<longrightarrow> disk w' q = disk w q) \<and>
    file_of (disk w') p = (case (if b then store_insert (file_of (disk w) p) hash data else None) of
      None \<Rightarrow> file_of (disk w) p | Some c' \<Rightarrow> c')"
proof (cases "px_open P p True w")
  case (Pair r w1)
  show ?thesis
  proof (cases r)
    case None
    with Pair posix_open_None [OF P, of p True w w1] show ?thesis
      by (intro exI [of _ False]) (simp add: write_page_to_slot_def)
  next
    case (Some fd)
    with posix_open_Some [OF P, of p True w fd w1] Pair have o: "fds w fd = None"
      "fds w1 = (fds w)(fd \<mapsto> (p, 0))" "disk w1 = (if disk w p = None then (disk w)(p \<mapsto> []) else disk w)"
      by simp_all
    then have c: "disk w1 p = Some (file_of (disk w) p)" by (auto simp: file_of_def)
    have f: "fds w1 fd = Some (p, 0)" using o by simp
    from write_probe_spec [OF P f c home_slot_lt, of hash data 64]
    obtain w2 where w2: "write_probe P fd hash data MAX_PROBE_COUNT (hash mod HASH_MODULUS) w1 =
        (store_insert (file_of (disk w) p) hash data \<noteq> None, w2)"
      "disk w2 = (disk w1)(p \<mapsto> (case store_insert (file_of (disk w) p) hash data of None \<Rightarrow> file_of (disk w) p | Some c' \<Rightarrow> c'))"
      "fds w2 = fds w1"
      unfolding home_slot_index MAX_PROBE_COUNT_def store_insert_def by blast
    have "fds (px_close P fd w2) = fds w" using posix_close [OF P, of fd w2] w2(3) o by (auto simp: fun_upd_idem)
    moreover have "disk (px_close P fd w2) = disk w2" using posix_close [OF P, of fd w2] by simp
    ultimately show ?thesis using Pair Some w2 o
      by (intro exI [of _ True] exI [of _ "px_close P fd w2"])
        (auto simp: write_page_to_slot_def file_of_def split: option.splits)
  qed
qed

section \<open>Splitting a snapshot\<close>

definition snapshot_page :: "bytes \<Rightarrow> nat \<Rightarrow> bytes" where
  "snapshot_page S i = take PAGE_SIZE (drop (i * PAGE_SIZE) S)"

definition page_entry :: "(bytes \<Rightarrow> u64) \<Rightarrow> bytes \<Rightarrow> nat \<Rightarrow> page_table_entry" where
  "page_entry H S i = \<lparr>va_offset = of_nat (i * PAGE_SIZE), hash_idx = H (snapshot_page S i)\<rparr>"

definition table_bytes_of :: "(bytes \<Rightarrow> u64) \<Rightarrow> bytes \<Rightarrow> nat \<Rightarrow> nat \<Rightarrow> bytes" where
  "table_bytes_of H S i n = concat (map (\<lambda>j. pte_bytes (page_entry H S j)) [i..<n])"

lemma length_pte_bytes [simp]: "length (pte_bytes e) = 16"
  by (simp add: pte_bytes_def)

lemma table_bytes_step:
  "i < n \<Longrightarrow> table_bytes_of H S i n = pte_bytes (page_entry H S i) @ table_bytes_of H S (Suc i) n"
  by (simp add: table_bytes_of_def upt_conv_Cons)

lemma pwrite_nothing: "k \<le> length c \<Longrightarrow> pwrite_at c [] k = c"
  by (simp add: pwrite_at_def)

lemma page_offset: "i * PAGE_SIZE < 2 ^ 64 \<Longrightarrow> unat (of_nat (i * PAGE_SIZE) :: u64) = i * PAGE_SIZE"
  by (rule unat_of_nat_eq) simp

lemma split_loop_spec:
  assumes P: "posix_ok P disk fds"
    and S: "fds w sfd = Some (sp, k)" "disk w sp = Some S" "length S < 2 ^ 63"
    and T: "fds w ptfd = Some (tp, 16 * i)" "disk w tp = Some T" "16 * i \<le> length T"
    and ne: "sfd \<noteq> ptfd" "sp \<noteq> tp" "sp \<noteq> pp" "tp \<noteq> pp"
    and i: "i \<le> n" and n: "n = length S div PAGE_SIZE"
  shows "\<exists>bs w'. length bs = n - i \<and>
    split_loop P sha sfd ptfd pp (of_nat (length S)) (of_nat (i * PAGE_SIZE)) u w =
      Some (u + of_nat (snd (store_pages store_insert (compute_hash_idx sha)
        (zip (map (snapshot_page S) [i..<n]) bs) (file_of (disk w) pp))), w') \<and>
    file_of (disk w') pp = fst (store_pages store_insert (compute_hash_idx sha)
        (zip (map (snapshot_page S) [i..<n]) bs) (file_of (disk w) pp)) \<and>
    disk w' sp = Some S \<and> disk w' tp = Some (pwrite_at T (table_bytes_of (compute_hash_idx sha) S i n) (16 * i))"
  using S(1,2) T i
proof (induction "n - i" arbitrary: i u w T)
  case 0
  then have i: "i = n" by simp
  have le: "n * PAGE_SIZE \<le> length S" using n by simp
  then have lt: "n * PAGE_SIZE < 2 ^ 64" using S(3) by simp
  show ?case
  proof (cases "(of_nat (n * PAGE_SIZE) :: u64) < of_nat (length S)")
    case False
    then show ?thesis using 0 i
      by (subst split_loop.simps) (simp add: table_bytes_of_def pwrite_nothing)
  next
    case True
    from posix_pread [OF P 0(2,3), of PAGE_SIZE "of_nat (n * PAGE_SIZE)"]
    obtain w1 where r: "px_pread P sfd PAGE_SIZE (of_nat (n * PAGE_SIZE)) w = (Some (snapshot_page S n), w1)"
      and w1: "disk w1 = disk w" "fds w1 = fds w"
      unfolding page_offset [OF lt] snapshot_page_def by blast
    have "length S < Suc n * PAGE_SIZE" unfolding n by (simp add: PAGE_SIZE_def)
    then have "length (snapshot_page S n) \<noteq> PAGE_SIZE" using le by (simp add: snapshot_page_def PAGE_SIZE_def)
    then show ?thesis using 0 i True r w1
      by (subst split_loop.simps) (simp add: table_bytes_of_def pwrite_nothing)
  qed
next
  case (Suc m)
  then have i: "i < n" by simp
  then have le: "Suc i * PAGE_SIZE \<le> length S"
    using order_trans [OF mult_le_mono1 [of "Suc i" n PAGE_SIZE] div_times_less_eq_dividend [of "length S" PAGE_SIZE, folded n]]
    by simp
  then have lt: "i * PAGE_SIZE < 2 ^ 64" using S(3) by simp
  have va: "(of_nat (i * PAGE_SIZE) :: u64) < of_nat (length S)"
  proof -
    have "unat (of_nat (length S) :: u64) = length S" using S(3) by (intro unat_of_nat_eq) simp
    with page_offset [OF lt] le show ?thesis by (simp add: word_less_nat_alt PAGE_SIZE_def)
  qed
  from posix_pread [OF P Suc.prems(1,2), of PAGE_SIZE "of_nat (i * PAGE_SIZE)"]
  obtain w1 where r: "px_pread P sfd PAGE_SIZE (of_nat (i * PAGE_SIZE)) w = (Some (snapshot_page S i), w1)"
    and w1: "disk w1 = disk w" "fds w1 = fds w"
    unfolding page_offset [OF lt] snapshot_page_def by blast
  have len: "length (snapshot_page S i) = PAGE_SIZE" using le by (simp add: snapshot_page_def)
  let ?H = "compute_hash_idx sha"
  let ?d = "snapshot_page S i"
  let ?e = "pte_bytes (page_entry ?H S i)"
  let ?w2 = "px_write P ptfd ?e w1"
  have w2: "disk ?w2 = (disk w)(tp \<mapsto> pwrite_at T ?e (16 * i))" "fds ?w2 = (fds w)(ptfd \<mapsto> (tp, 16 * Suc i))"
    using posix_write [OF P, of w1 ptfd tp "16 * i" T ?e] w1 Suc.prems by (simp_all add: add.commute)
  let ?c = "file_of (disk w) pp"
  have c2: "file_of (disk ?w2) pp = ?c" using w2 ne by (simp add: file_of_def)
  from write_page_spec [OF P, of pp "?H ?d" ?d ?w2, unfolded c2]
  obtain b w3 where w3: "write_page_to_slot P pp (?H ?d) ?d ?w2 = (b \<and> store_insert ?c (?H ?d) ?d \<noteq> None, w3)"
    "fds w3 = fds ?w2" "\<And>q. q \<noteq> pp \<Longrightarrow> disk w3 q = disk ?w2 q"
    and c3: "file_of (disk w3) pp = (case (if b then store_insert ?c (?H ?d) ?d else None) of None \<Rightarrow> ?c | Some c' \<Rightarrow> c')"
    by blast
  let ?T = "pwrite_at T ?e (16 * i)"
  have pre: "fds w3 sfd = Some (sp, k)" "disk w3 sp = Some S" "fds w3 ptfd = Some (tp, 16 * Suc i)"
    "disk w3 tp = Some ?T" "16 * Suc i \<le> length ?T" "Suc i \<le> n" "m = n - Suc i"
    using w3(2,3) w2 Suc ne i by (auto simp: length_pwrite_at)
  define u' where "u' = (if b \<and> store_insert ?c (?H ?d) ?d \<noteq> None then u + 1 else u)"
  have next_va: "(of_nat (i * PAGE_SIZE) :: u64) + of_nat PAGE_SIZE = of_nat (Suc i * PAGE_SIZE)" by simp
  have step: "split_loop P sha sfd ptfd pp (of_nat (length S)) (of_nat (i * PAGE_SIZE)) u w =
    split_loop P sha sfd ptfd pp (of_nat (length S)) (of_nat (Suc i * PAGE_SIZE)) u' w3"
    using va r len w3(1) next_va by (subst split_loop.simps) (simp add: page_entry_def Let_def u'_def del: of_nat_mult of_nat_add mult_Suc)
  from Suc.hyps(1) [OF pre(7) pre(1-6), of u'] obtain bs w' where IH: "length bs = n - Suc i"
    "split_loop P sha sfd ptfd pp (of_nat (length S)) (of_nat (Suc i * PAGE_SIZE)) u' w3 =
      Some (u' + of_nat (snd (store_pages store_insert ?H (zip (map (snapshot_page S) [Suc i..<n]) bs) (file_of (disk w3) pp))), w')"
    "file_of (disk w') pp = fst (store_pages store_insert ?H (zip (map (snapshot_page S) [Suc i..<n]) bs) (file_of (disk w3) pp))"
    "disk w' sp = Some S" "disk w' tp = Some (pwrite_at ?T (table_bytes_of ?H S (Suc i) n) (16 * Suc i))"
    by blast
  have zs: "zip (map (snapshot_page S) [i..<n]) (b # bs) = (?d, b) # zip (map (snapshot_page S) [Suc i..<n]) bs"
    using i by (simp add: upt_conv_Cons)
  have sp: "store_pages store_insert ?H (zip (map (snapshot_page S) [i..<n]) (b # bs)) ?c =
    (fst (store_pages store_insert ?H (zip (map (snapshot_page S) [Suc i..<n]) bs) (file_of (disk w3) pp)),
     (if b \<and> store_insert ?c (?H ?d) ?d \<noteq> None then Suc else id)
       (snd (store_pages store_insert ?H (zip (map (snapshot_page S) [Suc i..<n]) bs) (file_of (disk w3) pp))))"
    unfolding zs c3 by (auto simp: Let_def split: option.splits prod.splits)
  have tb: "pwrite_at ?T (table_bytes_of ?H S (Suc i) n) (16 * Suc i) = pwrite_at T (table_bytes_of ?H S i n) (16 * i)"
    using pwrite_append [of T ?e "16 * i"] table_bytes_step [OF i] by (simp add: add.commute)
  show ?case
  proof (intro exI conjI)
    show "length (b # bs) = n - i" using IH(1) i by simp
    show "split_loop P sha sfd ptfd pp (of_nat (length S)) (of_nat (i * PAGE_SIZE)) u w =
      Some (u + of_nat (snd (store_pages store_insert ?H (zip (map (snapshot_page S) [i..<n]) (b # bs)) ?c)), w')"
      unfolding step IH(2) sp by (simp add: u'_def)
    show "file_of (disk w') pp = fst (store_pages store_insert ?H (zip (map (snapshot_page S) [i..<n]) (b # bs)) ?c)"
      unfolding IH(3) sp by simp
    show "disk w' sp = Some S" by (rule IH(4))
    show "disk w' tp = Some (pwrite_at T (table_bytes_of ?H S i n) (16 * i))" using IH(5) tb by simp
  qed
qed

lemma take_table:
  assumes "i \<le> j" and "j < n"
  shows "take 16 (drop (16 * (j - i)) (table_bytes_of H S i n)) = pte_bytes (page_entry H S j)"
  using assms
proof (induction "j - i" arbitrary: i)
  case 0
  then show ?case by (simp add: table_bytes_step)
next
  case (Suc m)
  then have i: "i < n" "m = j - Suc i" "Suc i \<le> j" "j - i = Suc (j - Suc i)" by simp_all
  then have "16 * (j - i) = 16 + 16 * (j - Suc i)" by linarith
  with Suc.hyps(1) [of "Suc i"] i Suc.prems show ?case
    by (simp add: table_bytes_step)
qed

lemma length_table: "length (table_bytes_of H S i n) = 16 * (n - i)"
proof (induction "n - i" arbitrary: i)
  case (Suc m)
  then have "i < n" "m = n - Suc i" by simp_all
  with Suc.hyps(1) [of "Suc i"] show ?case by (simp add: table_bytes_step Suc_diff_Suc [symmetric])
qed (simp add: table_bytes_of_def)

lemma pte_of_bytes [simp]: "pte_of (pte_bytes e) = e"
proof -
  have "(from_le_bytes (to_le_bytes x) :: u64) = x" for x by (rule from_to_le_bytes) simp
  then show ?thesis by (cases e) (simp add: pte_of_def pte_bytes_def)
qed

text \<open>The page table of a split snapshot, as a file.\<close>

lemma table_file:
  assumes "j < n"
  shows "pte_of (take 16 (drop (16 * j) (pwrite_at T (table_bytes_of H S 0 n) 0))) = page_entry H S j"
proof -
  let ?t = "table_bytes_of H S 0 n"
  have "take 16 (drop (16 * j) (pwrite_at T ?t 0)) = take 16 (drop (16 * j) ?t)"
    using assms by (simp add: pwrite_at_def length_table drop_append take_append)
  with take_table [of 0 j n H S] assms show ?thesis by simp
qed

lemma page_in_snapshot:
  assumes "i < length S div PAGE_SIZE"
  shows "length (snapshot_page S i) = PAGE_SIZE"
proof -
  have "Suc i * PAGE_SIZE \<le> length S"
    using assms order_trans [OF mult_le_mono1 [of "Suc i" _ PAGE_SIZE] div_times_less_eq_dividend [of "length S" PAGE_SIZE]]
    by simp
  then show ?thesis by (simp add: snapshot_page_def)
qed

lemma small_word:
  assumes "length S < 2 ^ 63" and "m \<le> length S div PAGE_SIZE"
  shows "unat (of_nat m :: u64) = m"
  using assms(1) order_trans [OF assms(2) div_le_dividend] by (intro unat_of_nat_eq) simp

lemma page_count_word:
  assumes "unat t = length S" and "length S < 2 ^ 63"
  shows "t div of_nat PAGE_SIZE = (of_nat (length S div PAGE_SIZE) :: u64)"
proof -
  have "unat (of_nat PAGE_SIZE :: u64) = PAGE_SIZE" by (simp add: PAGE_SIZE_def)
  with small_word [OF assms(2) order_refl] assms(1) show ?thesis
    by (simp add: word_unat_eq_iff unat_div_word)
qed

text \<open>The run of the tool: it fails before it writes a page, or it goes through all of them.\<close>

lemma split_main_run:
  assumes P: "posix_ok P disk fds" and S: "disk w sp = Some S" and n: "n = length S div PAGE_SIZE"
    and paths: "pp = path_256 (dir @ ''/pages.bin'')" "tp = path_256 (dir @ ''/page_table.bin'')"
      "mp = path_256 (dir @ ''/metadata.json'')"
    and dist: "distinct [sp, pp, tp, mp]"
  shows "(\<exists>w'. split_main P sha [prog, sp, dir] w = Some ((1, None), w')) \<or>
    (\<exists>bs u w'. length bs = n \<and> length S < 2 ^ 63 \<and>
       split_main P sha [prog, sp, dir] w = Some ((0, Some (of_nat n, of_nat u)), w') \<and>
       store_pages store_insert (compute_hash_idx sha) (zip (map (snapshot_page S) [0..<n]) bs) (file_of (disk w) pp) =
         (file_of (disk w') pp, u) \<and>
       file_of (disk w') tp = pwrite_at (file_of (disk w) tp) (table_bytes_of (compute_hash_idx sha) S 0 n) 0)"
proof -
  let ?H = "compute_hash_idx sha"
  note names = paths [symmetric]
  from dist have ne: "sp \<noteq> pp" "sp \<noteq> tp" "tp \<noteq> pp" "pp \<noteq> mp" "tp \<noteq> mp" by auto
  obtain r1 w1 where o1: "px_open P sp False w = (r1, w1)" by force
  obtain r2 w2 where o2: "px_stat P sp w1 = (r2, w2)" by force
  obtain r3 w3 where o3: "px_open P tp True w2 = (r3, w3)" by force
  obtain m w4 where o4: "px_malloc P w3 = (m, w4)" by force
  show ?thesis
  proof (cases "r1 = None \<or> r2 = None \<or> r3 = None \<or> \<not> m")
    case True
    with o1 o2 o3 o4 have "\<exists>w'. split_main P sha [prog, sp, dir] w = Some ((1, None), w')"
      by (auto simp: split_main_def Let_def names split: option.splits bool.splits)
    then show ?thesis ..
  next
    case False
    then obtain sfd t ptfd where r: "r1 = Some sfd" "r2 = Some t" "r3 = Some ptfd" m by auto
    have f1: "fds w1 = (fds w)(sfd \<mapsto> (sp, 0))" "disk w1 = disk w"
      using posix_open_Some [OF P, of sp False w sfd w1] o1 r S by auto
    with posix_stat [OF P o2] r S have f2: "fds w2 = fds w1" "disk w2 = disk w" "unat t = length S" "length S < 2 ^ 63"
      by auto
    from f2(3) have ts: "t = of_nat (length S)" by (simp flip: f2(3))
    have f3: "fds w2 ptfd = None" "fds w3 = (fds w2)(ptfd \<mapsto> (tp, 0))"
      "disk w3 = (if disk w tp = None then (disk w)(tp \<mapsto> []) else disk w)"
      using posix_open_Some [OF P, of tp True w2 ptfd w3] o3 r f2 by auto
    have f4: "fds w4 = fds w3" "disk w4 = disk w3" using posix_malloc [OF P o4] by simp_all
    let ?T = "file_of (disk w) tp"
    have pre: "fds w4 sfd = Some (sp, 0)" "disk w4 sp = Some S" "fds w4 ptfd = Some (tp, 16 * 0)"
      "disk w4 tp = Some ?T" "16 * 0 \<le> length ?T" "sfd \<noteq> ptfd" "file_of (disk w4) pp = file_of (disk w) pp"
      using f1 f2 f3 f4 S ne by (auto simp: file_of_def)
    let ?SP = "\<lambda>bs. store_pages store_insert ?H (zip (map (snapshot_page S) [0..<n]) bs) (file_of (disk w) pp)"
    from split_loop_spec [OF P pre(1,2) f2(4) pre(3-6) ne(2,1,3) le0 n, of sha 0]
    obtain bs w5 where bs: "length bs = n"
      and lp: "split_loop P sha sfd ptfd pp t 0 0 w4 = Some (of_nat (snd (?SP bs)), w5)"
      and f5: "file_of (disk w5) pp = fst (?SP bs)" "disk w5 tp = Some (pwrite_at ?T (table_bytes_of ?H S 0 n) 0)"
      unfolding pre(7) ts by auto
    define u where "u = snd (?SP bs)"
    define w' where "w' = px_close P ptfd (px_close P sfd (px_save P mp (metadata_text dir t (of_nat n) (of_nat u)) w5))"
    have keep: "file_of (disk w') q = file_of (disk w5) q" if "q \<noteq> mp" for q
      using posix_save [OF P, of mp "metadata_text dir t (of_nat n) (of_nat u)" w5] posix_close [OF P] that
      by (auto simp: w'_def file_of_def)
    have "split_main P sha [prog, sp, dir] w = Some ((0, Some (of_nat n, of_nat u)), w')"
      using o1 o2 o3 o4 r lp page_count_word [OF f2(3,4)]
      by (simp add: split_main_def Let_def names n [symmetric] w'_def u_def)
    with bs f2(4) f5 keep ne show ?thesis
      by (intro disjI2 exI [of _ bs] exI [of _ u] exI [of _ w']) (simp add: file_of_def u_def)
  qed
qed


section \<open>Querying the store\<close>

lemma lookup_probe_step:
  assumes "px_pread P fd HEADER_SIZE (of_nat i * of_nat SLOT_SIZE) w =
      (Some (take HEADER_SIZE (drop (i * SLOT_SIZE) c)), w1)" and "i < 4096" and "hash \<noteq> 0"
  shows "lookup_probe P fd hash (Suc n) probe (of_nat i) w =
    (if slot_hash c i = hash then ((Found, of_nat i, probe), w1)
     else if slot_hash c i = 0 then ((NotFoundEmpty, of_nat i, probe), w1)
     else lookup_probe P fd hash n (probe + 1) (of_nat (Suc i mod 4096)) w1)"
  using assms(1,3) next_index [OF assms(2)]
  by (cases "length (take HEADER_SIZE (drop (i * SLOT_SIZE) c)) < HEADER_SIZE")
    (simp_all add: header_read [of c i] Let_def del: length_take length_drop of_nat_Suc)

lemma lookup_probe_spec:
  assumes P: "posix_ok P disk fds" and fd: "fds w fd = Some (p, k)" "disk w p = Some c" and i: "i < 4096"
    and h: "hash \<noteq> 0"
  shows "\<exists>r at w'. lookup_probe P fd hash n probe (of_nat i) w = ((r, at), w') \<and> disk w' = disk w \<and>
    (r = Found \<longleftrightarrow> probe_find c hash n i \<noteq> None) \<and>
    (\<forall>j. probe_find c hash n i = Some j \<longrightarrow> fst at = of_nat j)"
  using fd i
proof (induction n arbitrary: i w probe)
  case 0
  then show ?case by simp
next
  case (Suc n)
  from posix_pread [OF P Suc.prems(1,2), of HEADER_SIZE "of_nat i * of_nat SLOT_SIZE"]
  obtain w1 where r: "px_pread P fd HEADER_SIZE (of_nat i * of_nat SLOT_SIZE) w =
      (Some (take HEADER_SIZE (drop (i * SLOT_SIZE) c)), w1)" and w1: "disk w1 = disk w" "fds w1 = fds w"
    unfolding slot_offset(1) [OF Suc.prems(3)] by blast
  note step = lookup_probe_step [OF r Suc.prems(3) h, of n probe]
  show ?case
  proof (cases "slot_hash c i \<in> {0, hash}")
    case True
    with step w1 h show ?thesis by (auto simp del: lookup_probe.simps)
  next
    case False
    with step Suc.IH [of w1 "Suc i mod 4096" "probe + 1"] Suc.prems w1 show ?thesis
      by (simp del: lookup_probe.simps)
  qed
qed

text \<open>
  The query tool agrees with the store: if the file can be opened, the exit status of a query by
  digest is 0 exactly when the store holds a page under it, and the file is not changed.
\<close>

theorem query_exact:
  assumes P: "posix_ok P disk fds" and c: "disk w p = Some c" and h: "hash \<noteq> 0"
    and open_ok: "px_open P p False w = (Some fd, w1)"
  shows "\<exists>w'. query_by_hash P hash (p # ps) w = (if store_lookup c hash = None then 1 else 0, w') \<and> disk w' = disk w"
proof -
  have f: "fds w1 fd = Some (p, 0)" "disk w1 = disk w"
    using posix_open_Some [OF P open_ok] c by auto
  with c have "disk w1 p = Some c" by simp
  from lookup_probe_spec [OF P f(1) this home_slot_lt h, of 64 0 hash]
  obtain r at w2 where "lookup_probe P fd hash MAX_PROBE_COUNT 0 (hash mod HASH_MODULUS) w1 = ((r, at), w2)"
    "disk w2 = disk w1" "(r = Found) = (probe_find c hash 64 (home_slot hash) \<noteq> None)"
    unfolding home_slot_index MAX_PROBE_COUNT_def by blast
  then show ?thesis using open_ok f posix_close [OF P, of fd w2]
    by (cases at) (auto simp: query_by_hash_def lookup_page_by_hash_def store_lookup_def)
qed

end
