(* ===== verification/Conch_Driver.thy ===== *)
theory Conch_Driver
  imports Conch_Tools "HOL-Library.Tree"
begin

text \<open>
  The snapshot driver, \<^verbatim>\<open>conch-driver/driver\<close>: a kernel module that maps the pages of split
  snapshots into processes. Pages are loaded at the first fault, kept in a global pool under their
  digest and shared by all mappings; templates, pool entries and mappings are reference counted by
  hand. The objects live on a heap: a pointer is a number, an object is freed by removing it from
  the heap, and every access to an object that is not there, or unlinking from a list that does not
  hold it, is the outcome \<open>Panic\<close>. The operations are executed one after the other; the locks of
  the code make them so for the lists and counters they touch.
\<close>

section \<open>Objects\<close>

record phys_page_entry =
  pe_hash :: u64
  pe_page :: nat
  pe_ref :: u32

record va_to_pa_entry =
  ve_offset :: u64
  ve_phys :: nat

record vma_snapshot_data =
  vd_template :: nat
  vd_map :: "va_to_pa_entry tree"

record snapshot_template =
  tm_id :: string
  tm_size :: u64
  tm_page_count :: u64
  tm_table :: "page_table_entry list"
  tm_file :: nat
  tm_name :: string
  tm_ref :: u32

text \<open>
  The state of the driver with the heap. A physical page has its contents and the reference count
  of the kernel. \<open>drv_fresh\<close> is the next free address, \<open>drv_world\<close> the rest of the kernel;
  \<open>drv_buckets\<close> is \<open>None\<close> for a null pointer.
\<close>

record 'w snapshot_driver_state =
  template_list :: "nat list"
  drv_buckets :: "(u64 \<Rightarrow> nat list) option"
  drv_total_pages :: u64
  drv_modulus :: u64
  drv_max_probe :: u32
  drv_templates :: "nat \<Rightarrow> snapshot_template option"
  drv_entries :: "nat \<Rightarrow> phys_page_entry option"
  drv_frames :: "nat \<Rightarrow> (bytes \<times> nat) option"
  drv_vdata :: "nat \<Rightarrow> vma_snapshot_data option"
  drv_fresh :: nat
  drv_world :: 'w

record ioctl_create_template =
  ct_template_id :: string
  ct_total_size :: u64
  ct_page_table_path :: string
  ct_pages_path :: string

text \<open>The part of a \<open>vm_area_struct\<close> that the driver sees.\<close>

record vm_area =
  vm_start :: u64
  vm_end :: u64
  vm_private :: "nat option"

datatype drv_error = Enomem | Eexist | Einval | Eio | Ebusy | Enoent | Efault | Enotty | Eother int

datatype vm_fault = FaultNoPage | FaultSigbus | FaultOom | FaultOther

text \<open>
  The kernel as the driver calls it. \<open>kn_alloc\<close> is any allocation but that of the table of buckets,
  which is \<open>kn_kvmalloc\<close>; \<open>kn_insert_page\<close> maps a page at an address; \<open>kn_rb_insert_color\<close> rebalances a tree after an insertion and \<open>kn_rb_erase_first\<close>
  removes its first node.
\<close>

record 'w knl =
  kn_alloc :: "'w \<Rightarrow> bool \<times> 'w"
  kn_kvmalloc :: "'w \<Rightarrow> bool \<times> 'w"
  kn_open :: "string \<Rightarrow> 'w \<Rightarrow> nat option \<times> 'w"
  kn_read :: "nat \<Rightarrow> nat \<Rightarrow> u64 \<Rightarrow> 'w \<Rightarrow> bytes option \<times> 'w"
  kn_close :: "nat \<Rightarrow> 'w \<Rightarrow> 'w"
  kn_misc_register :: "string \<Rightarrow> 'w \<Rightarrow> int \<times> 'w"
  kn_misc_deregister :: "string \<Rightarrow> 'w \<Rightarrow> 'w"
  kn_insert_page :: "u64 \<Rightarrow> nat \<Rightarrow> 'w \<Rightarrow> vm_fault \<times> 'w"
  kn_rb_insert_color :: "va_to_pa_entry tree \<Rightarrow> va_to_pa_entry tree"
  kn_rb_erase_first :: "va_to_pa_entry tree \<Rightarrow> va_to_pa_entry tree"

type_synonym ('a, 'w) drv = "'w snapshot_driver_state \<Rightarrow> (drv_error, 'a, 'w snapshot_driver_state) run"

section \<open>Memory\<close>

definition deref :: "(nat \<Rightarrow> 'v option) \<Rightarrow> nat \<Rightarrow> ('e, 'v) outcome" where
  "deref objs p = (case objs p of None \<Rightarrow> Inl Panic | Some v \<Rightarrow> Inr v)"

definition kmalloc :: "'w knl \<Rightarrow> (bool, 'w) drv" where
  "kmalloc K s = (let (ok, w) = kn_alloc K (drv_world s) in run_ret ok (s\<lparr>drv_world := w\<rparr>))"

definition get_page :: "nat \<Rightarrow> (unit, 'w) drv" where
  "get_page p s = run_bind (run_lift (deref (drv_frames s) p) s) (\<lambda>(d, n) s.
     run_ret () (s\<lparr>drv_frames := (drv_frames s)(p \<mapsto> (d, Suc n))\<rparr>))"

text \<open>\<open>put_page\<close> and \<open>__free_page\<close>: a reference less, and the last one frees the page.\<close>

definition put_page :: "nat \<Rightarrow> (unit, 'w) drv" where
  "put_page p s = run_bind (run_lift (deref (drv_frames s) p) s) (\<lambda>(d, n) s.
     run_ret () (s\<lparr>drv_frames := (drv_frames s)(p := (if n \<le> 1 then None else Some (d, n - 1)))\<rparr>))"

section \<open>The page pool\<close>

definition POOL_BUCKET_COUNT :: u64 where "POOL_BUCKET_COUNT = 0x100000"

definition hash_to_bucket :: "u64 \<Rightarrow> u64" where
  "hash_to_bucket hash = hash mod POOL_BUCKET_COUNT"

definition snapshot_pool_init :: "'w knl \<Rightarrow> (unit, 'w) drv" where
  "snapshot_pool_init K s =
     (let (ok, w) = kn_kvmalloc K (drv_world s); s = s\<lparr>drv_world := w\<rparr> in
      if \<not> ok then run_err Enomem (s\<lparr>drv_buckets := None\<rparr>)
      else run_ret () (s\<lparr>drv_buckets := Some (\<lambda>_. []), drv_total_pages := 0\<rparr>))"

definition destroy_entry :: "nat \<Rightarrow> (unit, 'w) drv" where
  "destroy_entry e s = run_bind (run_lift (deref (drv_entries s) e) s) (\<lambda>pe s.
     if pe_ref pe = 0
     then run_bind (put_page (pe_page pe) s) (\<lambda>_ s. run_ret () (s\<lparr>drv_entries := (drv_entries s)(e := None)\<rparr>))
     else run_ret () s)"

definition snapshot_pool_destroy :: "(unit, 'w) drv" where
  "snapshot_pool_destroy s =
     (case drv_buckets s of
        None \<Rightarrow> run_panic s
      | Some bs \<Rightarrow>
          run_bind (run_for (\<lambda>e _. destroy_entry e)
            (concat (map (\<lambda>i. bs (of_nat i)) [0..<unat POOL_BUCKET_COUNT])) () s)
            (\<lambda>_ s. run_ret () (s\<lparr>drv_buckets := None\<rparr>)))"

fun find_in_bucket ::
  "(nat \<Rightarrow> phys_page_entry option) \<Rightarrow> u64 \<Rightarrow> nat list \<Rightarrow> (drv_error, nat option) outcome" where
  "find_in_bucket E hash [] = Inr None"
| "find_in_bucket E hash (e # es) = bindE (deref E e) (\<lambda>pe.
     if pe_hash pe = hash then Inr (Some e) else find_in_bucket E hash es)"

definition snapshot_pool_lookup_noref :: "u64 \<Rightarrow> (nat option, 'w) drv" where
  "snapshot_pool_lookup_noref hash s =
     (case drv_buckets s of
        None \<Rightarrow> run_panic s
      | Some bs \<Rightarrow> run_lift (find_in_bucket (drv_entries s) hash (bs (hash_to_bucket hash))) s)"

definition snapshot_pool_ref :: "nat \<Rightarrow> (unit, 'w) drv" where
  "snapshot_pool_ref e s = run_bind (run_lift (deref (drv_entries s) e) s) (\<lambda>pe s.
     run_ret () (s\<lparr>drv_entries := (drv_entries s)(e \<mapsto> pe\<lparr>pe_ref := pe_ref pe + 1\<rparr>)\<rparr>))"

definition snapshot_pool_lookup :: "u64 \<Rightarrow> (nat option, 'w) drv" where
  "snapshot_pool_lookup hash s = run_bind (snapshot_pool_lookup_noref hash s) (\<lambda>r s.
     case r of
       None \<Rightarrow> run_ret None s
     | Some e \<Rightarrow> run_bind (snapshot_pool_ref e s) (\<lambda>_. run_ret (Some e)))"

text \<open>
  The second look at the bucket, after the allocations, is kept, although no other operation comes
  between in this model.
\<close>

definition pool_link :: "nat \<Rightarrow> nat \<Rightarrow> u64 \<Rightarrow> (nat option, 'w) drv" where
  "pool_link e page hash s = run_bind (snapshot_pool_lookup hash s) (\<lambda>r s.
     case r of
       Some existing \<Rightarrow> run_bind (put_page page s) (\<lambda>_ s.
         run_ret (Some existing) (s\<lparr>drv_entries := (drv_entries s)(e := None)\<rparr>))
     | None \<Rightarrow>
         (case drv_buckets s of
            None \<Rightarrow> run_panic s
          | Some bs \<Rightarrow> run_ret (Some e) (s\<lparr>
              drv_buckets := Some (bs(hash_to_bucket hash := e # bs (hash_to_bucket hash))),
              drv_total_pages := drv_total_pages s + 1\<rparr>)))"

definition snapshot_pool_add :: "'w knl \<Rightarrow> u64 \<Rightarrow> bytes \<Rightarrow> (nat option, 'w) drv" where
  "snapshot_pool_add K hash data s = run_bind (snapshot_pool_lookup hash s) (\<lambda>r s.
     case r of
       Some existing \<Rightarrow> run_ret (Some existing) s
     | None \<Rightarrow> run_bind (kmalloc K s) (\<lambda>ok s.
         if \<not> ok then run_ret None s
         else run_bind (kmalloc K s) (\<lambda>ok s.
           if \<not> ok then run_ret None s
           else let e = drv_fresh s; page = drv_fresh s + 1 in
             pool_link e page hash (s\<lparr>
               drv_entries := (drv_entries s)(e \<mapsto> \<lparr>pe_hash = hash, pe_page = page, pe_ref = 1\<rparr>),
               drv_frames := (drv_frames s)(page \<mapsto> (take PAGE_SIZE data, 1)),
               drv_fresh := drv_fresh s + 2\<rparr>))))"

definition snapshot_pool_unref :: "nat \<Rightarrow> (unit, 'w) drv" where
  "snapshot_pool_unref e s = run_bind (run_lift (deref (drv_entries s) e) s) (\<lambda>pe s.
     if pe_ref pe - 1 = 0
     then (case drv_buckets s of
             None \<Rightarrow> run_panic s
           | Some bs \<Rightarrow>
               let b = hash_to_bucket (pe_hash pe) in
               if e \<notin> set (bs b) then run_panic s
               else run_bind (put_page (pe_page pe) (s\<lparr>drv_buckets := Some (bs(b := removeAll e (bs b))),
                   drv_total_pages := drv_total_pages s - 1\<rparr>))
                 (\<lambda>_ s. run_ret () (s\<lparr>drv_entries := (drv_entries s)(e := None)\<rparr>)))
     else run_ret () (s\<lparr>drv_entries := (drv_entries s)(e \<mapsto> pe\<lparr>pe_ref := pe_ref pe - 1\<rparr>)\<rparr>))"

section \<open>Templates\<close>

definition TEMPLATE_ID_MAX_LEN :: nat where "TEMPLATE_ID_MAX_LEN = 64"

definition strncmp_eq :: "nat \<Rightarrow> string \<Rightarrow> string \<Rightarrow> bool" where
  "strncmp_eq n a b \<longleftrightarrow> take n a = take n b"

fun find_template ::
  "(nat \<Rightarrow> snapshot_template option) \<Rightarrow> string \<Rightarrow> nat list \<Rightarrow> (drv_error, nat option) outcome" where
  "find_template T i [] = Inr None"
| "find_template T i (t # ts) = bindE (deref T t) (\<lambda>tm.
     if strncmp_eq TEMPLATE_ID_MAX_LEN (tm_id tm) i then Inr (Some t) else find_template T i ts)"

definition snapshot_template_find :: "string \<Rightarrow> (nat option, 'w) drv" where
  "snapshot_template_find i s = run_lift (find_template (drv_templates s) i (template_list s)) s"

definition template_id_exists :: "string \<Rightarrow> (bool, 'w) drv" where
  "template_id_exists i s = run_bind (snapshot_template_find i s) (\<lambda>r. run_ret (r \<noteq> None))"

definition template_ref :: "nat \<Rightarrow> (unit, 'w) drv" where
  "template_ref t s = run_bind (run_lift (deref (drv_templates s) t) s) (\<lambda>tm s.
     run_ret () (s\<lparr>drv_templates := (drv_templates s)(t \<mapsto> tm\<lparr>tm_ref := tm_ref tm + 1\<rparr>)\<rparr>))"

definition snapshot_template_find_ref :: "string \<Rightarrow> (nat option, 'w) drv" where
  "snapshot_template_find_ref i s = run_bind (snapshot_template_find i s) (\<lambda>r s.
     case r of
       None \<Rightarrow> run_ret None s
     | Some t \<Rightarrow> run_bind (template_ref t s) (\<lambda>_. run_ret (Some t)))"

text \<open>Unlinking a template, closing its file, removing its device and freeing it.\<close>

definition template_free :: "'w knl \<Rightarrow> nat \<Rightarrow> (unit, 'w) drv" where
  "template_free K t s = run_bind (run_lift (deref (drv_templates s) t) s) (\<lambda>tm s.
     if t \<notin> set (template_list s) then run_panic s
     else run_ret () (s\<lparr>template_list := removeAll t (template_list s),
       drv_world := kn_misc_deregister K (tm_name tm) (kn_close K (tm_file tm) (drv_world s)),
       drv_templates := (drv_templates s)(t := None)\<rparr>))"

definition snapshot_template_unref :: "'w knl \<Rightarrow> nat \<Rightarrow> (unit, 'w) drv" where
  "snapshot_template_unref K t s = run_bind (run_lift (deref (drv_templates s) t) s) (\<lambda>tm s.
     let s = s\<lparr>drv_templates := (drv_templates s)(t \<mapsto> tm\<lparr>tm_ref := tm_ref tm - 1\<rparr>)\<rparr> in
     if tm_ref tm - 1 = 0 then template_free K t s else run_ret () s)"

definition read_table :: "nat \<Rightarrow> bytes \<Rightarrow> page_table_entry list" where
  "read_table n b = map (\<lambda>i. pte_of (take 16 (drop (16 * i) b))) [0..<n]"

text \<open>From the cached page table on: naming and registering the device, linking the template.\<close>

definition template_register ::
  "'w knl \<Rightarrow> ioctl_create_template \<Rightarrow> bytes \<Rightarrow> nat \<Rightarrow> (unit, 'w) drv" where
  "template_register K args table pages_file s =
     (let t = drv_fresh s; name = ''snapshot_'' @ ct_template_id args in
      run_bind (kmalloc K (s\<lparr>drv_fresh := drv_fresh s + 1\<rparr>)) (\<lambda>ok s.
        if \<not> ok then run_err Enomem (s\<lparr>drv_world := kn_close K pages_file (drv_world s)\<rparr>)
        else let (ret, w) = kn_misc_register K name (drv_world s) in
          if ret \<noteq> 0 then run_err (Eother ret) (s\<lparr>drv_world := kn_close K pages_file w\<rparr>)
          else run_ret () (s\<lparr>drv_world := w,
            drv_templates := (drv_templates s)(t \<mapsto> \<lparr>tm_id = take TEMPLATE_ID_MAX_LEN (ct_template_id args),
              tm_size = ct_total_size args, tm_page_count = ct_total_size args div of_nat PAGE_SIZE,
              tm_table = read_table (unat (ct_total_size args div of_nat PAGE_SIZE)) table,
              tm_file = pages_file, tm_name = name, tm_ref = 0\<rparr>),
            template_list := template_list s @ [t]\<rparr>)))"

definition template_load ::
  "'w knl \<Rightarrow> ioctl_create_template \<Rightarrow> nat \<Rightarrow> nat \<Rightarrow> (unit, 'w) drv" where
  "template_load K args page_table_file pages_file s =
     (let len = unat (ct_total_size args div of_nat PAGE_SIZE) * 16 in
      run_bind (kmalloc K s) (\<lambda>ok s.
        if \<not> ok then run_err Enomem (s\<lparr>drv_world := kn_close K pages_file (kn_close K page_table_file (drv_world s))\<rparr>)
        else let (ret, w) = kn_read K page_table_file len 0 (drv_world s);
                 w = kn_close K page_table_file w
          in case ret of
               None \<Rightarrow> run_err Eio (s\<lparr>drv_world := kn_close K pages_file w\<rparr>)
             | Some table \<Rightarrow>
                 if length table \<noteq> len then run_err Eio (s\<lparr>drv_world := kn_close K pages_file w\<rparr>)
                 else template_register K args table pages_file (s\<lparr>drv_world := w\<rparr>)))"

definition snapshot_template_create :: "'w knl \<Rightarrow> ioctl_create_template \<Rightarrow> (unit, 'w) drv" where
  "snapshot_template_create K args s = run_bind (template_id_exists (ct_template_id args) s) (\<lambda>exists s.
     if exists then run_err Eexist s
     else let (pt, w) = kn_open K (ct_page_table_path args) (drv_world s) in
       case pt of
         None \<Rightarrow> run_err Einval (s\<lparr>drv_world := w\<rparr>)
       | Some page_table_file \<Rightarrow>
           (let (pf, w) = kn_open K (ct_pages_path args) w in
            case pf of
              None \<Rightarrow> run_err Einval (s\<lparr>drv_world := kn_close K page_table_file w\<rparr>)
            | Some pages_file \<Rightarrow> template_load K args page_table_file pages_file (s\<lparr>drv_world := w\<rparr>)))"

text \<open>The result of the second \<open>snapshot_pool_init\<close> is not looked at.\<close>

definition snapshot_template_delete :: "'w knl \<Rightarrow> string \<Rightarrow> (unit, 'w) drv" where
  "snapshot_template_delete K i s = run_bind (snapshot_template_find i s) (\<lambda>r s.
     case r of
       None \<Rightarrow> run_err Enoent s
     | Some t \<Rightarrow> run_bind (run_lift (deref (drv_templates s) t) s) (\<lambda>tm s.
         if 0 < sint (tm_ref tm) then run_err Ebusy s
         else run_bind (template_free K t s) (\<lambda>_ s.
           if template_list s = []
           then run_bind (snapshot_pool_destroy s) (\<lambda>_ s.
             case snapshot_pool_init K s of
               Some (Inl (Err _), s) \<Rightarrow> run_ret () s
             | r \<Rightarrow> r)
           else run_ret () s)))"

definition snapshot_template_status :: "string \<Rightarrow> (u64 \<times> u64, 'w) drv" where
  "snapshot_template_status i s = run_bind (snapshot_template_find i s) (\<lambda>r s.
     case r of
       None \<Rightarrow> run_err Enoent s
     | Some t \<Rightarrow> run_bind (run_lift (deref (drv_templates s) t) s) (\<lambda>tm s.
         run_ret (of_int (sint (tm_ref tm)), drv_total_pages s) s))"

section \<open>\<^verbatim>\<open>ioctl\<close>\<close>

text \<open>
  A command with the structure that \<open>copy_from_user\<close> gave, or \<open>None\<close> if that failed; the flag of
  a status request says whether \<open>copy_to_user\<close> succeeds. An identifier without a terminating null
  is printed beyond its field.
\<close>

datatype ioctl_cmd =
    IoctlCreate "ioctl_create_template option"
  | IoctlDelete "string option"
  | IoctlStatus "string option" bool
  | IoctlOther u32

fun snapshot_ioctl :: "'w knl \<Rightarrow> ioctl_cmd \<Rightarrow> ((u64 \<times> u64) option, 'w) drv" where
  "snapshot_ioctl K (IoctlCreate None) s = run_err Efault s"
| "snapshot_ioctl K (IoctlCreate (Some args)) s =
     (if TEMPLATE_ID_MAX_LEN \<le> length (ct_template_id args) then run_panic s
      else run_bind (snapshot_template_create K args s) (\<lambda>_. run_ret None))"
| "snapshot_ioctl K (IoctlDelete None) s = run_err Efault s"
| "snapshot_ioctl K (IoctlDelete (Some i)) s = run_bind (snapshot_template_delete K i s) (\<lambda>_. run_ret None)"
| "snapshot_ioctl K (IoctlStatus None ok) s = run_err Efault s"
| "snapshot_ioctl K (IoctlStatus (Some i) ok) s =
     (case snapshot_template_status i s of
        Some (Inl (Err e), s) \<Rightarrow> run_err (if ok then e else Efault) s
      | Some (Inr r, s) \<Rightarrow> if ok then run_ret (Some r) s else run_err Efault s
      | Some (Inl Panic, s) \<Rightarrow> run_panic s
      | None \<Rightarrow> None)"
| "snapshot_ioctl K (IoctlOther cmd) s = run_err Enotty s"

section \<open>Mappings\<close>

definition snapshot_vma_open :: "vm_area \<Rightarrow> (unit, 'w) drv" where
  "snapshot_vma_open vma s =
     (case vm_private vma of
        None \<Rightarrow> run_ret () s
      | Some vd \<Rightarrow> run_bind (run_lift (deref (drv_vdata s) vd) s) (\<lambda>v. template_ref (vd_template v)))"

text \<open>Descending the tree of a mapping.\<close>

fun va_lookup :: "va_to_pa_entry tree \<Rightarrow> u64 \<Rightarrow> va_to_pa_entry option" where
  "va_lookup Leaf off = None"
| "va_lookup (Node l e r) off =
     (if off < ve_offset e then va_lookup l off
      else if ve_offset e < off then va_lookup r off
      else Some e)"

fun va_link :: "va_to_pa_entry tree \<Rightarrow> va_to_pa_entry \<Rightarrow> va_to_pa_entry tree option" where
  "va_link Leaf new = Some (Node Leaf new Leaf)"
| "va_link (Node l e r) new =
     (if ve_offset new < ve_offset e then map_option (\<lambda>l'. Node l' e r) (va_link l new)
      else if ve_offset e < ve_offset new then map_option (\<lambda>r'. Node l e r') (va_link r new)
      else None)"

text \<open>The tree is unchanged when the offset is there already, the error \<open>-EEXIST\<close>.\<close>

definition va_insert :: "'w knl \<Rightarrow> va_to_pa_entry tree \<Rightarrow> va_to_pa_entry \<Rightarrow> va_to_pa_entry tree" where
  "va_insert K t new = (case va_link t new of None \<Rightarrow> t | Some t' \<Rightarrow> kn_rb_insert_color K t')"

fun rb_first :: "'a tree \<Rightarrow> 'a option" where
  "rb_first Leaf = None"
| "rb_first (Node Leaf e r) = Some e"
| "rb_first (Node l e r) = rb_first l"

definition unmap_entry :: "va_to_pa_entry \<Rightarrow> (unit, 'w) drv" where
  "unmap_entry v s = run_bind (run_lift (deref (drv_entries s) (ve_phys v)) s) (\<lambda>pe s.
     run_bind (put_page (pe_page pe) s) (\<lambda>_. snapshot_pool_unref (ve_phys v)))"

partial_function (option) unmap_all :: "'w knl \<Rightarrow> va_to_pa_entry tree \<Rightarrow> (unit, 'w) drv" where
  "unmap_all K t s =
     (case rb_first t of
        None \<Rightarrow> Some (Inr (), s)
      | Some v \<Rightarrow>
          (case unmap_entry v s of
             None \<Rightarrow> None
           | Some (Inl e, s) \<Rightarrow> Some (Inl e, s)
           | Some (Inr _, s) \<Rightarrow> unmap_all K (kn_rb_erase_first K t) s))"

definition snapshot_vma_close :: "'w knl \<Rightarrow> vm_area \<Rightarrow> (unit, 'w) drv" where
  "snapshot_vma_close K vma s =
     (case vm_private vma of
        None \<Rightarrow> run_ret () s
      | Some vd \<Rightarrow> run_bind (run_lift (deref (drv_vdata s) vd) s) (\<lambda>v s.
          run_bind (unmap_all K (vd_map v) s) (\<lambda>_ s.
          run_bind (run_lift (deref (drv_templates s) (vd_template v)) s) (\<lambda>_ s.
            snapshot_template_unref K (vd_template v) (s\<lparr>drv_vdata := (drv_vdata s)(vd := None)\<rparr>)))))"

section \<open>The fault handler\<close>

text \<open>\<open>Inr\<close> is the page that was found, \<open>Inl\<close> the reply to the fault.\<close>

fun fault_probe ::
  "'w knl \<Rightarrow> nat \<Rightarrow> u64 \<Rightarrow> u64 \<Rightarrow> nat \<Rightarrow> u64 \<Rightarrow> 'w \<Rightarrow> (vm_fault + bytes) \<times> 'w" where
  "fault_probe K file modulus hash 0 file_index w = (Inl FaultSigbus, w)"
| "fault_probe K file modulus hash (Suc n) file_index w =
     (let (ret, w) = kn_read K file HEADER_SIZE (file_index * of_nat SLOT_SIZE) w
      in case ret of
           None \<Rightarrow> (Inl FaultSigbus, w)
         | Some header \<Rightarrow>
             if length header \<noteq> HEADER_SIZE then (Inl FaultSigbus, w)
             else if from_le_bytes header = hash
             then (let (ret, w) = kn_read K file PAGE_SIZE (file_index * of_nat SLOT_SIZE + of_nat HEADER_SIZE) w
                   in case ret of
                        None \<Rightarrow> (Inl FaultSigbus, w)
                      | Some page_data \<Rightarrow>
                          if length page_data \<noteq> PAGE_SIZE then (Inl FaultSigbus, w) else (Inr page_data, w))
             else if (from_le_bytes header :: u64) = 0 then (Inl FaultSigbus, w)
             else fault_probe K file modulus hash n ((file_index + 1) mod modulus) w)"

text \<open>The pool entry of a page, loaded from the file if it is not in the pool.\<close>

definition fault_load :: "'w knl \<Rightarrow> snapshot_template \<Rightarrow> u64 \<Rightarrow> (vm_fault + nat, 'w) drv" where
  "fault_load K tm hash s = run_bind (snapshot_pool_lookup hash s) (\<lambda>r s.
     case r of
       Some e \<Rightarrow> run_ret (Inr e) s
     | None \<Rightarrow> run_bind (kmalloc K s) (\<lambda>ok s.
         if \<not> ok then run_ret (Inl FaultOom) s
         else (case fault_probe K (tm_file tm) (drv_modulus s) hash (unat (drv_max_probe s))
                 (hash mod drv_modulus s) (drv_world s) of
             (Inl f, w) \<Rightarrow> run_ret (Inl f) (s\<lparr>drv_world := w\<rparr>)
           | (Inr data, w) \<Rightarrow> run_bind (snapshot_pool_add K hash data (s\<lparr>drv_world := w\<rparr>)) (\<lambda>r.
               run_ret (case r of None \<Rightarrow> Inl FaultOom | Some e \<Rightarrow> Inr e)))))"

definition track :: "'w knl \<Rightarrow> nat \<Rightarrow> u64 \<Rightarrow> nat \<Rightarrow> (unit, 'w) drv" where
  "track K vd off e s = run_bind (kmalloc K s) (\<lambda>ok s.
     if \<not> ok then run_ret () s
     else run_bind (run_lift (deref (drv_vdata s) vd) s) (\<lambda>v s.
       run_ret () (s\<lparr>drv_vdata := (drv_vdata s)(vd \<mapsto>
         v\<lparr>vd_map := va_insert K (vd_map v) \<lparr>ve_offset = off, ve_phys = e\<rparr>\<rparr>)\<rparr>)))"

text \<open>Mapping the page; the result carries the page that was given to the kernel.\<close>

definition fault_map :: "'w knl \<Rightarrow> nat \<Rightarrow> u64 \<Rightarrow> u64 \<Rightarrow> nat \<Rightarrow> (vm_fault \<times> nat option, 'w) drv" where
  "fault_map K vd address off e s = run_bind (track K vd off e s) (\<lambda>_ s.
     run_bind (run_lift (deref (drv_entries s) e) s) (\<lambda>pe s.
     run_bind (get_page (pe_page pe) s) (\<lambda>_ s.
       let (ret, w) = kn_insert_page K address (pe_page pe) (drv_world s); s = s\<lparr>drv_world := w\<rparr> in
       if ret \<noteq> FaultNoPage
       then run_bind (put_page (pe_page pe) s) (\<lambda>_ s.
         run_bind (snapshot_pool_unref e s) (\<lambda>_. run_ret (ret, None)))
       else run_ret (ret, Some (pe_page pe)) s)))"

definition snapshot_vma_fault :: "'w knl \<Rightarrow> vm_area \<Rightarrow> u64 \<Rightarrow> (vm_fault \<times> nat option, 'w) drv" where
  "snapshot_vma_fault K vma address s =
     (case vm_private vma of
        None \<Rightarrow> run_ret (FaultSigbus, None) s
      | Some vd \<Rightarrow> run_bind (run_lift (deref (drv_vdata s) vd) s) (\<lambda>v s.
          run_bind (run_lift (deref (drv_templates s) (vd_template v)) s) (\<lambda>tm s.
            let off = address - vm_start vma; page_index = off div of_nat PAGE_SIZE in
            if tm_page_count tm \<le> page_index then run_ret (FaultSigbus, None) s
            else run_bind (run_lift (index (tm_table tm) page_index) s) (\<lambda>pte s.
              run_bind (fault_load K tm (hash_idx pte) s) (\<lambda>r s.
                case r of
                  Inl f \<Rightarrow> run_ret (f, None) s
                | Inr e \<Rightarrow> fault_map K vd address off e s)))))"

section \<open>Mapping a device\<close>

definition mmap_attach :: "'w knl \<Rightarrow> nat \<Rightarrow> vm_area \<Rightarrow> (vm_area, 'w) drv" where
  "mmap_attach K t vma s = run_bind (kmalloc K s) (\<lambda>ok s.
     if \<not> ok then run_bind (snapshot_template_unref K t s) (\<lambda>_. run_err Enomem)
     else let vd = drv_fresh s in
       run_bind (template_ref t (s\<lparr>drv_fresh := drv_fresh s + 1,
           drv_vdata := (drv_vdata s)(vd \<mapsto> \<lparr>vd_template = t, vd_map = Leaf\<rparr>)\<rparr>))
         (\<lambda>_. run_ret (vma\<lparr>vm_private := Some vd\<rparr>)))"

definition snapshot_mmap :: "'w knl \<Rightarrow> string \<Rightarrow> vm_area \<Rightarrow> (vm_area, 'w) drv" where
  "snapshot_mmap K dev_name vma s =
     (if \<not> strncmp_eq 9 dev_name ''snapshot_'' then run_err Einval s
      else let i = take (TEMPLATE_ID_MAX_LEN - 1) (drop 9 dev_name) in
        run_bind (snapshot_template_find_ref i s) (\<lambda>r s.
          case r of
            None \<Rightarrow> run_err Einval s
          | Some t \<Rightarrow> run_bind (run_lift (deref (drv_templates s) t) s) (\<lambda>tm s.
              let size = vm_end vma - vm_start vma in
              if size mod of_nat PAGE_SIZE \<noteq> 0 \<or> tm_size tm < size
              then run_bind (snapshot_template_unref K t s) (\<lambda>_. run_err Einval)
              else mmap_attach K t vma s)))"

section \<open>Loading and unloading the module\<close>

definition stats_show :: "'w snapshot_driver_state \<Rightarrow> string" where
  "stats_show s =
     ''templates: '' @ show_dec (length (template_list s)) @ [CHR 10] @
     ''loaded_pages: '' @ show_dec (unat (drv_total_pages s)) @ [CHR 10] @
     ''hash_modulus: '' @ show_dec (unat (drv_modulus s)) @ [CHR 10]"

definition HASH_MODULUS_DEFAULT :: u64 where "HASH_MODULUS_DEFAULT = 0x1000"
definition MAX_PROBE_COUNT_DEFAULT :: u32 where "MAX_PROBE_COUNT_DEFAULT = 64"

definition empty_driver :: "'w \<Rightarrow> 'w snapshot_driver_state" where
  "empty_driver w = \<lparr>template_list = [], drv_buckets = None, drv_total_pages = 0,
     drv_modulus = HASH_MODULUS_DEFAULT, drv_max_probe = MAX_PROBE_COUNT_DEFAULT,
     drv_templates = (\<lambda>_. None), drv_entries = (\<lambda>_. None), drv_frames = (\<lambda>_. None),
     drv_vdata = (\<lambda>_. None), drv_fresh = 0, drv_world = w\<rparr>"

text \<open>
  The creation of the directory and of its file under \<^verbatim>\<open>/sys\<close> are two more allocations that may
  fail; on a failure what was set up before is taken back.
\<close>

definition snapshot_init :: "'w knl \<Rightarrow> (unit, 'w) drv" where
  "snapshot_init K s = run_bind (kmalloc K s) (\<lambda>ok s.
     if \<not> ok then run_err Enomem s
     else run_bind (snapshot_pool_init K (empty_driver (drv_world s))) (\<lambda>_ s.
       run_bind (kmalloc K s) (\<lambda>ok s.
         if \<not> ok then run_bind (snapshot_pool_destroy s) (\<lambda>_. run_err Enomem)
         else run_bind (kmalloc K s) (\<lambda>ok s.
           if \<not> ok then run_bind (snapshot_pool_destroy s) (\<lambda>_. run_err Enomem)
           else let (ret, w) = kn_misc_register K ''snapshot_control'' (drv_world s); s = s\<lparr>drv_world := w\<rparr> in
             if ret \<noteq> 0 then run_bind (snapshot_pool_destroy s) (\<lambda>_. run_err (Eother ret))
             else run_ret () s))))"

definition snapshot_exit :: "'w knl \<Rightarrow> (unit, 'w) drv" where
  "snapshot_exit K s =
     run_bind (run_for (\<lambda>t _. template_free K t) (template_list s) ()
       (s\<lparr>drv_world := kn_misc_deregister K ''snapshot_control'' (drv_world s)\<rparr>))
     (\<lambda>_. snapshot_pool_destroy)"

end
