(* ===== verification/Conch_Pool.thy ===== *)
theory Conch_Pool
  imports Conch_Driver "HOL-Library.Multiset"
begin

text \<open>
  The page pool of the snapshot driver is a reference-counted store. Its invariant carries a
  ledger: \<open>own e\<close> references to the entry \<open>e\<close> are owned by somebody, and \<open>g e\<close> of them have not
  taken the reference of the kernel to the page yet, or given it up already. Every operation of the
  pool is shown to do to the ledger what its name says, and never to touch a freed object.
\<close>

section \<open>The invariant\<close>

definition entry_ok ::
  "(u64 \<Rightarrow> bytes option) \<Rightarrow> nat \<Rightarrow> (nat \<Rightarrow> (bytes \<times> nat) option) \<Rightarrow> nat \<Rightarrow> nat \<Rightarrow> phys_page_entry \<Rightarrow> bool" where
  "entry_ok M n frames own g pe \<longleftrightarrow>
     0 < unat (pe_ref pe) \<and> own \<le> unat (pe_ref pe) \<and> unat (pe_ref pe) \<le> n \<and>
     (\<exists>d c. frames (pe_page pe) = Some (d, c) \<and> c + g = Suc (unat (pe_ref pe)) \<and>
        (pe_hash pe \<noteq> 0 \<longrightarrow> M (pe_hash pe) = Some d))"

definition pool_inv ::
  "(u64 \<Rightarrow> bytes option) \<Rightarrow> nat \<Rightarrow> (u64 \<Rightarrow> nat list) option \<Rightarrow> (nat \<Rightarrow> phys_page_entry option) \<Rightarrow>
   (nat \<Rightarrow> (bytes \<times> nat) option) \<Rightarrow> u64 \<Rightarrow> nat \<Rightarrow> (nat \<Rightarrow> nat) \<Rightarrow> (nat \<Rightarrow> nat) \<Rightarrow> bool" where
  "pool_inv M n buckets E F tot fresh own g \<longleftrightarrow>
     (\<exists>bs. buckets = Some bs \<and> (\<forall>b. distinct (bs b)) \<and>
        (\<forall>b e. e \<in> set (bs b) \<longleftrightarrow> (\<exists>pe. E e = Some pe \<and> hash_to_bucket (pe_hash pe) = b))) \<and>
     (\<forall>e pe. E e = Some pe \<longrightarrow> entry_ok M n F (own e) (g e) pe) \<and>
     (\<forall>e pe e' pe'. E e = Some pe \<longrightarrow> E e' = Some pe' \<longrightarrow>
        pe_hash pe = pe_hash pe' \<or> pe_page pe = pe_page pe' \<longrightarrow> e = e') \<and>
     (\<forall>e. E e = None \<longrightarrow> own e = 0) \<and>
     finite (dom E) \<and> tot = of_nat (card (dom E)) \<and>
     (\<forall>p. fresh \<le> p \<longrightarrow> E p = None \<and> F p = None)"

definition pool_ok ::
  "(u64 \<Rightarrow> bytes option) \<Rightarrow> nat \<Rightarrow> 'w snapshot_driver_state \<Rightarrow> (nat \<Rightarrow> nat) \<Rightarrow> (nat \<Rightarrow> nat) \<Rightarrow> bool" where
  "pool_ok M n s own g \<longleftrightarrow>
     pool_inv M n (drv_buckets s) (drv_entries s) (drv_frames s) (drv_total_pages s) (drv_fresh s) own g"

text \<open>The part of the state that the pool does not touch.\<close>

definition same_rest :: "'w snapshot_driver_state \<Rightarrow> 'w snapshot_driver_state \<Rightarrow> bool" where
  "same_rest s t \<longleftrightarrow> template_list t = template_list s \<and> drv_templates t = drv_templates s \<and>
     drv_vdata t = drv_vdata s \<and> drv_modulus t = drv_modulus s \<and> drv_max_probe t = drv_max_probe s \<and>
     drv_fresh s \<le> drv_fresh t"

lemma same_rest_refl [simp]: "same_rest s s"
  by (simp add: same_rest_def)

lemma same_rest_trans: "same_rest s t \<Longrightarrow> same_rest t u \<Longrightarrow> same_rest s u"
  by (auto simp: same_rest_def)

lemma pool_ok_world [simp]: "pool_ok M n (s\<lparr>drv_world := w\<rparr>) own g = pool_ok M n s own g"
  by (simp add: pool_ok_def)

lemma pool_ok_rest [simp]:
  "pool_ok M n (s\<lparr>drv_templates := T\<rparr>) own g = pool_ok M n s own g"
  "pool_ok M n (s\<lparr>template_list := l\<rparr>) own g = pool_ok M n s own g"
  "pool_ok M n (s\<lparr>drv_vdata := v\<rparr>) own g = pool_ok M n s own g"
  by (simp_all add: pool_ok_def)

lemma entry_ok_weaken: "entry_ok M n fr own g pe \<Longrightarrow> n \<le> n' \<Longrightarrow> own' \<le> own \<Longrightarrow> entry_ok M n' fr own' g pe"
  by (auto simp: entry_ok_def)

lemma pool_ok_weaken:
  assumes ok: "pool_ok M n s own g" and le: "n \<le> n'" "\<And>e. own' e \<le> own e"
  shows "pool_ok M n' s own' g"
proof -
  note ok = ok [unfolded pool_ok_def pool_inv_def]
  have "drv_entries s e = None \<Longrightarrow> own' e = 0" for e
    using ok le(2) [of e] by auto
  moreover have "entry_ok M n' (drv_frames s) (own' e) (g e) pe" if "drv_entries s e = Some pe" for e pe
    using ok that by (intro entry_ok_weaken [OF _ le]) auto
  ultimately show ?thesis using ok unfolding pool_ok_def pool_inv_def by blast
qed

lemma pool_okD:
  assumes "pool_ok M n s own g" and "drv_entries s e = Some pe"
  shows "entry_ok M n (drv_frames s) (own e) (g e) pe"
    and "e < drv_fresh s"
    and "drv_entries s e' = Some pe' \<Longrightarrow> pe_hash pe = pe_hash pe' \<or> pe_page pe = pe_page pe' \<Longrightarrow> e = e'"
  using assms unfolding pool_ok_def pool_inv_def by (metis, metis not_le option.distinct(1), metis)

lemma pool_page_lt: "pool_ok M n s own g \<Longrightarrow> drv_entries s e = Some pe \<Longrightarrow> pe_page pe < drv_fresh s"
  using pool_okD(1) [of M n s own g e pe] unfolding pool_ok_def pool_inv_def entry_ok_def
  by (metis not_le option.distinct(1))

text \<open>Changing one entry and its page keeps the rest of the pool.\<close>

lemma pool_ok_entry:
  assumes ok: "pool_ok M n s own g" and e: "drv_entries s e = Some pe"
    and same: "pe_hash pe' = pe_hash pe" "pe_page pe' = pe_page pe"
    and new: "entry_ok M n ((drv_frames s)(pe_page pe := f)) (own' e) (g' e) pe'"
    and others: "\<And>x. x \<noteq> e \<Longrightarrow> own' x = own x \<and> g' x = g x"
  shows "pool_ok M n (s\<lparr>drv_entries := (drv_entries s)(e \<mapsto> pe'), drv_frames := (drv_frames s)(pe_page pe := f)\<rparr>) own' g'"
proof -
  let ?E = "(drv_entries s)(e \<mapsto> pe')" and ?F = "(drv_frames s)(pe_page pe := f)"
  note inv = ok [unfolded pool_ok_def pool_inv_def]
  have dom: "dom ?E = dom (drv_entries s)" using e by auto
  have key: "?E x = Some q \<Longrightarrow> \<exists>q0. drv_entries s x = Some q0 \<and> pe_hash q = pe_hash q0 \<and> pe_page q = pe_page q0" for x q
    using e same by (cases "x = e") auto
  have ok': "entry_ok M n ?F (own' x) (g' x) q" if q: "?E x = Some q" for x q
  proof (cases "x = e")
    case False
    with q have q': "drv_entries s x = Some q" by simp
    with pool_okD(3) [OF ok q' e] False have "pe_page q \<noteq> pe_page pe" by blast
    with pool_okD(1) [OF ok q'] others [OF False] show ?thesis by (simp add: entry_ok_def)
  qed (use q new in simp)
  have bk: "(\<exists>q. ?E x = Some q \<and> hash_to_bucket (pe_hash q) = b) \<longleftrightarrow>
      (\<exists>q. drv_entries s x = Some q \<and> hash_to_bucket (pe_hash q) = b)" for x b
    using e same by auto
  have uniq: "x = y" if "?E x = Some q" "?E y = Some r" "pe_hash q = pe_hash r \<or> pe_page q = pe_page r" for x y q r
    using key [OF that(1)] key [OF that(2)] that(3) inv by metis
  have zero: "own' x = 0" if "?E x = None" for x
    using that others [of x] inv by (cases "x = e") auto
  have fr: "drv_fresh s \<le> p \<Longrightarrow> ?E p = None \<and> ?F p = None" for p
    using inv pool_okD(2) [OF ok e] pool_page_lt [OF ok e] by auto
  have "pool_inv M n (drv_buckets s) ?E ?F (drv_total_pages s) (drv_fresh s) own' g'"
    unfolding pool_inv_def bk dom using inv ok' uniq zero fr by blast
  then show ?thesis by (simp add: pool_ok_def)
qed

section \<open>Looking up\<close>

lemma unat_plus_one: "unat (r::u32) \<le> n \<Longrightarrow> Suc n < 2 ^ 32 \<Longrightarrow> unat (r + 1) = Suc (unat r)"
  by (simp add: unat_word_ariths)

lemma unat_minus_one: "0 < unat (r::'a::len word) \<Longrightarrow> unat (r - 1) = unat r - 1"
  by (metis One_nat_def Suc_leI unat_1 unat_sub_le word_le_nat_alt)

lemma find_in_bucket_spec:
  assumes "\<forall>e \<in> set l. E e \<noteq> None"
  shows "\<exists>r. find_in_bucket E hash l = Inr r \<and>
    (case r of None \<Rightarrow> \<forall>e \<in> set l. \<forall>pe. E e = Some pe \<longrightarrow> pe_hash pe \<noteq> hash
     | Some e \<Rightarrow> e \<in> set l \<and> (\<exists>pe. E e = Some pe \<and> pe_hash pe = hash))"
  using assms
proof (induction l)
  case (Cons e l)
  then obtain pe where "E e = Some pe" by auto
  with Cons show ?case by (auto simp: deref_def split: option.splits)
qed simp

lemma lookup_noref_cases:
  assumes ok: "pool_ok M n s own g"
  obtains (absent) "snapshot_pool_lookup_noref hash s = Some (Inr None, s)"
      and "\<And>e pe. drv_entries s e = Some pe \<Longrightarrow> pe_hash pe \<noteq> hash"
  | (present) e pe where "snapshot_pool_lookup_noref hash s = Some (Inr (Some e), s)"
      and "drv_entries s e = Some pe" and "pe_hash pe = hash"
proof -
  from ok obtain bs where bs: "drv_buckets s = Some bs"
    and mem: "\<And>b e. e \<in> set (bs b) \<longleftrightarrow> (\<exists>pe. drv_entries s e = Some pe \<and> hash_to_bucket (pe_hash pe) = b)"
    unfolding pool_ok_def pool_inv_def by blast
  have "\<forall>e \<in> set (bs (hash_to_bucket hash)). drv_entries s e \<noteq> None" using mem by auto
  from find_in_bucket_spec [OF this, of hash] obtain r where
    r: "find_in_bucket (drv_entries s) hash (bs (hash_to_bucket hash)) = Inr r"
    and c: "case r of None \<Rightarrow> \<forall>e \<in> set (bs (hash_to_bucket hash)). \<forall>pe. drv_entries s e = Some pe \<longrightarrow> pe_hash pe \<noteq> hash
     | Some e \<Rightarrow> e \<in> set (bs (hash_to_bucket hash)) \<and> (\<exists>pe. drv_entries s e = Some pe \<and> pe_hash pe = hash)"
    by blast
  have run: "snapshot_pool_lookup_noref hash s = Some (Inr r, s)"
    using bs r by (simp add: snapshot_pool_lookup_noref_def)
  show thesis
  proof (cases r)
    case None
    then have "pe_hash pe \<noteq> hash" if "drv_entries s e = Some pe" for e pe
      using c that mem [of e "hash_to_bucket hash"] by auto
    with None run absent show thesis by blast
  next
    case (Some e)
    with c run present show thesis by auto
  qed
qed

text \<open>Taking a reference: one more owner, who has not taken the page yet.\<close>

lemma pool_ref_ok:
  assumes ok: "pool_ok M n s own g" and e: "drv_entries s e = Some pe" and n: "Suc n < 2 ^ 32"
  shows "\<exists>s'. snapshot_pool_ref e s = Some (Inr (), s') \<and> same_rest s s' \<and>
    pool_ok M (Suc n) s' (own(e := Suc (own e))) (g(e := Suc (g e))) \<and>
    drv_entries s' e = Some (pe\<lparr>pe_ref := pe_ref pe + 1\<rparr>)"
proof -
  let ?pe = "pe\<lparr>pe_ref := pe_ref pe + 1\<rparr>"
  have eo: "entry_ok M n (drv_frames s) (own e) (g e) pe" by (rule pool_okD(1) [OF ok e])
  then have "unat (pe_ref pe + 1) = Suc (unat (pe_ref pe))"
    using n by (intro unat_plus_one) (auto simp: entry_ok_def)
  with eo have "entry_ok M (Suc n) (drv_frames s) (Suc (own e)) (Suc (g e)) ?pe" by (auto simp: entry_ok_def)
  with pool_ok_entry [OF pool_ok_weaken [OF ok, of "Suc n" own] e, of ?pe "drv_frames s (pe_page pe)"
      "own(e := Suc (own e))" "g(e := Suc (g e))"]
  have "pool_ok M (Suc n) (s\<lparr>drv_entries := (drv_entries s)(e \<mapsto> ?pe)\<rparr>) (own(e := Suc (own e))) (g(e := Suc (g e)))"
    by (simp add: pool_ok_def)
  with e show ?thesis by (simp add: snapshot_pool_ref_def deref_def same_rest_def)
qed

lemma lookup_cases:
  assumes ok: "pool_ok M n s own g" and n: "Suc n < 2 ^ 32"
  obtains (absent) "snapshot_pool_lookup hash s = Some (Inr None, s)"
      and "\<And>e pe. drv_entries s e = Some pe \<Longrightarrow> pe_hash pe \<noteq> hash"
  | (present) e pe s' where "snapshot_pool_lookup hash s = Some (Inr (Some e), s')"
      and "drv_entries s' e = Some pe" and "pe_hash pe = hash" and "same_rest s s'"
      and "pool_ok M (Suc n) s' (own(e := Suc (own e))) (g(e := Suc (g e)))"
proof (rule lookup_noref_cases [OF ok, of hash])
  assume "snapshot_pool_lookup_noref hash s = Some (Inr None, s)"
    and "\<And>e pe. drv_entries s e = Some pe \<Longrightarrow> pe_hash pe \<noteq> hash"
  then show thesis using absent by (simp add: snapshot_pool_lookup_def)
next
  fix e pe
  assume l: "snapshot_pool_lookup_noref hash s = Some (Inr (Some e), s)"
    and e: "drv_entries s e = Some pe" and h: "pe_hash pe = hash"
  from pool_ref_ok [OF ok e n] obtain s' where "snapshot_pool_ref e s = Some (Inr (), s')" "same_rest s s'"
    "pool_ok M (Suc n) s' (own(e := Suc (own e))) (g(e := Suc (g e)))"
    "drv_entries s' e = Some (pe\<lparr>pe_ref := pe_ref pe + 1\<rparr>)" by blast
  with l h show thesis using present by (simp add: snapshot_pool_lookup_def)
qed

section \<open>Adding a page\<close>

lemma find_in_bucket_cong:
  "\<forall>x \<in> set l. E x = E' x \<Longrightarrow> find_in_bucket E hash l = find_in_bucket E' hash l"
proof (induction l)
  case (Cons x l)
  then have "find_in_bucket E hash l = find_in_bucket E' hash l" and "E x = E' x" by simp_all
  then show ?case by (simp add: deref_def bindE_def split: option.splits)
qed simp

lemma pool_ok_new:
  assumes ok: "pool_ok M n s own g" and bs: "drv_buckets s = Some bs" and new: "e = drv_fresh s" "p = drv_fresh s + 1"
    and h: "\<And>e pe. drv_entries s e = Some pe \<Longrightarrow> pe_hash pe \<noteq> hash" and M: "hash \<noteq> 0 \<longrightarrow> M hash = Some d"
  shows "pool_ok M (Suc n) (s\<lparr>drv_entries := (drv_entries s)(e \<mapsto> \<lparr>pe_hash = hash, pe_page = p, pe_ref = 1\<rparr>),
      drv_frames := (drv_frames s)(p \<mapsto> (d, 1)), drv_fresh := drv_fresh s + 2,
      drv_buckets := Some (bs(hash_to_bucket hash := e # bs (hash_to_bucket hash))),
      drv_total_pages := drv_total_pages s + 1\<rparr>) (own(e := 1)) (g(e := 1))"
proof -
  let ?pe = "\<lparr>pe_hash = hash, pe_page = p, pe_ref = 1\<rparr>"
  let ?E = "(drv_entries s)(e \<mapsto> ?pe)" and ?F = "(drv_frames s)(p \<mapsto> (d, 1))"
  let ?bs = "bs(hash_to_bucket hash := e # bs (hash_to_bucket hash))"
  note inv = ok [unfolded pool_ok_def pool_inv_def bs]
  have none: "drv_entries s e = None" using inv new by auto
  from inv have dist: "distinct (bs b)"
    and mem: "x \<in> set (bs b) \<longleftrightarrow> (\<exists>pe. drv_entries s x = Some pe \<and> hash_to_bucket (pe_hash pe) = b)" for b x
    by auto
  have nb: "e \<notin> set (bs b)" for b using none mem by auto
  have "\<forall>b. distinct (?bs b)" using dist nb by auto
  moreover have "x \<in> set (?bs b) \<longleftrightarrow> (\<exists>pe. ?E x = Some pe \<and> hash_to_bucket (pe_hash pe) = b)" for x b
    using mem [of x b] nb none by (cases "x = e") auto
  moreover have "entry_ok M (Suc n) ?F ((own(e := 1)) x) ((g(e := 1)) x) q" if q: "?E x = Some q" for x q
  proof (cases "x = e")
    case False
    with q have q': "drv_entries s x = Some q" by simp
    with pool_page_lt [OF ok q'] new have "pe_page q \<noteq> p" by simp
    with entry_ok_weaken [OF pool_okD(1) [OF ok q'], of "Suc n" "own x"] False show ?thesis by (simp add: entry_ok_def)
  next
    case True
    with q M show ?thesis by (auto simp: entry_ok_def)
  qed
  moreover have "x = y" if "?E x = Some q" "?E y = Some r" "pe_hash q = pe_hash r \<or> pe_page q = pe_page r" for x y q r
  proof -
    have old: "pe_hash q \<noteq> hash \<and> pe_page q \<noteq> p" if "?E z = Some q" "z \<noteq> e" for z q
      using that h [of z q] pool_page_lt [OF ok, of z q] new by auto
    show ?thesis
    proof (cases "x = e")
      case True
      with that(1) have "q = ?pe" by simp
      with True that old [of y r] show ?thesis by (auto split: if_splits)
    next
      case x: False
      show ?thesis
      proof (cases "y = e")
        case True
        with that(2) have "r = ?pe" by simp
        with x that old [of x q] show ?thesis by auto
      next
        case False
        with x that show ?thesis using pool_okD(3) [OF ok, of x q y r] by simp
      qed
    qed
  qed
  moreover have "(own(e := 1)) x = 0" if "?E x = None" for x using that inv by (auto split: if_splits)
  moreover have "finite (dom ?E)" using inv by simp
  moreover have "drv_total_pages s + 1 = of_nat (card (dom ?E))"
    using inv none by (simp add: card_insert_if domIff)
  moreover have "drv_fresh s + 2 \<le> x \<Longrightarrow> ?E x = None \<and> ?F x = None" for x using inv new by auto
  ultimately have "pool_inv M (Suc n) (Some ?bs) ?E ?F (drv_total_pages s + 1) (drv_fresh s + 2) (own(e := 1)) (g(e := 1))"
    unfolding pool_inv_def by blast
  then show ?thesis by (simp add: pool_ok_def)
qed

lemma kmalloc_run: "\<exists>ok w. kmalloc K s = Some (Inr ok, s\<lparr>drv_world := w\<rparr>)"
  by (auto simp: kmalloc_def split: prod.splits)

text \<open>
  Adding a page: without memory nothing changes, otherwise there is an entry with the digest and
  one more owner of it.
\<close>

lemma pool_add_cases:
  assumes ok: "pool_ok M n s own g" and n: "Suc n < 2 ^ 32"
    and d: "length data = PAGE_SIZE" and M: "hash \<noteq> 0 \<longrightarrow> M hash = Some data"
  obtains (no_memory) w where "snapshot_pool_add K hash data s = Some (Inr None, s\<lparr>drv_world := w\<rparr>)"
  | (added) e pe s' own' g' where "snapshot_pool_add K hash data s = Some (Inr (Some e), s')"
      and "drv_entries s' e = Some pe" and "pe_hash pe = hash" and "same_rest s s'"
      and "pool_ok M (Suc n) s' (own(e := Suc (own e))) g'" and "g' e = Suc (g e) \<or> g' e = 1"
      and "\<And>x. x \<noteq> e \<Longrightarrow> g' x = g x"
proof (rule lookup_cases [OF ok n, of hash])
  fix e pe s'
  assume "snapshot_pool_lookup hash s = Some (Inr (Some e), s')"
    and "drv_entries s' e = Some pe" and "pe_hash pe = hash" and "same_rest s s'"
    and "pool_ok M (Suc n) s' (own(e := Suc (own e))) (g(e := Suc (g e)))"
  then show thesis using added [of e s' pe "g(e := Suc (g e))"] by (simp add: snapshot_pool_add_def)
next
  assume l: "snapshot_pool_lookup hash s = Some (Inr None, s)"
    and absent: "\<And>e pe. drv_entries s e = Some pe \<Longrightarrow> pe_hash pe \<noteq> hash"
  obtain ok1 w1 where k1: "kmalloc K s = Some (Inr ok1, s\<lparr>drv_world := w1\<rparr>)"
    using kmalloc_run [of K s] by (elim exE)
  obtain ok2 w2 where "kmalloc K (s\<lparr>drv_world := w1\<rparr>) = Some (Inr ok2, s\<lparr>drv_world := w1\<rparr>\<lparr>drv_world := w2\<rparr>)"
    using kmalloc_run [of K "s\<lparr>drv_world := w1\<rparr>"] by (elim exE)
  then have k2: "kmalloc K (s\<lparr>drv_world := w1\<rparr>) = Some (Inr ok2, s\<lparr>drv_world := w2\<rparr>)" by simp
  show thesis
  proof (cases "ok1 \<and> ok2")
    case False
    then show thesis using l k1 k2 no_memory by (cases ok1) (auto simp: snapshot_pool_add_def)
  next
    case True
    let ?e = "drv_fresh s" and ?p = "drv_fresh s + 1"
    let ?pe = "\<lparr>pe_hash = hash, pe_page = ?p, pe_ref = 1\<rparr>"
    let ?s = "s\<lparr>drv_world := w2, drv_entries := (drv_entries s)(?e \<mapsto> ?pe),
      drv_frames := (drv_frames s)(?p \<mapsto> (data, 1)), drv_fresh := drv_fresh s + 2\<rparr>"
    from ok obtain bs where bs: "drv_buckets s = Some bs"
      and mem: "\<And>b e. e \<in> set (bs b) \<longleftrightarrow> (\<exists>pe. drv_entries s e = Some pe \<and> hash_to_bucket (pe_hash pe) = b)"
      unfolding pool_ok_def pool_inv_def by blast
    have "drv_entries s ?e = None" using ok unfolding pool_ok_def pool_inv_def by auto
    then have "find_in_bucket (drv_entries ?s) hash (bs (hash_to_bucket hash)) =
      find_in_bucket (drv_entries s) hash (bs (hash_to_bucket hash))"
      using mem by (intro find_in_bucket_cong) auto
    moreover have "find_in_bucket (drv_entries s) hash (bs (hash_to_bucket hash)) = Inr None"
      using l bs by (auto simp: snapshot_pool_lookup_def snapshot_pool_lookup_noref_def run_bind_eq_Inr split: option.splits)
    ultimately have "snapshot_pool_lookup hash ?s = Some (Inr None, ?s)"
      using bs by (simp add: snapshot_pool_lookup_def snapshot_pool_lookup_noref_def)
    with l k1 k2 True bs d
    have run: "snapshot_pool_add K hash data s = Some (Inr (Some ?e), ?s\<lparr>
        drv_buckets := Some (bs(hash_to_bucket hash := ?e # bs (hash_to_bucket hash))),
        drv_total_pages := drv_total_pages s + 1\<rparr>)" (is "_ = Some (_, ?t)")
      by (simp add: snapshot_pool_add_def pool_link_def Let_def)
    have own0: "own ?e = 0" using ok unfolding pool_ok_def pool_inv_def by auto
    have "pool_ok M (Suc n) ?t (own(?e := Suc (own ?e))) (g(?e := 1))"
      using pool_ok_new [OF ok bs refl refl absent M] own0 by (simp add: pool_ok_def)
    then show thesis using added [OF run, of ?pe "g(?e := 1)"] by (simp add: same_rest_def)
  qed
qed

section \<open>Taking and giving up a page\<close>

lemma get_page_ok:
  assumes ok: "pool_ok M n s own g" and e: "drv_entries s e = Some pe" and g: "0 < g e"
  shows "\<exists>s' d c. get_page (pe_page pe) s = Some (Inr (), s') \<and> same_rest s s' \<and> drv_entries s' = drv_entries s \<and>
    pool_ok M n s' own (g(e := g e - 1)) \<and> drv_frames s' (pe_page pe) = Some (d, c) \<and>
    (pe_hash pe \<noteq> 0 \<longrightarrow> M (pe_hash pe) = Some d)"
proof -
  have eo: "entry_ok M n (drv_frames s) (own e) (g e) pe" by (rule pool_okD(1) [OF ok e])
  then obtain d c where f: "drv_frames s (pe_page pe) = Some (d, c)" "c + g e = Suc (unat (pe_ref pe))"
    "pe_hash pe \<noteq> 0 \<longrightarrow> M (pe_hash pe) = Some d" by (auto simp: entry_ok_def)
  let ?s = "s\<lparr>drv_frames := (drv_frames s)(pe_page pe \<mapsto> (d, Suc c))\<rparr>"
  have "entry_ok M n ((drv_frames s)(pe_page pe \<mapsto> (d, Suc c))) (own e) (g e - 1) pe"
    using eo f g by (auto simp: entry_ok_def)
  with pool_ok_entry [OF ok e refl refl, of "Some (d, Suc c)" own "g(e := g e - 1)"] e
  have "pool_ok M n ?s own (g(e := g e - 1))" by (simp add: pool_ok_def fun_upd_idem)
  moreover have "get_page (pe_page pe) s = Some (Inr (), ?s)" using f by (simp add: get_page_def deref_def)
  ultimately show ?thesis using f by (intro exI [of _ ?s]) (simp add: same_rest_def)
qed

lemma put_page_ok:
  assumes ok: "pool_ok M n s own g" and e: "drv_entries s e = Some pe" and g: "g e = 0"
  shows "\<exists>s'. put_page (pe_page pe) s = Some (Inr (), s') \<and> same_rest s s' \<and> drv_entries s' = drv_entries s \<and>
    pool_ok M n s' own (g(e := 1))"
proof -
  have eo: "entry_ok M n (drv_frames s) (own e) (g e) pe" by (rule pool_okD(1) [OF ok e])
  then obtain d c where f: "drv_frames s (pe_page pe) = Some (d, c)" "c = Suc (unat (pe_ref pe))"
    using g by (auto simp: entry_ok_def)
  with eo have c: "1 < c" by (auto simp: entry_ok_def)
  let ?s = "s\<lparr>drv_frames := (drv_frames s)(pe_page pe \<mapsto> (d, c - 1))\<rparr>"
  have "entry_ok M n ((drv_frames s)(pe_page pe \<mapsto> (d, c - 1))) (own e) 1 pe"
    using eo f c by (auto simp: entry_ok_def)
  with pool_ok_entry [OF ok e refl refl, of "Some (d, c - 1)" own "g(e := 1)"] e
  have "pool_ok M n ?s own (g(e := 1))" by (simp add: pool_ok_def fun_upd_idem)
  moreover have "put_page (pe_page pe) s = Some (Inr (), ?s)" using f c by (simp add: put_page_def deref_def)
  ultimately show ?thesis by (intro exI [of _ ?s]) (simp add: same_rest_def)
qed

text \<open>The last reference takes the entry and its page out of the pool.\<close>

lemma pool_ok_remove:
  assumes ok: "pool_ok M n s own g" and bs: "drv_buckets s = Some bs" and e: "drv_entries s e = Some pe"
    and own: "own' e = 0" "\<And>x. x \<noteq> e \<Longrightarrow> own' x = own x \<and> g' x = g x"
  shows "pool_ok M n (s\<lparr>drv_buckets := Some (bs(hash_to_bucket (pe_hash pe) := removeAll e (bs (hash_to_bucket (pe_hash pe))))),
      drv_total_pages := drv_total_pages s - 1, drv_frames := (drv_frames s)(pe_page pe := None),
      drv_entries := (drv_entries s)(e := None)\<rparr>) own' g'"
proof -
  let ?b = "hash_to_bucket (pe_hash pe)"
  let ?bs = "bs(?b := removeAll e (bs ?b))"
  let ?E = "(drv_entries s)(e := None)" and ?F = "(drv_frames s)(pe_page pe := None)"
  note inv = ok [unfolded pool_ok_def pool_inv_def bs]
  from inv have dist: "distinct (bs b)"
    and mem: "x \<in> set (bs b) \<longleftrightarrow> (\<exists>pe. drv_entries s x = Some pe \<and> hash_to_bucket (pe_hash pe) = b)" for b x
    by auto
  have "\<forall>b. distinct (?bs b)" using dist by (simp add: distinct_removeAll)
  moreover have "x \<in> set (?bs b) \<longleftrightarrow> (\<exists>pe. ?E x = Some pe \<and> hash_to_bucket (pe_hash pe) = b)" for x b
    using mem [of x b] e by (cases "x = e") auto
  moreover have "entry_ok M n ?F (own' x) (g' x) q" if q: "?E x = Some q" for x q
  proof -
    from q have x: "x \<noteq> e" "drv_entries s x = Some q" by (auto split: if_splits)
    with pool_okD(3) [OF ok x(2) e] have "pe_page q \<noteq> pe_page pe" by blast
    with pool_okD(1) [OF ok x(2)] own(2) [OF x(1)] show ?thesis by (simp add: entry_ok_def)
  qed
  moreover have "x = y" if "?E x = Some q" "?E y = Some r" "pe_hash q = pe_hash r \<or> pe_page q = pe_page r" for x y q r
    using that pool_okD(3) [OF ok, of x q y r] by (auto split: if_splits)
  moreover have "own' x = 0" if "?E x = None" for x
    using that own(1) own(2) [of x] inv by (cases "x = e") auto
  moreover have "finite (dom ?E)" using inv by simp
  moreover have "drv_total_pages s - 1 = of_nat (card (dom ?E))"
  proof -
    have "Suc (card (dom ?E)) = card (dom (drv_entries s))"
      using inv card_Suc_Diff1 [of "dom (drv_entries s)" e] domI [of "drv_entries s" e, OF e] by simp
    with inv show ?thesis by (metis add_diff_cancel_left' of_nat_Suc)
  qed
  moreover have "drv_fresh s \<le> x \<Longrightarrow> ?E x = None \<and> ?F x = None" for x using inv by auto
  ultimately have "pool_inv M n (Some ?bs) ?E ?F (drv_total_pages s - 1) (drv_fresh s) own' g'"
    unfolding pool_inv_def by blast
  then show ?thesis by (simp add: pool_ok_def)
qed

lemma unref_ok:
  assumes ok: "pool_ok M n s own g" and e: "drv_entries s e = Some pe" and own: "0 < own e" and g: "g e = 1"
  shows "\<exists>s'. snapshot_pool_unref e s = Some (Inr (), s') \<and> same_rest s s' \<and>
    pool_ok M n s' (own(e := own e - 1)) (g(e := 0))"
proof -
  have eo: "entry_ok M n (drv_frames s) (own e) (g e) pe" by (rule pool_okD(1) [OF ok e])
  then obtain d c where f: "drv_frames s (pe_page pe) = Some (d, c)" "c = unat (pe_ref pe)"
    using g by (auto simp: entry_ok_def)
  from eo have r: "unat (pe_ref pe - 1) = unat (pe_ref pe) - 1" by (intro unat_minus_one) (simp add: entry_ok_def)
  from ok obtain bs where bs: "drv_buckets s = Some bs" "e \<in> set (bs (hash_to_bucket (pe_hash pe)))"
    using e unfolding pool_ok_def pool_inv_def by blast
  show ?thesis
  proof (cases "pe_ref pe - 1 = 0")
    case True
    then have "pe_ref pe = 1" by simp
    with f eo have "c = 1" "own e \<le> 1" by (simp_all add: entry_ok_def)
    with True f bs e have "snapshot_pool_unref e s = Some (Inr (), s\<lparr>
        drv_buckets := Some (bs(hash_to_bucket (pe_hash pe) := removeAll e (bs (hash_to_bucket (pe_hash pe))))),
        drv_total_pages := drv_total_pages s - 1, drv_frames := (drv_frames s)(pe_page pe := None),
        drv_entries := (drv_entries s)(e := None)\<rparr>)"
      by (simp add: snapshot_pool_unref_def deref_def put_page_def Let_def)
    moreover note pool_ok_remove [OF ok bs(1) e, of "own(e := own e - 1)" "g(e := 0)"]
    ultimately show ?thesis using \<open>own e \<le> 1\<close> by (simp add: same_rest_def)
  next
    case False
    let ?pe = "pe\<lparr>pe_ref := pe_ref pe - 1\<rparr>"
    have "unat (pe_ref pe - 1) \<noteq> 0" using False by (simp add: unat_eq_0)
    with r eo f own have "entry_ok M n (drv_frames s) (own e - 1) 0 ?pe" by (auto simp: entry_ok_def)
    with pool_ok_entry [OF ok e, of ?pe "drv_frames s (pe_page pe)" "own(e := own e - 1)" "g(e := 0)"]
    have "pool_ok M n (s\<lparr>drv_entries := (drv_entries s)(e \<mapsto> ?pe)\<rparr>) (own(e := own e - 1)) (g(e := 0))"
      by (simp add: pool_ok_def)
    with False e show ?thesis by (simp add: snapshot_pool_unref_def deref_def same_rest_def)
  qed
qed

section \<open>Closing a mapping\<close>

lemma unmap_entry_ok:
  assumes ok: "pool_ok M n s own (\<lambda>_. 0)" and own: "0 < own (ve_phys v)"
  shows "\<exists>s'. unmap_entry v s = Some (Inr (), s') \<and> same_rest s s' \<and>
    pool_ok M n s' (own(ve_phys v := own (ve_phys v) - 1)) (\<lambda>_. 0)"
proof -
  from ok own obtain pe where e: "drv_entries s (ve_phys v) = Some pe"
    unfolding pool_ok_def pool_inv_def by (metis less_irrefl not_Some_eq)
  from put_page_ok [OF ok e] obtain s1 where 1: "put_page (pe_page pe) s = Some (Inr (), s1)" "same_rest s s1"
    "drv_entries s1 = drv_entries s" "pool_ok M n s1 own ((\<lambda>_. 0)(ve_phys v := 1))" by auto
  from unref_ok [OF 1(4), of "ve_phys v" pe] own e 1(3) obtain s2 where
    2: "snapshot_pool_unref (ve_phys v) s1 = Some (Inr (), s2)" "same_rest s1 s2"
    "pool_ok M n s2 (own(ve_phys v := own (ve_phys v) - 1)) ((\<lambda>_. 0)(ve_phys v := 1, ve_phys v := 0))" by auto
  have "((\<lambda>_. 0)(ve_phys v := 1, ve_phys v := 0)) = (\<lambda>_. 0 :: nat)" by auto
  with 1 2 e same_rest_trans show ?thesis by (auto simp: unmap_entry_def deref_def)
qed

text \<open>What the tree functions of the kernel promise.\<close>

definition rb_ok :: "'w knl \<Rightarrow> bool" where
  "rb_ok K \<longleftrightarrow> (\<forall>t. inorder (kn_rb_insert_color K t) = inorder t) \<and>
     (\<forall>t. inorder (kn_rb_erase_first K t) = tl (inorder t))"

lemma rb_first_inorder: "rb_first t = (case inorder t of [] \<Rightarrow> None | v # _ \<Rightarrow> Some v)"
proof (induction t rule: rb_first.induct)
  case (3 ll le lr e r)
  have "inorder (Node ll le lr) \<noteq> []" by simp
  then show ?case using 3 by (cases "inorder (Node ll le lr)") (auto simp del: inorder.simps simp: inorder.simps(2) [of "Node ll le lr"])
qed simp_all

lemma unmap_all_ok:
  assumes rb: "rb_ok K" and "pool_ok M n s own (\<lambda>_. 0)"
    and "\<And>e. count (mset (map ve_phys (inorder t))) e \<le> own e"
  shows "\<exists>s'. unmap_all K t s = Some (Inr (), s') \<and> same_rest s s' \<and>
    pool_ok M n s' (\<lambda>e. own e - count (mset (map ve_phys (inorder t))) e) (\<lambda>_. 0)"
  using assms(2,3)
proof (induction "inorder t" arbitrary: t s own)
  case Nil
  then have "rb_first t = None" "inorder t = []" by (simp_all add: rb_first_inorder)
  with Nil show ?case by (subst unmap_all.simps) simp
next
  case (Cons v vs)
  then have f: "rb_first t = Some v" by (simp add: rb_first_inorder flip: Cons.hyps(2))
  have t: "inorder t = v # vs" "vs = inorder (kn_rb_erase_first K t)"
    using Cons.hyps(2) rb by (simp_all add: rb_ok_def flip: Cons.hyps(2))
  have "0 < own (ve_phys v)" using Cons.prems(2) [of "ve_phys v"] t(1) by simp
  from unmap_entry_ok [OF Cons.prems(1) this] obtain s1 where 1: "unmap_entry v s = Some (Inr (), s1)" "same_rest s s1"
    "pool_ok M n s1 (own(ve_phys v := own (ve_phys v) - 1)) (\<lambda>_. 0)" by blast
  have "count (mset (map ve_phys (inorder (kn_rb_erase_first K t)))) e \<le> (own(ve_phys v := own (ve_phys v) - 1)) e" for e
    using Cons.prems(2) [of e] t by (auto split: if_splits)
  from Cons.hyps(1) [OF t(2) 1(3) this] obtain s2 where 2: "unmap_all K (kn_rb_erase_first K t) s1 = Some (Inr (), s2)"
    "same_rest s1 s2" "pool_ok M n s2 (\<lambda>e. (own(ve_phys v := own (ve_phys v) - 1)) e -
      count (mset (map ve_phys (inorder (kn_rb_erase_first K t)))) e) (\<lambda>_. 0)" by blast
  have "(\<lambda>e. (own(ve_phys v := own (ve_phys v) - 1)) e - count (mset (map ve_phys (inorder (kn_rb_erase_first K t)))) e) =
    (\<lambda>e. own e - count (mset (map ve_phys (inorder t))) e)"
    using t by auto
  with 1 2 f same_rest_trans show ?case by (subst unmap_all.simps) auto
qed

end
