(* ===== verification/Conch_Safety.thy ===== *)
theory Conch_Safety
  imports Conch_Pool
begin

text \<open>
  The driver under load: any sequence of requests, mappings, faults and unmappings. The invariant
  ties the reference counts of templates and pool entries to the mappings that exist; it holds
  as long as the kernel does not refuse to map a page, no mapping is duplicated by a fork or a
  split, and the table of buckets can be allocated. The three exceptions are defects of the driver; what
  they lead to is shown in the theories that follow.
\<close>

section \<open>Mappings and what they own\<close>

definition vm_refs :: "(nat \<Rightarrow> vma_snapshot_data option) \<Rightarrow> vm_area \<Rightarrow> nat list" where
  "vm_refs V v = (case vm_private v of
     None \<Rightarrow> []
   | Some p \<Rightarrow> (case V p of None \<Rightarrow> [] | Some x \<Rightarrow> map ve_phys (inorder (vd_map x))))"

definition vm_template :: "(nat \<Rightarrow> vma_snapshot_data option) \<Rightarrow> vm_area \<Rightarrow> nat option" where
  "vm_template V v = (case vm_private v of None \<Rightarrow> None | Some p \<Rightarrow> map_option vd_template (V p))"

text \<open>How many references to an entry the mappings own, and how many mappings a template has.\<close>

definition owed :: "(nat \<Rightarrow> vma_snapshot_data option) \<Rightarrow> vm_area list \<Rightarrow> nat \<Rightarrow> nat" where
  "owed V vs e = count (mset (concat (map (vm_refs V) vs))) e"

definition live :: "(nat \<Rightarrow> vma_snapshot_data option) \<Rightarrow> vm_area list \<Rightarrow> nat \<Rightarrow> nat" where
  "live V vs t = count (mset (map (vm_template V) vs)) (Some t)"

lemma vm_other:
  assumes "vm_private v \<noteq> Some p"
  shows "vm_refs (V(p := x)) v = vm_refs V v" and "vm_template (V(p := x)) v = vm_template V v"
  using assms by (auto simp: vm_refs_def vm_template_def split: option.splits)

lemma map_other:
  assumes "Some p \<notin> vm_private ` set vs"
  shows "map (vm_refs (V(p := x))) vs = map (vm_refs V) vs"
    and "map (vm_template (V(p := x))) vs = map (vm_template V) vs"
  using assms by (auto intro!: vm_other simp: image_iff)

lemma owed_other: "Some p \<notin> vm_private ` set vs \<Longrightarrow> owed (V(p := x)) vs e = owed V vs e"
  by (simp add: owed_def map_other)

lemma live_other: "Some p \<notin> vm_private ` set vs \<Longrightarrow> live (V(p := x)) vs t = live V vs t"
  by (simp add: live_def map_other)

lemma split_at:
  assumes "i < length vs" and "distinct (map vm_private vs)"
  obtains xs ys where "vs = xs @ vs ! i # ys" and "xs = take i vs" and "ys = drop (Suc i) vs"
    and "vm_private (vs ! i) \<notin> vm_private ` set (xs @ ys)"
proof -
  have vs: "vs = take i vs @ vs ! i # drop (Suc i) vs" using assms(1) by (rule id_take_nth_drop)
  then have "distinct (map vm_private (take i vs @ vs ! i # drop (Suc i) vs))" using assms(2) by simp
  then have "vm_private (vs ! i) \<notin> vm_private ` set (take i vs @ drop (Suc i) vs)" by auto
  with vs that show thesis by blast
qed

lemma owed_at: "owed V (xs @ v # ys) e = count (mset (vm_refs V v)) e + owed V (xs @ ys) e"
  by (simp add: owed_def)

lemma live_at: "live V (xs @ v # ys) t = (if vm_template V v = Some t then 1 else 0) + live V (xs @ ys) t"
  by (simp add: live_def)

section \<open>The invariant\<close>

definition tmpl_ok :: "nat \<Rightarrow> nat list \<Rightarrow> (nat \<Rightarrow> snapshot_template option) \<Rightarrow> (nat \<Rightarrow> nat) \<Rightarrow> bool" where
  "tmpl_ok n L T lv \<longleftrightarrow> distinct L \<and> (\<forall>t. t \<in> set L \<longleftrightarrow> T t \<noteq> None) \<and>
     (\<forall>t tm. T t = Some tm \<longrightarrow> 2 * lv t \<le> unat (tm_ref tm) \<and> unat (tm_ref tm) \<le> 2 * n \<and>
        length (tm_table tm) = unat (tm_page_count tm))"

definition vmas_ok :: "(nat \<Rightarrow> vma_snapshot_data option) \<Rightarrow> nat list \<Rightarrow> vm_area list \<Rightarrow> bool" where
  "vmas_ok V L vs \<longleftrightarrow> distinct (map vm_private vs) \<and>
     (\<forall>v \<in> set vs. \<exists>p x. vm_private v = Some p \<and> V p = Some x \<and> vd_template x \<in> set L)"

text \<open>While there is a page in the pool, some template is referenced and keeps the pool alive.\<close>

definition pinned :: "'w snapshot_driver_state \<Rightarrow> bool" where
  "pinned s \<longleftrightarrow> ((\<exists>e. drv_entries s e \<noteq> None) \<longrightarrow> (\<exists>t tm. drv_templates s t = Some tm \<and> 0 < unat (tm_ref tm)))"

definition conch_inv ::
  "(u64 \<Rightarrow> bytes option) \<Rightarrow> nat \<Rightarrow> 'w snapshot_driver_state \<Rightarrow> vm_area list \<Rightarrow> bool" where
  "conch_inv M n s vs \<longleftrightarrow>
     drv_modulus s = HASH_MODULUS_DEFAULT \<and> drv_max_probe s = MAX_PROBE_COUNT_DEFAULT \<and>
     pool_ok M n s (owed (drv_vdata s) vs) (\<lambda>_. 0) \<and>
     tmpl_ok n (template_list s) (drv_templates s) (live (drv_vdata s) vs) \<and>
     vmas_ok (drv_vdata s) (template_list s) vs \<and> pinned s \<and>
     (\<forall>p. drv_fresh s \<le> p \<longrightarrow> drv_templates s p = None \<and> drv_vdata s p = None)"

text \<open>
  What the kernel promises: trees keep their order; a file that the driver holds open has contents
  \<open>fc\<close>, which reads return, or fail; a page that is mapped is mapped; there is memory for the table
  of buckets. The files of \<open>F\<close> hold pages under their digests, as \<open>M\<close> says.
\<close>

definition knl_ok :: "'w knl \<Rightarrow> (nat \<Rightarrow> bytes) \<Rightarrow> bool" where
  "knl_ok K fc \<longleftrightarrow> rb_ok K \<and>
     (\<forall>f n off w. fst (kn_read K f n off w) = None \<or> fst (kn_read K f n off w) = Some (take n (drop (unat off) (fc f)))) \<and>
     (\<forall>a p w. fst (kn_insert_page K a p w) = FaultNoPage) \<and> (\<forall>w. fst (kn_kvmalloc K w))"

definition files_ok :: "(nat \<Rightarrow> bytes) \<Rightarrow> nat set \<Rightarrow> (u64 \<Rightarrow> bytes option) \<Rightarrow> bool" where
  "files_ok fc F M \<longleftrightarrow> (\<forall>f \<in> F. \<forall>hash d. hash \<noteq> 0 \<longrightarrow> store_lookup (fc f) hash = Some d \<longrightarrow> M hash = Some d)"

section \<open>Loading a page\<close>

lemma fault_probe_spec:
  assumes K: "knl_ok K fc" and i: "i < 4096" and r: "fault_probe K f HASH_MODULUS_DEFAULT hash n (of_nat i) w = (Inr d, w')"
  shows "length d = PAGE_SIZE \<and> (hash \<noteq> 0 \<longrightarrow> (\<exists>j. probe_find (fc f) hash n i = Some j \<and> slot_page (fc f) j = d))"
  using i r
proof (induction n arbitrary: i w)
  case (Suc n)
  obtain r1 w1 where r1: "kn_read K f HEADER_SIZE (of_nat i * of_nat SLOT_SIZE) w = (r1, w1)" by force
  with Suc.prems(2) obtain h where h: "r1 = Some h" "length h = HEADER_SIZE"
    by (auto split: option.splits if_splits)
  with K r1 have hd: "h = take HEADER_SIZE (drop (i * SLOT_SIZE) (fc f))"
    using slot_offset(1) [OF Suc.prems(1)] unfolding knl_ok_def by (metis fst_conv option.distinct(1) option.inject)
  with h have sh: "slot_hash (fc f) i = from_le_bytes h" by (subst header_read) simp
  show ?case
  proof (cases "from_le_bytes h = hash")
    case True
    obtain r2 w2 where r2: "kn_read K f PAGE_SIZE (of_nat i * of_nat SLOT_SIZE + of_nat HEADER_SIZE) w1 = (r2, w2)" by force
    with Suc.prems(2) r1 h True have d: "r2 = Some d" "length d = PAGE_SIZE"
      by (auto split: option.splits if_splits)
    with K r2 have "d = take PAGE_SIZE (drop (i * SLOT_SIZE + 8) (fc f))"
      using slot_offset(2) [OF Suc.prems(1)] unfolding knl_ok_def by (metis fst_conv option.distinct(1) option.inject)
    then have "slot_page (fc f) i = d"
      by (simp add: slot_page_def slot_def HEADER_SIZE_def SLOT_SIZE_def drop_take add.commute)
    with d True sh show ?thesis by simp
  next
    case False
    with Suc.prems(2) r1 h have nz: "(from_le_bytes h :: u64) \<noteq> 0"
      and nx: "fault_probe K f HASH_MODULUS_DEFAULT hash n ((of_nat i + 1) mod HASH_MODULUS_DEFAULT) w1 = (Inr d, w')"
      by (auto split: if_splits)
    have m: "(of_nat i + 1) mod HASH_MODULUS_DEFAULT = (of_nat (Suc i mod 4096) :: u64)"
      using next_index [OF Suc.prems(1)] by (simp add: HASH_MODULUS_DEFAULT_def HASH_MODULUS_def)
    from Suc.IH [of "Suc i mod 4096" w1] nx False nz sh show ?thesis unfolding m by simp
  qed
qed simp

lemma fault_load_ok:
  assumes K: "knl_ok K fc" "files_ok fc F M" and F: "tm_file tm \<in> F" and ok: "pool_ok M n s own (\<lambda>_. 0)" and n: "Suc n < 2 ^ 32"
    and cfg: "drv_modulus s = HASH_MODULUS_DEFAULT" "drv_max_probe s = MAX_PROBE_COUNT_DEFAULT"
  obtains (failed) f s' where "fault_load K tm hash s = Some (Inr (Inl f), s')" and "same_rest s s'"
      and "pool_ok M n s' own (\<lambda>_. 0)" and "drv_entries s' = drv_entries s"
  | (loaded) e pe s' where "fault_load K tm hash s = Some (Inr (Inr e), s')" and "same_rest s s'"
      and "drv_entries s' e = Some pe" and "pe_hash pe = hash"
      and "pool_ok M (Suc n) s' (own(e := Suc (own e))) ((\<lambda>_. 0)(e := 1))"
proof (rule lookup_cases [OF ok n, of hash])
  fix e pe s'
  assume "snapshot_pool_lookup hash s = Some (Inr (Some e), s')" and "drv_entries s' e = Some pe"
    and "pe_hash pe = hash" and "same_rest s s'"
    and "pool_ok M (Suc n) s' (own(e := Suc (own e))) ((\<lambda>_. 0)(e := Suc 0))"
  then show thesis using loaded by (simp add: fault_load_def)
next
  assume l: "snapshot_pool_lookup hash s = Some (Inr None, s)"
  obtain ok1 w1 where k: "kmalloc K s = Some (Inr ok1, s\<lparr>drv_world := w1\<rparr>)" using kmalloc_run [of K s] by (elim exE)
  obtain r w2 where p: "fault_probe K (tm_file tm) (drv_modulus s) hash (unat (drv_max_probe s)) (hash mod drv_modulus s) w1 = (r, w2)"
    by force
  show thesis
  proof (cases "ok1 \<and> (\<exists>d. r = Inr d)")
    case False
    then show thesis using l k p ok failed by (cases ok1; cases r) (auto simp: fault_load_def same_rest_def)
  next
    case True
    then obtain d where d: "r = Inr d" by blast
    have home: "hash mod HASH_MODULUS_DEFAULT = of_nat (home_slot hash)"
      using home_slot_index [of hash] by (simp add: HASH_MODULUS_DEFAULT_def HASH_MODULUS_def)
    have "unat MAX_PROBE_COUNT_DEFAULT = 64" by (simp add: MAX_PROBE_COUNT_DEFAULT_def)
    with p d cfg home fault_probe_spec [OF K(1) home_slot_lt, of "tm_file tm" hash 64 hash w1 d w2]
    have sp: "length d = PAGE_SIZE" "hash \<noteq> 0 \<longrightarrow> store_lookup (fc (tm_file tm)) hash = Some d"
      by (auto simp: store_lookup_def)
    with K(2) F have M: "hash \<noteq> 0 \<longrightarrow> M hash = Some d" by (auto simp: files_ok_def)
    have ok2: "pool_ok M n (s\<lparr>drv_world := w2\<rparr>) own (\<lambda>_. 0)" using ok by simp
    show thesis
    proof (rule pool_add_cases [OF ok2 n sp(1) M, of K])
      fix w
      assume "snapshot_pool_add K hash d (s\<lparr>drv_world := w2\<rparr>) = Some (Inr None, s\<lparr>drv_world := w2\<rparr>\<lparr>drv_world := w\<rparr>)"
      then show thesis using l k p d True failed ok by (simp add: fault_load_def same_rest_def)
    next
      fix e pe s' g'
      assume a: "snapshot_pool_add K hash d (s\<lparr>drv_world := w2\<rparr>) = Some (Inr (Some e), s')"
        "drv_entries s' e = Some pe" "pe_hash pe = hash" "same_rest (s\<lparr>drv_world := w2\<rparr>) s'"
        "pool_ok M (Suc n) s' (own(e := Suc (own e))) g'" "g' e = Suc 0 \<or> g' e = 1" "\<And>x. x \<noteq> e \<Longrightarrow> g' x = 0"
      then have "g' = (\<lambda>_. 0)(e := 1)" by auto
      with a l k p d True show thesis
        using loaded [of e s' pe] by (simp add: fault_load_def same_rest_def)
    qed
  qed
qed

section \<open>Mapping a page\<close>

lemma va_link_mset: "va_link t new = Some t' \<Longrightarrow> mset (inorder t') = add_mset new (mset (inorder t))"
  by (induction t arbitrary: t') (auto split: if_splits)

lemma va_insert_mset:
  assumes "rb_ok K"
  shows "mset (inorder (va_insert K t new)) = mset (inorder t) \<or>
    mset (inorder (va_insert K t new)) = add_mset new (mset (inorder t))"
  using assms va_link_mset by (auto simp: va_insert_def rb_ok_def split: option.splits)

lemma track_ok:
  assumes K: "rb_ok K" and V: "drv_vdata s vd = Some x"
  shows "\<exists>s' x'. track K vd off e s = Some (Inr (), s') \<and>
    s' = s\<lparr>drv_world := drv_world s', drv_vdata := (drv_vdata s)(vd \<mapsto> x')\<rparr> \<and> vd_template x' = vd_template x \<and>
    (mset (map ve_phys (inorder (vd_map x'))) = mset (map ve_phys (inorder (vd_map x))) \<or>
     mset (map ve_phys (inorder (vd_map x'))) = add_mset e (mset (map ve_phys (inorder (vd_map x)))))"
proof -
  obtain ok1 w where k: "kmalloc K s = Some (Inr ok1, s\<lparr>drv_world := w\<rparr>)" using kmalloc_run [of K s] by (elim exE)
  show ?thesis
  proof (cases ok1)
    case False
    with k V show ?thesis
      by (intro exI [of _ "s\<lparr>drv_world := w\<rparr>"] exI [of _ x]) (simp add: track_def fun_upd_idem)
  next
    case True
    let ?x = "x\<lparr>vd_map := va_insert K (vd_map x) \<lparr>ve_offset = off, ve_phys = e\<rparr>\<rparr>"
    from va_insert_mset [OF K, of "vd_map x" "\<lparr>ve_offset = off, ve_phys = e\<rparr>"]
    have "mset (map ve_phys (inorder (vd_map ?x))) = mset (map ve_phys (inorder (vd_map x))) \<or>
     mset (map ve_phys (inorder (vd_map ?x))) = add_mset e (mset (map ve_phys (inorder (vd_map x))))"
      by auto
    with k V True show ?thesis
      by (intro exI [of _ "s\<lparr>drv_world := w, drv_vdata := (drv_vdata s)(vd \<mapsto> ?x)\<rparr>"] exI [of _ ?x])
        (simp add: track_def deref_def)
  qed
qed

lemma fault_map_ok:
  assumes K: "knl_ok K fc" and V: "drv_vdata s vd = Some x" and e: "drv_entries s e = Some pe"
    and ok: "pool_ok M n s own ((\<lambda>_. 0)(e := 1))"
  shows "\<exists>s' x' d c. fault_map K vd addr off e s = Some (Inr (FaultNoPage, Some (pe_page pe)), s') \<and>
    same_rest (s\<lparr>drv_vdata := (drv_vdata s)(vd \<mapsto> x')\<rparr>) s' \<and> vd_template x' = vd_template x \<and>
    (mset (map ve_phys (inorder (vd_map x'))) = mset (map ve_phys (inorder (vd_map x))) \<or>
     mset (map ve_phys (inorder (vd_map x'))) = add_mset e (mset (map ve_phys (inorder (vd_map x))))) \<and>
    pool_ok M n s' own (\<lambda>_. 0) \<and> drv_frames s' (pe_page pe) = Some (d, c) \<and>
    (pe_hash pe \<noteq> 0 \<longrightarrow> M (pe_hash pe) = Some d)"
proof -
  from K have rb: "rb_ok K" by (simp add: knl_ok_def)
  from track_ok [OF rb V, of off e] obtain s1 x' where 1: "track K vd off e s = Some (Inr (), s1)"
    "s1 = s\<lparr>drv_world := drv_world s1, drv_vdata := (drv_vdata s)(vd \<mapsto> x')\<rparr>"
    "vd_template x' = vd_template x" "mset (map ve_phys (inorder (vd_map x'))) = mset (map ve_phys (inorder (vd_map x))) \<or>
     mset (map ve_phys (inorder (vd_map x'))) = add_mset e (mset (map ve_phys (inorder (vd_map x))))" by blast
  have ok1: "pool_ok M n s1 own ((\<lambda>_. 0)(e := 1))" using ok by (subst 1(2)) simp
  have e1: "drv_entries s1 e = Some pe" using e by (subst 1(2)) simp
  from get_page_ok [OF ok1 e1] obtain s2 d c where 2: "get_page (pe_page pe) s1 = Some (Inr (), s2)"
    "same_rest s1 s2" "pool_ok M n s2 own ((\<lambda>_. 0)(e := 1, e := 1 - 1))" "drv_frames s2 (pe_page pe) = Some (d, c)"
    "pe_hash pe \<noteq> 0 \<longrightarrow> M (pe_hash pe) = Some d" by auto
  obtain w where i: "kn_insert_page K addr (pe_page pe) (drv_world s2) = (FaultNoPage, w)"
    using K by (metis knl_ok_def prod.exhaust_sel)
  have "((\<lambda>_. 0)(e := 1, e := 1 - 1)) = (\<lambda>_. 0 :: nat)" by auto
  with 2 have ok2: "pool_ok M n s2 own (\<lambda>_. 0)" by simp
  have "same_rest (s\<lparr>drv_vdata := (drv_vdata s)(vd \<mapsto> x')\<rparr>) s1" by (subst 1(2)) (simp add: same_rest_def)
  with 2(2) have "same_rest (s\<lparr>drv_vdata := (drv_vdata s)(vd \<mapsto> x')\<rparr>) (s2\<lparr>drv_world := w\<rparr>)"
    by (simp add: same_rest_def)
  moreover have "fault_map K vd addr off e s = Some (Inr (FaultNoPage, Some (pe_page pe)), s2\<lparr>drv_world := w\<rparr>)"
    using 1(1) 2(1) e1 i by (simp add: fault_map_def deref_def Let_def)
  ultimately show ?thesis using 1(3,4) ok2 2(4,5)
    by (intro exI [of _ "s2\<lparr>drv_world := w\<rparr>"] exI [of _ x'] exI [of _ d] exI [of _ c]) simp
qed

section \<open>Faults keep the invariant\<close>

lemma tmpl_ok_mono: "tmpl_ok n L T lv \<Longrightarrow> n \<le> m \<Longrightarrow> tmpl_ok m L T lv"
  unfolding tmpl_ok_def by (meson le_trans mult_le_mono2)

lemma conch_inv_mono: "conch_inv M n s vs \<Longrightarrow> n \<le> m \<Longrightarrow> conch_inv M m s vs"
  unfolding conch_inv_def by (auto intro: tmpl_ok_mono pool_ok_weaken)

lemma conch_invD:
  assumes inv: "conch_inv M n s vs" and v: "v \<in> set vs"
  obtains p x tm where "vm_private v = Some p" and "drv_vdata s p = Some x" and "drv_templates s (vd_template x) = Some tm"
    and "2 \<le> unat (tm_ref tm)" and "unat (tm_ref tm) \<le> 2 * n" and "length (tm_table tm) = unat (tm_page_count tm)"
proof -
  from inv v obtain p x where p: "vm_private v = Some p" "drv_vdata s p = Some x" "vd_template x \<in> set (template_list s)"
    unfolding conch_inv_def vmas_ok_def by blast
  then obtain tm where tm: "drv_templates s (vd_template x) = Some tm"
    using inv unfolding conch_inv_def tmpl_ok_def by blast
  have "vm_template (drv_vdata s) v = Some (vd_template x)" using p by (simp add: vm_template_def)
  then have "Some (vd_template x) \<in># mset (map (vm_template (drv_vdata s)) vs)" using v by force
  then have "1 \<le> live (drv_vdata s) vs (vd_template x)" by (simp add: live_def Suc_leI count_greater_zero_iff)
  moreover have "2 * live (drv_vdata s) vs (vd_template x) \<le> unat (tm_ref tm) \<and> unat (tm_ref tm) \<le> 2 * n \<and>
      length (tm_table tm) = unat (tm_page_count tm)"
    using inv tm unfolding conch_inv_def tmpl_ok_def by blast
  ultimately show thesis using that p tm by auto
qed

text \<open>Replacing the data of one mapping by data with the same template and other references.\<close>

lemma conch_inv_data:
  assumes inv: "conch_inv M n s vs" and i: "i < length vs" and p: "vm_private (vs ! i) = Some p"
    and x: "drv_vdata s p = Some x" "vd_template x' = vd_template x"
    and s': "same_rest (s\<lparr>drv_vdata := (drv_vdata s)(p \<mapsto> x')\<rparr>) s'"
    and ok: "pool_ok M m s' own (\<lambda>_. 0)" "n \<le> m"
    and own: "\<And>e. count (mset (map ve_phys (inorder (vd_map x')))) e + owed (drv_vdata s) vs e \<le>
      own e + count (mset (map ve_phys (inorder (vd_map x)))) e"
  shows "conch_inv M m s' vs"
proof -
  from inv have d: "distinct (map vm_private vs)" by (simp add: conch_inv_def vmas_ok_def)
  from split_at [OF i d] obtain xs ys where vs: "vs = xs @ vs ! i # ys" and o: "Some p \<notin> vm_private ` set (xs @ ys)"
    using p by metis
  let ?V = "(drv_vdata s)(p \<mapsto> x')"
  from s' have S: "template_list s' = template_list s" "drv_templates s' = drv_templates s" "drv_vdata s' = ?V"
    "drv_modulus s' = drv_modulus s" "drv_max_probe s' = drv_max_probe s" "drv_fresh s \<le> drv_fresh s'"
    by (simp_all add: same_rest_def)
  have r: "vm_refs ?V (vs ! i) = map ve_phys (inorder (vd_map x'))"
    "vm_refs (drv_vdata s) (vs ! i) = map ve_phys (inorder (vd_map x))"
    "vm_template ?V (vs ! i) = vm_template (drv_vdata s) (vs ! i)"
    using p x by (simp_all add: vm_refs_def vm_template_def)
  have "owed ?V vs e \<le> own e" for e
    using own [of e] o by (subst vs, subst (asm) vs) (simp add: owed_at owed_other r del: set_append mset_map)
  then have "pool_ok M m s' (owed ?V vs) (\<lambda>_. 0)" using ok(1) by (rule pool_ok_weaken [rotated 2]) simp
  moreover have "live ?V vs = live (drv_vdata s) vs"
    using o by (intro ext, subst vs, subst (2) vs) (simp add: live_at live_other r del: set_append)
  moreover have "vmas_ok ?V (template_list s) vs"
    using inv x unfolding conch_inv_def vmas_ok_def by (metis fun_upd_apply option.inject)
  moreover have "pinned s'"
  proof -
    from conch_invD [OF inv nth_mem [OF i]] obtain t tm where "drv_templates s t = Some tm" "2 \<le> unat (tm_ref tm)" by blast
    then show ?thesis unfolding pinned_def S by (intro impI exI [of _ t] exI [of _ tm]) simp
  qed
  moreover have "drv_vdata s p \<noteq> None" using x by simp
  then have "p < drv_fresh s" using inv unfolding conch_inv_def by (meson not_le)
  then have "\<forall>q. drv_fresh s' \<le> q \<longrightarrow> drv_templates s' q = None \<and> drv_vdata s' q = None"
    using inv S unfolding conch_inv_def by auto
  ultimately show ?thesis using inv S tmpl_ok_mono [OF _ ok(2)] unfolding conch_inv_def by simp
qed

lemma fault_ok:
  assumes K: "knl_ok K fc" "files_ok fc F M" and F: "tm_file ` ran (drv_templates s) \<subseteq> F"
    and inv: "conch_inv M n s vs" and n: "Suc n < 2 ^ 30" and i: "i < length vs"
  shows "\<exists>r q s'. snapshot_vma_fault K (vs ! i) addr s = Some (Inr (r, q), s') \<and> conch_inv M (Suc n) s' vs \<and>
    drv_templates s' = drv_templates s \<and>
    (\<forall>f. q = Some f \<longrightarrow> (\<exists>p x tm d c. vm_private (vs ! i) = Some p \<and> drv_vdata s p = Some x \<and>
       drv_templates s (vd_template x) = Some tm \<and> drv_frames s' f = Some (d, c) \<and>
       (let hash = hash_idx (tm_table tm ! (unat (addr - vm_start (vs ! i)) div PAGE_SIZE))
        in hash \<noteq> 0 \<longrightarrow> M hash = Some d)))"
proof -
  from conch_invD [OF inv nth_mem [OF i]] obtain p x tm where p: "vm_private (vs ! i) = Some p" "drv_vdata s p = Some x"
    "drv_templates s (vd_template x) = Some tm" "length (tm_table tm) = unat (tm_page_count tm)" by metis
  define off where "off = addr - vm_start (vs ! i)"
  define ix where "ix = off div of_nat PAGE_SIZE"
  have ix: "unat ix = unat off div PAGE_SIZE" by (simp add: ix_def unat_div_word PAGE_SIZE_def)
  show ?thesis
  proof (cases "tm_page_count tm \<le> ix")
    case True
    with p conch_inv_mono [OF inv, of "Suc n"] show ?thesis
      by (simp add: snapshot_vma_fault_def deref_def Let_def off_def [symmetric] ix_def [symmetric])
  next
    case False
    then have lt: "unat ix < length (tm_table tm)" using p(4) by (simp add: word_le_nat_alt)
    define hash where "hash = hash_idx (tm_table tm ! unat ix)"
    from inv have ok: "pool_ok M n s (owed (drv_vdata s) vs) (\<lambda>_. 0)"
      and cfg: "drv_modulus s = HASH_MODULUS_DEFAULT" "drv_max_probe s = MAX_PROBE_COUNT_DEFAULT"
      by (simp_all add: conch_inv_def)
    have run: "snapshot_vma_fault K (vs ! i) addr s = run_bind (fault_load K tm hash s) (\<lambda>r s.
        case r of Inl f \<Rightarrow> run_ret (f, None) s | Inr e \<Rightarrow> fault_map K p addr off e s)"
      using p lt False by (simp add: snapshot_vma_fault_def deref_def index_def Let_def hash_def off_def [symmetric] ix_def [symmetric])
    from n have n': "Suc n < 2 ^ 32" by simp
    have f: "tm_file tm \<in> F" using F p(3) by (auto simp: ran_def)
    show ?thesis
    proof (rule fault_load_ok [OF K f ok n' cfg, of hash])
      fix f s'
      assume a: "fault_load K tm hash s = Some (Inr (Inl f), s')" "same_rest s s'"
        "pool_ok M n s' (owed (drv_vdata s) vs) (\<lambda>_. 0)"
      have "same_rest (s\<lparr>drv_vdata := (drv_vdata s)(p \<mapsto> x)\<rparr>) s'" using a(2) p(2) by (simp add: same_rest_def fun_upd_idem)
      from conch_inv_data [OF inv i p(1,2) refl this a(3)] have "conch_inv M n s' vs" by simp
      with conch_inv_mono [of M n s' vs "Suc n"] run a(1,2) show ?thesis by (simp add: same_rest_def)
    next
      fix e pe s1
      assume a: "fault_load K tm hash s = Some (Inr (Inr e), s1)" "same_rest s s1" "drv_entries s1 e = Some pe" "pe_hash pe = hash"
        "pool_ok M (Suc n) s1 ((owed (drv_vdata s) vs)(e := Suc (owed (drv_vdata s) vs e))) ((\<lambda>_. 0)(e := 1))"
      have "drv_vdata s1 p = Some x" using a(2) p(2) by (simp add: same_rest_def)
      from fault_map_ok [OF K(1) this a(3,5), of addr off] obtain s2 x' d c where b:
        "fault_map K p addr off e s1 = Some (Inr (FaultNoPage, Some (pe_page pe)), s2)"
        "same_rest (s1\<lparr>drv_vdata := (drv_vdata s1)(p \<mapsto> x')\<rparr>) s2" "vd_template x' = vd_template x"
        "mset (map ve_phys (inorder (vd_map x'))) = mset (map ve_phys (inorder (vd_map x))) \<or>
         mset (map ve_phys (inorder (vd_map x'))) = add_mset e (mset (map ve_phys (inorder (vd_map x))))"
        "pool_ok M (Suc n) s2 ((owed (drv_vdata s) vs)(e := Suc (owed (drv_vdata s) vs e))) (\<lambda>_. 0)"
        "drv_frames s2 (pe_page pe) = Some (d, c)" "pe_hash pe \<noteq> 0 \<longrightarrow> M (pe_hash pe) = Some d" by blast
      have "same_rest (s\<lparr>drv_vdata := (drv_vdata s)(p \<mapsto> x')\<rparr>) s2" using a(2) b(2) by (simp add: same_rest_def)
      moreover have "count (mset (map ve_phys (inorder (vd_map x')))) y + owed (drv_vdata s) vs y \<le>
        ((owed (drv_vdata s) vs)(e := Suc (owed (drv_vdata s) vs e))) y + count (mset (map ve_phys (inorder (vd_map x)))) y" for y
        using b(4) by (elim disjE) (simp_all del: mset_map)
      ultimately have "conch_inv M (Suc n) s2 vs"
        using conch_inv_data [OF inv i p(1,2) b(3) _ b(5)] by simp
      moreover have "drv_templates s2 = drv_templates s" using a(2) b(2) by (simp add: same_rest_def)
      ultimately show ?thesis
        using run a(1,4) b(1,6,7) p by (auto simp: Let_def hash_def off_def [symmetric] ix [symmetric])
    qed
  qed
qed

section \<open>Unmapping keeps the invariant\<close>

lemma conch_inv_world [simp]: "conch_inv M n (s\<lparr>drv_world := w\<rparr>) vs = conch_inv M n s vs"
  by (simp add: conch_inv_def pinned_def)

lemma conch_inv_fresh: "conch_inv M n s vs \<Longrightarrow> drv_fresh s \<le> f \<Longrightarrow> conch_inv M n (s\<lparr>drv_fresh := f\<rparr>) vs"
  by (auto simp: conch_inv_def pinned_def pool_ok_def pool_inv_def)

lemma tmpl_ok_upd:
  assumes T: "tmpl_ok n L T lv" and t: "T t = Some tm" and m: "n \<le> m"
    and tm': "2 * lv' t \<le> unat (tm_ref tm')" "unat (tm_ref tm') \<le> 2 * m"
      "tm_table tm' = tm_table tm" "tm_page_count tm' = tm_page_count tm"
    and lv: "\<And>x. x \<noteq> t \<Longrightarrow> lv' x \<le> lv x"
  shows "tmpl_ok m L (T(t \<mapsto> tm')) lv'"
  unfolding tmpl_ok_def
proof (intro conjI allI impI)
  show "distinct L" and "(x \<in> set L) = ((T(t \<mapsto> tm')) x \<noteq> None)" for x using T t by (auto simp: tmpl_ok_def)
  fix x tx assume tx: "(T(t \<mapsto> tm')) x = Some tx"
  have "2 * lv' x \<le> unat (tm_ref tx) \<and> unat (tm_ref tx) \<le> 2 * m \<and> length (tm_table tx) = unat (tm_page_count tx)"
  proof (cases "x = t")
    case True
    with T t tm' tx show ?thesis by (auto simp: tmpl_ok_def)
  next
    case False
    with T tx have "2 * lv x \<le> unat (tm_ref tx) \<and> unat (tm_ref tx) \<le> 2 * n \<and> length (tm_table tx) = unat (tm_page_count tx)"
      by (auto simp: tmpl_ok_def)
    with lv [OF False] m show ?thesis by linarith
  qed
  then show "2 * lv' x \<le> unat (tm_ref tx)" "unat (tm_ref tx) \<le> 2 * m" "length (tm_table tx) = unat (tm_page_count tx)"
    by simp_all
qed

lemma unref_shared:
  assumes "drv_templates s t = Some tm" and "2 \<le> unat (tm_ref tm)"
  shows "snapshot_template_unref K t s =
    Some (Inr (), s\<lparr>drv_templates := (drv_templates s)(t \<mapsto> tm\<lparr>tm_ref := tm_ref tm - 1\<rparr>)\<rparr>)"
proof -
  have "unat (tm_ref tm - 1) \<noteq> 0" using assms(2) by (simp add: unat_minus_one)
  then have "tm_ref tm - 1 \<noteq> 0" by (auto simp: unat_eq_0)
  with assms(1) show ?thesis by (simp add: snapshot_template_unref_def deref_def Let_def)
qed

lemma close_ok:
  assumes K: "knl_ok K fc" and inv: "conch_inv M n s vs" and i: "i < length vs"
  shows "\<exists>t tm s'. snapshot_vma_close K (vs ! i) s = Some (Inr (), s') \<and>
    conch_inv M n s' (take i vs @ drop (Suc i) vs) \<and>
    vm_template (drv_vdata s) (vs ! i) = Some t \<and> drv_templates s t = Some tm \<and>
    drv_templates s' = (drv_templates s)(t \<mapsto> tm\<lparr>tm_ref := tm_ref tm - 1\<rparr>) \<and> 2 \<le> unat (tm_ref tm) \<and>
    (\<exists>p. vm_private (vs ! i) = Some p \<and> drv_vdata s' p = None)"
proof -
  from conch_invD [OF inv nth_mem [OF i]] obtain p x tm where p: "vm_private (vs ! i) = Some p" "drv_vdata s p = Some x"
    "drv_templates s (vd_template x) = Some tm" "2 \<le> unat (tm_ref tm)" "unat (tm_ref tm) \<le> 2 * n"
    "length (tm_table tm) = unat (tm_page_count tm)" by metis
  let ?t = "vd_template x"
  from inv have d: "distinct (map vm_private vs)" by (simp add: conch_inv_def vmas_ok_def)
  from split_at [OF i d] obtain xs ys where vs: "vs = xs @ vs ! i # ys" "xs = take i vs" "ys = drop (Suc i) vs"
    and o: "Some p \<notin> vm_private ` set (xs @ ys)" using p by metis
  have refs: "vm_refs (drv_vdata s) (vs ! i) = map ve_phys (inorder (vd_map x))"
    "vm_template (drv_vdata s) (vs ! i) = Some ?t" using p by (simp_all add: vm_refs_def vm_template_def)
  have ow: "owed (drv_vdata s) vs e = count (mset (map ve_phys (inorder (vd_map x)))) e + owed (drv_vdata s) (xs @ ys) e" for e
    by (subst vs) (simp add: owed_at refs del: mset_map)
  have lv: "live (drv_vdata s) vs t = (if t = ?t then 1 else 0) + live (drv_vdata s) (xs @ ys) t" for t
    by (subst vs) (simp add: live_at refs)
  from inv have "pool_ok M n s (owed (drv_vdata s) vs) (\<lambda>_. 0)" by (simp add: conch_inv_def)
  from unmap_all_ok [OF _ this, of K "vd_map x"] K ow obtain s1 where
    1: "unmap_all K (vd_map x) s = Some (Inr (), s1)" "same_rest s s1"
    "pool_ok M n s1 (\<lambda>e. owed (drv_vdata s) vs e - count (mset (map ve_phys (inorder (vd_map x)))) e) (\<lambda>_. 0)"
    by (auto simp: knl_ok_def simp del: mset_map)
  have own: "(\<lambda>e. owed (drv_vdata s) vs e - count (mset (map ve_phys (inorder (vd_map x)))) e) = owed (drv_vdata s) (xs @ ys)"
    by (simp add: ow del: mset_map)
  let ?V = "(drv_vdata s)(p := None)" and ?tm = "tm\<lparr>tm_ref := tm_ref tm - 1\<rparr>"
  let ?T = "(drv_templates s)(?t \<mapsto> ?tm)"
  let ?s = "s1\<lparr>drv_vdata := ?V, drv_templates := ?T\<rparr>"
  from 1(2) have S: "template_list s1 = template_list s" "drv_templates s1 = drv_templates s" "drv_vdata s1 = drv_vdata s"
    "drv_modulus s1 = drv_modulus s" "drv_max_probe s1 = drv_max_probe s" "drv_fresh s \<le> drv_fresh s1"
    by (simp_all add: same_rest_def)
  have run: "snapshot_vma_close K (vs ! i) s = Some (Inr (), ?s)"
    using p 1(1) S unref_shared [of "s1\<lparr>drv_vdata := ?V\<rparr>" ?t tm K]
    by (simp add: snapshot_vma_close_def deref_def)
  have r1: "unat (tm_ref tm - 1) = unat (tm_ref tm) - 1" using p(4) by (intro unat_minus_one) simp
  have V: "owed ?V (xs @ ys) = owed (drv_vdata s) (xs @ ys)" "live ?V (xs @ ys) = live (drv_vdata s) (xs @ ys)"
    using o by (auto simp: owed_other live_other simp del: set_append)
  from inv have T: "tmpl_ok n (template_list s) (drv_templates s) (live (drv_vdata s) vs)" by (simp add: conch_inv_def)
  then have "2 * live (drv_vdata s) vs ?t \<le> unat (tm_ref tm)" using p(3) by (auto simp: tmpl_ok_def)
  then have "tmpl_ok n (template_list s) ?T (live ?V (xs @ ys))"
    using lv r1 V p(5) by (intro tmpl_ok_upd [OF T p(3) order_refl]) (auto simp: lv)
  moreover have "vd_template x < drv_fresh s"
    using inv p(3) unfolding conch_inv_def by (metis not_le option.distinct(1))
  moreover have "vmas_ok ?V (template_list s) (xs @ ys)"
  proof -
    from inv have "vmas_ok (drv_vdata s) (template_list s) vs" by (simp add: conch_inv_def)
    then have "vmas_ok (drv_vdata s) (template_list s) (xs @ vs ! i # ys)" using vs(1) by simp
    with o show ?thesis unfolding vmas_ok_def by (auto simp: image_iff) (metis UnI1 UnI2 fun_upd_other option.inject)+
  qed
  moreover have "pinned ?s"
    unfolding pinned_def using p(4) r1 by (intro impI exI [of _ ?t] exI [of _ ?tm]) simp
  moreover have "pool_ok M n ?s (owed ?V (xs @ ys)) (\<lambda>_. 0)" using 1(3) own V by (simp add: pool_ok_def)
  ultimately have "conch_inv M n ?s (xs @ ys)"
    using inv S unfolding conch_inv_def by auto
  with run refs p vs S show ?thesis
    by (intro exI [of _ ?t] exI [of _ tm] exI [of _ ?s]) simp
qed

section \<open>Mapping and the requests keep the invariant\<close>

lemma find_template_spec:
  assumes "\<forall>t \<in> set l. T t \<noteq> None"
  shows "\<exists>r. find_template T i l = Inr r \<and> (\<forall>t. r = Some t \<longrightarrow> t \<in> set l)"
  using assms
proof (induction l)
  case (Cons t l)
  then obtain tm where "T t = Some tm" by auto
  with Cons show ?case by (auto simp: deref_def)
qed simp

lemma template_find_ok:
  assumes "conch_inv M n s vs"
  obtains (absent) "snapshot_template_find i s = Some (Inr None, s)"
  | (found) t tm where "snapshot_template_find i s = Some (Inr (Some t), s)" and "t \<in> set (template_list s)"
      and "drv_templates s t = Some tm" and "2 * live (drv_vdata s) vs t \<le> unat (tm_ref tm)"
      and "unat (tm_ref tm) \<le> 2 * n"
proof -
  from assms have T: "tmpl_ok n (template_list s) (drv_templates s) (live (drv_vdata s) vs)" by (simp add: conch_inv_def)
  then have "\<forall>t \<in> set (template_list s). drv_templates s t \<noteq> None" by (auto simp: tmpl_ok_def)
  from find_template_spec [OF this, of i] obtain r where r: "find_template (drv_templates s) i (template_list s) = Inr r"
    and m: "\<And>t. r = Some t \<Longrightarrow> t \<in> set (template_list s)" by blast
  show thesis
  proof (cases r)
    case None
    with r absent show thesis by (simp add: snapshot_template_find_def)
  next
    case (Some t)
    with m T obtain tm where "drv_templates s t = Some tm" by (auto simp: tmpl_ok_def)
    with Some r m T found [of t tm] show thesis by (auto simp: snapshot_template_find_def tmpl_ok_def)
  qed
qed

text \<open>
  A template that is referenced stays, and stays referenced; every template has its pages in a file
  of \<open>F\<close>, or in one where a template had them before.
\<close>

definition refs_stay ::
  "nat set \<Rightarrow> (nat \<Rightarrow> snapshot_template option) \<Rightarrow> (nat \<Rightarrow> snapshot_template option) \<Rightarrow> bool" where
  "refs_stay F T T' \<longleftrightarrow> (\<forall>t tm. T t = Some tm \<longrightarrow> 0 < unat (tm_ref tm) \<longrightarrow>
     (\<exists>tm'. T' t = Some tm' \<and> 0 < unat (tm_ref tm'))) \<and> tm_file ` ran T' \<subseteq> F \<union> tm_file ` ran T"

lemma refs_stay_refl [simp]: "refs_stay F T T"
  by (simp add: refs_stay_def)

lemma refs_stay_trans: "refs_stay F T U \<Longrightarrow> refs_stay F U W \<Longrightarrow> refs_stay F T W"
  unfolding refs_stay_def by (intro conjI; meson Un_iff subset_iff)

lemma refs_stay_upd:
  "T t = Some tm \<Longrightarrow> 0 < unat (tm_ref tm') \<Longrightarrow> tm_file tm' = tm_file tm \<Longrightarrow> refs_stay F T (T(t \<mapsto> tm'))"
  by (auto simp: refs_stay_def ran_def)

lemma refs_stay_drop: "T t = Some tm \<Longrightarrow> unat (tm_ref tm) = 0 \<Longrightarrow> refs_stay F T (T(t := None))"
  by (auto simp: refs_stay_def ran_def)

text \<open>A template without references can go.\<close>

lemma conch_inv_drop:
  assumes inv: "conch_inv M n s vs" and t: "drv_templates s t = Some tm" and r: "unat (tm_ref tm) = 0"
  shows "conch_inv M n (s\<lparr>template_list := removeAll t (template_list s), drv_world := w,
    drv_templates := (drv_templates s)(t := None)\<rparr>) vs"
proof -
  from inv have T: "tmpl_ok n (template_list s) (drv_templates s) (live (drv_vdata s) vs)"
    and V: "vmas_ok (drv_vdata s) (template_list s) vs" by (simp_all add: conch_inv_def)
  have no: "vd_template x \<noteq> t" if "v \<in> set vs" "vm_private v = Some p" "drv_vdata s p = Some x" for v p x
    using conch_invD [OF inv that(1)] that(2,3) t r by (metis not_numeral_le_zero option.inject)
  have "tmpl_ok n (removeAll t (template_list s)) ((drv_templates s)(t := None)) (live (drv_vdata s) vs)"
    using T by (auto simp: tmpl_ok_def distinct_removeAll)
  moreover have "vmas_ok (drv_vdata s) (removeAll t (template_list s)) vs"
    using V no unfolding vmas_ok_def by (metis DiffI set_removeAll singletonD)
  moreover have "pinned (s\<lparr>template_list := removeAll t (template_list s), drv_world := w,
    drv_templates := (drv_templates s)(t := None)\<rparr>)"
  proof -
    have "\<exists>x tx. ((drv_templates s)(t := None)) x = Some tx \<and> 0 < unat (tm_ref tx)" if "\<exists>e. drv_entries s e \<noteq> None"
    proof -
      from inv that obtain x tx where "drv_templates s x = Some tx" "0 < unat (tm_ref tx)"
        unfolding conch_inv_def pinned_def by blast
      moreover from this t r have "x \<noteq> t" by auto
      ultimately show ?thesis by auto
    qed
    then show ?thesis by (simp add: pinned_def)
  qed
  ultimately show ?thesis using inv unfolding conch_inv_def by (simp add: pool_ok_def)
qed

lemma template_ref_run:
  "drv_templates s t = Some tm \<Longrightarrow>
   template_ref t s = Some (Inr (), s\<lparr>drv_templates := (drv_templates s)(t \<mapsto> tm\<lparr>tm_ref := tm_ref tm + 1\<rparr>)\<rparr>)"
  by (simp add: template_ref_def deref_def)

text \<open>Taking a reference and giving it up again: an idle template does not survive it.\<close>

lemma ref_unref_ok:
  assumes inv: "conch_inv M n s vs" and t: "drv_templates s t = Some tm" "t \<in> set (template_list s)"
  shows "\<exists>s'. snapshot_template_unref K t (s\<lparr>drv_templates := (drv_templates s)(t \<mapsto> tm\<lparr>tm_ref := tm_ref tm + 1\<rparr>), drv_world := w\<rparr>) =
    Some (Inr (), s') \<and> conch_inv M n s' vs \<and> refs_stay F (drv_templates s) (drv_templates s')"
proof (cases "tm_ref tm = 0")
  case True
  with t conch_inv_drop [OF inv t(1), of "kn_misc_deregister K (tm_name tm) (kn_close K (tm_file tm) w)"]
    refs_stay_drop [of "drv_templates s", OF t(1)] show ?thesis
    by (simp add: snapshot_template_unref_def template_free_def deref_def Let_def)
next
  case False
  have "(drv_templates s)(t \<mapsto> tm) = drv_templates s" using t by auto
  with False t inv show ?thesis
    by (simp add: snapshot_template_unref_def deref_def Let_def)
qed

lemma mmap_attach_ok:
  assumes inv: "conch_inv M n s vs" and n: "Suc n < 2 ^ 30" and t: "drv_templates s t = Some tm" "t \<in> set (template_list s)"
    and r: "2 * live (drv_vdata s) vs t \<le> unat (tm_ref tm)" "unat (tm_ref tm) \<le> 2 * n"
  shows "\<exists>r s'. mmap_attach K t vma (s\<lparr>drv_templates := (drv_templates s)(t \<mapsto> tm\<lparr>tm_ref := tm_ref tm + 1\<rparr>)\<rparr>) = Some (r, s') \<and>
    (case r of Inr vma' \<Rightarrow> conch_inv M (Suc n) s' (vs @ [vma']) \<and> vm_template (drv_vdata s') vma' = Some t \<and>
        (\<exists>tm'. drv_templates s' t = Some tm' \<and> 0 < unat (tm_ref tm'))
     | Inl a \<Rightarrow> a \<noteq> Panic \<and> conch_inv M (Suc n) s' vs) \<and> refs_stay F (drv_templates s) (drv_templates s')"
proof -
  let ?s1 = "s\<lparr>drv_templates := (drv_templates s)(t \<mapsto> tm\<lparr>tm_ref := tm_ref tm + 1\<rparr>)\<rparr>"
  obtain ok w where k: "kmalloc K ?s1 = Some (Inr ok, ?s1\<lparr>drv_world := w\<rparr>)" using kmalloc_run [of K ?s1] by (elim exE)
  show ?thesis
  proof (cases ok)
    case False
    from ref_unref_ok [OF inv t, of K w] obtain s' where u: "snapshot_template_unref K t (?s1\<lparr>drv_world := w\<rparr>) = Some (Inr (), s')"
      "conch_inv M n s' vs" "refs_stay F (drv_templates s) (drv_templates s')" by auto
    with conch_inv_mono [OF u(2), of "Suc n"] k False show ?thesis by (simp add: mmap_attach_def)
  next
    case True
    define vd where "vd = drv_fresh s"
    let ?V = "(drv_vdata s)(vd \<mapsto> \<lparr>vd_template = t, vd_map = Leaf\<rparr>)" and ?tm = "tm\<lparr>tm_ref := tm_ref tm + 2\<rparr>"
    let ?T = "(drv_templates s)(t \<mapsto> ?tm)" and ?vma = "vma\<lparr>vm_private := Some vd\<rparr>"
    let ?s = "s\<lparr>drv_world := w, drv_fresh := Suc vd, drv_vdata := ?V, drv_templates := ?T\<rparr>"
    have run: "mmap_attach K t vma ?s1 = Some (Inr ?vma, ?s)"
      using k True by (simp add: mmap_attach_def template_ref_def deref_def Let_def vd_def ac_simps)
    from inv have f1: "drv_vdata s vd = None"
      and T: "tmpl_ok n (template_list s) (drv_templates s) (live (drv_vdata s) vs)"
      and V: "vmas_ok (drv_vdata s) (template_list s) vs"
      by (simp_all add: conch_inv_def vd_def)
    then have "v \<in> set vs \<Longrightarrow> vm_private v \<noteq> Some vd" for v by (auto simp: vmas_ok_def)
    note fr = f1 this
    have o: "Some vd \<notin> vm_private ` set (vs @ [])" using fr(2) by force
    have new: "vm_refs ?V ?vma = []" "vm_template ?V ?vma = Some t" by (simp_all add: vm_refs_def vm_template_def)
    have ow: "owed ?V (vs @ [?vma]) = owed (drv_vdata s) vs"
      using o owed_at [of ?V vs ?vma "[]"] by (auto simp: new owed_other)
    have lv: "live ?V (vs @ [?vma]) x = (if x = t then 1 else 0) + live (drv_vdata s) vs x" for x
      using o live_at [of ?V vs ?vma "[]" x] by (simp add: new live_other)
    have r2: "unat (tm_ref tm + 2) = unat (tm_ref tm) + 2" using r(2) n by (simp add: unat_word_ariths)
    have "tmpl_ok (Suc n) (template_list s) ?T (live ?V (vs @ [?vma]))"
      using r r2 by (intro tmpl_ok_upd [OF T t(1)]) (auto simp: lv)
    moreover have "vmas_ok ?V (template_list s) (vs @ [?vma])"
      using V fr t(2) unfolding vmas_ok_def by (auto simp: image_iff) (metis fun_upd_other option.inject)+
    moreover have "pinned ?s" unfolding pinned_def using r2 by (intro impI exI [of _ t] exI [of _ ?tm]) simp
    moreover have "pool_ok M (Suc n) ?s (owed ?V (vs @ [?vma])) (\<lambda>_. 0)"
      using inv pool_ok_weaken [of M n s "owed (drv_vdata s) vs" "\<lambda>_. 0" "Suc n" "owed (drv_vdata s) vs"] unfolding ow
      by (auto simp: conch_inv_def vd_def pool_ok_def pool_inv_def)
    ultimately have "conch_inv M (Suc n) ?s (vs @ [?vma])"
      using inv t(1) unfolding conch_inv_def vd_def by (auto intro: Suc_leD)
    with run new(2) r2 refs_stay_upd [of "drv_templates s", OF t(1), of ?tm] show ?thesis
      by (intro exI [of _ "Inr ?vma"] exI [of _ ?s]) simp
  qed
qed

lemma mmap_ok:
  assumes inv: "conch_inv M n s vs" and n: "Suc n < 2 ^ 30"
  shows "\<exists>r s'. snapshot_mmap K name vma s = Some (r, s') \<and>
    (case r of Inr vma' \<Rightarrow> conch_inv M (Suc n) s' (vs @ [vma']) \<and> (\<exists>t tm'. vm_template (drv_vdata s') vma' = Some t \<and>
        drv_templates s' t = Some tm' \<and> 0 < unat (tm_ref tm'))
     | Inl a \<Rightarrow> a \<noteq> Panic \<and> conch_inv M (Suc n) s' vs) \<and> refs_stay F (drv_templates s) (drv_templates s')"
proof (cases "strncmp_eq 9 name ''snapshot_''")
  case False
  with conch_inv_mono [OF inv, of "Suc n"] show ?thesis by (simp add: snapshot_mmap_def)
next
  case True
  define i where "i = take (TEMPLATE_ID_MAX_LEN - Suc 0) (drop 9 name)"
  show ?thesis
  proof (rule template_find_ok [OF inv, of i])
    assume "snapshot_template_find i s = Some (Inr None, s)"
    with True conch_inv_mono [OF inv, of "Suc n"] show ?thesis
      by (simp add: snapshot_mmap_def snapshot_template_find_ref_def Let_def i_def [symmetric])
  next
    fix t tm
    assume f: "snapshot_template_find i s = Some (Inr (Some t), s)" and t: "t \<in> set (template_list s)"
      "drv_templates s t = Some tm" "2 * live (drv_vdata s) vs t \<le> unat (tm_ref tm)" "unat (tm_ref tm) \<le> 2 * n"
    let ?s1 = "s\<lparr>drv_templates := (drv_templates s)(t \<mapsto> tm\<lparr>tm_ref := tm_ref tm + 1\<rparr>)\<rparr>"
    let ?size = "vm_end vma - vm_start vma"
    have run: "snapshot_mmap K name vma s =
      (if ?size mod of_nat PAGE_SIZE \<noteq> 0 \<or> tm_size tm < ?size
       then run_bind (snapshot_template_unref K t ?s1) (\<lambda>_. run_err Einval) else mmap_attach K t vma ?s1)"
      using True f t(2) by (simp add: snapshot_mmap_def snapshot_template_find_ref_def Let_def i_def [symmetric]
          template_ref_run deref_def)
    show ?thesis
    proof (cases "?size mod of_nat PAGE_SIZE \<noteq> 0 \<or> tm_size tm < ?size")
      case True
      from ref_unref_ok [OF inv t(2,1), of K "drv_world s"] obtain s' where
        u: "snapshot_template_unref K t ?s1 = Some (Inr (), s')" "conch_inv M n s' vs"
        "refs_stay F (drv_templates s) (drv_templates s')" by auto
      with run True conch_inv_mono [OF u(2), of "Suc n"] show ?thesis by simp
    next
      case False
      from mmap_attach_ok [where F = F, OF inv n t(2,1,3,4), of K vma] obtain r s' where
        a: "mmap_attach K t vma ?s1 = Some (r, s')" and st: "refs_stay F (drv_templates s) (drv_templates s')"
        and c: "case r of Inr vma' \<Rightarrow> conch_inv M (Suc n) s' (vs @ [vma']) \<and> vm_template (drv_vdata s') vma' = Some t \<and>
            (\<exists>tm'. drv_templates s' t = Some tm' \<and> 0 < unat (tm_ref tm'))
          | Inl a \<Rightarrow> a \<noteq> Panic \<and> conch_inv M (Suc n) s' vs" by (elim exE conjE)
      have "snapshot_mmap K name vma s = Some (r, s')" using run False a by simp
      then show ?thesis using st c by (cases r) auto
    qed
  qed
qed

lemma conch_inv_new_template:
  assumes inv: "conch_inv M n s vs" and t: "t = drv_fresh s" and tm: "tm_ref tm = 0" "length (tm_table tm) = unat (tm_page_count tm)"
  shows "conch_inv M n (s\<lparr>drv_fresh := drv_fresh s + 1, drv_world := w,
    drv_templates := (drv_templates s)(t \<mapsto> tm), template_list := template_list s @ [t]\<rparr>) vs"
proof -
  from inv have T: "tmpl_ok n (template_list s) (drv_templates s) (live (drv_vdata s) vs)"
    and V: "vmas_ok (drv_vdata s) (template_list s) vs" and fr: "drv_templates s t = None"
    by (auto simp: conch_inv_def t)
  then have nt: "t \<notin> set (template_list s)" by (auto simp: tmpl_ok_def)
  have "vm_template (drv_vdata s) v \<noteq> Some t" if "v \<in> set vs" for v
    using V that nt by (auto simp: vmas_ok_def vm_template_def split: option.splits)
  then have "live (drv_vdata s) vs t = 0" by (simp add: live_def count_eq_zero_iff image_iff) metis
  with T tm fr nt have "tmpl_ok n (template_list s @ [t]) ((drv_templates s)(t \<mapsto> tm)) (live (drv_vdata s) vs)"
    by (auto simp: tmpl_ok_def)
  moreover have "vmas_ok (drv_vdata s) (template_list s @ [t]) vs" using V by (auto simp: vmas_ok_def)
  moreover have "pinned (s\<lparr>drv_fresh := drv_fresh s + 1, drv_world := w,
    drv_templates := (drv_templates s)(t \<mapsto> tm), template_list := template_list s @ [t]\<rparr>)"
  proof -
    have "\<exists>x tx. ((drv_templates s)(t \<mapsto> tm)) x = Some tx \<and> 0 < unat (tm_ref tx)" if "\<exists>e. drv_entries s e \<noteq> None"
      using inv that fr unfolding conch_inv_def pinned_def by (metis fun_upd_other option.distinct(1))
    then show ?thesis by (simp add: pinned_def)
  qed
  ultimately show ?thesis using inv t unfolding conch_inv_def by (auto simp: pool_ok_def pool_inv_def)
qed

lemma create_ok:
  assumes inv: "conch_inv M n s vs" and F: "\<And>w f w'. kn_open K (ct_pages_path args) w = (Some f, w') \<Longrightarrow> f \<in> F"
  shows "\<exists>r s'. snapshot_template_create K args s = Some (r, s') \<and> r \<noteq> Inl Panic \<and> conch_inv M n s' vs \<and>
    refs_stay F (drv_templates s) (drv_templates s')"
proof -
  have reg: "\<exists>r s'. template_register K args table pf (s\<lparr>drv_world := w\<rparr>) = Some (r, s') \<and> r \<noteq> Inl Panic \<and> conch_inv M n s' vs \<and>
    refs_stay F (drv_templates s) (drv_templates s')" if "pf \<in> F" for table pf w
  proof -
    obtain ok w1 where "kn_alloc K w = (ok, w1)" by force
    moreover obtain ret w2 where "kn_misc_register K (''snapshot_'' @ ct_template_id args) w1 = (ret, w2)" by force
    moreover have "conch_inv M n (s\<lparr>drv_fresh := drv_fresh s + 1\<rparr>) vs" using inv by (rule conch_inv_fresh) simp
    moreover have "refs_stay F (drv_templates s) ((drv_templates s)(drv_fresh s \<mapsto> tm))" if "tm_file tm = pf" for tm
      using inv that \<open>pf \<in> F\<close> by (auto simp: refs_stay_def conch_inv_def ran_def)
    ultimately show ?thesis using conch_inv_new_template [OF inv refl, of _ w2]
      by (auto simp: template_register_def kmalloc_def Let_def read_table_def)
  qed
  have load: "\<exists>r s'. template_load K args ptf pf (s\<lparr>drv_world := w\<rparr>) = Some (r, s') \<and> r \<noteq> Inl Panic \<and> conch_inv M n s' vs \<and>
    refs_stay F (drv_templates s) (drv_templates s')" if "pf \<in> F" for ptf pf w
  proof -
    obtain ok w1 where k: "kn_alloc K w = (ok, w1)" by force
    obtain ret w2 where "kn_read K ptf (unat (ct_total_size args div of_nat PAGE_SIZE) * 16) 0 w1 = (ret, w2)" by force
    with k inv reg [OF that] show ?thesis by (cases ret) (auto simp: template_load_def kmalloc_def Let_def)
  qed
  obtain r1 w1 where o1: "kn_open K (ct_page_table_path args) (drv_world s) = (r1, w1)" by force
  obtain r2 w2 where o2: "kn_open K (ct_pages_path args) w1 = (r2, w2)" by force
  then have "r2 = Some f \<Longrightarrow> f \<in> F" for f using F by blast
  note load = load [OF this]
  show ?thesis
  proof (rule template_find_ok [OF inv, of "ct_template_id args"])
    assume "snapshot_template_find (ct_template_id args) s = Some (Inr None, s)"
    with o1 o2 inv load show ?thesis
      by (cases r1; cases r2) (auto simp: snapshot_template_create_def template_id_exists_def)
  qed (use inv in \<open>simp add: snapshot_template_create_def template_id_exists_def\<close>)
qed

lemma sint_small: "unat (x::u32) < 2 ^ 31 \<Longrightarrow> sint x = int (unat x)"
proof -
  assume "unat x < 2 ^ 31"
  then have "uint x < 2 ^ 31" by (metis of_nat_less_iff of_nat_numeral of_nat_power uint_nat)
  then show ?thesis by (simp add: sint_uint signed_take_bit_int_eq_self order_trans [of _ 0] flip: uint_nat)
qed

text \<open>When no template is left, the pool is empty and is set up anew.\<close>

lemma empty_pool_reset:
  assumes K: "knl_ok K fc" and inv: "conch_inv M n s vs" and L: "template_list s = []"
  shows "\<exists>s1 s2. snapshot_pool_destroy s = Some (Inr (), s1) \<and> snapshot_pool_init K s1 = Some (Inr (), s2) \<and>
    conch_inv M n s2 vs \<and> drv_templates s2 = drv_templates s"
proof -
  from inv L have T: "drv_templates s t = None" for t by (auto simp: conch_inv_def tmpl_ok_def)
  then have E: "drv_entries s e = None" for e using inv by (auto simp: conch_inv_def pinned_def)
  then have d: "dom (drv_entries s) = {}" by auto
  from inv obtain bs where bs: "drv_buckets s = Some bs" "\<And>b. set (bs b) = {}"
    using E unfolding conch_inv_def pool_ok_def pool_inv_def by auto
  have "concat (map (\<lambda>i. [] :: nat list) xs) = []" for xs :: "nat list" by simp
  with bs have 1: "snapshot_pool_destroy s = Some (Inr (), s\<lparr>drv_buckets := None\<rparr>)"
    by (simp add: snapshot_pool_destroy_def del: concat_eq_Nil_conv)
  obtain w where "kn_kvmalloc K (drv_world s) = (True, w)" using K unfolding knl_ok_def by (metis prod.collapse)
  then have 2: "snapshot_pool_init K (s\<lparr>drv_buckets := None\<rparr>) =
    Some (Inr (), s\<lparr>drv_buckets := Some (\<lambda>_. []), drv_total_pages := 0, drv_world := w\<rparr>)"
    by (simp add: snapshot_pool_init_def Let_def)
  have "conch_inv M n (s\<lparr>drv_buckets := Some (\<lambda>_. []), drv_total_pages := 0, drv_world := w\<rparr>) vs"
    using inv E d unfolding conch_inv_def pool_ok_def pool_inv_def pinned_def by auto
  with 1 2 show ?thesis by simp
qed

lemma delete_ok:
  assumes K: "knl_ok K fc" and inv: "conch_inv M n s vs" and n: "Suc n < 2 ^ 30"
  shows "\<exists>r s'. snapshot_template_delete K i s = Some (r, s') \<and> r \<noteq> Inl Panic \<and> conch_inv M n s' vs \<and>
    refs_stay F (drv_templates s) (drv_templates s')"
proof (rule template_find_ok [OF inv, of i])
  fix t tm
  assume f: "snapshot_template_find i s = Some (Inr (Some t), s)" and t: "t \<in> set (template_list s)"
    "drv_templates s t = Some tm" "2 * live (drv_vdata s) vs t \<le> unat (tm_ref tm)" "unat (tm_ref tm) \<le> 2 * n"
  show ?thesis
  proof (cases "0 < sint (tm_ref tm)")
    case True
    with f t inv show ?thesis by (simp add: snapshot_template_delete_def deref_def)
  next
    case False
    have "sint (tm_ref tm) = int (unat (tm_ref tm))"
      using t(4) n by (intro sint_small) simp
    with False have z: "unat (tm_ref tm) = 0" by (metis gr0I of_nat_0_less_iff)
    define w where "w = kn_misc_deregister K (tm_name tm) (kn_close K (tm_file tm) (drv_world s))"
    define s1 where "s1 = s\<lparr>template_list := removeAll t (template_list s), drv_world := w,
      drv_templates := (drv_templates s)(t := None)\<rparr>"
    have inv1: "conch_inv M n s1 vs" unfolding s1_def by (rule conch_inv_drop [OF inv t(2) z])
    have st: "refs_stay F (drv_templates s) (drv_templates s1)"
      using refs_stay_drop [of "drv_templates s", OF t(2) z] by (simp add: s1_def)
    have fr: "template_free K t s = Some (Inr (), s1)" using t by (simp add: template_free_def deref_def s1_def w_def)
    show ?thesis
    proof (cases "template_list s1 = []")
      case False
      with f t \<open>\<not> 0 < sint (tm_ref tm)\<close> fr inv1 st show ?thesis by (simp add: snapshot_template_delete_def deref_def)
    next
      case True
      from empty_pool_reset [OF K inv1 True] obtain s2 s3 where "snapshot_pool_destroy s1 = Some (Inr (), s2)"
        "snapshot_pool_init K s2 = Some (Inr (), s3)" "conch_inv M n s3 vs" "drv_templates s3 = drv_templates s1" by blast
      with f t \<open>\<not> 0 < sint (tm_ref tm)\<close> fr st True show ?thesis by (simp add: snapshot_template_delete_def deref_def)
    qed
  qed
qed (use inv in \<open>simp add: snapshot_template_delete_def\<close>)

lemma ioctl_ok:
  assumes K: "knl_ok K fc" and inv: "conch_inv M n s vs" and n: "Suc n < 2 ^ 30"
    and id: "\<And>args. cmd = IoctlCreate (Some args) \<Longrightarrow> length (ct_template_id args) < TEMPLATE_ID_MAX_LEN"
    and F: "\<And>args w f w'. cmd = IoctlCreate (Some args) \<Longrightarrow> kn_open K (ct_pages_path args) w = (Some f, w') \<Longrightarrow> f \<in> F"
  shows "\<exists>r s'. snapshot_ioctl K cmd s = Some (r, s') \<and> r \<noteq> Inl Panic \<and> conch_inv M n s' vs \<and>
    refs_stay F (drv_templates s) (drv_templates s')"
proof (cases cmd)
  case (IoctlCreate a)
  show ?thesis
  proof (cases a)
    case (Some args)
    from create_ok [OF inv, of K args F] F IoctlCreate Some obtain r s' where "snapshot_template_create K args s = Some (r, s')"
      "r \<noteq> Inl Panic" "conch_inv M n s' vs" "refs_stay F (drv_templates s) (drv_templates s')" by auto
    with id IoctlCreate Some show ?thesis by (cases r) auto
  qed (use IoctlCreate inv in simp)
next
  case (IoctlDelete a)
  show ?thesis
  proof (cases a)
    case (Some i)
    from delete_ok [OF K inv n, of i] obtain r s' where "snapshot_template_delete K i s = Some (r, s')"
      "r \<noteq> Inl Panic" "conch_inv M n s' vs" "refs_stay F (drv_templates s) (drv_templates s')" by blast
    with IoctlDelete Some show ?thesis by (cases r) auto
  qed (use IoctlDelete inv in simp)
next
  case (IoctlStatus a ok)
  show ?thesis
  proof (cases a)
    case (Some i)
    from inv show ?thesis
      by (rule template_find_ok [of M n s vs i]) (use IoctlStatus Some inv in \<open>auto simp: snapshot_template_status_def deref_def\<close>)
  qed (use IoctlStatus inv in simp)
qed (use inv in simp)

end
