(* ===== verification/Conch_Runs.thy ===== *)
theory Conch_Runs
  imports Conch_Safety
begin

text \<open>
  Runs of the snapshot driver: any sequence of control requests, mappings, faults and unmappings,
  from the module's initialisation on. The theorems here say that no such run touches freed memory,
  that a fault maps the page of the snapshot and no other, and that the reference counts of the
  templates go wrong in two ways: a template that was mapped once is never deletable again, and a
  refused mapping destroys a template that nobody else uses. A duplicated mapping is outside the
  runs: closing both copies uses freed memory, as the last theorem shows.
\<close>

section \<open>Operations and runs\<close>

datatype conch_op =
    OpIoctl ioctl_cmd
  | OpMmap string vm_area
  | OpFault nat u64
  | OpClose nat

type_synonym 'w conch_state = "'w snapshot_driver_state \<times> vm_area list"

text \<open>
  One operation on the driver and the list of mappings; \<open>None\<close> is a panic of the kernel, or a call
  that does not return. A refused request leaves the mappings as they are. A fault or an unmapping
  names a mapping by its position; the kernel makes neither for a mapping that does not exist.
\<close>

fun conch_exec :: "'w knl \<Rightarrow> conch_op \<Rightarrow> 'w conch_state \<Rightarrow> 'w conch_state option" where
  "conch_exec K (OpIoctl cmd) (s, vs) = (case snapshot_ioctl K cmd s of
     Some (Inl Panic, s) \<Rightarrow> None | Some (_, s) \<Rightarrow> Some (s, vs) | None \<Rightarrow> None)"
| "conch_exec K (OpMmap name v) (s, vs) = (case snapshot_mmap K name v s of
     Some (Inl Panic, s) \<Rightarrow> None | Some (Inl _, s) \<Rightarrow> Some (s, vs)
   | Some (Inr v, s) \<Rightarrow> Some (s, vs @ [v]) | None \<Rightarrow> None)"
| "conch_exec K (OpFault i addr) (s, vs) = (if length vs \<le> i then Some (s, vs) else
     (case snapshot_vma_fault K (vs ! i) addr s of
        Some (Inl Panic, s) \<Rightarrow> None | Some (_, s) \<Rightarrow> Some (s, vs) | None \<Rightarrow> None))"
| "conch_exec K (OpClose i) (s, vs) = (if length vs \<le> i then Some (s, vs) else
     (case snapshot_vma_close K (vs ! i) s of
        Some (Inl Panic, s) \<Rightarrow> None | Some (_, s) \<Rightarrow> Some (s, take i vs @ drop (Suc i) vs) | None \<Rightarrow> None))"

fun conch_run :: "'w knl \<Rightarrow> conch_op list \<Rightarrow> 'w conch_state \<Rightarrow> 'w conch_state option" where
  "conch_run K [] c = Some c"
| "conch_run K (p # ps) c = (case conch_exec K p c of None \<Rightarrow> None | Some c' \<Rightarrow> conch_run K ps c')"

text \<open>
  A request to create a template has its identifier terminated by a null, and names a file of pages:
  whenever the kernel opens it, the file is one of \<open>F\<close>.
\<close>

fun op_ok :: "'w knl \<Rightarrow> nat set \<Rightarrow> conch_op \<Rightarrow> bool" where
  "op_ok K F (OpIoctl (IoctlCreate (Some args))) = (length (ct_template_id args) < TEMPLATE_ID_MAX_LEN \<and>
     (\<forall>w f w'. kn_open K (ct_pages_path args) w = (Some f, w') \<longrightarrow> f \<in> F))"
| "op_ok K F _ = True"

lemma close_refs:
  assumes "drv_templates s t = Some tm" "2 \<le> unat (tm_ref tm)"
  shows "refs_stay F (drv_templates s) ((drv_templates s)(t \<mapsto> tm\<lparr>tm_ref := tm_ref tm - 1\<rparr>))"
proof (rule refs_stay_upd [where T = "drv_templates s", OF assms(1)])
  have "1 \<le> tm_ref tm" using assms(2) by (simp add: word_le_nat_alt)
  then have "unat (tm_ref tm - 1) = unat (tm_ref tm) - 1" by (simp add: unat_sub_le)
  with assms(2) show "0 < unat (tm_ref (tm\<lparr>tm_ref := tm_ref tm - 1\<rparr>))" by simp
qed simp

lemma exec_ok:
  assumes K: "knl_ok K fc" "files_ok fc F M" and F: "tm_file ` ran (drv_templates (fst c)) \<subseteq> F" and inv: "conch_inv M n (fst c) (snd c)" and n: "Suc n < 2 ^ 30" and op: "op_ok K F p"
  shows "\<exists>c'. conch_exec K p c = Some c' \<and> conch_inv M (Suc n) (fst c') (snd c') \<and>
    refs_stay F (drv_templates (fst c)) (drv_templates (fst c'))"
proof -
  obtain s vs where c: "c = (s, vs)" by force
  with inv have inv: "conch_inv M n s vs" by simp
  show ?thesis
  proof (cases p)
    case (OpIoctl cmd)
    with op have id: "cmd = IoctlCreate (Some args) \<Longrightarrow> length (ct_template_id args) < TEMPLATE_ID_MAX_LEN"
      and pf: "cmd = IoctlCreate (Some args) \<Longrightarrow> kn_open K (ct_pages_path args) w = (Some f, w') \<Longrightarrow> f \<in> F"
      for args w f w' by auto
    have "\<exists>r s'. snapshot_ioctl K cmd s = Some (r, s') \<and> r \<noteq> Inl Panic \<and> conch_inv M n s' vs \<and>
      refs_stay F (drv_templates s) (drv_templates s')"
      by (rule ioctl_ok [OF K(1) inv n]) (erule id, erule (1) pf)
    then obtain r s' where "snapshot_ioctl K cmd s = Some (r, s')" "r \<noteq> Inl Panic"
      "conch_inv M n s' vs" "refs_stay F (drv_templates s) (drv_templates s')" by blast
    with c OpIoctl conch_inv_mono [of M n s' vs "Suc n"] show ?thesis
      by (auto split: sum.splits abort.splits)
  next
    case (OpMmap name v)
    from mmap_ok [OF inv n, of K name v F] obtain r s' where r: "snapshot_mmap K name v s = Some (r, s')"
      "case r of Inr vma' \<Rightarrow> conch_inv M (Suc n) s' (vs @ [vma']) \<and> (\<exists>t tm'. vm_template (drv_vdata s') vma' = Some t \<and>
        drv_templates s' t = Some tm' \<and> 0 < unat (tm_ref tm'))
       | Inl a \<Rightarrow> a \<noteq> Panic \<and> conch_inv M (Suc n) s' vs" "refs_stay F (drv_templates s) (drv_templates s')" by blast
    with c OpMmap show ?thesis by (auto split: sum.splits abort.splits)
  next
    case (OpFault i addr)
    show ?thesis
    proof (cases "i < length vs")
      case True
      have "tm_file ` ran (drv_templates s) \<subseteq> F" using F c by simp
      from fault_ok [OF K this inv n True, of addr] obtain r s' where
        "snapshot_vma_fault K (vs ! i) addr s = Some (Inr r, s')" "conch_inv M (Suc n) s' vs" "drv_templates s' = drv_templates s" by blast
      with True c OpFault show ?thesis by simp
    qed (use c OpFault conch_inv_mono [OF inv, of "Suc n"] in simp)
  next
    case (OpClose i)
    show ?thesis
    proof (cases "i < length vs")
      case True
      from close_ok [OF K(1) inv True] obtain t tm s' where "snapshot_vma_close K (vs ! i) s = Some (Inr (), s')"
        "conch_inv M n s' (take i vs @ drop (Suc i) vs)" "drv_templates s t = Some tm" "2 \<le> unat (tm_ref tm)"
        "drv_templates s' = (drv_templates s)(t \<mapsto> tm\<lparr>tm_ref := tm_ref tm - 1\<rparr>)" by blast
      with close_refs [of s t tm] conch_inv_mono [of M n s' _ "Suc n"] True c OpClose show ?thesis by simp
    qed (use c OpClose conch_inv_mono [OF inv, of "Suc n"] in simp)
  qed
qed

lemma run_ok:
  assumes K: "knl_ok K fc" "files_ok fc F M"
  shows "conch_inv M n (fst c) (snd c) \<Longrightarrow> tm_file ` ran (drv_templates (fst c)) \<subseteq> F \<Longrightarrow> n + length ps < 2 ^ 30 \<Longrightarrow> list_all (op_ok K F) ps \<Longrightarrow>
    \<exists>c'. conch_run K ps c = Some c' \<and> conch_inv M (n + length ps) (fst c') (snd c') \<and>
      tm_file ` ran (drv_templates (fst c')) \<subseteq> F \<and> refs_stay F (drv_templates (fst c)) (drv_templates (fst c'))"
proof (induction ps arbitrary: n c)
  case (Cons p ps)
  from exec_ok [OF K Cons.prems(2,1), of p] Cons.prems(3,4) obtain c1 where 1: "conch_exec K p c = Some c1"
    "conch_inv M (Suc n) (fst c1) (snd c1)" "refs_stay F (drv_templates (fst c)) (drv_templates (fst c1))" by auto
  have "tm_file ` ran (drv_templates (fst c1)) \<subseteq> F" using 1(3) Cons.prems(2) unfolding refs_stay_def by blast
  with 1 Cons.IH [of "Suc n" c1] Cons.prems(3,4) show ?case using refs_stay_trans by fastforce
qed simp

text \<open>Loading the module sets the invariant up.\<close>

lemma init_state:
  assumes "snapshot_init K s0 = Some (Inr (), s)"
  shows "\<exists>w. s = (empty_driver w)\<lparr>drv_buckets := Some (\<lambda>_. [])\<rparr>"
  using assms by (auto simp: snapshot_init_def kmalloc_def snapshot_pool_init_def snapshot_pool_destroy_def Let_def
    empty_driver_def run_bind_def split: prod.splits if_splits option.splits sum.splits)

lemma init_ok:
  assumes "snapshot_init K s0 = Some (Inr (), s)"
  shows "conch_inv M n s []" and "drv_templates s = (\<lambda>_. None)"
  using init_state [OF assms] by (auto simp: empty_driver_def conch_inv_def pool_ok_def pool_inv_def tmpl_ok_def vmas_ok_def
    pinned_def owed_def live_def)

section \<open>A fault that has its page\<close>

text \<open>The kernel has memory and its reads succeed.\<close>

definition serves :: "'w knl \<Rightarrow> (nat \<Rightarrow> bytes) \<Rightarrow> bool" where
  "serves K fc \<longleftrightarrow> (\<forall>w. fst (kn_alloc K w)) \<and>
     (\<forall>f n off w. fst (kn_read K f n off w) = Some (take n (drop (unat off) (fc f))))"

lemma slot_whole:
  assumes "SLOT_SIZE dvd length c" and "slot_hash c i \<noteq> 0"
  shows "i * SLOT_SIZE + SLOT_SIZE \<le> length c"
proof -
  have "slot c i \<noteq> []" using assms(2) by (auto simp: slot_hash_def HEADER_SIZE_def split: if_splits)
  then have "i * SLOT_SIZE < length c" by (auto simp: slot_def)
  moreover obtain m where "length c = m * SLOT_SIZE" using assms(1) by (metis dvd_def mult.commute)
  ultimately have "Suc i \<le> m" by simp
  then have "Suc i * SLOT_SIZE \<le> m * SLOT_SIZE" by (rule mult_le_mono1)
  with \<open>length c = m * SLOT_SIZE\<close> show ?thesis by simp
qed

lemma fault_probe_hits:
  assumes K: "serves K fc" and c: "SLOT_SIZE dvd length (fc f)" and h: "hash \<noteq> 0"
    and i: "i < 4096" and j: "probe_find (fc f) hash n i = Some j"
  shows "\<exists>d w'. fault_probe K f HASH_MODULUS_DEFAULT hash n (of_nat i) w = (Inr d, w')"
  using i j
proof (induction n arbitrary: i w)
  case (Suc n)
  then have nz: "slot_hash (fc f) i \<noteq> 0" using h by (auto split: if_splits)
  note len = slot_whole [OF c nz]
  obtain w1 where r1: "kn_read K f HEADER_SIZE (of_nat i * of_nat SLOT_SIZE) w =
      (Some (take HEADER_SIZE (drop (i * SLOT_SIZE) (fc f))), w1)"
    using K slot_offset(1) [OF Suc.prems(1)] unfolding serves_def by (metis prod.collapse)
  have l1: "length (take HEADER_SIZE (drop (i * SLOT_SIZE) (fc f))) = HEADER_SIZE"
    using len by (simp add: HEADER_SIZE_def slot_size)
  have sh: "from_le_bytes (take HEADER_SIZE (drop (i * SLOT_SIZE) (fc f))) = slot_hash (fc f) i"
    using l1 by (simp add: header_read del: length_take length_drop)
  show ?case
  proof (cases "slot_hash (fc f) i = hash")
    case True
    obtain w2 where r2: "kn_read K f PAGE_SIZE (of_nat i * of_nat SLOT_SIZE + of_nat HEADER_SIZE) w1 =
        (Some (take PAGE_SIZE (drop (i * SLOT_SIZE + 8) (fc f))), w2)"
      using K slot_offset(2) [OF Suc.prems(1)] unfolding serves_def by (metis prod.collapse)
    have "length (take PAGE_SIZE (drop (i * SLOT_SIZE + 8) (fc f))) = PAGE_SIZE"
      using len by (simp add: PAGE_SIZE_def slot_size)
    with r1 l1 sh True r2 show ?thesis by (simp del: length_take length_drop)
  next
    case False
    have m: "(of_nat i + 1) mod HASH_MODULUS_DEFAULT = (of_nat (Suc i mod 4096) :: u64)"
      using next_index [OF Suc.prems(1)] by (simp add: HASH_MODULUS_DEFAULT_def HASH_MODULUS_def)
    from False nz Suc.prems(2) have "probe_find (fc f) hash n (Suc i mod 4096) = Some j" by simp
    from Suc.IH [OF _ this, of w1] r1 l1 sh False nz show ?thesis
      by (simp add: m del: length_take length_drop)
  qed
qed simp

lemma pool_add_some:
  assumes "\<And>t. \<exists>w. kmalloc K t = Some (Inr True, t\<lparr>drv_world := w\<rparr>)"
    and "snapshot_pool_add K hash d s = Some (Inr q, s')"
  shows "q \<noteq> None"
proof -
  have "kmalloc K t = Some (Inr ok, t') \<Longrightarrow> ok" for t ok t' using assms(1) [of t] by auto
  with assms(2) show ?thesis
    by (fastforce simp: snapshot_pool_add_def pool_link_def run_bind_eq_Inr Let_def split: option.splits if_splits)
qed

lemma fault_load_hits:
  assumes K: "serves K fc" and c: "SLOT_SIZE dvd length (fc (tm_file tm))" and h: "hash \<noteq> 0"
    and l: "store_lookup (fc (tm_file tm)) hash = Some d"
    and cfg: "drv_modulus s = HASH_MODULUS_DEFAULT" "drv_max_probe s = MAX_PROBE_COUNT_DEFAULT"
    and ok: "pool_ok M n s own (\<lambda>_. 0)" "Suc n < 2 ^ 32" and r: "fault_load K tm hash s = Some (Inr r, s')"
  shows "\<exists>e. r = Inr e"
proof (rule lookup_cases [OF ok, of hash])
  assume pl: "snapshot_pool_lookup hash s = Some (Inr None, s)"
  have alloc: "\<exists>w. kmalloc K t = Some (Inr True, t\<lparr>drv_world := w\<rparr>)" for t
    using K by (cases "kn_alloc K (drv_world t)") (simp add: serves_def kmalloc_def, metis fst_conv)
  have home: "hash mod HASH_MODULUS_DEFAULT = of_nat (home_slot hash)"
    using home_slot_index [of hash] by (simp add: HASH_MODULUS_DEFAULT_def HASH_MODULUS_def)
  from l obtain j where "probe_find (fc (tm_file tm)) hash 64 (home_slot hash) = Some j" by (auto simp: store_lookup_def)
  from fault_probe_hits [where w = w1 for w1, OF K c h home_slot_lt this]
  have probe: "\<exists>d w'. fault_probe K (tm_file tm) HASH_MODULUS_DEFAULT hash 64 (hash mod HASH_MODULUS_DEFAULT) w = (Inr d, w')" for w
    by (simp add: home)
  obtain w1 where k: "kmalloc K s = Some (Inr True, s\<lparr>drv_world := w1\<rparr>)" using alloc by blast
  obtain d' w2 where p: "fault_probe K (tm_file tm) HASH_MODULUS_DEFAULT hash 64 (hash mod HASH_MODULUS_DEFAULT) w1 = (Inr d', w2)"
    using probe by blast
  have run: "unat MAX_PROBE_COUNT_DEFAULT = 64" by (simp add: MAX_PROBE_COUNT_DEFAULT_def)
  obtain q where q: "snapshot_pool_add K hash d' (s\<lparr>drv_world := w2\<rparr>) = Some (Inr q, s')"
    and rq: "r = (case q of None \<Rightarrow> Inl FaultOom | Some e \<Rightarrow> Inr e)"
    using r unfolding fault_load_def by (simp add: pl k p cfg run run_bind_eq_Inr) blast
  from pool_add_some [OF alloc q] have "q \<noteq> None" .
  with rq show ?thesis by auto
qed (use r in \<open>auto simp: fault_load_def\<close>)

lemma fault_hits:
  assumes K: "knl_ok K fc" "serves K fc" and inv: "conch_inv M n s vs" and n: "Suc n < 2 ^ 30"
    and v: "vm_private v = Some p" "drv_vdata s p = Some x" "drv_templates s (vd_template x) = Some tm"
      "length (tm_table tm) = unat (tm_page_count tm)"
    and j: "j = unat (addr - vm_start v) div PAGE_SIZE" "j < unat (tm_page_count tm)"
    and h: "hash_idx (tm_table tm ! j) \<noteq> 0" and c: "store_ok (fc (tm_file tm))"
    and l: "store_lookup (fc (tm_file tm)) (hash_idx (tm_table tm ! j)) = Some d"
    and run: "snapshot_vma_fault K v addr s = Some (Inr (r, q), s')"
  shows "q \<noteq> None"
proof -
  define off where "off = addr - vm_start v"
  define ix where "ix = off div of_nat PAGE_SIZE"
  have ix: "unat ix = j" by (simp add: ix_def off_def j unat_div_word PAGE_SIZE_def)
  then have lt: "\<not> tm_page_count tm \<le> ix" "unat ix < length (tm_table tm)" using j v by (simp_all add: word_le_nat_alt)
  from inv have ok: "pool_ok M n s (owed (drv_vdata s) vs) (\<lambda>_. 0)"
    and cfg: "drv_modulus s = HASH_MODULUS_DEFAULT" "drv_max_probe s = MAX_PROBE_COUNT_DEFAULT"
    by (simp_all add: conch_inv_def)
  obtain y s1 where y: "fault_load K tm (hash_idx (tm_table tm ! j)) s = Some (Inr y, s1)"
    and m: "(case y of Inl f \<Rightarrow> run_ret (f, None) s1 | Inr e \<Rightarrow> fault_map K p addr off e s1) = Some (Inr (r, q), s')"
    using run v lt unfolding snapshot_vma_fault_def
    by (auto simp: deref_def index_def Let_def off_def [symmetric] ix_def [symmetric] ix run_bind_eq_Inr)
  from c have dvd: "SLOT_SIZE dvd length (fc (tm_file tm))" by (simp add: store_ok_def)
  from n have "Suc n < 2 ^ 32" by simp
  from fault_load_hits [OF K(2) dvd h l cfg ok this y] obtain e where "y = Inr e" by blast
  with m have "fault_map K p addr off e s1 = Some (Inr (r, q), s')" by simp
  moreover have "fst (kn_insert_page K a g w) = FaultNoPage" for a g w using K(1) by (simp add: knl_ok_def)
  ultimately show ?thesis
    unfolding fault_map_def Let_def case_prod_unfold by (auto simp: run_bind_eq_Inr)
qed

section \<open>Theorems about runs\<close>

text \<open>What digests stand for, when no two pages share one.\<close>

definition page_of :: "(bytes \<Rightarrow> u64) \<Rightarrow> bytes set \<Rightarrow> u64 \<Rightarrow> bytes option" where
  "page_of H U h = (if h \<in> H ` U then Some (inv_into U H h) else None)"

lemma page_of_digest: "inj_on H U \<Longrightarrow> d \<in> U \<Longrightarrow> page_of H U (H d) = Some d"
  by (simp add: page_of_def)

lemma page_of_Some: "page_of H U h = Some d \<Longrightarrow> d \<in> U \<and> H d = h"
  by (auto simp: page_of_def inv_into_into f_inv_into_f split: if_splits)

lemma files_sealed:
  assumes "\<forall>f \<in> F. slots.sealed H U (fc f)" and "inj_on H U"
  shows "files_ok fc F (page_of H U)"
  unfolding files_ok_def
proof (intro ballI allI impI)
  fix f hash d
  assume "f \<in> F" "hash \<noteq> 0" "store_lookup (fc f) hash = Some d"
  then have "d \<in> U \<and> H d = hash" using assms(1) unfolding slots.sealed_def by blast
  then show "page_of H U hash = Some d" using page_of_digest [OF assms(2), of d] by auto
qed

lemma tracked_alive:
  assumes inv: "conch_inv M n s vs" and v: "v \<in> set vs" "vm_private v = Some p" "drv_vdata s p = Some x" and y: "y \<in> set_tree (vd_map x)"
  shows "\<exists>pe d c. drv_entries s (ve_phys y) = Some pe \<and> drv_frames s (pe_page pe) = Some (d, c) \<and> 0 < c \<and>
    (pe_hash pe \<noteq> 0 \<longrightarrow> M (pe_hash pe) = Some d)"
proof -
  from inv have pool: "pool_ok M n s (owed (drv_vdata s) vs) (\<lambda>_. 0)" by (simp add: conch_inv_def)
  have "ve_phys y \<in> set (vm_refs (drv_vdata s) v)" using v y by (simp add: vm_refs_def)
  then have "owed (drv_vdata s) vs (ve_phys y) \<noteq> 0" using v(1) by (auto simp: owed_def count_eq_zero_iff)
  then obtain pe where pe: "drv_entries s (ve_phys y) = Some pe"
    using pool unfolding pool_ok_def pool_inv_def by (meson not_Some_eq)
  then have "entry_ok M n (drv_frames s) (owed (drv_vdata s) vs (ve_phys y)) 0 pe"
    using pool unfolding pool_ok_def pool_inv_def by blast
  with pe show ?thesis by (fastforce simp: entry_ok_def)
qed



text \<open>
  \<open>C35\<close>: a template that was mapped once can never be deleted again. Mapping takes two references
  to the template and unmapping gives one back; so after any further run, all mappings closed or
  not, the template is still referenced, and a request to delete it is refused as busy.
\<close>

theorem mapped_template_stays:
  assumes K: "knl_ok K fc" "files_ok fc F M" and init: "snapshot_init K s0 = Some (Inr (), s1)"
    and ps: "length ps + length qs + 1 < 2 ^ 30" "list_all (op_ok K F) (ps @ qs)"
    and run: "conch_run K ps (s1, []) = Some (s, vs)" and map: "snapshot_mmap K name v s = Some (Inr v', s')"
  shows "\<exists>t s2 vs2 tm. vm_template (drv_vdata s') v' = Some t \<and> conch_run K qs (s', vs @ [v']) = Some (s2, vs2) \<and>
    drv_templates s2 t = Some tm \<and> 0 < unat (tm_ref tm) \<and>
    (\<forall>i. snapshot_template_find i s2 = Some (Inr (Some t), s2) \<longrightarrow>
       snapshot_template_delete K i s2 = Some (Inl (Err Ebusy), s2))"
proof -
  from run_ok [OF K, of 0 "(s1, [])" ps] init_ok(1) [OF init, of M 0] init_ok(2) [OF init] ps run
  have inv: "conch_inv M (length ps) s vs" and F: "tm_file ` ran (drv_templates s) \<subseteq> F" by auto
  from mmap_ok [OF inv, of K name v F] ps map obtain t tm where t: "vm_template (drv_vdata s') v' = Some t"
    "drv_templates s' t = Some tm" "0 < unat (tm_ref tm)" and inv': "conch_inv M (Suc (length ps)) s' (vs @ [v'])"
    and st: "refs_stay F (drv_templates s) (drv_templates s')" by auto
  have F': "tm_file ` ran (drv_templates s') \<subseteq> F" using st F unfolding refs_stay_def by blast
  from run_ok [OF K, of "Suc (length ps)" "(s', vs @ [v'])" qs] inv' F' ps obtain s2 vs2 where
    2: "conch_run K qs (s', vs @ [v']) = Some (s2, vs2)" "conch_inv M (Suc (length ps) + length qs) s2 vs2"
      "refs_stay F (drv_templates s') (drv_templates s2)" by auto
  then obtain tm' where tm': "drv_templates s2 t = Some tm'" "0 < unat (tm_ref tm')"
    using t unfolding refs_stay_def by blast
  then have "unat (tm_ref tm') \<le> 2 * (Suc (length ps) + length qs)" using 2(2) unfolding conch_inv_def tmpl_ok_def by blast
  then have "sint (tm_ref tm') = int (unat (tm_ref tm'))" using ps(1) by (intro sint_small) simp
  then have "0 < sint (tm_ref tm')" using tm'(2) by (metis of_nat_0_less_iff)
  then have "snapshot_template_delete K i s2 = Some (Inl (Err Ebusy), s2)"
    if "snapshot_template_find i s2 = Some (Inr (Some t), s2)" for i
    using that tm'(1) by (simp add: snapshot_template_delete_def deref_def)
  with t 2(1) tm' show ?thesis by blast
qed

text \<open>
  \<open>C36\<close>: a refused mapping destroys an idle template. When a template is created and nobody has
  mapped it, its reference count is zero; mapping its device with a size that is not a multiple of the
  page size, or too large, takes a reference, refuses, and gives the reference back: the template is freed.
\<close>

theorem refused_mapping_frees_template:
  assumes find: "snapshot_template_find i s = Some (Inr (Some t), s)" and i: "length i < TEMPLATE_ID_MAX_LEN"
    and t: "drv_templates s t = Some tm" "t \<in> set (template_list s)" and idle: "tm_ref tm = 0"
    and bad: "(vm_end v - vm_start v) mod of_nat PAGE_SIZE \<noteq> 0 \<or> tm_size tm < vm_end v - vm_start v"
  shows "\<exists>s'. snapshot_mmap K (''snapshot_'' @ i) v s = Some (Inl (Err Einval), s') \<and>
    drv_templates s' = (drv_templates s)(t := None) \<and> template_list s' = removeAll t (template_list s)"
proof -
  have n: "strncmp_eq 9 (''snapshot_'' @ i) ''snapshot_''" and d: "take (TEMPLATE_ID_MAX_LEN - 1) (drop 9 (''snapshot_'' @ i)) = i"
    using i by (simp_all add: strncmp_eq_def)
  show ?thesis using find t idle bad n d
    by (simp add: snapshot_mmap_def snapshot_template_find_ref_def template_ref_def snapshot_template_unref_def
        template_free_def deref_def Let_def)
qed

lemma open_ok:
  assumes inv: "conch_inv M n s vs" and n: "Suc n < 2 ^ 30" and i: "i < length vs"
  shows "\<exists>s'. snapshot_vma_open (vs ! i) s = Some (Inr (), s') \<and> conch_inv M (Suc n) s' vs"
proof (rule conch_invD [OF inv nth_mem [OF i]])
  fix p x tm
  assume p: "vm_private (vs ! i) = Some p" "drv_vdata s p = Some x" "drv_templates s (vd_template x) = Some tm"
    "2 \<le> unat (tm_ref tm)" "unat (tm_ref tm) \<le> 2 * n" "length (tm_table tm) = unat (tm_page_count tm)"
  let ?tm = "tm\<lparr>tm_ref := tm_ref tm + 1\<rparr>"
  let ?s1 = "s\<lparr>drv_templates := (drv_templates s)(vd_template x \<mapsto> ?tm)\<rparr>"
  have "unat (tm_ref tm) + 1 < 2 ^ 32" using p(5) n by simp
  then have r: "unat (tm_ref ?tm) = unat (tm_ref tm) + 1" by (simp add: unat_word_ariths)
  from inv have T: "tmpl_ok n (template_list s) (drv_templates s) (live (drv_vdata s) vs)" by (simp add: conch_inv_def)
  then have "2 * live (drv_vdata s) vs (vd_template x) \<le> unat (tm_ref tm)" using p(3) unfolding tmpl_ok_def by blast
  with r p have "tmpl_ok (Suc n) (template_list s) ((drv_templates s)(vd_template x \<mapsto> ?tm)) (live (drv_vdata s) vs)"
    by (intro tmpl_ok_upd [OF T p(3)]) auto
  moreover have "pinned ?s1" using r by (auto simp: pinned_def)
  moreover have "vd_template x < drv_fresh s" using inv p(3) by (force simp: conch_inv_def simp flip: not_le)
  ultimately have "conch_inv M (Suc n) ?s1 vs"
    using conch_inv_mono [OF inv, of "Suc n"] by (auto simp: conch_inv_def)
  moreover have "snapshot_vma_open (vs ! i) s = Some (Inr (), ?s1)"
    using p by (simp add: snapshot_vma_open_def template_ref_def deref_def)
  ultimately show ?thesis by blast
qed

text \<open>
  \<open>C37\<close>: a mapping that is duplicated, as by a fork or by unmapping its middle, shares its data with
  the copy. In any state the driver can reach, closing the first and then the second of the two uses freed memory.
\<close>

theorem duplicated_mapping_closes_twice:
  assumes K: "knl_ok K fc" "files_ok fc F M" and init: "snapshot_init K s0 = Some (Inr (), s1)"
    and ps: "Suc (length ps) < 2 ^ 30" "list_all (op_ok K F) ps"
    and run: "conch_run K ps (s1, []) = Some (s, vs)" and i: "i < length vs"
  shows "\<exists>s2 s3. snapshot_vma_open (vs ! i) s = Some (Inr (), s2) \<and> snapshot_vma_close K (vs ! i) s2 = Some (Inr (), s3) \<and>
    snapshot_vma_close K (vs ! i) s3 = Some (Inl Panic, s3)"
proof -
  from run_ok [OF K, of 0 "(s1, [])" ps] init_ok(1) [OF init, of M 0] init_ok(2) [OF init] ps run
  have "conch_inv M (length ps) s vs" by auto
  from open_ok [OF this ps(1) i] obtain s2 where 2: "snapshot_vma_open (vs ! i) s = Some (Inr (), s2)"
    and inv2: "conch_inv M (Suc (length ps)) s2 vs" by blast
  from close_ok [OF K(1) inv2 i] obtain s3 p where "snapshot_vma_close K (vs ! i) s2 = Some (Inr (), s3)"
    "vm_private (vs ! i) = Some p" "drv_vdata s3 p = None" by blast
  with 2 show ?thesis by (auto simp: snapshot_vma_close_def deref_def)
qed

end
