(* ===== verification/Reference_Conch.thy ===== *)
theory Reference_Conch
  imports Conch_Runs
begin

text \<open>
  Instances of the parameters of the snapshot tools and of the snapshot driver: regular files in
  memory, a digest, and a kernel; and the properties at them.
\<close>

section \<open>Files in memory\<close>

text \<open>The files, the number of descriptors given out, and the position of each.\<close>

type_synonym ram = "disk \<times> nat \<times> fd_table"

definition ram_disk :: "ram \<Rightarrow> disk" where
  "ram_disk w = fst w"

definition ram_fds :: "ram \<Rightarrow> fd_table" where
  "ram_fds w fd = (if fd < fst (snd w) then snd (snd w) fd else None)"

fun ram_open :: "string \<Rightarrow> bool \<Rightarrow> ram \<Rightarrow> nat option \<times> ram" where
  "ram_open p create (d, n, t) =
     (if d p = None \<and> \<not> create then (None, (d, n, t))
      else (Some n, (if d p = None then d(p \<mapsto> []) else d, Suc n, t(n \<mapsto> (p, 0)))))"

definition ram_write_at :: "nat \<Rightarrow> bytes \<Rightarrow> nat \<Rightarrow> ram \<Rightarrow> ram" where
  "ram_write_at fd b off w = (case ram_fds w fd of
     None \<Rightarrow> w
   | Some (p, k) \<Rightarrow> (case fst w p of None \<Rightarrow> w | Some c \<Rightarrow> ((fst w)(p \<mapsto> pwrite_at c b off), snd w)))"

definition ram_posix :: "ram posix" where
  "ram_posix = \<lparr>px_open = ram_open,
     px_stat = (\<lambda>p w. (case fst w p of None \<Rightarrow> None
       | Some c \<Rightarrow> if length c < 2 ^ 63 then Some (of_nat (length c)) else None, w)),
     px_malloc = (\<lambda>w. (True, w)),
     px_pread = (\<lambda>fd n off w. (case ram_fds w fd of None \<Rightarrow> None
       | Some (p, k) \<Rightarrow> map_option (\<lambda>c. take n (drop (unat off) c)) (fst w p), w)),
     px_pwrite = (\<lambda>fd b off. ram_write_at fd b (unat off)),
     px_write = (\<lambda>fd b w. case ram_fds w fd of None \<Rightarrow> w
       | Some (p, k) \<Rightarrow> let (d, n, t) = ram_write_at fd b k w in (d, n, t(fd \<mapsto> (p, k + length b)))),
     px_close = (\<lambda>fd (d, n, t). (d, n, t(fd := None))),
     px_save = (\<lambda>p x (d, n, t). (d(p \<mapsto> map (of_nat o of_char) x), n, t))\<rparr>"

lemma ram_posix_ok: "posix_ok ram_posix ram_disk ram_fds"
proof -
  have "unat (of_nat (length c) :: u64) = length c \<and> length c < 2 ^ 63" if "length c < 2 ^ 63" for c :: bytes
    using that by (simp add: unat_of_nat_eq)
  then show ?thesis
    unfolding posix_ok_def
    by (intro conjI allI impI)
      (auto simp: ram_posix_def ram_disk_def ram_fds_def ram_write_at_def Let_def intro!: ext
        split: option.splits if_splits prod.splits)
qed

section \<open>Splitting a snapshot of two pages\<close>

definition ex_page :: "8 word \<Rightarrow> bytes" where
  "ex_page b = replicate PAGE_SIZE b"

definition ex_sha :: "bytes \<Rightarrow> bytes" where
  "ex_sha d = to_le_bytes (if hd d = 1 then 0x1000 else 0x2000 :: u64)"

lemma length_ex_page [simp]: "length (ex_page b) = PAGE_SIZE"
  by (simp add: ex_page_def)

lemma ex_hash: "compute_hash_idx ex_sha (ex_page b) = (if b = 1 then 0x1000 else 0x2000)"
proof -
  have "(from_le_bytes (to_le_bytes x) :: u64) = x" for x by (rule from_to_le_bytes) simp
  moreover have "hd (ex_page b) = b" by (simp add: ex_page_def PAGE_SIZE_def)
  ultimately show ?thesis by (simp add: compute_hash_idx_def ex_sha_def)
qed

lemma ex_pages_differ: "ex_page 1 \<noteq> ex_page 2"
  using ex_hash [of 1] ex_hash [of 2] by auto

lemma ex_inj: "inj_on (compute_hash_idx ex_sha) {ex_page 1, ex_page 2}"
  by (auto simp: inj_on_def ex_hash)

lemma empty_sealed: "slots.sealed H U []"
proof -
  have z: "slot_hash [] i = 0" for i by (simp add: slot_hash_def slot_def HEADER_SIZE_def)
  have "probe_find [] h n i = None" if "h \<noteq> 0" for h n i using that by (cases n) (simp_all add: z)
  then show ?thesis by (simp add: slots.sealed_def store_ok_def store_lookup_def z)
qed

definition ex_snapshot :: bytes where
  "ex_snapshot = ex_page 1 @ ex_page 2"

definition ex_disk :: ram where
  "ex_disk = ([''vm.mem'' \<mapsto> ex_snapshot], 0, \<lambda>_. None)"


section \<open>A kernel\<close>

text \<open>The store of one page and the page table of a template of one page.\<close>

definition ex_store :: bytes where
  "ex_store = set_slot [] 0 0x1000 (ex_page 1)"

definition ex_table_file :: bytes where
  "ex_table_file = pte_bytes \<lparr>va_offset = 0, hash_idx = 0x1000\<rparr>"

definition ex_fc :: "nat \<Rightarrow> bytes" where
  "ex_fc f = (if f = 0 then ex_store else ex_table_file)"

fun rb_tl :: "'a tree \<Rightarrow> 'a tree" where
  "rb_tl Leaf = Leaf"
| "rb_tl (Node l e r) = (if l = Leaf then r else Node (rb_tl l) e r)"

lemma inorder_rb_tl: "inorder (rb_tl t) = tl (inorder t)"
proof (induction t)
  case (Node l e r)
  moreover have "l \<noteq> Leaf \<Longrightarrow> inorder l \<noteq> []" by (cases l) auto
  ultimately show ?case by auto
qed simp

text \<open>
  \<open>ins\<close> is the reply of the kernel to a mapping, \<open>tables\<close> how many times a table of buckets can be
  allocated; the state counts those allocations.
\<close>

definition ex_kernel :: "vm_fault \<Rightarrow> nat \<Rightarrow> nat knl" where
  "ex_kernel ins tables = \<lparr>kn_alloc = (\<lambda>w. (True, w)), kn_kvmalloc = (\<lambda>w. (w < tables, if w < tables then Suc w else w)),
     kn_open = (\<lambda>p w. (Some (if p = ''out/pages.bin'' then 0 else 1), w)),
     kn_read = (\<lambda>f n off w. (Some (take n (drop (unat off) (ex_fc f))), w)),
     kn_close = (\<lambda>f w. w), kn_misc_register = (\<lambda>n w. (0, w)), kn_misc_deregister = (\<lambda>n w. w),
     kn_insert_page = (\<lambda>a p w. (ins, w)), kn_rb_insert_color = (\<lambda>t. t), kn_rb_erase_first = rb_tl\<rparr>"

definition ex_knl :: "nat knl" where
  "ex_knl = (ex_kernel FaultNoPage 0)\<lparr>kn_kvmalloc := (\<lambda>w. (True, w))\<rparr>"

lemma ex_knl_ok: "knl_ok ex_knl ex_fc"
  by (simp add: knl_ok_def rb_ok_def ex_knl_def ex_kernel_def inorder_rb_tl)

lemma ex_knl_serves: "serves ex_knl ex_fc"
  by (simp add: serves_def ex_knl_def ex_kernel_def)

lemma ex_store_insert: "store_insert [] 0x1000 (ex_page 1) = Some ex_store"
proof -
  have "slot_hash [] i = 0" for i by (simp add: slot_hash_def slot_def HEADER_SIZE_def)
  then have "probe_insert [] h d (Suc n) i = Some (set_slot [] i h d)" for h d n i by simp
  from this [of _ _ 63] show ?thesis by (simp add: store_insert_def home_slot_def ex_store_def)
qed

lemma ex_store_sealed: "slots.sealed (compute_hash_idx ex_sha) {ex_page 1} ex_store"
  using slots.ins_sealed [OF empty_sealed, of "ex_page 1" "compute_hash_idx ex_sha" "{ex_page 1}" ex_store] ex_store_insert
  by (simp add: ex_hash)

lemma ex_sealed: "\<forall>f \<in> {0}. slots.sealed (compute_hash_idx ex_sha) {ex_page 1} (ex_fc f)"
  using ex_store_sealed by (simp add: ex_fc_def)

lemma ex_inj1: "inj_on (compute_hash_idx ex_sha) {ex_page 1}"
  by simp

lemma ex_files: "files_ok ex_fc {0} (page_of (compute_hash_idx ex_sha) {ex_page 1})"
  by (rule files_sealed [OF ex_sealed ex_inj1])

lemma ex_store_lookup: "store_lookup ex_store 0x1000 = Some (ex_page 1)"
proof -
  have "store_ok []" using empty_sealed [of undefined undefined] by (simp add: slots.sealed_def)
  moreover have "store_lookup [] 0x1000 = None"
    using empty_sealed [of "\<lambda>_. 0" "{}"] by (auto simp: slots.sealed_def)
  ultimately show ?thesis using insert_lookup [of "[]" "0x1000" "ex_page 1" ex_store "0x1000"] ex_store_insert by simp
qed

section \<open>A run of the driver\<close>

definition ex_create :: conch_op where
  "ex_create = OpIoctl (IoctlCreate (Some \<lparr>ct_template_id = ''a'', ct_total_size = 0x1000,
     ct_page_table_path = ''out/page_table.bin'', ct_pages_path = ''out/pages.bin''\<rparr>))"

definition ex_area :: vm_area where
  "ex_area = \<lparr>vm_start = 0x7000, vm_end = 0x8000, vm_private = None\<rparr>"

definition ex_ops :: "conch_op list" where
  "ex_ops = [ex_create, OpMmap ''snapshot_a'' ex_area]"

lemma ex_ops_ok: "list_all (op_ok ex_knl {0}) ex_ops"
  by (simp add: ex_ops_def ex_create_def ex_knl_def ex_kernel_def TEMPLATE_ID_MAX_LEN_def)

definition ex_template :: snapshot_template where
  "ex_template = \<lparr>tm_id = ''a'', tm_size = 0x1000, tm_page_count = 1, tm_table = [\<lparr>va_offset = 0, hash_idx = 0x1000\<rparr>],
     tm_file = 0, tm_name = ''snapshot_a'', tm_ref = 0\<rparr>"

definition ex_loaded :: "nat snapshot_driver_state" where
  "ex_loaded = (empty_driver 0)\<lparr>drv_buckets := Some (\<lambda>_. [])\<rparr>"

definition ex_created :: "nat snapshot_driver_state" where
  "ex_created = ex_loaded\<lparr>drv_fresh := 1, drv_templates := [0 \<mapsto> ex_template], template_list := [0]\<rparr>"

definition ex_mapped :: "nat snapshot_driver_state" where
  "ex_mapped = ex_created\<lparr>drv_fresh := 2, drv_vdata := [1 \<mapsto> \<lparr>vd_template = 0, vd_map = Leaf\<rparr>],
     drv_templates := [0 \<mapsto> ex_template\<lparr>tm_ref := 2\<rparr>]\<rparr>"

lemma ex_module_init: "snapshot_init ex_knl (empty_driver 0) = Some (Inr (), ex_loaded)"
  by (simp add: snapshot_init_def kmalloc_def snapshot_pool_init_def ex_knl_def ex_kernel_def Let_def ex_loaded_def empty_driver_def)

lemma ex_table_read: "read_table 1 ex_table_file = [\<lparr>va_offset = 0, hash_idx = 0x1000\<rparr>]"
  by (simp add: read_table_def ex_table_file_def)

lemma ex_run_create: "conch_exec ex_knl ex_create (ex_loaded, []) = Some (ex_created, [])"
  using ex_table_read
  by (simp add: ex_create_def snapshot_template_create_def template_id_exists_def snapshot_template_find_def
      template_load_def template_register_def kmalloc_def ex_knl_def ex_kernel_def Let_def ex_loaded_def empty_driver_def
      ex_created_def ex_template_def TEMPLATE_ID_MAX_LEN_def PAGE_SIZE_def ex_fc_def ex_table_file_def)

lemma ex_run_mmap:
  "conch_exec ex_knl (OpMmap ''snapshot_a'' ex_area) (ex_created, []) = Some (ex_mapped, [ex_area\<lparr>vm_private := Some 1\<rparr>])"
  by (simp add: snapshot_mmap_def strncmp_eq_def snapshot_template_find_ref_def snapshot_template_find_def template_ref_def
      mmap_attach_def kmalloc_def deref_def Let_def ex_created_def ex_loaded_def empty_driver_def ex_template_def
      TEMPLATE_ID_MAX_LEN_def ex_area_def PAGE_SIZE_def ex_knl_def ex_kernel_def ex_mapped_def)

lemma ex_run: "conch_run ex_knl ex_ops (ex_loaded, []) = Some (ex_mapped, [ex_area\<lparr>vm_private := Some 1\<rparr>])"
  by (simp add: ex_ops_def ex_run_create ex_run_mmap del: conch_exec.simps)


lemma ex_mapped_data: "drv_vdata ex_mapped 1 = Some \<lparr>vd_template = 0, vd_map = Leaf\<rparr>"
    "drv_templates ex_mapped 0 = Some (ex_template\<lparr>tm_ref := 2\<rparr>)"
  by (simp_all add: ex_mapped_def)


theorem mapped_template_stays_witness:
  "\<exists>s2 vs2 tm. conch_run ex_knl [OpClose 0] (ex_mapped, [ex_area\<lparr>vm_private := Some 1\<rparr>]) = Some (s2, vs2) \<and>
     drv_templates s2 0 = Some tm \<and> 0 < unat (tm_ref tm)"
proof -
  have ps: "length [ex_create] + length [OpClose 0] + 1 < 2 ^ 30" "list_all (op_ok ex_knl {0}) ([ex_create] @ [OpClose 0])"
    using ex_ops_ok by (simp_all add: ex_ops_def)
  have run: "conch_run ex_knl [ex_create] (ex_loaded, []) = Some (ex_created, [])" by (simp add: ex_run_create)
  have map: "snapshot_mmap ex_knl ''snapshot_a'' ex_area ex_created = Some (Inr (ex_area\<lparr>vm_private := Some 1\<rparr>), ex_mapped)"
    using ex_run_mmap by (auto split: option.splits sum.splits prod.splits abort.splits)
  have "vm_template (drv_vdata ex_mapped) (ex_area\<lparr>vm_private := Some 1\<rparr>) = Some 0"
    using ex_mapped_data(1) by (simp add: vm_template_def)
  with mapped_template_stays [OF ex_knl_ok ex_files ex_module_init ps run map] show ?thesis by auto
qed

theorem refused_mapping_frees_template_witness:
  "\<exists>s'. snapshot_mmap ex_knl ''snapshot_a'' (ex_area\<lparr>vm_end := 0x7800\<rparr>) ex_created = Some (Inl (Err Einval), s') \<and>
     drv_templates s' 0 = None"
proof -
  have f: "snapshot_template_find ''a'' ex_created = Some (Inr (Some 0), ex_created)"
    and t: "drv_templates ex_created 0 = Some ex_template" "0 \<in> set (template_list ex_created)" "tm_ref ex_template = 0"
    by (simp_all add: ex_created_def ex_template_def snapshot_template_find_def deref_def strncmp_eq_def)
  have i: "length ''a'' < TEMPLATE_ID_MAX_LEN" by (simp add: TEMPLATE_ID_MAX_LEN_def)
  let ?v = "ex_area\<lparr>vm_end := 0x7800\<rparr>"
  have "(vm_end ?v - vm_start ?v) mod of_nat PAGE_SIZE \<noteq> 0 \<or> tm_size ex_template < vm_end ?v - vm_start ?v"
    by (simp add: ex_area_def PAGE_SIZE_def)
  from refused_mapping_frees_template [OF f i t this, of ex_knl] show ?thesis by auto
qed

theorem duplicated_mapping_closes_twice_witness:
  "\<exists>s2 s3. snapshot_vma_open (ex_area\<lparr>vm_private := Some 1\<rparr>) ex_mapped = Some (Inr (), s2) \<and>
     snapshot_vma_close ex_knl (ex_area\<lparr>vm_private := Some 1\<rparr>) s2 = Some (Inr (), s3) \<and>
     snapshot_vma_close ex_knl (ex_area\<lparr>vm_private := Some 1\<rparr>) s3 = Some (Inl Panic, s3)"
proof -
  have n: "Suc (length ex_ops) < 2 ^ 30" by (simp add: ex_ops_def)
  from duplicated_mapping_closes_twice [OF ex_knl_ok ex_files ex_module_init n ex_ops_ok ex_run, of 0] show ?thesis by simp
qed

section \<open>Two more ways to use freed memory\<close>

text \<open>
  When the kernel refuses to map a page, the fault handler gives its reference up but leaves the page in
  the tree of the mapping; closing the mapping then uses the freed entry.
\<close>

lemma ex_reads: "take HEADER_SIZE ex_store = to_le_bytes (0x1000 :: u64)"
    "take PAGE_SIZE (drop 8 ex_store) = ex_page 1" "length ex_store = 8 + PAGE_SIZE"
  by (simp_all add: ex_store_def set_slot_def pwrite_at_def HEADER_SIZE_def)

lemma ex_probe:
  assumes "\<And>n off w. kn_read K 0 n off w = (Some (take n (drop (unat off) ex_store)), w)"
  shows "fault_probe K 0 HASH_MODULUS_DEFAULT 0x1000 64 0 w = (Inr (ex_page 1), w)"
proof -
  have le: "(from_le_bytes (to_le_bytes (0x1000::u64)) :: u64) = 0x1000" by (rule from_to_le_bytes) simp
  have "fault_probe K 0 HASH_MODULUS_DEFAULT 0x1000 (Suc n) 0 w = (Inr (ex_page 1), w)" for n
    using le ex_reads by (simp add: assms) (simp add: HEADER_SIZE_def)
  from this [of 63] show ?thesis by simp
qed

lemma ex_load:
  assumes "\<And>n off w. kn_read K 0 n off w = (Some (take n (drop (unat off) ex_store)), w)"
    and "\<And>w. kn_alloc K w = (True, w)"
  shows "fault_load K (ex_template\<lparr>tm_ref := 2\<rparr>) 0x1000 ex_mapped = Some (Inr (Inr 2), ex_mapped\<lparr>
    drv_entries := [2 \<mapsto> \<lparr>pe_hash = 0x1000, pe_page = 3, pe_ref = 1\<rparr>], drv_frames := [3 \<mapsto> (ex_page 1, 1)],
    drv_fresh := 4, drv_buckets := Some ((\<lambda>_. [])(hash_to_bucket 0x1000 := [2])), drv_total_pages := 1\<rparr>)"
  using ex_probe [of K, OF assms(1)]
  by (simp add: fault_load_def snapshot_pool_lookup_def snapshot_pool_lookup_noref_def kmalloc_def assms(2)
      ex_template_def MAX_PROBE_COUNT_DEFAULT_def HASH_MODULUS_DEFAULT_def snapshot_pool_add_def pool_link_def
      ex_mapped_def ex_created_def ex_loaded_def empty_driver_def Let_def)

lemma refused_insertion_use_after_free:
  "conch_run (ex_knl\<lparr>kn_insert_page := (\<lambda>a p w. (FaultOther, w))\<rparr>) [OpFault 0 0x7000, OpClose 0]
     (ex_mapped, [ex_area\<lparr>vm_private := Some 1\<rparr>]) = None"
proof -
  let ?K = "ex_knl\<lparr>kn_insert_page := (\<lambda>a p w. (FaultOther, w))\<rparr>"
  have "kn_read ?K 0 n off w = (Some (take n (drop (unat off) ex_store)), w)" "kn_alloc ?K w = (True, w)" for n off w
    by (simp_all add: ex_knl_def ex_kernel_def ex_fc_def)
  note ld = ex_load [OF this]
  let ?v = "ex_area\<lparr>vm_private := Some 1\<rparr>"
  let ?x = "\<lparr>vd_template = 0, vd_map = Node Leaf \<lparr>ve_offset = 0, ve_phys = 2\<rparr> Leaf\<rparr>"
  have ix: "tm_table ex_template = [\<lparr>va_offset = 0, hash_idx = 0x1000\<rparr>]" "tm_page_count ex_template = 1"
    by (simp_all add: ex_template_def)
  have f: "snapshot_vma_fault ?K ?v 0x7000 ex_mapped = run_bind (fault_load ?K (ex_template\<lparr>tm_ref := 2\<rparr>) 0x1000 ex_mapped)
      (\<lambda>r s. case r of Inl f \<Rightarrow> run_ret (f, None) s | Inr e \<Rightarrow> fault_map ?K (Suc 0) 0x7000 0 e s)"
    using ex_mapped_data ix by (simp add: snapshot_vma_fault_def ex_area_def deref_def index_def)
  have "va_insert ?K Leaf e = Node Leaf e Leaf" for e by (simp add: va_insert_def ex_knl_def ex_kernel_def)
  moreover have "kmalloc ?K s = Some (Inr True, s)" for s by (simp add: kmalloc_def ex_knl_def ex_kernel_def)
  ultimately have "\<exists>s'. snapshot_vma_fault ?K ?v 0x7000 ex_mapped = Some (Inr (FaultOther, None), s') \<and>
      drv_entries s' = (\<lambda>_. None) \<and> drv_vdata s' 1 = Some ?x"
    unfolding f ld using ex_mapped_data(1)
    by (simp add: fault_map_def track_def deref_def get_page_def put_page_def snapshot_pool_unref_def Let_def)
  then obtain s' where 1: "snapshot_vma_fault ?K ?v 0x7000 ex_mapped = Some (Inr (FaultOther, None), s')"
    "drv_entries s' = (\<lambda>_. None)" "drv_vdata s' 1 = Some ?x" by blast
  have "snapshot_vma_close ?K ?v s' = Some (Inl Panic, s')"
    using 1 by (simp add: snapshot_vma_close_def deref_def unmap_all.simps unmap_entry_def)
  with 1(1) show ?thesis by simp
qed

text \<open>
  The result of setting the pool up again is ignored. When there is no memory for the table of
  buckets after the last template is deleted, the next template can be created and mapped, and the first fault in it follows a null pointer.
\<close>

lemma ignored_pool_init_null_pointer:
  "\<exists>s. snapshot_template_delete (ex_kernel FaultNoPage 0) ''a'' ex_created = Some (Inr (), s) \<and> drv_buckets s = None \<and>
     fault_load (ex_kernel FaultNoPage 0) ex_template 0x1000 s = Some (Inl Panic, s)"
proof -
  let ?K = "ex_kernel FaultNoPage 0"
  let ?s = "ex_loaded\<lparr>drv_fresh := 1, drv_buckets := None\<rparr>"
  have "concat (map (\<lambda>i. [] :: nat list) xs) = []" for xs :: "nat list" by simp
  then have "snapshot_template_delete ?K ''a'' ex_created = Some (Inr (), ?s)"
    by (simp add: snapshot_template_delete_def snapshot_template_find_def deref_def strncmp_eq_def template_free_def
        snapshot_pool_destroy_def snapshot_pool_init_def Let_def ex_kernel_def ex_created_def ex_template_def ex_loaded_def
        empty_driver_def del: concat_eq_Nil_conv)
  moreover have "fault_load ?K ex_template 0x1000 ?s = Some (Inl Panic, ?s)"
    by (simp add: fault_load_def snapshot_pool_lookup_def snapshot_pool_lookup_noref_def)
  ultimately show ?thesis by simp
qed

end
