(* ===== verification/Reference_Cow.thy ===== *)
theory Reference_Cow
  imports Reference_Kernel Uffd_Cow
begin

unbundle bit_operations_syntax

text \<open>The properties of the copy-on-write demonstration at a small operating system with a file of four pages.\<close>

definition cow_file :: bytes where
  "cow_file = concat (map (replicate COW_PAGE_SIZE) patterns)"

text \<open>The userfaultfd is descriptor 5; a seek in the file leaves what is read next as the contents of descriptor 9.\<close>

definition cow_kernel :: "ref_world kernel" where
  "cow_kernel = ref_kernel\<lparr>
     k_lseek := (\<lambda>d off w. (0, w\<lparr>rw_files := [(9, drop (unat off) cow_file)]\<rparr>)),
     k_read := (\<lambda>d n w. if d = 5 then ref_read d n w else let bs = take n (ref_content w 9) in (int (length bs), bs, w))\<rparr>"

definition cow_libc :: "ref_world libc" where
  "cow_libc = \<lparr>lc_open = (\<lambda>p fl w. (9, w)), lc_close = (\<lambda>d w. w), lc_unlink = (\<lambda>p w. w), lc_calloc = (\<lambda>w. (True, w)),
     lc_thread = (\<lambda>w. (True, w)), lc_join = (\<lambda>w. w), lc_running = (\<lambda>w. rw_msgs w \<noteq> [])\<rparr>"

lemma ref_load_frame [simp]:
  "ref_load a m (w\<lparr>rw_files := x\<rparr>) = ref_load a m w" "ref_load a m (w\<lparr>rw_msgs := y\<rparr>) = ref_load a m w"
  by (simp_all add: ref_load_def ref_byte_def)

lemma cow_file_ok: "file_ok cow_kernel cow_libc path cow_file"
proof -
  have "snd (snd (ref_read d n w)) = w\<lparr>rw_msgs := rw_msgs (snd (snd (ref_read d n w)))\<rparr>" for d n w
    by (simp add: ref_read_def split: list.splits)
  then have "ref_load a m (snd (snd (ref_read d n w))) = ref_load a m w" for a m d n w
    by (metis ref_load_frame(2))
  then show ?thesis
    by (auto simp: file_ok_def cow_kernel_def cow_libc_def ref_content_def Let_def)
qed

lemma cow_uffd_ok: "uffd_ok cow_kernel"
  using ref_uffd_ok by (simp add: uffd_ok_def cow_kernel_def)

lemma cow_store_ok: "store_ok cow_kernel"
  using ref_store_ok by (simp add: store_ok_def cow_kernel_def)

lemma ref_load_cleared: "ref_load a (unat len) (ref_clear a len w) = replicate (unat len) 0"
proof (rule nth_equalityI)
  fix i
  assume "i < length (ref_load a (unat len) (ref_clear a len w))"
  then have "i < unat len" by (simp add: ref_load_def)
  then have "map_of (filter (\<lambda>(x, _). \<not> (unat a \<le> x \<and> x < unat a + unat len)) (rw_mem w)) (unat a + i) = None"
    by (auto simp: map_of_eq_None_iff)
  with \<open>i < unat len\<close> show "ref_load a (unat len) (ref_clear a len w) ! i = replicate (unat len) 0 ! i"
    by (simp add: ref_load_def ref_byte_def ref_clear_def)
qed (simp add: ref_load_def)

lemma cow_anon_ok: "anon_ok cow_kernel"
  by (auto simp: anon_ok_def cow_kernel_def ref_mmap_def ref_load_cleared ref_load_clear Let_def)

definition fault_message :: "u64 \<Rightarrow> u64 \<Rightarrow> bytes" where
  "fault_message flags addr = UFFD_EVENT_PAGEFAULT # replicate 7 0 @ to_le_bytes flags @ to_le_bytes addr @ replicate 8 0"

lemma fault_message_read:
  "length (fault_message flags addr) = sizeof_uffd_msg"
  "uffd_msg_of_bytes (fault_message flags addr) =
     \<lparr>msg_event = UFFD_EVENT_PAGEFAULT, msg_pf_flags = flags, msg_pf_address = addr\<rparr>"
proof -
  have "(from_le_bytes (to_le_bytes x) :: u64) = x" for x by (rule from_to_le_bytes) simp
  then show "uffd_msg_of_bytes (fault_message flags addr) =
     \<lparr>msg_event = UFFD_EVENT_PAGEFAULT, msg_pf_flags = flags, msg_pf_address = addr\<rparr>"
    by (simp add: uffd_msg_of_bytes_def fault_message_def)
qed (simp add: fault_message_def sizeof_uffd_msg_def)

text \<open>A process whose data region is at \<^verbatim>\<open>0x10000\<close>, before a fault in its second page.\<close>

definition cow_ex :: "u64 \<Rightarrow> ref_world cow" where
  "cow_ex flags = \<lparr>cw_cfg = \<lparr>cf_region_size = of_nat REGION_SIZE, cf_page_count = PAGE_COUNT, cf_meta_path = None, cf_data_path = None,
     cf_meta_fd = 3, cf_data_fd = 4, cf_meta_base = 0x8000, cf_data_base = 0x10000, cf_uffd = 5,
     cf_local_pages = replicate PAGE_COUNT \<lparr>lp_is_private = False, lp_private_addr = 0\<rparr>, cf_test_file_path = TEST_FILE_PATH,
     cf_is_creator = True, cf_running = True\<rparr>,
     cw_shared = replicate PAGE_COUNT \<lparr>sp_file_offset = 0, sp_state = PAGE_UNLOADED\<rparr>,
     cw_world = \<lparr>rw_mem = [], rw_files = [], rw_msgs = [fault_message flags 0x11008]\<rparr>\<rparr>"

lemma cow_ex_delivers: "delivers cow_kernel (cow_ex flags) flags 0x11008"
  using fault_message_read [of flags "0x11008"]
  by (simp add: delivers_def cow_ex_def cow_kernel_def ref_read_def ref_load_def ref_byte_def sizeof_uffd_msg_def)

lemma cow_ex_fault: "fault_at (cw_cfg (cow_ex flags)) 0x1008 0x11008"
  by (simp add: fault_at_def cow_ex_def REGION_SIZE_def COW_PAGE_SIZE_def PAGE_COUNT_def)


theorem cow_write_loses_page_witness:
  "\<exists>s'. cow_turn cow_kernel cow_libc (cow_ex UFFD_PAGEFAULT_FLAG_WP) = Some (Inr True, s') \<and>
     k_load cow_kernel (page_address (cw_cfg (cow_ex UFFD_PAGEFAULT_FLAG_WP)) (int 1)) COW_PAGE_SIZE (cw_world s') = replicate COW_PAGE_SIZE 0"
proof -
  let ?s = "cow_ex UFFD_PAGEFAULT_FLAG_WP"
  have 1: "UFFD_PAGEFAULT_FLAG_WP AND UFFD_PAGEFAULT_FLAG_WP \<noteq> 0" by (simp add: UFFD_PAGEFAULT_FLAG_WP_def)
  have 2: "length (cw_shared ?s) = PAGE_COUNT" "length (cf_local_pages (cw_cfg ?s)) = PAGE_COUNT" "1 = 0x1008 div COW_PAGE_SIZE"
    "\<not> lp_is_private (cf_local_pages (cw_cfg ?s) ! 1)"
    by (simp_all add: cow_ex_def COW_PAGE_SIZE_def PAGE_COUNT_def)
  have 3: "\<not> is_map_failed (fst (k_mmap cow_kernel (page_address (cw_cfg ?s) (int 1)) (of_nat COW_PAGE_SIZE) (PROT_READ OR PROT_WRITE)
      (MAP_FIXED OR MAP_PRIVATE OR MAP_ANONYMOUS) (-1) 0 w))" for w
    by (simp add: cow_kernel_def ref_mmap_def page_address_def cow_ex_def is_map_failed_def COW_PAGE_SIZE_def
        MAP_FIXED_def MAP_PRIVATE_def MAP_ANONYMOUS_def Let_def)
  from cow_write_loses_page [OF cow_store_ok cow_anon_ok cow_ex_fault cow_ex_delivers 1 2 3] show ?thesis by blast
qed

end
