(* ===== verification/Remote_Controller.thy ===== *)
theory Remote_Controller
  imports Prelude "HOL-Library.AList"
begin

text \<open>
  The sandbox controller, \<^verbatim>\<open>src/remote-controller/main.go\<close>: a server that keeps a table of sandbox records.
  A record is shared by the calls that looked it up, so records are objects on a heap. A call is a
  sequence of critical sections under the server's lock; the theory has each section as a function,
  each call as their composition, and the interleaving of any number of calls as a step relation.
\<close>

section \<open>State\<close>

definition stateReady :: string where "stateReady = ''SANDBOX_READY''"
definition stateNotReady :: string where "stateNotReady = ''SANDBOX_NOTREADY''"

lemma ready_differs [simp]: "stateReady \<noteq> stateNotReady" "stateNotReady \<noteq> stateReady"
  by (simp_all add: stateReady_def stateNotReady_def)

text \<open>
  A time is a number, the zero time is zero. \<open>stopped\<close> says whether the channel is closed and \<open>stopOnce\<close>
  whether the function of the \<open>sync.Once\<close> has run.
\<close>

record sandboxRecord =
  rid :: string
  sandboxer :: string
  pid :: u32
  state :: string
  info :: "(string \<times> string) list"
  labels :: "(string \<times> string) list"
  createdAt :: nat
  exitedAt :: nat
  exitStatus :: u32
  stopped :: bool
  stopOnce :: bool

record controllerServer =
  sandboxes :: "(string \<times> nat) list"
  records :: "sandboxRecord list"

definition newControllerServer :: controllerServer where
  "newControllerServer = \<lparr>sandboxes = [], records = []\<rparr>"

datatype code = InvalidArgument | AlreadyExists | NotFound | Canceled

section \<open>Sections\<close>

record create_request =
  cr_sandbox_id :: string
  cr_sandboxer :: string
  cr_netns_path :: string
  cr_rootfs :: nat
  cr_annotations :: nat
  cr_runtime :: "string option"

definition create_info :: "create_request \<Rightarrow> (string \<times> string) list" where
  "create_info req =
     (let info = [(''sandboxer'', cr_sandboxer req), (''netns_path'', cr_netns_path req),
        (''rootfs'', show_dec (cr_rootfs req) @ '' mount(s)''),
        (''annotations'', show_dec (cr_annotations req) @ '' item(s)'')]
      in case cr_runtime req of None \<Rightarrow> info | Some r \<Rightarrow> AList.update ''sandbox_runtime'' r info)"

definition create :: "create_request \<Rightarrow> controllerServer \<Rightarrow> (code + string) \<times> controllerServer" where
  "create req c =
     (let i = cr_sandbox_id req in
      if i = '''' then (Inl InvalidArgument, c)
      else if map_of (sandboxes c) i \<noteq> None then (Inl AlreadyExists, c)
      else (Inr i, c\<lparr>
        sandboxes := AList.update i (length (records c)) (sandboxes c),
        records := records c @ [\<lparr>rid = i, sandboxer = cr_sandboxer req, pid = 0, state = stateNotReady,
          info = create_info req, labels = [(''oci_runtime_type'', ''remote-controller-demo'')],
          createdAt = 0, exitedAt = 0, exitStatus = 0, stopped = False, stopOnce = False\<rparr>]\<rparr>))"

definition get :: "string \<Rightarrow> controllerServer \<Rightarrow> code + nat" where
  "get i c = (if i = '''' then Inl InvalidArgument
     else case map_of (sandboxes c) i of None \<Rightarrow> Inl NotFound | Some p \<Rightarrow> Inr p)"

definition upd :: "nat \<Rightarrow> (sandboxRecord \<Rightarrow> sandboxRecord) \<Rightarrow> controllerServer \<Rightarrow> controllerServer" where
  "upd p f c = c\<lparr>records := (records c)[p := f (records c ! p)]\<rparr>"

definition cloneMap :: "(string \<times> string) list \<Rightarrow> (string \<times> string) list" where
  "cloneMap m = (if m = [] then [] else fold (\<lambda>(k, v). AList.update k v) m [])"

definition start_section :: "u32 \<Rightarrow> nat \<Rightarrow> nat \<Rightarrow> controllerServer \<Rightarrow> controllerServer" where
  "start_section ospid now p =
     upd p (\<lambda>r. r\<lparr>createdAt := if createdAt r = 0 then now else createdAt r, pid := ospid, state := stateReady\<rparr>)"

definition start_response :: "nat \<Rightarrow> controllerServer \<Rightarrow> string \<times> u32 \<times> nat \<times> (string \<times> string) list" where
  "start_response p c = (let r = records c ! p in (rid r, pid r, createdAt r, cloneMap (labels r)))"

text \<open>
  The function of the once: its section and the closing of the channel are one step, since the
  other sections neither read nor write the channel, and a second call of the once waits for the first.
\<close>

definition stopRecord :: "nat \<Rightarrow> u32 \<Rightarrow> nat \<Rightarrow> controllerServer \<Rightarrow> controllerServer" where
  "stopRecord now exit p c =
     (if stopOnce (records c ! p) then c
      else upd p (\<lambda>r. r\<lparr>state := stateNotReady, exitStatus := exit, exitedAt := now, stopped := True, stopOnce := True\<rparr>) c)"

definition delete_section :: "nat \<Rightarrow> controllerServer \<Rightarrow> controllerServer" where
  "delete_section p c = c\<lparr>sandboxes := AList.delete (rid (records c ! p)) (sandboxes c)\<rparr>"

definition show_fields :: "string list \<Rightarrow> string" where
  "show_fields fs = ''['' @ concat (case fs of [] \<Rightarrow> [] | f # fs \<Rightarrow> f # map (Cons (CHR '' '')) fs) @ '']''"

definition update_section :: "string list \<Rightarrow> nat \<Rightarrow> controllerServer \<Rightarrow> controllerServer" where
  "update_section fs p = upd p (\<lambda>r. r\<lparr>info := AList.update ''updated_fields'' (show_fields fs) (info r)\<rparr>)"

record status_response =
  sr_id :: string
  sr_pid :: u32
  sr_state :: string
  sr_created :: nat
  sr_exited :: nat
  sr_info :: "(string \<times> string) list"

definition status_section :: "bool \<Rightarrow> nat \<Rightarrow> controllerServer \<Rightarrow> status_response" where
  "status_section verbose p c =
     (let r = records c ! p
      in \<lparr>sr_id = rid r, sr_pid = pid r, sr_state = state r, sr_created = createdAt r, sr_exited = exitedAt r,
          sr_info = if verbose then cloneMap (info r) else []\<rparr>)"

text \<open>
  Waiting: \<open>None\<close> while the channel is open and the context is not done; when both are ready the
  selection may take either, as \<open>pick\<close> says.
\<close>

definition wait_section :: "bool \<Rightarrow> bool \<Rightarrow> nat \<Rightarrow> controllerServer \<Rightarrow> (code + u32 \<times> nat) option" where
  "wait_section ctx_done pick p c =
     (let r = records c ! p
      in if stopped r \<and> (\<not> ctx_done \<or> pick) then Some (Inr (exitStatus r, exitedAt r))
         else if ctx_done then Some (Inl Canceled) else None)"

section \<open>Calls\<close>

definition start :: "u32 \<Rightarrow> nat \<Rightarrow> string \<Rightarrow> controllerServer \<Rightarrow>
    (code + string \<times> u32 \<times> nat \<times> (string \<times> string) list) \<times> controllerServer" where
  "start ospid now i c = (case get i c of
     Inl e \<Rightarrow> (Inl e, c)
   | Inr p \<Rightarrow> let c = start_section ospid now p c in (Inr (start_response p c), c))"

definition runtimeArch :: "string \<Rightarrow> string" where
  "runtimeArch goarch = (if goarch = '''' then ''amd64'' else goarch)"

definition platform :: "string \<Rightarrow> string \<Rightarrow> controllerServer \<Rightarrow> code + string \<times> string" where
  "platform goarch i c = (case get i c of Inl e \<Rightarrow> Inl e | Inr _ \<Rightarrow> Inr (''linux'', runtimeArch goarch))"

definition stop :: "nat \<Rightarrow> string \<Rightarrow> controllerServer \<Rightarrow> (code + unit) \<times> controllerServer" where
  "stop now i c = (case get i c of Inl e \<Rightarrow> (Inl e, c) | Inr p \<Rightarrow> (Inr (), stopRecord now 0 p c))"

definition status_call :: "bool \<Rightarrow> string \<Rightarrow> controllerServer \<Rightarrow> code + status_response" where
  "status_call verbose i c = (case get i c of Inl e \<Rightarrow> Inl e | Inr p \<Rightarrow> Inr (status_section verbose p c))"

definition shutdown :: "nat \<Rightarrow> string \<Rightarrow> controllerServer \<Rightarrow> (code + unit) \<times> controllerServer" where
  "shutdown now i c = (case get i c of
     Inl e \<Rightarrow> (Inl e, c)
   | Inr p \<Rightarrow> (Inr (), delete_section p (stopRecord now 0 p c)))"

definition metrics :: "string \<Rightarrow> controllerServer \<Rightarrow> code + unit" where
  "metrics i c = (case get i c of Inl e \<Rightarrow> Inl e | Inr _ \<Rightarrow> Inr ())"

definition update_call :: "string \<Rightarrow> string list \<Rightarrow> controllerServer \<Rightarrow> (code + unit) \<times> controllerServer" where
  "update_call i fs c = (case get i c of Inl e \<Rightarrow> (Inl e, c) | Inr p \<Rightarrow> (Inr (), update_section fs p c))"

section \<open>The address to listen at\<close>

datatype endpoint = Tcp string | Unix string

definition hasTCPScheme :: "string \<Rightarrow> bool" where
  "hasTCPScheme address \<longleftrightarrow> length address > 6 \<and> take 6 address = ''tcp://''"

text \<open>
  The calls to the system: each returns whether it succeeded; \<open>remove\<close> returns \<open>None\<close> on success and
  otherwise whether the file did not exist.
\<close>

record 'w net =
  nt_listen :: "endpoint \<Rightarrow> 'w \<Rightarrow> bool \<times> 'w"
  nt_mkdir_all :: "string \<Rightarrow> 'w \<Rightarrow> bool \<times> 'w"
  nt_remove :: "string \<Rightarrow> 'w \<Rightarrow> bool option \<times> 'w"

definition unix_path :: "string \<Rightarrow> string" where
  "unix_path address = (if length address > 7 \<and> take 7 address = ''unix://'' then drop 7 address else address)"

definition listen :: "'w net \<Rightarrow> (string \<Rightarrow> string) \<Rightarrow> string \<Rightarrow> 'w \<Rightarrow> endpoint option \<times> 'w" where
  "listen N dirname address w =
     (if address = '''' then (None, w)
      else if hasTCPScheme address
      then (let e = Tcp (drop 6 address); (ok, w) = nt_listen N e w in (if ok then Some e else None, w))
      else let path = unix_path address; (ok, w) = nt_mkdir_all N (dirname path) w in
        if \<not> ok then (None, w)
        else let (r, w) = nt_remove N path w in
          if r = Some False then (None, w)
          else let (ok, w) = nt_listen N (Unix path) w in (if ok then Some (Unix path) else None, w))"

section \<open>Calls side by side\<close>

text \<open>
  The calls that change the state, or wait for it, and where they can be between two sections.
  \<open>Waited\<close> remembers what a wait returned for a record.
\<close>

datatype ctl_call =
    CallCreate create_request
  | CallStart string
  | CallStop string
  | CallWait string
  | CallUpdate string "string list"
  | CallShutdown string

datatype ctl_pc =
    Begin ctl_call
  | AtStart nat
  | AtStop nat
  | AtWaiting nat
  | AtUpdate "string list" nat
  | AtShutdown nat
  | AtDelete nat
  | Waited nat "code + u32 \<times> nat"
  | Ended "code option"

text \<open>What the outside decides in a step.\<close>

record ctl_env =
  en_pid :: u32
  en_now :: nat
  en_ctx_done :: bool
  en_pick :: bool

definition found :: "string \<Rightarrow> (nat \<Rightarrow> ctl_pc) \<Rightarrow> controllerServer \<Rightarrow> ctl_pc" where
  "found i k c = (case get i c of Inl e \<Rightarrow> Ended (Some e) | Inr p \<Rightarrow> k p)"

fun ctl_next :: "ctl_env \<Rightarrow> ctl_pc \<Rightarrow> controllerServer \<Rightarrow> (ctl_pc \<times> controllerServer) option" where
  "ctl_next E (Begin (CallCreate req)) c =
     (case create req c of (r, c') \<Rightarrow> Some (Ended (case r of Inl e \<Rightarrow> Some e | Inr _ \<Rightarrow> None), c'))"
| "ctl_next E (Begin (CallStart i)) c = Some (found i AtStart c, c)"
| "ctl_next E (Begin (CallStop i)) c = Some (found i AtStop c, c)"
| "ctl_next E (Begin (CallWait i)) c = Some (found i AtWaiting c, c)"
| "ctl_next E (Begin (CallUpdate i fs)) c = Some (found i (AtUpdate fs) c, c)"
| "ctl_next E (Begin (CallShutdown i)) c = Some (found i AtShutdown c, c)"
| "ctl_next E (AtStart p) c = Some (Ended None, start_section (en_pid E) (en_now E) p c)"
| "ctl_next E (AtStop p) c = Some (Ended None, stopRecord (en_now E) 0 p c)"
| "ctl_next E (AtWaiting p) c =
     (case wait_section (en_ctx_done E) (en_pick E) p c of None \<Rightarrow> None | Some r \<Rightarrow> Some (Waited p r, c))"
| "ctl_next E (AtUpdate fs p) c = Some (Ended None, update_section fs p c)"
| "ctl_next E (AtShutdown p) c = Some (AtDelete p, stopRecord (en_now E) 0 p c)"
| "ctl_next E (AtDelete p) c = Some (Ended None, delete_section p c)"
| "ctl_next E (Waited p r) c = None"
| "ctl_next E (Ended r) c = None"

type_synonym ctl_config = "controllerServer \<times> ctl_pc list"

inductive ctl_step :: "ctl_config \<Rightarrow> ctl_config \<Rightarrow> bool" where
  arrive: "ctl_step (c, ts) (c, ts @ [Begin call])"
| act: "i < length ts \<Longrightarrow> ctl_next E (ts ! i) c = Some (t, c') \<Longrightarrow> ctl_step (c, ts) (c', ts[i := t])"

inductive_cases ctl_stepE: "ctl_step cf cf'"

section \<open>Calls and sections\<close>

text \<open>A call on its own is its sections one after the other.\<close>

lemma calls_are_sections:
  "start ospid now i c = (case found i AtStart c of
     AtStart p \<Rightarrow> (Inr (start_response p (start_section ospid now p c)), start_section ospid now p c)
   | Ended (Some e) \<Rightarrow> (Inl e, c))"
  "stop now i c = (case found i AtStop c of
     AtStop p \<Rightarrow> (Inr (), stopRecord now 0 p c) | Ended (Some e) \<Rightarrow> (Inl e, c))"
  "shutdown now i c = (case found i AtShutdown c of
     AtShutdown p \<Rightarrow> (Inr (), delete_section p (stopRecord now 0 p c)) | Ended (Some e) \<Rightarrow> (Inl e, c))"
  by (simp_all add: start_def stop_def shutdown_def found_def Let_def split: sum.splits)

lemma map_of_cloneMap:
  assumes "distinct (map fst m)"
  shows "map_of (cloneMap m) = map_of m"
proof -
  have "map_of (fold (\<lambda>(k, v). AList.update k v) xs ys) = map_of ys ++ map_of (rev xs)" for xs ys :: "(string \<times> string) list"
    by (induction xs arbitrary: ys) (auto simp: update_conv' map_add_def fun_eq_iff split: option.splits)
  moreover have "map_of (rev m) = map_of m" using assms by (subst map_of_inject_set) (auto simp: rev_map [symmetric])
  ultimately have "map_of (fold (\<lambda>(k, v). AList.update k v) m []) = map_of m" by simp
  then show ?thesis by (simp add: cloneMap_def)
qed

section \<open>The invariant\<close>

definition ctl_table_ok :: "controllerServer \<Rightarrow> bool" where
  "ctl_table_ok c \<longleftrightarrow> (\<forall>r \<in> set (records c). stopped r = stopOnce r) \<and>
     (\<forall>i p. map_of (sandboxes c) i = Some p \<longrightarrow> p < length (records c) \<and> rid (records c ! p) = i)"

fun pc_ok :: "controllerServer \<Rightarrow> ctl_pc \<Rightarrow> bool" where
  "pc_ok c (AtStart p) = (p < length (records c))"
| "pc_ok c (AtStop p) = (p < length (records c))"
| "pc_ok c (AtWaiting p) = (p < length (records c))"
| "pc_ok c (AtUpdate fs p) = (p < length (records c))"
| "pc_ok c (AtShutdown p) = (p < length (records c))"
| "pc_ok c (AtDelete p) = (p < length (records c) \<and> stopOnce (records c ! p))"
| "pc_ok c (Waited p (Inr (e, t))) = (p < length (records c) \<and> stopOnce (records c ! p) \<and>
     exitStatus (records c ! p) = e \<and> exitedAt (records c ! p) = t)"
| "pc_ok c _ = True"

definition ctl_ok :: "ctl_config \<Rightarrow> bool" where
  "ctl_ok cf \<longleftrightarrow> ctl_table_ok (fst cf) \<and> (\<forall>t \<in> set (snd cf). pc_ok (fst cf) t)"

text \<open>What no section changes in a record: its identifier, and how a stopped sandbox exited.\<close>

definition keeps :: "controllerServer \<Rightarrow> controllerServer \<Rightarrow> bool" where
  "keeps c c' \<longleftrightarrow> length (records c) \<le> length (records c') \<and>
     (\<forall>p < length (records c). rid (records c' ! p) = rid (records c ! p) \<and>
        (stopOnce (records c ! p) \<longrightarrow> stopOnce (records c' ! p) \<and>
           exitStatus (records c' ! p) = exitStatus (records c ! p) \<and>
           exitedAt (records c' ! p) = exitedAt (records c ! p) \<and>
           (state (records c ! p) = stateReady \<longrightarrow> state (records c' ! p) = stateReady)))"

lemma keeps_refl [simp]: "keeps c c"
  by (simp add: keeps_def)

lemma keeps_trans: "keeps c d \<Longrightarrow> keeps d e \<Longrightarrow> keeps c e"
  unfolding keeps_def by (auto intro: order_trans dest: order_less_le_trans)

lemma pc_ok_keeps: "pc_ok c t \<Longrightarrow> keeps c c' \<Longrightarrow> pc_ok c' t"
  by (cases "(c, t)" rule: pc_ok.cases) (auto simp: keeps_def dest: order_less_le_trans)

lemma upd_ok:
  assumes "ctl_table_ok c" and p: "p < length (records c)"
    and "rid (f (records c ! p)) = rid (records c ! p)"
    and "stopped (f (records c ! p)) = stopOnce (f (records c ! p)) \<or> stopped (records c ! p) \<noteq> stopOnce (records c ! p)"
    and "stopOnce (records c ! p) \<Longrightarrow> stopOnce (f (records c ! p)) \<and> exitStatus (f (records c ! p)) = exitStatus (records c ! p) \<and>
      exitedAt (f (records c ! p)) = exitedAt (records c ! p) \<and> (state (records c ! p) = stateReady \<longrightarrow> state (f (records c ! p)) = stateReady)"
  shows "ctl_table_ok (upd p f c)" and "keeps c (upd p f c)"
proof -
  from assms have "stopped (f (records c ! p)) = stopOnce (f (records c ! p))" by (auto simp: ctl_table_ok_def)
  then have "stopped r = stopOnce r" if "r \<in> set ((records c)[p := f (records c ! p)])" for r
    using that assms(1) set_update_subset_insert [of "records c" p "f (records c ! p)"] by (auto simp: ctl_table_ok_def)
  then show "ctl_table_ok (upd p f c)" using assms by (auto simp: ctl_table_ok_def upd_def nth_list_update)
  show "keeps c (upd p f c)" using assms by (auto simp: keeps_def upd_def nth_list_update)
qed

lemma stopRecord_ok:
  assumes "ctl_table_ok c" "p < length (records c)"
  shows "ctl_table_ok (stopRecord now e p c) \<and> keeps c (stopRecord now e p c) \<and>
    length (records (stopRecord now e p c)) = length (records c) \<and> stopOnce (records (stopRecord now e p c) ! p)"
proof (cases "stopOnce (records c ! p)")
  case False
  with upd_ok [OF assms, of "\<lambda>r. r\<lparr>state := stateNotReady, exitStatus := e, exitedAt := now, stopped := True, stopOnce := True\<rparr>"]
  have "ctl_table_ok (stopRecord now e p c) \<and> keeps c (stopRecord now e p c)" by (simp add: stopRecord_def)
  with False assms(2) show ?thesis by (simp add: stopRecord_def upd_def)
qed (use assms in \<open>simp add: stopRecord_def\<close>)

lemma create_call_ok:
  assumes "ctl_table_ok c"
  shows "ctl_table_ok (snd (create req c)) \<and> keeps c (snd (create req c))"
  using assms by (auto simp: create_def Let_def ctl_table_ok_def keeps_def update_conv' nth_append less_Suc_eq split: if_splits)

lemma found_ok: "ctl_table_ok c \<Longrightarrow> (\<And>p. p < length (records c) \<Longrightarrow> pc_ok c (k p)) \<Longrightarrow> pc_ok c (found i k c)"
  by (auto simp: found_def get_def ctl_table_ok_def split: option.splits)

lemma section_ok:
  assumes ok: "ctl_table_ok c" and pc: "pc_ok c t" and step: "ctl_next E t c = Some (t', c')"
  shows "ctl_table_ok c' \<and> keeps c c' \<and> pc_ok c' t'"
  using pc step
proof (cases "(E, t, c)" rule: ctl_next.cases)
  case (1 E req c)
  then show ?thesis using ok step create_call_ok [of c req] by (auto split: prod.splits sum.splits)
next
  case (7 E p c)
  then show ?thesis using ok pc step upd_ok [of c p "\<lambda>r. r\<lparr>createdAt := if createdAt r = 0 then en_now E else createdAt r, pid := en_pid E, state := stateReady\<rparr>"]
    by (auto simp: start_section_def ctl_table_ok_def)
next
  case (9 E p c)
  then show ?thesis using ok pc step by (auto simp: wait_section_def Let_def ctl_table_ok_def split: if_splits option.splits)
next
  case (10 E fs p c)
  then show ?thesis using ok pc step upd_ok [of c p "\<lambda>r. r\<lparr>info := AList.update ''updated_fields'' (show_fields fs) (info r)\<rparr>"]
    by (auto simp: update_section_def ctl_table_ok_def)
next
  case (12 E p c)
  then show ?thesis using ok step by (auto simp: delete_section_def ctl_table_ok_def keeps_def delete_conv' split: if_splits)
qed (use ok stopRecord_ok [of c] in \<open>auto intro: found_ok\<close>)

lemma ctl_step_ok:
  assumes "ctl_step cf cf'" and "ctl_ok cf"
  shows "ctl_ok cf' \<and> keeps (fst cf) (fst cf')"
  using assms
proof (cases rule: ctl_step.cases)
  case (act i ts E c t c')
  with assms(2) have ok: "ctl_table_ok c" and pcs: "\<forall>t \<in> set ts. pc_ok c t" and i: "pc_ok c (ts ! i)" by (auto simp: ctl_ok_def)
  from section_ok [OF ok i act(4)] have s: "ctl_table_ok c'" "keeps c c'" "pc_ok c' t" by auto
  have "pc_ok c' u" if "u \<in> set (ts[i := t])" for u
    using that set_update_subset_insert [of ts i t] s(3) pcs pc_ok_keeps [OF _ s(2)] by auto
  with s act show ?thesis by (simp add: ctl_ok_def)
qed (auto simp: ctl_ok_def)

lemma ctl_run_ok:
  assumes "ctl_step\<^sup>*\<^sup>* cf cf'" and "ctl_ok cf"
  shows "ctl_ok cf' \<and> keeps (fst cf) (fst cf')"
  using assms by (induction rule: rtranclp_induct) (auto dest: ctl_step_ok intro: keeps_trans)

lemma ctl_init_ok [simp]: "ctl_ok (newControllerServer, [])"
  by (simp add: ctl_ok_def ctl_table_ok_def newControllerServer_def)

section \<open>Theorems\<close>

text \<open>
  \<open>C13\<close>: waiting. However the calls on the server are interleaved, a wait that returns reports how
  the sandbox exited, and this never changes again: two waits for the same sandbox report the same
  status and time, and so does the record from then on, whether it is stopped again, restarted,
  updated or shut down in between.
\<close>

theorem waits_agree:
  assumes "ctl_step\<^sup>*\<^sup>* (newControllerServer, []) (c, ts)" and "Waited p (Inr (e, t)) \<in> set ts"
    and "ctl_step\<^sup>*\<^sup>* (c, ts) (c', ts')"
  shows "stopped (records c' ! p) \<and> exitStatus (records c' ! p) = e \<and> exitedAt (records c' ! p) = t \<and>
    (\<forall>e' t'. Waited p (Inr (e', t')) \<in> set ts' \<longrightarrow> e' = e \<and> t' = t)"
proof -
  from ctl_run_ok [OF assms(1)] have ok: "ctl_ok (c, ts)" by simp
  with assms(2) have p: "pc_ok c (Waited p (Inr (e, t)))" unfolding ctl_ok_def by fastforce
  from ctl_run_ok [OF assms(3) ok] have ok': "ctl_ok (c', ts')" and k: "keeps c c'" by simp_all
  from pc_ok_keeps [OF p k] have p': "p < length (records c')" "stopOnce (records c' ! p)"
    "exitStatus (records c' ! p) = e" "exitedAt (records c' ! p) = t" by simp_all
  moreover have "stopped (records c' ! p)" using p'(1,2) ok' by (simp add: ctl_ok_def ctl_table_ok_def)
  moreover have "e' = e \<and> t' = t" if "Waited p (Inr (e', t')) \<in> set ts'" for e' t'
  proof -
    from that ok' have "pc_ok c' (Waited p (Inr (e', t')))" unfolding ctl_ok_def by fastforce
    with p' show ?thesis by simp
  qed
  ultimately show ?thesis by blast
qed

text \<open>
  \<open>C38\<close>: a sandbox that is started again after it was stopped can never be stopped. The function that
  stops a record runs once, so from then on, whatever calls come, the sandbox is reported as ready;
  and a stop of it succeeds and changes nothing.
\<close>

theorem restarted_sandbox_never_stops:
  assumes "ctl_step\<^sup>*\<^sup>* (newControllerServer, []) (c, ts)" and "p < length (records c)"
    and "stopped (records c ! p)" and "state (records c ! p) = stateReady"
    and "ctl_step\<^sup>*\<^sup>* (c, ts) (c', ts')"
  shows "sr_state (status_section v p c') = stateReady \<and> stopRecord now e p c' = c'"
proof -
  from ctl_run_ok [OF assms(1)] have ok: "ctl_ok (c, ts)" by simp
  then have "stopOnce (records c ! p)" using assms(2,3) by (simp add: ctl_ok_def ctl_table_ok_def)
  with ctl_run_ok [OF assms(5) ok] assms(2,4) have "stopOnce (records c' ! p)" "state (records c' ! p) = stateReady"
    by (auto simp: keeps_def)
  then show ?thesis by (simp add: status_section_def stopRecord_def Let_def)
qed

section \<open>Runs\<close>

definition ex_env :: ctl_env where
  "ex_env = \<lparr>en_pid = 42, en_now = 7, en_ctx_done = False, en_pick = True\<rparr>"

definition ex_req :: create_request where
  "ex_req = \<lparr>cr_sandbox_id = ''s'', cr_sandboxer = ''demo'', cr_netns_path = '''', cr_rootfs = 1, cr_annotations = 0, cr_runtime = None\<rparr>"

text \<open>Running the call at a position of the list as far as it goes.\<close>

fun run_call :: "nat \<Rightarrow> nat \<Rightarrow> ctl_config \<Rightarrow> ctl_config" where
  "run_call 0 i cf = cf"
| "run_call (Suc n) i (c, ts) =
     (if length ts \<le> i then (c, ts)
      else case ctl_next ex_env (ts ! i) c of None \<Rightarrow> (c, ts) | Some (t, c') \<Rightarrow> run_call n i (c', ts[i := t]))"

lemma run_call_steps: "ctl_step\<^sup>*\<^sup>* cf (run_call n i cf)"
proof (induction n i cf rule: run_call.induct)
  case (2 n i c ts)
  show ?case
  proof (cases "length ts \<le> i \<or> ctl_next ex_env (ts ! i) c = None")
    case False
    then obtain t c' where t: "ctl_next ex_env (ts ! i) c = Some (t, c')" by auto
    with False have "ctl_step (c, ts) (c', ts[i := t])" by (intro ctl_step.act) auto
    moreover from 2 t False have "ctl_step\<^sup>*\<^sup>* (c', ts[i := t]) (run_call n i (c', ts[i := t]))" by auto
    ultimately show ?thesis using False t by (simp add: converse_rtranclp_into_rtranclp)
  qed auto
qed simp

definition call_now :: "ctl_call \<Rightarrow> nat \<Rightarrow> ctl_config \<Rightarrow> ctl_config" where
  "call_now k n cf = run_call n (length (snd cf)) (fst cf, snd cf @ [Begin k])"

lemma call_now_steps: "ctl_step\<^sup>*\<^sup>* cf (call_now k n cf)"
  unfolding call_now_def
  by (rule converse_rtranclp_into_rtranclp [OF _ run_call_steps]) (cases cf, simp add: ctl_step.arrive)

lemma calls_steps: "ctl_step\<^sup>*\<^sup>* cf (fold (\<lambda>(k, n). call_now k n) ks cf)"
proof (induction ks arbitrary: cf)
  case (Cons kn ks)
  obtain k n where kn: "kn = (k, n)" by (cases kn)
  show ?case using rtranclp_trans [OF call_now_steps Cons.IH] by (simp add: kn)
qed simp

definition ex_calls :: "(ctl_call \<times> nat) list" where
  "ex_calls = [(CallCreate ex_req, 1), (CallStart ''s'', 2), (CallStop ''s'', 2), (CallWait ''s'', 2), (CallStart ''s'', 2)]"

lemmas ctl_eval = ex_calls_def call_now_def run_call.simps create_def get_def found_def start_section_def stopRecord_def
  delete_section_def wait_section_def upd_def Let_def newControllerServer_def ex_req_def ex_env_def numeral_eq_Suc

definition ex_conf :: ctl_config where
  "ex_conf = fold (\<lambda>(k, n). call_now k n) ex_calls (newControllerServer, [])"

lemma ex_conf_facts:
  "Waited 0 (Inr (0, 7)) \<in> set (snd ex_conf)" "0 < length (records (fst ex_conf))"
  "stopped (records (fst ex_conf) ! 0)" "state (records (fst ex_conf) ! 0) = stateReady"
  by (simp_all add: ex_conf_def ctl_eval)

lemma ex_conf_reach: "ctl_step\<^sup>*\<^sup>* (newControllerServer, []) (fst ex_conf, snd ex_conf)"
  using calls_steps [of "(newControllerServer, [])" ex_calls] by (simp add: ex_conf_def)

theorem waits_agree_witness:
  "exitStatus (records (fst ex_conf) ! 0) = 0 \<and> exitedAt (records (fst ex_conf) ! 0) = 7"
  using waits_agree [OF ex_conf_reach ex_conf_facts(1) rtranclp.rtrancl_refl] by simp

theorem restarted_sandbox_never_stops_witness:
  "sr_state (status_section False 0 (fst (call_now (CallStop ''s'') 2 ex_conf))) = stateReady"
  using restarted_sandbox_never_stops [OF ex_conf_reach ex_conf_facts(2-4),
      of "fst (call_now (CallStop ''s'') 2 ex_conf)" "snd (call_now (CallStop ''s'') 2 ex_conf)" False]
    call_now_steps [of ex_conf "CallStop ''s''" 2] by simp

text \<open>
  Two shutdowns of one sandbox overlap with a creation: the second deletes by the identifier,
  and removes the new sandbox of that name from the table, although it was not stopped.
\<close>

lemma stale_shutdown_removes_other:
  "\<exists>c ts. ctl_step\<^sup>*\<^sup>* (newControllerServer, []) (c, ts) \<and> map_of (sandboxes c) ''s'' = None \<and>
     length (records c) = 2 \<and> \<not> stopped (records c ! 1) \<and> (\<forall>t \<in> set ts. \<exists>r. t = Ended r)"
proof -
  define cf where "cf = run_call 1 1 (fold (\<lambda>(k, n). call_now k n)
    [(CallCreate ex_req, 1), (CallShutdown ''s'', 2), (CallShutdown ''s'', 3), (CallCreate ex_req, 1)] (newControllerServer, []))"
  have "ctl_step\<^sup>*\<^sup>* (newControllerServer, []) (fst cf, snd cf)"
    unfolding cf_def prod.collapse by (rule rtranclp_trans [OF calls_steps run_call_steps])
  moreover have "map_of (sandboxes (fst cf)) ''s'' = None" "length (records (fst cf)) = 2" "\<not> stopped (records (fst cf) ! 1)"
    "\<forall>t \<in> set (snd cf). \<exists>r. t = Ended r"
    by (simp_all add: cf_def ctl_eval)
  ultimately show ?thesis by blast
qed

end
